(* ===== verification/Prelude.thy ===== *)
theory Prelude
  imports Main "HOL-Library.AList" "HOL-Library.Multiset" "HOL-Library.Char_ord" "HOL-Library.List_Lexorder"
begin

text \<open>
  Shared vocabulary of the development: the representation of Go maps, the contract of a Go
  sort comparator and the stable sort that every sorting client of the program uses, and the
  generic lemmas on lists that the component theories share.
\<close>

named_theorems go_str \<open>facts about the string operations of the Go standard library\<close>
named_theorems seg_intro \<open>introduction rules for identifier-segment predicates\<close>
named_theorems tiling \<open>facts about spans that tile an interval\<close>

section \<open>Go maps\<close>

text \<open>
  A Go map is an association list with distinct keys. A \<open>range\<close> over it visits the entries
  in the order of the list; as that order is unspecified in Go, a property that must not depend
  on it is stated for every permutation of the list.
\<close>

type_synonym ('k, 'v) gomap = "('k \<times> 'v) list"

definition gm_wf :: "('k, 'v) gomap \<Rightarrow> bool" where
  "gm_wf m \<longleftrightarrow> distinct (map fst m)"

definition gm_has :: "('k, 'v) gomap \<Rightarrow> 'k \<Rightarrow> bool" where
  "gm_has m k \<longleftrightarrow> map_of m k \<noteq> None"

definition gm_put :: "'k \<Rightarrow> 'v \<Rightarrow> ('k, 'v) gomap \<Rightarrow> ('k, 'v) gomap" where
  "gm_put k v m = AList.update k v m"

definition gm_del :: "'k \<Rightarrow> ('k, 'v) gomap \<Rightarrow> ('k, 'v) gomap" where
  "gm_del k m = AList.delete k m"

lemma gm_wf_Nil [simp]: "gm_wf []"
  by (simp add: gm_wf_def)

lemma gm_wf_put [simp]: "gm_wf m \<Longrightarrow> gm_wf (gm_put k v m)"
  by (simp add: gm_wf_def gm_put_def distinct_update)

lemma gm_wf_del [simp]: "gm_wf m \<Longrightarrow> gm_wf (gm_del k m)"
  by (simp add: gm_wf_def gm_del_def distinct_delete)

lemma gm_get_put: "map_of (gm_put k v m) = (map_of m)(k \<mapsto> v)"
  by (simp add: gm_put_def update_conv')

lemma gm_get_del: "map_of (gm_del k m) = (map_of m)(k := None)"
  by (simp add: gm_del_def delete_conv')

lemma gm_keys_put: "fst ` set (gm_put k v m) = insert k (fst ` set m)"
  by (metis dom_map_of_conv_image_fst dom_fun_upd gm_get_put option.discI)

lemma gm_keys_del: "fst ` set (gm_del k m) = fst ` set m - {k}"
  by (metis dom_map_of_conv_image_fst dom_fun_upd gm_get_del)

lemma gm_has_iff: "gm_has m k \<longleftrightarrow> k \<in> fst ` set m"
  by (simp add: gm_has_def map_of_eq_None_iff)

lemma gm_get_mem: "gm_wf m \<Longrightarrow> map_of m k = Some v \<longleftrightarrow> (k, v) \<in> set m"
  by (simp add: gm_wf_def map_of_eq_Some_iff)

text \<open>Two lists that are the same Go map, possibly visited in another order.\<close>

definition gm_same :: "('k, 'v) gomap \<Rightarrow> ('k, 'v) gomap \<Rightarrow> bool" where
  "gm_same m m' \<longleftrightarrow> gm_wf m \<and> gm_wf m' \<and> map_of m = map_of m'"

lemma gm_same_mset: "gm_same m m' \<Longrightarrow> mset m = mset m'"
proof -
  assume s: "gm_same m m'"
  then have d: "distinct m" "distinct m'" by (auto simp: gm_same_def gm_wf_def distinct_map)
  have "set m = set m'"
    using s by (auto simp: gm_same_def simp flip: gm_get_mem)
  with d show ?thesis by (simp add: set_eq_iff_mset_eq_distinct)
qed

lemma gm_same_mem: "gm_same m m' \<Longrightarrow> (k, v) \<in> set m \<Longrightarrow> map_of m' k = Some v"
  using gm_get_mem [of m k v] by (simp add: gm_same_def)

text \<open>What Go promises of a \<open>range\<close> over a map: every entry once, in some order.\<close>

definition go_visit :: "(('k, 'v) gomap \<Rightarrow> ('k, 'v) gomap) \<Rightarrow> bool" where
  "go_visit visit \<longleftrightarrow> (\<forall>m. gm_wf m \<longrightarrow> gm_same (visit m) m)"

lemma go_visit_id: "go_visit (\<lambda>m. m)"
  by (simp add: go_visit_def gm_same_def)

lemma go_visit_rev: "go_visit (rev :: ('k, 'v) gomap \<Rightarrow> ('k, 'v) gomap)"
proof -
  have "map_of (rev m) = map_of m" if "gm_wf m" for m :: "('k, 'v) gomap"
  proof
    fix k
    have "gm_wf (rev m)" using that by (simp add: gm_wf_def rev_map [symmetric])
    then have "map_of (rev m) k = Some v \<longleftrightarrow> map_of m k = Some v" for v
      using that by (simp add: gm_get_mem)
    then show "map_of (rev m) k = map_of m k" by (metis not_Some_eq)
  qed
  then show ?thesis by (simp add: go_visit_def gm_same_def gm_wf_def rev_map [symmetric])
qed

text \<open>\<open>m[k] = append(m[k], v)\<close>\<close>

definition gm_append :: "'k \<Rightarrow> 'v \<Rightarrow> ('k, 'v list) gomap \<Rightarrow> ('k, 'v list) gomap" where
  "gm_append k v m = gm_put k ((case map_of m k of None \<Rightarrow> [] | Some vs \<Rightarrow> vs) @ [v]) m"

lemma gm_wf_append [simp]: "gm_wf m \<Longrightarrow> gm_wf (gm_append k v m)"
  by (simp add: gm_append_def)

lemma gm_get_append:
  "map_of (gm_append k v m) k' =
     (if k' = k then Some ((case map_of m k of None \<Rightarrow> [] | Some vs \<Rightarrow> vs) @ [v]) else map_of m k')"
  by (simp add: gm_append_def gm_get_put)

lemma gm_append_foldl:
  "map_of (foldl (\<lambda>m (k, v). gm_append k v m) m0 kvs) k =
     (let vs = map snd (filter (\<lambda>kv. fst kv = k) kvs)
      in if vs = [] then map_of m0 k
         else Some ((case map_of m0 k of None \<Rightarrow> [] | Some ws \<Rightarrow> ws) @ vs))"
proof (induction kvs arbitrary: m0)
  case (Cons kv kvs)
  obtain a b where kv: "kv = (a, b)" by (cases kv) auto
  show ?case
    by (auto simp: Cons kv gm_get_append Let_def split: option.split)
qed simp

lemma gm_append_foldl_wf: "gm_wf m0 \<Longrightarrow> gm_wf (foldl (\<lambda>m (k, v). gm_append k v m) m0 kvs)"
  by (induction kvs arbitrary: m0) (auto split: prod.split)

lemma gm_append_map:
  "gm_append k (f v) (map (\<lambda>(k, g). (k, map f g)) m) = map (\<lambda>(k, g). (k, map f g)) (gm_append k v m)"
proof -
  have get: "map_of (map (\<lambda>(k, g). (k, map f g)) m) k = map_option (map f) (map_of m k)"
    by (induction m) auto
  have put: "gm_put k (map f w) (map (\<lambda>(k, g). (k, map f g)) m) = map (\<lambda>(k, g). (k, map f g)) (gm_put k w m)" for w
    unfolding gm_put_def by (induction m) auto
  have "(case map_option (map f) (map_of m k) of None \<Rightarrow> [] | Some vs \<Rightarrow> vs) @ [f v]
      = map f ((case map_of m k of None \<Rightarrow> [] | Some vs \<Rightarrow> vs) @ [v])"
    by (cases "map_of m k") auto
  then show ?thesis unfolding gm_append_def get by (simp only: put)
qed

text \<open>A loop over one map that fills another, at most one entry per key.\<close>

lemma gm_foldl_put:
  "gm_wf ds \<Longrightarrow>
   map_of (foldl (\<lambda>m (k, w). case h k w of None \<Rightarrow> m | Some v \<Rightarrow> gm_put k v m) m ds) k =
     (case map_of ds k of
        None \<Rightarrow> map_of m k
      | Some w \<Rightarrow> (case h k w of None \<Rightarrow> map_of m k | Some v \<Rightarrow> Some v))"
proof (induction ds arbitrary: m)
  case (Cons d ds)
  obtain a w where d: "d = (a, w)" by (cases d) auto
  have wf: "gm_wf ds" and new: "map_of ds a = None"
    using Cons(2) d by (auto simp: gm_wf_def map_of_eq_None_iff)
  show ?case using new by (auto simp: Cons.IH [OF wf] d gm_get_put split: option.split)
qed simp

lemma gm_foldl_put_wf:
  "gm_wf m \<Longrightarrow> gm_wf (foldl (\<lambda>m (k, w). case h k w of None \<Rightarrow> m | Some v \<Rightarrow> gm_put k v m) m ds)"
  by (induction ds arbitrary: m) (auto split: prod.split option.split)

lemma gm_empty_lookup: "(\<And>k. map_of m k = None) \<Longrightarrow> m = []"
proof (rule ccontr)
  assume none: "\<And>k. map_of m k = None" and "m \<noteq> []"
  then obtain k v r where "m = (k, v) # r" by (cases m) auto
  with none [of k] show False by simp
qed

section \<open>Sort comparators\<close>

text \<open>
  \<open>sort.SliceStable\<close> is insertion of every element, from the right, in front of the first
  element that is not smaller; for a strict weak order this is the only stable result.
  \<open>is_go_sort\<close> is what \<open>sort.Slice\<close>, which is not stable, promises.
\<close>

primrec ins_by :: "('a \<Rightarrow> 'a \<Rightarrow> bool) \<Rightarrow> 'a \<Rightarrow> 'a list \<Rightarrow> 'a list" where
  "ins_by lt x [] = [x]"
| "ins_by lt x (y # ys) = (if lt y x then y # ins_by lt x ys else x # y # ys)"

definition stable_sort :: "('a \<Rightarrow> 'a \<Rightarrow> bool) \<Rightarrow> 'a list \<Rightarrow> 'a list" where
  "stable_sort lt xs = foldr (ins_by lt) xs []"

definition is_go_sort :: "('a \<Rightarrow> 'a \<Rightarrow> bool) \<Rightarrow> 'a list \<Rightarrow> 'a list \<Rightarrow> bool" where
  "is_go_sort lt xs ys \<longleftrightarrow> mset ys = mset xs \<and> sorted_wrt (\<lambda>a b. \<not> lt b a) ys"

lemma mset_ins_by [simp]: "mset (ins_by lt x ys) = add_mset x (mset ys)"
  by (induction ys) auto

lemma set_ins_by [simp]: "set (ins_by lt x ys) = insert x (set ys)"
  by (induction ys) auto

lemma mset_stable_sort [simp]: "mset (stable_sort lt xs) = mset xs"
  unfolding stable_sort_def by (induction xs) auto

lemma set_stable_sort [simp]: "set (stable_sort lt xs) = set xs"
  using mset_stable_sort [of lt xs] by (metis set_mset_mset)

lemma length_stable_sort [simp]: "length (stable_sort lt xs) = length xs"
  using mset_stable_sort [of lt xs] by (metis size_mset)

lemma stable_sort_simps [simp]:
  "stable_sort lt [] = []"
  "stable_sort lt (x # xs) = ins_by lt x (stable_sort lt xs)"
  by (simp_all add: stable_sort_def)

lemma ins_by_map:
  "(\<And>a b. lt' (f a) (f b) = lt a b) \<Longrightarrow> ins_by lt' (f x) (map f ys) = map f (ins_by lt x ys)"
  by (induction ys) auto

lemma stable_sort_map:
  "(\<And>a b. lt' (f a) (f b) = lt a b) \<Longrightarrow> stable_sort lt' (map f xs) = map f (stable_sort lt xs)"
  by (induction xs) (simp_all add: ins_by_map)

locale strict_weak_order =
  fixes lt :: "'a \<Rightarrow> 'a \<Rightarrow> bool"
  assumes lt_irrefl: "\<not> lt x x"
    and lt_trans: "lt x y \<Longrightarrow> lt y z \<Longrightarrow> lt x z"
    and lt_cotrans: "lt x z \<Longrightarrow> lt x y \<or> lt y z"
begin

lemma lt_asym: "lt x y \<Longrightarrow> \<not> lt y x"
  using lt_irrefl lt_trans by blast

lemma sorted_ins_by:
  "sorted_wrt (\<lambda>a b. \<not> lt b a) ys \<Longrightarrow> sorted_wrt (\<lambda>a b. \<not> lt b a) (ins_by lt x ys)"
proof (induction ys)
  case Nil
  then show ?case by simp
next
  case (Cons y ys)
  show ?case
  proof (cases "lt y x")
    case True
    with Cons lt_asym show ?thesis by auto
  next
    case False
    have "\<not> lt z x" if "z \<in> set ys" for z
      using Cons.prems False that lt_cotrans by auto
    with Cons.prems False show ?thesis by auto
  qed
qed

lemma stable_sort_sorted: "sorted_wrt (\<lambda>a b. \<not> lt b a) (stable_sort lt xs)"
  by (induction xs) (simp_all add: sorted_ins_by)

lemma stable_sort_is_go_sort: "is_go_sort lt xs (stable_sort lt xs)"
  by (simp add: is_go_sort_def stable_sort_sorted)

lemma filter_ins_by_other: "\<not> P x \<Longrightarrow> filter P (ins_by lt x ys) = filter P ys"
  by (induction ys) auto

lemma filter_ins_by_class:
  assumes "\<forall>y. P y \<longleftrightarrow> (\<not> lt x y \<and> \<not> lt y x)"
  shows "filter P (ins_by lt x ys) = x # filter P ys"
proof -
  have "P x" using assms lt_irrefl by blast
  then show ?thesis using assms by (induction ys) auto
qed

lemma stable_sort_stable:
  assumes "\<forall>y. P y \<longleftrightarrow> (\<not> lt k y \<and> \<not> lt y k)"
  shows "filter P (stable_sort lt xs) = filter P xs"
proof (induction xs)
  case Nil
  then show ?case by simp
next
  case (Cons x xs)
  show ?case
  proof (cases "P x")
    case True
    then have "\<forall>y. P y \<longleftrightarrow> (\<not> lt x y \<and> \<not> lt y x)"
      using assms lt_cotrans lt_asym by meson
    from filter_ins_by_class [OF this] True Cons show ?thesis by simp
  next
    case False
    with Cons show ?thesis by (simp add: filter_ins_by_other)
  qed
qed

text \<open>Two sorted arrangements of the same elements agree when no two of them tie.\<close>

lemma go_sort_unique:
  assumes "is_go_sort lt xs ys" and "is_go_sort lt xs zs"
    and "\<And>a b. a \<in> set xs \<Longrightarrow> b \<in> set xs \<Longrightarrow> \<not> lt a b \<Longrightarrow> \<not> lt b a \<Longrightarrow> a = b"
  shows "ys = zs"
proof -
  have ind: "ys = zs" if "mset ys = mset zs" "sorted_wrt (\<lambda>a b. \<not> lt b a) ys"
      "sorted_wrt (\<lambda>a b. \<not> lt b a) zs" "set ys \<subseteq> set xs" for ys zs
    using that
  proof (induction ys arbitrary: zs)
    case Nil
    then show ?case by simp
  next
    case (Cons y ys zs')
    obtain z zs where zs': "zs' = z # zs" using Cons.prems(1) by (cases zs') auto
    have mem: "y \<in> set zs'" "z \<in> set (y # ys)"
      using Cons.prems(1) zs' by (metis list.set_intros(1) set_mset_mset)+
    have "y = z"
    proof (rule ccontr)
      assume ne: "y \<noteq> z"
      with mem zs' have "y \<in> set zs" "z \<in> set ys" by auto
      with Cons.prems(2,3) zs' have "\<not> lt y z" "\<not> lt z y" by auto
      with assms(3) Cons.prems(4) mem(2) ne show False by auto
    qed
    with Cons zs' show ?case by auto
  qed
  from assms(1,2) have "set ys \<subseteq> set xs"
    by (metis is_go_sort_def order_refl set_mset_mset)
  with ind assms(1,2) show ?thesis by (simp add: is_go_sort_def)
qed

lemma stable_sort_perm:
  assumes "mset xs = mset ys"
    and "\<And>a b. a \<in> set xs \<Longrightarrow> b \<in> set xs \<Longrightarrow> \<not> lt a b \<Longrightarrow> \<not> lt b a \<Longrightarrow> a = b"
  shows "stable_sort lt xs = stable_sort lt ys"
  by (rule go_sort_unique [of xs])
    (use assms stable_sort_is_go_sort [of ys] in \<open>auto simp: is_go_sort_def stable_sort_sorted\<close>)

end

text \<open>A tie-break keeps a strict weak order: the lexicographic combination of two of them.\<close>

lemma strict_weak_order_lex:
  assumes "strict_weak_order p" and "strict_weak_order q"
  shows "strict_weak_order (\<lambda>a b. p a b \<or> (\<not> p b a \<and> q a b))"
proof
  note p = strict_weak_order.lt_irrefl [OF assms(1)] strict_weak_order.lt_trans [OF assms(1)]
    strict_weak_order.lt_cotrans [OF assms(1)]
  note q = strict_weak_order.lt_irrefl [OF assms(2)] strict_weak_order.lt_trans [OF assms(2)]
    strict_weak_order.lt_cotrans [OF assms(2)]
  fix x y z
  show "\<not> (p x x \<or> \<not> p x x \<and> q x x)" using p q by blast
  show "p x y \<or> \<not> p y x \<and> q x y \<Longrightarrow> p y z \<or> \<not> p z y \<and> q y z \<Longrightarrow> p x z \<or> \<not> p z x \<and> q x z"
    using p(2,3) [of x y z] p(3) [of z x y] p(3) [of x y z] p(3) [of y z x] q(2) [of x y z]
    using p(1,2) by meson
  show "p x z \<or> \<not> p z x \<and> q x z \<Longrightarrow>
      (p x y \<or> \<not> p y x \<and> q x y) \<or> (p y z \<or> \<not> p z y \<and> q y z)"
    using p(3) [of x z y] p(3) [of y x z] p(3) [of z y x] q(3) [of x z y] p(2) [of x y z]
      p(2) [of y x z] p(2) [of z y x] p(2) [of x z y] by meson
qed

interpretation string_order: strict_weak_order "(<) :: string \<Rightarrow> string \<Rightarrow> bool"
  by unfold_locales auto

definition sort_strings :: "string list \<Rightarrow> string list" where
  "sort_strings xs = stable_sort (<) xs"

lemma sort_strings_perm: "mset xs = mset ys \<Longrightarrow> sort_strings xs = sort_strings ys"
  unfolding sort_strings_def by (rule string_order.stable_sort_perm) auto

lemma set_sort_strings [simp]: "set (sort_strings xs) = set xs"
  by (simp add: sort_strings_def)

lemma length_sort_strings [simp]: "length (sort_strings xs) = length xs"
  by (simp add: sort_strings_def)

lemma distinct_sort_strings [simp]: "distinct (sort_strings xs) = distinct xs"
  by (metis sort_strings_def mset_stable_sort mset_eq_imp_distinct_iff)

lemma sum_list_mset_eq:
  fixes f :: "'a \<Rightarrow> 'b :: comm_monoid_add"
  shows "mset xs = mset ys \<Longrightarrow> sum_list (map f xs) = sum_list (map f ys)"
  by (metis mset_map sum_mset_sum_list)

end
