(* ===== verification/GoStrings.thy ===== *)
theory GoStrings
  imports Prelude
begin

text \<open>
  Go strings and the functions of the packages \<open>strings\<close>, \<open>unicode/utf8\<close> and \<open>unicode\<close>
  the program calls. A Go string is its bytes, so \<open>string\<close> (a list of 8-bit characters) is
  exact: \<open>length\<close> is Go's \<open>len\<close> and the order of \<open>List_Lexorder\<close> is Go's \<open><\<close>. A
  \<open>range\<close> loop over a string decodes UTF-8; an invalid byte yields the replacement rune.
\<close>

section \<open>Bytes, prefixes, searching\<close>

abbreviation byte :: "char \<Rightarrow> nat" where
  "byte c \<equiv> of_char c"

definition has_prefix :: "string \<Rightarrow> string \<Rightarrow> bool" where
  "has_prefix s p \<longleftrightarrow> take (length p) s = p"

definition has_suffix :: "string \<Rightarrow> string \<Rightarrow> bool" where
  "has_suffix s p \<longleftrightarrow> length p \<le> length s \<and> drop (length s - length p) s = p"

definition trim_prefix :: "string \<Rightarrow> string \<Rightarrow> string" where
  "trim_prefix s p = (if has_prefix s p then drop (length p) s else s)"

definition trim_suffix :: "string \<Rightarrow> string \<Rightarrow> string" where
  "trim_suffix s p = (if has_suffix s p then take (length s - length p) s else s)"

text \<open>\<open>strings.Index\<close>, with \<open>None\<close> for \<open>-1\<close>, and its clients \<open>Contains\<close> and \<open>Cut\<close>.\<close>

fun str_index :: "string \<Rightarrow> string \<Rightarrow> nat option" where
  "str_index s p =
     (if has_prefix s p then Some 0
      else (case s of [] \<Rightarrow> None | _ # t \<Rightarrow> map_option Suc (str_index t p)))"

declare str_index.simps [simp del]

definition str_contains :: "string \<Rightarrow> string \<Rightarrow> bool" where
  "str_contains s p \<longleftrightarrow> str_index s p \<noteq> None"

definition str_cut :: "string \<Rightarrow> string \<Rightarrow> string \<times> string \<times> bool" where
  "str_cut s p =
     (case str_index s p of
        None \<Rightarrow> (s, [], False)
      | Some i \<Rightarrow> (take i s, drop (i + length p) s, True))"

fun index_byte :: "string \<Rightarrow> char \<Rightarrow> nat option" where
  "index_byte [] c = None"
| "index_byte (x # xs) c = (if x = c then Some 0 else map_option Suc (index_byte xs c))"

definition last_index_byte :: "string \<Rightarrow> char \<Rightarrow> nat option" where
  "last_index_byte s c = map_option (\<lambda>i. length s - Suc i) (index_byte (rev s) c)"

text \<open>\<open>strings.Split\<close> and \<open>strings.SplitN\<close> at a one-byte separator.\<close>

fun str_split :: "string \<Rightarrow> char \<Rightarrow> string list" where
  "str_split [] c = [[]]"
| "str_split (x # xs) c =
     (if x = c then [] # str_split xs c
      else (case str_split xs c of [] \<Rightarrow> [[x]] | y # ys \<Rightarrow> (x # y) # ys))"

fun str_split_n :: "nat \<Rightarrow> string \<Rightarrow> char \<Rightarrow> string list" where
  "str_split_n 0 s c = []"
| "str_split_n (Suc 0) s c = [s]"
| "str_split_n (Suc (Suc n)) s c =
     (case index_byte s c of
        None \<Rightarrow> [s]
      | Some i \<Rightarrow> take i s # str_split_n (Suc n) (drop (Suc i) s) c)"

fun str_join :: "string list \<Rightarrow> string \<Rightarrow> string" where
  "str_join [] sep = []"
| "str_join [x] sep = x"
| "str_join (x # y # ys) sep = x @ sep @ str_join (y # ys) sep"

text \<open>Trimming by a predicate on bytes, and \<open>strings.ReplaceAll\<close> of two dashes by one.\<close>

definition trim_left_bytes :: "(char \<Rightarrow> bool) \<Rightarrow> string \<Rightarrow> string" where
  "trim_left_bytes p s = dropWhile p s"

definition trim_right_bytes :: "(char \<Rightarrow> bool) \<Rightarrow> string \<Rightarrow> string" where
  "trim_right_bytes p s = rev (dropWhile p (rev s))"

definition trim_bytes :: "(char \<Rightarrow> bool) \<Rightarrow> string \<Rightarrow> string" where
  "trim_bytes p s = trim_right_bytes p (trim_left_bytes p s)"

fun replace_dashes :: "string \<Rightarrow> string" where
  "replace_dashes (x # y # xs) =
     (if x = CHR ''-'' \<and> y = CHR ''-'' then CHR ''-'' # replace_dashes xs
      else x # replace_dashes (y # xs))"
| "replace_dashes xs = xs"

section \<open>UTF-8\<close>

definition rune_error :: nat where
  "rune_error = 65533"

definition is_cont :: "nat \<Rightarrow> bool" where
  "is_cont b \<longleftrightarrow> 128 \<le> b \<and> b \<le> 191"

text \<open>\<open>utf8.RuneStart\<close>\<close>

definition rune_start :: "char \<Rightarrow> bool" where
  "rune_start c \<longleftrightarrow> \<not> is_cont (byte c)"

text \<open>\<open>utf8.DecodeRune\<close>: the rune and its width; width 1 with the error rune for an
  invalid encoding, width 0 only for the empty string.\<close>

definition decode_bytes :: "nat list \<Rightarrow> nat \<times> nat" where
  "decode_bytes bs =
     (case bs of
        [] \<Rightarrow> (rune_error, 0)
      | b0 # r \<Rightarrow>
         if b0 < 128 then (b0, 1)
         else if 194 \<le> b0 \<and> b0 \<le> 223 then
           (case r of
              b1 # _ \<Rightarrow> if is_cont b1 then ((b0 - 192) * 64 + (b1 - 128), 2) else (rune_error, 1)
            | [] \<Rightarrow> (rune_error, 1))
         else if 224 \<le> b0 \<and> b0 \<le> 239 then
           (case r of
              b1 # b2 # _ \<Rightarrow>
                if (if b0 = 224 then 160 else 128) \<le> b1 \<and> b1 \<le> (if b0 = 237 then 159 else 191)
                   \<and> is_cont b2
                then ((b0 - 224) * 4096 + (b1 - 128) * 64 + (b2 - 128), 3) else (rune_error, 1)
            | _ \<Rightarrow> (rune_error, 1))
         else if 240 \<le> b0 \<and> b0 \<le> 244 then
           (case r of
              b1 # b2 # b3 # _ \<Rightarrow>
                if (if b0 = 240 then 144 else 128) \<le> b1 \<and> b1 \<le> (if b0 = 244 then 143 else 191)
                   \<and> is_cont b2 \<and> is_cont b3
                then ((b0 - 240) * 262144 + (b1 - 128) * 4096 + (b2 - 128) * 64 + (b3 - 128), 4)
                else (rune_error, 1)
            | _ \<Rightarrow> (rune_error, 1))
         else (rune_error, 1))"

definition decode_rune :: "string \<Rightarrow> nat \<times> nat" where
  "decode_rune s = decode_bytes (map byte (take 4 s))"

lemma decode_rune_width: "s \<noteq> [] \<Longrightarrow> 1 \<le> snd (decode_rune s)"
  by (cases s) (auto simp: decode_rune_def decode_bytes_def split: list.splits)

text \<open>The runes a \<open>range\<close> loop over a string yields.\<close>

function runes :: "string \<Rightarrow> nat list" where
  "runes s = (if s = [] then [] else fst (decode_rune s) # runes (drop (snd (decode_rune s)) s))"
  by pat_completeness auto
termination
proof (relation "measure length")
  show "wf (measure length)" by simp
  fix s :: string
  assume "s \<noteq> []"
  with decode_rune_width [of s] show "(drop (snd (decode_rune s)) s, s) \<in> measure length"
    by auto
qed

declare runes.simps [simp del]

lemma runes_Nil [simp]: "runes [] = []"
  by (simp add: runes.simps)

lemma decode_rune_ascii: "byte c < 128 \<Longrightarrow> decode_rune (c # s) = (byte c, 1)"
  by (simp add: decode_rune_def decode_bytes_def)

lemma runes_ascii_Cons: "byte c < 128 \<Longrightarrow> runes (c # s) = byte c # runes s"
  by (subst runes.simps) (simp add: decode_rune_ascii)

definition is_ascii :: "string \<Rightarrow> bool" where
  "is_ascii s \<longleftrightarrow> (\<forall>c \<in> set s. byte c < 128)"

lemma runes_ascii: "is_ascii s \<Longrightarrow> runes s = map byte s"
  by (induction s) (simp_all add: is_ascii_def runes_ascii_Cons)

text \<open>\<open>utf8.DecodeLastRune\<close>\<close>

definition decode_last_rune :: "string \<Rightarrow> nat \<times> nat" where
  "decode_last_rune s =
     (let n = length s;
          start = (case find (\<lambda>k. rune_start (s ! k)) (rev [n - 4..<n]) of
                     Some k \<Rightarrow> k | None \<Rightarrow> (if n < 5 then 0 else n - 5));
          (r, w) = decode_rune (drop start s)
      in if n = 0 then (rune_error, 0)
         else if start + w \<noteq> n then (rune_error, 1) else (r, w))"

text \<open>\<open>utf8.EncodeRune\<close>, for the runes a decoded string can hold.\<close>

definition encode_rune :: "nat \<Rightarrow> string" where
  "encode_rune r = map char_of
     (if r < 128 then [r]
      else if r < 2048 then [192 + r div 64, 128 + r mod 64]
      else if r < 65536 then [224 + r div 4096, 128 + (r div 64) mod 64, 128 + r mod 64]
      else [240 + r div 262144, 128 + (r div 4096) mod 64, 128 + (r div 64) mod 64, 128 + r mod 64])"

text \<open>\<open>unicode.IsSpace\<close>\<close>

definition is_space :: "nat \<Rightarrow> bool" where
  "is_space r \<longleftrightarrow>
     r \<in> {9, 10, 11, 12, 13, 32, 133, 160, 5760, 8232, 8233, 8239, 8287, 12288}
     \<or> (8192 \<le> r \<and> r \<le> 8202)"

lemma is_space_code [code]:
  "is_space r =
     (if r < 128 then 9 \<le> r \<and> r \<le> 13 \<or> r = 32
      else r \<in> {133, 160, 5760, 8232, 8233, 8239, 8287, 12288} \<or> (8192 \<le> r \<and> r \<le> 8202))"
  by (auto simp: is_space_def)

text \<open>\<open>strings.TrimFunc\<close> with a predicate on runes, and \<open>strings.TrimSpace\<close>.\<close>

function trim_left_runes :: "(nat \<Rightarrow> bool) \<Rightarrow> string \<Rightarrow> string" where
  "trim_left_runes p s =
     (if s \<noteq> [] \<and> p (fst (decode_rune s))
      then trim_left_runes p (drop (snd (decode_rune s)) s) else s)"
  by pat_completeness auto
termination
proof (relation "measure (\<lambda>(p, s). length s)")
  show "wf (measure (\<lambda>(p, s). length s))" by simp
  fix p :: "nat \<Rightarrow> bool" and s :: string
  assume "s \<noteq> [] \<and> p (fst (decode_rune s))"
  with decode_rune_width [of s]
  show "((p, drop (snd (decode_rune s)) s), (p, s)) \<in> measure (\<lambda>(p, s). length s)"
    by auto
qed

declare trim_left_runes.simps [simp del]

function trim_right_runes :: "(nat \<Rightarrow> bool) \<Rightarrow> string \<Rightarrow> string" where
  "trim_right_runes p s =
     (if s \<noteq> [] \<and> p (fst (decode_last_rune s))
      then trim_right_runes p (take (length s - max 1 (snd (decode_last_rune s))) s) else s)"
  by pat_completeness auto
termination
  by (relation "measure (\<lambda>(p, s). length s)") auto

declare trim_right_runes.simps [simp del]

definition trim_space :: "string \<Rightarrow> string" where
  "trim_space s = trim_right_runes is_space (trim_left_runes is_space s)"

section \<open>Character classes\<close>

definition ascii_digit :: "nat \<Rightarrow> bool" where
  "ascii_digit r \<longleftrightarrow> 48 \<le> r \<and> r \<le> 57"

definition ascii_lower :: "nat \<Rightarrow> bool" where
  "ascii_lower r \<longleftrightarrow> 97 \<le> r \<and> r \<le> 122"

definition ascii_upper :: "nat \<Rightarrow> bool" where
  "ascii_upper r \<longleftrightarrow> 65 \<le> r \<and> r \<le> 90"

text \<open>
  The category and case tables of the Unicode standard, which package \<open>unicode\<close> compiles in,
  are data: \<open>unicode_tables\<close> holds them for the runes above ASCII. No theorem restricts them.
\<close>

record unicode_tables =
  tab_letter :: "nat \<Rightarrow> bool"
  tab_digit :: "nat \<Rightarrow> bool"
  tab_lower :: "nat \<Rightarrow> nat"
  tab_print :: "nat \<Rightarrow> bool"

definition ascii_tables :: unicode_tables where
  "ascii_tables = \<lparr>tab_letter = (\<lambda>_. False), tab_digit = (\<lambda>_. False), tab_lower = (\<lambda>r. r),
                   tab_print = (\<lambda>_. False)\<rparr>"

definition uni_is_letter :: "unicode_tables \<Rightarrow> nat \<Rightarrow> bool" where
  "uni_is_letter u r = (if r < 128 then ascii_lower r \<or> ascii_upper r else tab_letter u r)"

definition uni_is_digit :: "unicode_tables \<Rightarrow> nat \<Rightarrow> bool" where
  "uni_is_digit u r = (if r < 128 then ascii_digit r else tab_digit u r)"

definition uni_to_lower :: "unicode_tables \<Rightarrow> nat \<Rightarrow> nat" where
  "uni_to_lower u r = (if r < 128 then (if ascii_upper r then r + 32 else r) else tab_lower u r)"

text \<open>\<open>strings.ToLower\<close>: bytewise on ASCII, otherwise \<open>strings.Map (unicode.ToLower)\<close>.\<close>

definition lower_byte :: "char \<Rightarrow> char" where
  "lower_byte c = (if ascii_upper (byte c) then char_of (byte c + 32 :: nat) else c)"

definition to_lower :: "unicode_tables \<Rightarrow> string \<Rightarrow> string" where
  "to_lower u s =
     (if is_ascii s then map lower_byte s
      else concat (map (\<lambda>r. encode_rune (uni_to_lower u r)) (runes s)))"

section \<open>Formatting\<close>

text \<open>\<open>%d\<close> of a non-negative number, and \<open>%q\<close> (\<open>strconv.Quote\<close>).\<close>

fun show_nat :: "nat \<Rightarrow> string" where
  "show_nat n = (if n < 10 then [char_of (48 + n)] else show_nat (n div 10) @ [char_of (48 + n mod 10)])"

declare show_nat.simps [simp del]

definition show_int :: "int \<Rightarrow> string" where
  "show_int i = (if i < 0 then CHR ''-'' # show_nat (nat (- i)) else show_nat (nat i))"

primrec hex_pad :: "nat \<Rightarrow> nat \<Rightarrow> string" where
  "hex_pad 0 n = []"
| "hex_pad (Suc k) n =
     hex_pad k (n div 16) @ [char_of (if n mod 16 < 10 then 48 + n mod 16 else 87 + n mod 16)]"

definition quote_rune :: "unicode_tables \<Rightarrow> nat \<Rightarrow> nat \<Rightarrow> nat \<Rightarrow> string" where
  "quote_rune u b w r =
     (if w = 1 \<and> r = rune_error then [CHR 0x5C, CHR ''x''] @ hex_pad 2 b
      else if r = 34 then [CHR 0x5C, CHR 0x22]
      else if r = 92 then [CHR 0x5C, CHR 0x5C]
      else if (if r < 128 then 32 \<le> r \<and> r < 127 else tab_print u r) then encode_rune r
      else if r = 7 then [CHR 0x5C, CHR ''a'']
      else if r = 8 then [CHR 0x5C, CHR ''b'']
      else if r = 12 then [CHR 0x5C, CHR ''f'']
      else if r = 10 then [CHR 0x5C, CHR ''n'']
      else if r = 13 then [CHR 0x5C, CHR ''r'']
      else if r = 9 then [CHR 0x5C, CHR ''t'']
      else if r = 11 then [CHR 0x5C, CHR ''v'']
      else if r < 32 \<or> r = 127 then [CHR 0x5C, CHR ''x''] @ hex_pad 2 r
      else if r < 65536 then [CHR 0x5C, CHR ''u''] @ hex_pad 4 r
      else [CHR 0x5C, CHR ''U''] @ hex_pad 8 r)"

function quote_body :: "unicode_tables \<Rightarrow> string \<Rightarrow> string" where
  "quote_body u s =
     (if s = [] then []
      else quote_rune u (byte (hd s)) (snd (decode_rune s)) (fst (decode_rune s))
           @ quote_body u (drop (snd (decode_rune s)) s))"
  by pat_completeness auto
termination
proof (relation "measure (\<lambda>(u, s). length s)")
  show "wf (measure (\<lambda>(u :: unicode_tables, s :: string). length s))" by simp
  fix u :: unicode_tables and s :: string
  assume "s \<noteq> []"
  with decode_rune_width [of s]
  show "((u, drop (snd (decode_rune s)) s), (u, s)) \<in> measure (\<lambda>(u, s). length s)" by auto
qed

declare quote_body.simps [simp del]

definition go_quote :: "unicode_tables \<Rightarrow> string \<Rightarrow> string" where
  "go_quote u s = CHR 0x22 # quote_body u s @ [CHR 0x22]"

section \<open>Trimming ASCII strings\<close>

text \<open>On ASCII the rune-wise trims are \<open>dropWhile\<close> on the bytes.\<close>

lemma is_ascii_simps [simp]:
  "is_ascii []"
  "is_ascii (c # s) \<longleftrightarrow> byte c < 128 \<and> is_ascii s"
  "is_ascii (s @ t) \<longleftrightarrow> is_ascii s \<and> is_ascii t"
  by (auto simp: is_ascii_def)

lemma trim_left_runes_ascii:
  "is_ascii s \<Longrightarrow> trim_left_runes p s = dropWhile (\<lambda>c. p (byte c)) s"
  by (induction s) (subst trim_left_runes.simps, simp add: decode_rune_ascii)+

lemma decode_last_rune_ascii:
  assumes "byte c < 128"
  shows "decode_last_rune (s @ [c]) = (byte c, 1)"
proof -
  let ?n = "length (s @ [c])"
  have "rev [?n - 4..<?n] = length s # rev [?n - 4..<length s]" by simp
  moreover have "rune_start ((s @ [c]) ! length s)"
    using assms by (simp add: rune_start_def is_cont_def)
  ultimately have "find (\<lambda>k. rune_start ((s @ [c]) ! k)) (rev [?n - 4..<?n]) = Some (length s)"
    by (metis find.simps(2))
  with assms show ?thesis
    by (simp add: decode_last_rune_def Let_def decode_rune_ascii)
qed

lemma trim_right_runes_ascii:
  "is_ascii s \<Longrightarrow> trim_right_runes p s = rev (dropWhile (\<lambda>c. p (byte c)) (rev s))"
proof (induction s rule: rev_induct)
  case Nil
  then show ?case by (simp add: trim_right_runes.simps)
next
  case (snoc c s)
  then show ?case by (subst trim_right_runes.simps) (simp add: decode_last_rune_ascii)
qed

text \<open>\<open>strings.TrimFunc\<close>\<close>

definition trim_func :: "(nat \<Rightarrow> bool) \<Rightarrow> string \<Rightarrow> string" where
  "trim_func p s = trim_right_runes p (trim_left_runes p s)"

definition both_ends :: "(char \<Rightarrow> bool) \<Rightarrow> string \<Rightarrow> string" where
  "both_ends p s = rev (dropWhile p (rev (dropWhile p s)))"

lemma is_ascii_dropWhile: "is_ascii s \<Longrightarrow> is_ascii (dropWhile p s)"
  by (auto simp: is_ascii_def dest: set_dropWhileD)

lemma trim_func_ascii: "is_ascii s \<Longrightarrow> trim_func p s = both_ends (\<lambda>c. p (byte c)) s"
  by (simp add: trim_func_def both_ends_def trim_left_runes_ascii trim_right_runes_ascii
      is_ascii_dropWhile)

lemma set_both_ends: "set (both_ends p s) \<subseteq> set s"
  unfolding both_ends_def by (metis set_dropWhileD set_rev subsetI)

lemma length_both_ends: "length (both_ends p s) \<le> length s"
  unfolding both_ends_def using length_dropWhile_le [of p s] length_dropWhile_le [of p "rev (dropWhile p s)"]
  by simp

lemma both_ends_split: "\<exists>a b. s = a @ both_ends p s @ b"
proof -
  let ?d = "dropWhile p s"
  have "rev ?d = takeWhile p (rev ?d) @ dropWhile p (rev ?d)" by simp
  then have "?d = both_ends p s @ rev (takeWhile p (rev ?d))"
    unfolding both_ends_def by (metis rev_append rev_rev_ident)
  then have "s = takeWhile p s @ both_ends p s @ rev (takeWhile p (rev ?d))"
    by (metis takeWhile_dropWhile_id)
  then show ?thesis by blast
qed

lemma both_ends_last: "both_ends p s \<noteq> [] \<Longrightarrow> \<not> p (last (both_ends p s))"
  by (simp add: both_ends_def last_rev hd_dropWhile)

lemma both_ends_hd: "both_ends p s \<noteq> [] \<Longrightarrow> \<not> p (hd (both_ends p s))"
proof -
  assume ne: "both_ends p s \<noteq> []"
  let ?d = "dropWhile p s"
  have "?d = both_ends p s @ rev (takeWhile p (rev ?d))"
    unfolding both_ends_def by (metis rev_append rev_rev_ident takeWhile_dropWhile_id)
  with ne have "?d \<noteq> []" "hd ?d = hd (both_ends p s)" by (metis Nil_is_append_conv, metis hd_append2)
  then show ?thesis by (metis hd_dropWhile)
qed

lemma both_ends_id: "s = [] \<or> (\<not> p (hd s) \<and> \<not> p (last s)) \<Longrightarrow> both_ends p s = s"
proof -
  assume a: "s = [] \<or> (\<not> p (hd s) \<and> \<not> p (last s))"
  then have "dropWhile p s = s" by (cases s) auto
  moreover have "dropWhile p (rev s) = rev s"
    using a by (subst dropWhile_eq_self_iff) (auto simp: hd_rev)
  ultimately show ?thesis by (simp add: both_ends_def)
qed

end
