(* ===== verification/GoPath.thy ===== *)
theory GoPath
  imports GoStrings
begin

text \<open>
  \<open>path/filepath\<close> on Unix: \<open>Clean\<close> is the fold of the path's elements over the stack of the
  output elements, \<open>Join\<close>, \<open>Base\<close>, \<open>Dir\<close>, \<open>Ext\<close> and \<open>IsAbs\<close> follow the package. The lemmas
  say what a cleaned path is: no empty or dot element, and \<open>..\<close> only as the leading elements of
  a relative path.
\<close>

definition is_abs :: "string \<Rightarrow> bool" where
  "is_abs p \<longleftrightarrow> has_prefix p ''/''"

text \<open>The stack holds the output elements, the last one first.\<close>

definition clean_step :: "bool \<Rightarrow> string list \<Rightarrow> string \<Rightarrow> string list" where
  "clean_step rooted st e =
     (if e = [] \<or> e = ''.'' then st
      else if e = ''..'' then
        (case st of
           [] \<Rightarrow> if rooted then [] else [''..'']
         | x # r \<Rightarrow> if x = ''..'' then ''..'' # st else r)
      else e # st)"

definition clean_elems :: "bool \<Rightarrow> string list \<Rightarrow> string list" where
  "clean_elems rooted es = rev (foldl (clean_step rooted) [] es)"

definition render_path :: "bool \<Rightarrow> string list \<Rightarrow> string" where
  "render_path rooted es =
     (if rooted then CHR ''/'' # str_join es ''/''
      else if es = [] then ''.'' else str_join es ''/'')"

definition clean :: "string \<Rightarrow> string" where
  "clean p = render_path (is_abs p) (clean_elems (is_abs p) (str_split p (CHR ''/'')))"

definition path_join :: "string list \<Rightarrow> string" where
  "path_join es =
     (case dropWhile (\<lambda>e. e = []) es of
        [] \<Rightarrow> []
      | e # r \<Rightarrow> clean (str_join (e # r) ''/''))"

definition path_base :: "string \<Rightarrow> string" where
  "path_base p =
     (if p = [] then ''.''
      else let q = trim_right_bytes (\<lambda>c. c = CHR ''/'') p;
               b = rev (takeWhile (\<lambda>c. c \<noteq> CHR ''/'') (rev q))
           in if b = [] then ''/'' else b)"

definition path_dir :: "string \<Rightarrow> string" where
  "path_dir p = clean (rev (dropWhile (\<lambda>c. c \<noteq> CHR ''/'') (rev p)))"

definition path_ext :: "string \<Rightarrow> string" where
  "path_ext p =
     (let b = rev (takeWhile (\<lambda>c. c \<noteq> CHR ''/'') (rev p))
      in case last_index_byte b (CHR ''.'') of None \<Rightarrow> [] | Some i \<Rightarrow> drop i b)"

section \<open>The elements of a cleaned path\<close>

text \<open>A stack that \<open>Clean\<close> can hold: proper elements above a block of \<open>..\<close>, which is
  empty for a rooted path.\<close>

definition proper_elem :: "string \<Rightarrow> bool" where
  "proper_elem e \<longleftrightarrow> e \<noteq> [] \<and> e \<noteq> ''.'' \<and> e \<noteq> ''..'' \<and> CHR ''/'' \<notin> set e"

definition clean_stack :: "bool \<Rightarrow> string list \<Rightarrow> bool" where
  "clean_stack rooted st \<longleftrightarrow>
     (\<exists>es k. st = es @ replicate k ''..'' \<and> (\<forall>e \<in> set es. proper_elem e) \<and> (rooted \<longrightarrow> k = 0))"

lemma clean_stack_step:
  assumes "clean_stack rooted st" and "CHR ''/'' \<notin> set e"
  shows "clean_stack rooted (clean_step rooted st e)"
proof -
  obtain es k where st: "st = es @ replicate k ''..''" "\<forall>e \<in> set es. proper_elem e"
      "rooted \<longrightarrow> k = 0"
    using assms(1) by (auto simp: clean_stack_def)
  consider "e = [] \<or> e = ''.''" | "e = ''..''" | "proper_elem e"
    using assms(2) by (auto simp: proper_elem_def)
  then show ?thesis
  proof cases
    case 1
    with assms(1) show ?thesis by (simp add: clean_step_def)
  next
    case 2
    show ?thesis
    proof (cases es)
      case Nil
      show ?thesis
      proof (cases "k = 0")
        case True
        have "clean_stack rooted (if rooted then [] else [''..''])"
          unfolding clean_stack_def
          by (rule exI [of _ "[]"], rule exI [of _ "if rooted then 0 else Suc 0"]) simp
        with 2 st(1) Nil True show ?thesis by (simp add: clean_step_def)
      next
        case False
        then obtain j where j: "k = Suc j" by (cases k) auto
        have "clean_stack rooted (replicate (Suc k) ''..'')"
          unfolding clean_stack_def
          by (rule exI [of _ "[]"], rule exI [of _ "Suc k"]) (use st(3) False in simp)
        with 2 st(1) Nil j show ?thesis by (simp add: clean_step_def)
      qed
    next
      case (Cons x r)
      with st(2) have "x \<noteq> ''..''" by (simp add: proper_elem_def)
      moreover have "clean_stack rooted (r @ replicate k ''..'')"
        unfolding clean_stack_def
        by (rule exI [of _ r], rule exI [of _ k]) (use st(2,3) Cons in simp)
      ultimately show ?thesis using 2 st(1) Cons by (simp add: clean_step_def)
    qed
  next
    case 3
    then have "clean_step rooted st e = (e # es) @ replicate k ''..''"
      using st(1) by (simp add: clean_step_def proper_elem_def)
    with st(2,3) 3 show ?thesis unfolding clean_stack_def
      by (metis set_ConsD)
  qed
qed

lemma str_split_no_sep: "e \<in> set (str_split s c) \<Longrightarrow> c \<notin> set e"
  by (induction s c arbitrary: e rule: str_split.induct)
    (auto split: if_splits list.splits)

lemma str_split_nonempty [simp]: "str_split s c \<noteq> []"
  by (induction s c rule: str_split.induct) (auto split: list.splits)

lemma clean_stack_foldl:
  "clean_stack rooted st \<Longrightarrow> \<forall>e \<in> set es. CHR ''/'' \<notin> set e \<Longrightarrow>
   clean_stack rooted (foldl (clean_step rooted) st es)"
  by (induction es arbitrary: st) (auto simp: clean_stack_step)

lemma clean_elems_stack: "clean_stack (is_abs p) (rev (clean_elems (is_abs p) (str_split p (CHR ''/''))))"
  unfolding clean_elems_def rev_rev_ident
proof (rule clean_stack_foldl)
  show "clean_stack (is_abs p) []"
    unfolding clean_stack_def by (rule exI [of _ "[]"], rule exI [of _ 0]) simp
  show "\<forall>e \<in> set (str_split p (CHR ''/'')). CHR ''/'' \<notin> set e"
    using str_split_no_sep by blast
qed

text \<open>No element of a cleaned rooted path is \<open>..\<close>: the path stays under its root.\<close>

lemma clean_rooted_proper:
  assumes "is_abs p" and "e \<in> set (clean_elems True (str_split p (CHR ''/'')))"
  shows "proper_elem e"
proof -
  have "clean_stack True (rev (clean_elems True (str_split p (CHR ''/''))))"
    using clean_elems_stack [of p] assms(1) by simp
  with assms(2) show ?thesis
    unfolding clean_stack_def by (metis append.right_neutral replicate_0 set_rev)
qed

section \<open>Base\<close>

lemma takeWhile_rev_no_slash: "CHR ''/'' \<notin> set (rev (takeWhile (\<lambda>c. c \<noteq> CHR ''/'') (rev q)))"
  by (auto dest: set_takeWhileD)

lemma path_base_nonempty [simp]: "path_base p \<noteq> []"
  by (simp add: path_base_def Let_def)

lemma path_base_no_slash: "path_base p = ''/'' \<or> CHR ''/'' \<notin> set (path_base p)"
  using takeWhile_rev_no_slash by (simp add: path_base_def Let_def)

end
