(* ===== verification/GoUrl.thy ===== *)
theory GoUrl
  imports GoStrings
begin

text \<open>
  \<open>url.Parse\<close> as far as the program reads its result: the scheme, the host and the path, or
  \<open>None\<close> where it returns an error. Every check of the parser that can fail is here, because
  the callers branch on the error.
\<close>

record go_url =
  u_scheme :: string
  u_host :: string
  u_path :: string

section \<open>Percent escapes\<close>

datatype enc_mode = EncHost | EncZone | EncUser | EncPath | EncFragment

definition is_hex_byte :: "char \<Rightarrow> bool" where
  "is_hex_byte c \<longleftrightarrow> ascii_digit (byte c) \<or> (97 \<le> byte c \<and> byte c \<le> (102 :: nat))
                     \<or> (65 \<le> byte c \<and> byte c \<le> (70 :: nat))"

definition unhex :: "char \<Rightarrow> nat" where
  "unhex c = (if ascii_digit (byte c) then byte c - 48
              else if 97 \<le> (byte c :: nat) then byte c - 87 else byte c - 55)"

text \<open>The bytes that may stand unescaped in a host: the unreserved ones, the sub-delimiters,
  and the few the package admits for what it has accepted in the past.\<close>

definition host_byte_ok :: "char \<Rightarrow> bool" where
  "host_byte_ok c \<longleftrightarrow>
     (let b = byte c in ascii_lower b \<or> ascii_upper b \<or> ascii_digit b)
     \<or> c \<in> set ''-_.~!$&()*+,;=:[]<>'' \<or> c = CHR 0x22 \<or> c = CHR 0x27"

fun unescape :: "enc_mode \<Rightarrow> string \<Rightarrow> string option" where
  "unescape m [] = Some []"
| "unescape m (c # s) =
     (if c = CHR ''%'' then
        (case s of
           h # l # r \<Rightarrow>
             if \<not> (is_hex_byte h \<and> is_hex_byte l) then None
             else if m = EncHost \<and> unhex h < 8 \<and> \<not> (h = CHR ''2'' \<and> l = CHR ''5'') then None
             else if m = EncZone \<and> \<not> (h = CHR ''2'' \<and> l = CHR ''5'')
                     \<and> unhex h * 16 + unhex l \<noteq> 32
                     \<and> \<not> host_byte_ok (char_of (unhex h * 16 + unhex l)) then None
             else map_option (Cons (char_of (unhex h * 16 + unhex l))) (unescape m r)
         | _ \<Rightarrow> None)
      else if (m = EncHost \<or> m = EncZone) \<and> byte c < (128 :: nat) \<and> \<not> host_byte_ok c then None
      else map_option (Cons c) (unescape m s))"

section \<open>IP literals\<close>

text \<open>\<open>netip.ParseAddr\<close>, whether it accepts. A zone is only allowed on an IPv6 address.\<close>

definition dec_octet :: "string \<Rightarrow> bool" where
  "dec_octet s \<longleftrightarrow> s \<noteq> [] \<and> length s \<le> 3 \<and> list_all (\<lambda>c. ascii_digit (byte c)) s
     \<and> (length s > 1 \<longrightarrow> hd s \<noteq> CHR ''0'')
     \<and> foldl (\<lambda>n c. n * 10 + (byte c - 48)) 0 s \<le> (255 :: nat)"

definition ipv4_ok :: "string \<Rightarrow> bool" where
  "ipv4_ok s \<longleftrightarrow> (let fs = str_split s (CHR ''.'') in length fs = 4 \<and> list_all dec_octet fs)"

definition hex_group :: "string \<Rightarrow> bool" where
  "hex_group g \<longleftrightarrow> g \<noteq> [] \<and> length g \<le> 4 \<and> list_all is_hex_byte g"

text \<open>The number of 16-bit groups of a run of colon-separated groups, the last of which may be
  a dotted quad when it ends the address.\<close>

fun ipv6_groups :: "bool \<Rightarrow> string list \<Rightarrow> nat option" where
  "ipv6_groups v4 [] = Some 0"
| "ipv6_groups v4 [g] = (if hex_group g then Some 1 else if v4 \<and> ipv4_ok g then Some 2 else None)"
| "ipv6_groups v4 (g # h # gs) =
     (if hex_group g then map_option Suc (ipv6_groups v4 (h # gs)) else None)"

definition colon_fields :: "string \<Rightarrow> string list" where
  "colon_fields s = (if s = [] then [] else str_split s (CHR '':''))"

definition ipv6_ok :: "string \<Rightarrow> bool" where
  "ipv6_ok s =
     (case str_cut s ''::'' of
        (a, b, found) \<Rightarrow>
          if found then
            (case (ipv6_groups False (colon_fields a), ipv6_groups True (colon_fields b)) of
               (Some m, Some n) \<Rightarrow> m + n \<le> 7
             | _ \<Rightarrow> False)
          else ipv6_groups True (colon_fields s) = Some 8)"

definition ip_literal_ok :: "string \<Rightarrow> bool" where
  "ip_literal_ok s =
     (case str_cut s ''%'' of (a, zone, found) \<Rightarrow> ipv6_ok a \<and> (found \<longrightarrow> zone \<noteq> []))"

section \<open>Authority\<close>

definition valid_optional_port :: "string \<Rightarrow> bool" where
  "valid_optional_port p \<longleftrightarrow>
     p = [] \<or> (hd p = CHR '':'' \<and> list_all (\<lambda>c. ascii_digit (byte c)) (tl p))"

text \<open>Since Go 1.26 the first colon of the host must start the port, except for the schemes of
  PostgreSQL, whose multi-host form is still split at the last one.\<close>

definition parse_host :: "string \<Rightarrow> string \<Rightarrow> string option" where
  "parse_host sc h =
     (case last_index_byte h (CHR ''['') of
        Some (Suc _) \<Rightarrow> None
      | Some 0 \<Rightarrow>
          (case last_index_byte h (CHR '']'') of
             None \<Rightarrow> None
           | Some j \<Rightarrow>
               if \<not> valid_optional_port (drop (Suc j) h) then None
               else
                 let name = take (j - 1) (drop 1 h);
                     un = (case str_index name ''%25'' of
                             None \<Rightarrow> unescape EncHost name
                           | Some z \<Rightarrow>
                               (case (unescape EncHost (take z name), unescape EncZone (drop z name)) of
                                  (Some a, Some b) \<Rightarrow> Some (a @ b)
                                | _ \<Rightarrow> None))
                 in (case un of
                       None \<Rightarrow> None
                     | Some u \<Rightarrow> if ip_literal_ok u then Some (''['' @ u @ '']'' @ drop (Suc j) h)
                                 else None))
      | None \<Rightarrow>
          (case (if sc = ''postgresql'' \<or> sc = ''postgres'' then last_index_byte h (CHR '':'')
                 else index_byte h (CHR '':'')) of
             Some i \<Rightarrow> if valid_optional_port (drop i h) then unescape EncHost h else None
           | None \<Rightarrow> unescape EncHost h))"

definition valid_userinfo :: "string \<Rightarrow> bool" where
  "valid_userinfo s = list_all (\<lambda>c. (let b = byte c in ascii_lower b \<or> ascii_upper b \<or> ascii_digit b)
     \<or> c \<in> set ''-._:~!$&()*+,;=%@'' \<or> c = CHR 0x27) s"

definition userinfo_ok :: "string \<Rightarrow> bool" where
  "userinfo_ok s \<longleftrightarrow> valid_userinfo s \<and>
     (case str_cut s '':'' of (n, p, _) \<Rightarrow> unescape EncUser n \<noteq> None \<and> unescape EncUser p \<noteq> None)"

definition parse_authority :: "string \<Rightarrow> string \<Rightarrow> string option" where
  "parse_authority sc a =
     (case last_index_byte a (CHR ''@'') of
        None \<Rightarrow> parse_host sc a
      | Some i \<Rightarrow>
          (case parse_host sc (drop (Suc i) a) of
             None \<Rightarrow> None
           | Some h \<Rightarrow> if userinfo_ok (take i a) then Some h else None))"

section \<open>Parse\<close>

text \<open>\<open>getScheme\<close>: the scheme and the rest; no scheme when a byte that cannot belong to one
  comes before the colon, and an error when the colon comes first.\<close>

fun get_scheme :: "nat \<Rightarrow> string \<Rightarrow> string \<Rightarrow> (string \<times> string) option" where
  "get_scheme i whole [] = Some ([], whole)"
| "get_scheme i whole (c # s) =
     (if ascii_lower (byte c) \<or> ascii_upper (byte c) then get_scheme (Suc i) whole s
      else if ascii_digit (byte c) \<or> c \<in> set ''+-.'' then
        (if i = 0 then Some ([], whole) else get_scheme (Suc i) whole s)
      else if c = CHR '':'' then (if i = 0 then None else Some (take i whole, s))
      else Some ([], whole))"

definition parse_no_frag :: "string \<Rightarrow> go_url option" where
  "parse_no_frag raw =
     (if list_ex (\<lambda>c. byte c < (32 :: nat) \<or> byte c = (127 :: nat)) raw then None
      else if raw = ''*'' then Some \<lparr>u_scheme = [], u_host = [], u_path = ''*''\<rparr>
      else
        (case get_scheme 0 raw raw of
           None \<Rightarrow> None
         | Some (sc, rest0) \<Rightarrow>
             let scheme = map lower_byte sc;
                 rest = fst (str_cut rest0 ''?'')
             in if \<not> has_prefix rest ''/'' \<and> scheme \<noteq> [] then
                  Some \<lparr>u_scheme = scheme, u_host = [], u_path = []\<rparr>
                else if \<not> has_prefix rest ''/'' \<and> str_contains (fst (str_cut rest ''/'')) '':'' then None
                else
                  let auth = (scheme \<noteq> [] \<or> \<not> has_prefix rest ''///'') \<and> has_prefix rest ''//'';
                      a = drop 2 rest;
                      i = (case index_byte a (CHR ''/'') of None \<Rightarrow> length a | Some i \<Rightarrow> i);
                      host = (if auth then parse_authority scheme (take i a) else Some []);
                      path = unescape EncPath (if auth then drop i a else rest)
                  in (case (host, path) of
                        (Some h, Some p) \<Rightarrow> Some \<lparr>u_scheme = scheme, u_host = h, u_path = p\<rparr>
                      | _ \<Rightarrow> None)))"

definition url_parse :: "string \<Rightarrow> go_url option" where
  "url_parse raw =
     (case str_cut raw ''#'' of
        (u, frag, _) \<Rightarrow>
          (case parse_no_frag u of
             None \<Rightarrow> None
           | Some r \<Rightarrow> if frag = [] \<or> unescape EncFragment frag \<noteq> None then Some r else None))"

text \<open>A string without a scheme separator at its start and no leading double slash has no host.\<close>

lemma get_scheme_none:
  "list_all (\<lambda>c. ascii_lower (byte c) \<or> ascii_upper (byte c) \<or> ascii_digit (byte c)
                 \<or> c \<in> set ''-_'') s \<Longrightarrow> get_scheme i whole s = Some ([], whole)"
  by (induction i whole s rule: get_scheme.induct) auto

end
