(* ===== verification/EntityId.thy ===== *)
theory EntityId
  imports Sha256 GoPath GoUrl
begin

text \<open>
  \<open>entityid/entityid.go\<close>: the six-part entity identifiers. The functions are in the order of
  the source. The framework's byte limit \<open>semtypes.MaxEntityIDBytes\<close> and its prefix validator
  are parameters (\<open>M\<close> and \<open>vp\<close>); SHA-256, \<open>url.Parse\<close> and \<open>filepath\<close> are the concrete models
  of the theories imported here.
\<close>

section \<open>Alphabet\<close>

definition is_ascii_alnum :: "nat \<Rightarrow> bool" where
  "is_ascii_alnum r \<longleftrightarrow> ascii_lower r \<or> ascii_upper r \<or> ascii_digit r"

definition is_allowed_instance_rune :: "nat \<Rightarrow> bool" where
  "is_allowed_instance_rune r \<longleftrightarrow> is_ascii_alnum r \<or> r = 45 \<or> r = 95"

definition short_hash :: "string \<Rightarrow> string" where
  "short_hash s = hex_hash 4 s"

section \<open>Authority and assembly\<close>

definition platform_semsource :: string where
  "platform_semsource = ''semsource''"

definition max_system_slug_len :: nat where
  "max_system_slug_len = 80"

definition max_org_len :: nat where
  "max_org_len = 64"

definition max_authority_pair_len :: "int \<Rightarrow> int" where
  "max_authority_pair_len M = M - int max_system_slug_len - 10 - 12 - 5 - 8"

record authority =
  auth_org :: string
  auth_platform :: string

datatype 'e authority_error = SegmentDots | BadPrefix 'e | PairTooLong

definition authority_validate ::
  "int \<Rightarrow> (string \<Rightarrow> 'e option) \<Rightarrow> authority \<Rightarrow> 'e authority_error option" where
  "authority_validate M vp a =
     (if str_contains (auth_org a) ''.'' \<or> str_contains (auth_platform a) ''.'' then Some SegmentDots
      else case vp (auth_org a @ ''.'' @ auth_platform a) of
             Some e \<Rightarrow> Some (BadPrefix e)
           | None \<Rightarrow>
               if int (length (auth_org a) + length (auth_platform a)) > max_authority_pair_len M
               then Some PairTooLong else None)"

definition bound_instance :: "int \<Rightarrow> int \<Rightarrow> string \<Rightarrow> string" where
  "bound_instance M prefix_len inst =
     (let suffix = short_hash inst;
          budget = M - prefix_len
      in if budget < int (length suffix) + 2 then suffix
         else let kept = trim_right_runes (\<lambda>r. \<not> is_ascii_alnum r)
                           (take (nat (budget - int (length suffix) - 1)) inst)
              in if kept = [] then suffix else kept @ ''-'' @ suffix)"

definition id_join :: "string list \<Rightarrow> string" where
  "id_join ps = str_join ps ''.''"

definition build_id ::
  "int \<Rightarrow> string \<Rightarrow> string \<Rightarrow> string \<Rightarrow> string \<Rightarrow> string \<Rightarrow> string \<Rightarrow> string" where
  "build_id M org platform system domain ty inst =
     (let eid = id_join [org, platform, system, domain, ty, inst]
      in if int (length eid) \<le> M then eid
         else id_join [org, platform, system, domain, ty,
                       bound_instance M (int (length eid) - int (length inst)) inst])"

definition authority_build ::
  "int \<Rightarrow> authority \<Rightarrow> string \<Rightarrow> string \<Rightarrow> string \<Rightarrow> string \<Rightarrow> string" where
  "authority_build M a system domain ty inst =
     build_id M (auth_org a) (auth_platform a) system domain ty inst"

section \<open>Slugs\<close>

text \<open>The loop of every sanitizer: the runes outside the alphabet become hyphens.\<close>

definition sanitize_runes :: "string \<Rightarrow> string" where
  "sanitize_runes s =
     concat (map (\<lambda>r. if is_allowed_instance_rune r then encode_rune r else ''-'') (runes s))"

text \<open>\<open>for strings.Contains(s, "--") { s = strings.ReplaceAll(s, "--", "-") }\<close>\<close>

definition has_double_dash :: "string \<Rightarrow> bool" where
  "has_double_dash s \<longleftrightarrow> str_contains s ''--''"

lemma has_double_dash_simps [simp]:
  "\<not> has_double_dash []"
  "has_double_dash (c # s) \<longleftrightarrow> (c = CHR ''-'' \<and> s \<noteq> [] \<and> hd s = CHR ''-'') \<or> has_double_dash s"
proof -
  show "\<not> has_double_dash []"
    by (simp add: has_double_dash_def str_contains_def has_prefix_def str_index.simps)
  show "has_double_dash (c # s) \<longleftrightarrow>
      (c = CHR ''-'' \<and> s \<noteq> [] \<and> hd s = CHR ''-'') \<or> has_double_dash s"
    unfolding has_double_dash_def str_contains_def
    by (subst str_index.simps) (cases s; auto simp: has_prefix_def)
qed

lemma replace_dashes_le: "length (replace_dashes s) \<le> length s"
  by (induction s rule: replace_dashes.induct) auto

lemma replace_dashes_shorter: "has_double_dash s \<Longrightarrow> length (replace_dashes s) < length s"
proof (induction s rule: replace_dashes.induct)
  case (1 x y xs)
  show ?case
  proof (cases "x = CHR ''-'' \<and> y = CHR ''-''")
    case True
    with replace_dashes_le [of xs] show ?thesis by simp
  next
    case False
    with 1 show ?thesis by auto
  qed
qed auto

function collapse_dashes :: "string \<Rightarrow> string" where
  "collapse_dashes s = (if has_double_dash s then collapse_dashes (replace_dashes s) else s)"
  by pat_completeness auto
termination
  by (relation "measure length") (auto simp: replace_dashes_shorter)

declare collapse_dashes.simps [simp del]

definition non_alnum :: "nat \<Rightarrow> bool" where
  "non_alnum r \<longleftrightarrow> \<not> is_ascii_alnum r"

text \<open>\<open>SystemSlug\<close> up to the safety cap, and the whole function.\<close>

definition slug_source :: "string \<Rightarrow> string" where
  "slug_source p0 =
     (let p1 = (case url_parse p0 of
                  Some u \<Rightarrow> if u_host u \<noteq> [] then u_host u @ u_path u else p0
                | None \<Rightarrow> p0);
          p2 = trim_prefix (trim_suffix p1 ''.git'') ''./''
      in if is_abs p2 then path_base p2 else p2)"

definition slug_core :: "string \<Rightarrow> string" where
  "slug_core p = trim_func non_alnum (collapse_dashes (sanitize_runes (slug_source p)))"

definition system_slug :: "string \<Rightarrow> string" where
  "system_slug p =
     (let slug = slug_core p
      in if length slug > max_system_slug_len
         then take (max_system_slug_len - 7) slug @ ''-'' @ hex_hash 3 slug
         else slug)"

definition branch_scoped_slug :: "string \<Rightarrow> string \<Rightarrow> string" where
  "branch_scoped_slug sys branch =
     (if branch = [] then sys else system_slug (sys @ ''-'' @ branch))"

definition version_scoped_slug :: "string \<Rightarrow> string \<Rightarrow> string" where
  "version_scoped_slug sys version =
     (if version = [] then sys else system_slug (sys @ ''-'' @ version))"

definition scoped_system_slug :: "string \<Rightarrow> string \<Rightarrow> string" where
  "scoped_system_slug project version =
     version_scoped_slug (system_slug project) (system_slug version)"

section \<open>URLs, sanitizers, keys and parts\<close>

definition canonicalize_url :: "unicode_tables \<Rightarrow> string \<Rightarrow> string" where
  "canonicalize_url u raw =
     (if raw = [] then []
      else case str_index raw ''://'' of
        None \<Rightarrow> trim_right_bytes (\<lambda>c. c = CHR ''/'') raw
      | Some i \<Rightarrow>
          (let scheme = to_lower u (take i raw);
               rest0 = drop (i + 3) raw;
               rest1 = (case str_index rest0 ''#'' of None \<Rightarrow> rest0 | Some j \<Rightarrow> take j rest0);
               rest = (case str_index rest1 ''?'' of None \<Rightarrow> rest1 | Some j \<Rightarrow> take j rest1);
               (host, path) = (case str_index rest ''/'' of
                                 None \<Rightarrow> (rest, [])
                               | Some j \<Rightarrow> (take j rest, drop j rest))
           in scheme @ ''://'' @ to_lower u host @ trim_right_bytes (\<lambda>c. c = CHR ''/'') path))"

definition is_public_namespace :: "string \<Rightarrow> bool" where
  "is_public_namespace org \<longleftrightarrow> org = ''public''"

definition max_instance_len :: nat where
  "max_instance_len = 60"

definition sanitize_instance :: "string \<Rightarrow> string" where
  "sanitize_instance s =
     (let out = trim_func non_alnum (collapse_dashes (sanitize_runes s))
      in if out = [] then short_hash s
         else if length out > max_instance_len then
           (let suffix = short_hash s;
                prefix = trim_right_runes non_alnum
                           (take (max_instance_len - length suffix - 1) out)
            in if prefix = [] then suffix else prefix @ ''-'' @ suffix)
         else out)"

definition sanitize_segment :: "string \<Rightarrow> string" where
  "sanitize_segment s =
     (let out = trim_left_runes non_alnum (sanitize_runes s)
      in if out = [] then short_hash s
         else if out = s then out
         else out @ ''-'' @ short_hash s)"

datatype key_error = KeyEmpty | KeyForbidden nat | KeyNonPrintable nat

definition nats_kv_forbidden :: string where
  "nats_kv_forbidden = '' */>'' @ [CHR 0x5C]"

fun validate_key_runes :: "nat list \<Rightarrow> key_error option" where
  "validate_key_runes [] = None"
| "validate_key_runes (ch # rs) =
     (if ch \<in> set (runes nats_kv_forbidden) then Some (KeyForbidden ch)
      else if ch < 33 \<or> ch > 126 then Some (KeyNonPrintable ch)
      else validate_key_runes rs)"

definition validate_nats_kv_key :: "string \<Rightarrow> key_error option" where
  "validate_nats_kv_key key = (if key = [] then Some KeyEmpty else validate_key_runes (runes key))"

text \<open>The byte offset of the first dot a \<open>range\<close> loop meets is the byte index of the first dot.\<close>

definition org_from_id :: "string \<Rightarrow> string" where
  "org_from_id eid =
     (if eid = [] then []
      else case index_byte eid (CHR ''.'') of None \<Rightarrow> [] | Some i \<Rightarrow> take i eid)"

definition resolve_org :: "string \<Rightarrow> string \<Rightarrow> string" where
  "resolve_org override default_org =
     (if is_public_namespace override then ''public'' else default_org)"

definition id_parts :: "string \<Rightarrow> string \<times> string" where
  "id_parts eid =
     (let parts = str_split_n 6 eid (CHR ''.'')
      in if length parts < 6 then ([], []) else (parts ! 3, parts ! 4))"

section \<open>The loop that collapses dashes\<close>

text \<open>One pass that drops every dash in front of a dash: the reference for the loop.\<close>

fun squash :: "string \<Rightarrow> string" where
  "squash (x # y # xs) =
     (if x = CHR ''-'' \<and> y = CHR ''-'' then squash (y # xs) else x # squash (y # xs))"
| "squash xs = xs"

lemma hd_squash [simp]: "s \<noteq> [] \<Longrightarrow> squash s \<noteq> [] \<and> hd (squash s) = hd s"
  by (induction s rule: squash.induct) auto

lemma squash_replace_ctx: "squash (c # replace_dashes s) = squash (c # s)"
proof (induction s arbitrary: c rule: replace_dashes.induct)
  case (1 x y xs)
  then show ?case by (cases "x = CHR ''-'' \<and> y = CHR ''-''") auto
qed auto

lemma squash_replace: "squash (replace_dashes s) = squash s"
proof (induction s rule: replace_dashes.induct)
  case (1 x y xs)
  then show ?case by (auto simp: squash_replace_ctx)
qed auto

lemma squash_no_double: "\<not> has_double_dash (squash s)"
proof (induction s rule: squash.induct)
  case (1 x y xs)
  then show ?case using hd_squash [of "y # xs"] by auto
qed auto

lemma squash_id: "\<not> has_double_dash s \<Longrightarrow> squash s = s"
  by (induction s rule: squash.induct) auto

lemma set_squash: "set (squash s) \<subseteq> set s"
  by (induction s rule: squash.induct) auto

lemma length_squash_le: "length (squash s) \<le> length s"
  by (induction s rule: squash.induct) auto

lemma length_squash_less: "has_double_dash s \<Longrightarrow> length (squash s) < length s"
proof (induction s rule: squash.induct)
  case (1 x y xs)
  show ?case
  proof (cases "x = CHR ''-'' \<and> y = CHR ''-''")
    case True
    with length_squash_le [of "y # xs"] show ?thesis by simp
  next
    case False
    with 1 show ?thesis by auto
  qed
qed auto

lemma collapse_dashes_eq: "collapse_dashes s = squash s"
proof (induction s rule: collapse_dashes.induct)
  case (1 s)
  show ?case
  proof (cases "has_double_dash s")
    case True
    with 1 show ?thesis by (subst collapse_dashes.simps) (simp add: squash_replace)
  next
    case False
    then show ?thesis by (subst collapse_dashes.simps) (simp add: squash_id)
  qed
qed

section \<open>Strings over the segment alphabet\<close>

definition alnum_char :: "char \<Rightarrow> bool" where
  "alnum_char c \<longleftrightarrow> is_ascii_alnum (byte c)"

definition allowed_char :: "char \<Rightarrow> bool" where
  "allowed_char c \<longleftrightarrow> is_allowed_instance_rune (byte c)"

abbreviation allowed :: "string \<Rightarrow> bool" where
  "allowed s \<equiv> list_all allowed_char s"

text \<open>The per-segment contract \<open>^[a-zA-Z0-9][a-zA-Z0-9_-]*$\<close> of the ingest gate.\<close>

definition valid_segment :: "string \<Rightarrow> bool" where
  "valid_segment s \<longleftrightarrow> s \<noteq> [] \<and> alnum_char (hd s) \<and> allowed s"

lemma alnum_rune_lt: "is_ascii_alnum r \<Longrightarrow> r < 128"
  by (auto simp: is_ascii_alnum_def ascii_lower_def ascii_upper_def ascii_digit_def)

lemma allowed_rune_lt: "is_allowed_instance_rune r \<Longrightarrow> r < 128"
  by (auto simp: is_allowed_instance_rune_def alnum_rune_lt)

lemma alnum_allowed: "alnum_char c \<Longrightarrow> allowed_char c"
  by (simp add: alnum_char_def allowed_char_def is_allowed_instance_rune_def)

lemma allowed_dash [simp]: "allowed_char (CHR ''-'')" "\<not> alnum_char (CHR ''-'')"
  by (simp_all add: allowed_char_def is_allowed_instance_rune_def alnum_char_def
      is_ascii_alnum_def ascii_lower_def ascii_upper_def ascii_digit_def)

lemma hex_char_alnum: "is_hex_char c \<Longrightarrow> alnum_char c"
  by (auto simp: is_hex_char_def alnum_char_def is_ascii_alnum_def ascii_lower_def)

lemma allowed_ascii: "allowed s \<Longrightarrow> is_ascii s"
  by (auto simp: is_ascii_def list_all_iff allowed_char_def dest!: allowed_rune_lt)

lemma allowed_subset: "set t \<subseteq> set s \<Longrightarrow> allowed s \<Longrightarrow> allowed t"
  by (auto simp: list_all_iff)

lemma sanitize_runes_allowed [simp]: "allowed (sanitize_runes s)"
proof -
  have "allowed (if is_allowed_instance_rune r then encode_rune r else ''-'')" for r
  proof (cases "is_allowed_instance_rune r")
    case True
    with allowed_rune_lt [of r] show ?thesis
      by (simp add: encode_rune_def allowed_char_def)
  qed (simp add: list_all_iff)
  then show ?thesis unfolding sanitize_runes_def list_all_iff by (metis (no_types, lifting) UN_E set_concat set_map imageE)
qed

lemma sanitize_runes_id: "allowed s \<Longrightarrow> sanitize_runes s = s"
proof (induction s)
  case (Cons c s)
  then have c: "is_allowed_instance_rune (byte c)" by (simp add: allowed_char_def)
  then have "byte c < (128 :: nat)" by (rule allowed_rune_lt)
  then have "sanitize_runes (c # s) = encode_rune (byte c) @ sanitize_runes s"
    using c by (simp add: sanitize_runes_def runes_ascii_Cons)
  with Cons c \<open>byte c < 128\<close> show ?case by (simp add: encode_rune_def)
qed (simp add: sanitize_runes_def)

lemma hash_allowed: "k \<le> 32 \<Longrightarrow> allowed (hex_hash k s)"
  by (auto simp: list_all_iff intro: alnum_allowed hex_char_alnum hex_hash_hex)

lemma short_hash_length [simp]: "length (short_hash s) = 8"
  by (simp add: short_hash_def)

lemma short_hash_valid: "valid_segment (short_hash s)"
proof -
  have ne: "short_hash s \<noteq> []" using short_hash_length [of s] by fastforce
  then have "is_hex_char (hd (short_hash s))"
    using hex_hash_hex [of "hd (short_hash s)" 4 s] by (simp add: short_hash_def)
  with ne show ?thesis
    by (simp add: valid_segment_def hex_char_alnum short_hash_def hash_allowed)
qed

lemma valid_segment_append: "valid_segment a \<Longrightarrow> allowed b \<Longrightarrow> valid_segment (a @ b)"
  by (simp add: valid_segment_def)

lemma valid_segment_ascii: "valid_segment s \<Longrightarrow> is_ascii s"
  by (simp add: valid_segment_def allowed_ascii)

lemma trim_func_alnum_eq:
  "allowed s \<Longrightarrow> trim_func non_alnum s = both_ends (\<lambda>c. \<not> alnum_char c) s"
  by (simp add: trim_func_ascii allowed_ascii non_alnum_def alnum_char_def)

lemma trim_valid:
  assumes "allowed s"
  shows "trim_func non_alnum s = [] \<or>
         (valid_segment (trim_func non_alnum s) \<and> alnum_char (last (trim_func non_alnum s)))"
proof -
  let ?t = "both_ends (\<lambda>c. \<not> alnum_char c) s"
  have "allowed ?t" using assms set_both_ends by (rule allowed_subset [rotated])
  then have "?t = [] \<or> (valid_segment ?t \<and> alnum_char (last ?t))"
    using both_ends_hd [of "\<lambda>c. \<not> alnum_char c" s] both_ends_last [of "\<lambda>c. \<not> alnum_char c" s]
    by (auto simp: valid_segment_def)
  with assms show ?thesis by (simp add: trim_func_alnum_eq)
qed

lemma trim_right_valid:
  assumes "valid_segment s"
  shows "valid_segment (trim_right_runes non_alnum s)"
    and "length (trim_right_runes non_alnum s) \<le> length s"
proof -
  let ?p = "\<lambda>c. \<not> alnum_char c"
  have eq: "trim_right_runes non_alnum s = rev (dropWhile ?p (rev s))"
    using assms by (simp add: trim_right_runes_ascii valid_segment_ascii non_alnum_def alnum_char_def)
  obtain c r where s: "s = c # r" "alnum_char c"
    using assms by (cases s) (auto simp: valid_segment_def)
  have "dropWhile ?p (rev r @ [c]) \<noteq> []" using s(2) by (simp add: dropWhile_append)
  moreover have "last (dropWhile ?p (rev r @ [c])) = c"
    using s(2) by (auto simp: dropWhile_append)
  moreover have "set (dropWhile ?p (rev s)) \<subseteq> set s" by (metis set_dropWhileD set_rev subsetI)
  ultimately show "valid_segment (trim_right_runes non_alnum s)"
    using assms s unfolding eq valid_segment_def
    by (auto simp: hd_rev list_all_iff)
  show "length (trim_right_runes non_alnum s) \<le> length s"
    unfolding eq by (metis length_dropWhile_le length_rev)
qed

section \<open>Slugs of strings over the alphabet\<close>

lemma str_index_byte: "str_index s [c] = index_byte s c"
  by (induction s) (subst str_index.simps, auto simp: has_prefix_def)+

lemma index_byte_None: "index_byte s c = None \<longleftrightarrow> c \<notin> set s"
  by (induction s) auto

lemma str_cut_absent: "c \<notin> set s \<Longrightarrow> str_cut s [c] = (s, [], False)"
  using index_byte_None [of s c] by (simp add: str_cut_def str_index_byte)

lemma not_allowed_chars:
  "\<not> allowed_char (CHR ''.'')" "\<not> allowed_char (CHR ''/'')" "\<not> allowed_char (CHR '':'')"
  "\<not> allowed_char (CHR ''#'')" "\<not> allowed_char (CHR ''?'')" "\<not> allowed_char (CHR ''*'')"
  by (simp_all add: allowed_char_def is_allowed_instance_rune_def is_ascii_alnum_def
      ascii_lower_def ascii_upper_def ascii_digit_def)

lemma allowed_notin: "allowed s \<Longrightarrow> \<not> allowed_char c \<Longrightarrow> c \<notin> set s"
  by (auto simp: list_all_iff)

lemma allowed_no_prefix: "allowed s \<Longrightarrow> p \<noteq> [] \<Longrightarrow> \<not> allowed_char (hd p) \<Longrightarrow> \<not> has_prefix s p"
  by (cases p; cases s) (auto simp: has_prefix_def)

lemma allowed_no_suffix:
  assumes "allowed s" and "p \<noteq> []" and "\<not> allowed_char (hd p)"
  shows "\<not> has_suffix s p"
proof
  assume "has_suffix s p"
  then have "set p \<subseteq> set s" unfolding has_suffix_def by (metis set_drop_subset)
  moreover have "hd p \<in> set p" using assms(2) by simp
  ultimately show False using assms(1,3) by (auto simp: list_all_iff)
qed

lemma byte_dash: "(byte c = (45 :: nat)) = (c = CHR ''-'')"
proof -
  have "(byte c = (45 :: nat)) = (of_char c = (of_char (CHR ''-'') :: nat))" by simp
  then show ?thesis by (simp only: of_char_eq_iff)
qed

lemma byte_underscore: "(byte c = (95 :: nat)) = (c = CHR ''_'')"
proof -
  have "(byte c = (95 :: nat)) = (of_char c = (of_char (CHR ''_'') :: nat))" by simp
  then show ?thesis by (simp only: of_char_eq_iff)
qed

lemma get_scheme_allowed: "allowed s \<Longrightarrow> get_scheme i whole s = Some ([], whole)"
  by (rule get_scheme_none)
    (auto simp: list_all_iff allowed_char_def is_allowed_instance_rune_def is_ascii_alnum_def
      byte_dash byte_underscore)

lemma url_parse_allowed: "allowed s \<Longrightarrow> url_parse s = None \<or> (\<exists>u. url_parse s = Some u \<and> u_host u = [])"
proof -
  assume a: "allowed s"
  note absent = allowed_notin [OF a] not_allowed_chars
  have cut: "str_cut s ''#'' = (s, [], False)" "str_cut s ''?'' = (s, [], False)"
    "str_cut s ''/'' = (s, [], False)" "\<not> str_contains s '':''"
    using absent by (auto simp: str_cut_absent str_contains_def str_index_byte index_byte_None)
  have pre: "\<not> has_prefix s ''/''" "\<not> has_prefix s ''//''"
    using allowed_no_prefix [OF a] not_allowed_chars(2) by simp_all
  show ?thesis
    using get_scheme_allowed [OF a] cut pre
    by (auto simp: url_parse_def parse_no_frag_def split: option.splits)
qed

lemma slug_source_allowed: "allowed s \<Longrightarrow> slug_source s = s"
proof -
  assume a: "allowed s"
  have "\<not> has_suffix s ''.git''" "\<not> has_prefix s ''./''" "\<not> is_abs s"
    using allowed_no_suffix [OF a] allowed_no_prefix [OF a] not_allowed_chars
    by (simp_all add: is_abs_def)
  with url_parse_allowed [OF a] show ?thesis
    by (auto simp: slug_source_def trim_prefix_def trim_suffix_def)
qed

lemma slug_core_allowed:
  "allowed s \<Longrightarrow> slug_core s = both_ends (\<lambda>c. \<not> alnum_char c) (squash s)"
  using allowed_subset [OF set_squash]
  by (simp add: slug_core_def slug_source_allowed sanitize_runes_id collapse_dashes_eq
      trim_func_alnum_eq)

lemma has_double_dash_append: "has_double_dash t \<Longrightarrow> has_double_dash (a @ t @ b)"
proof (induction a)
  case Nil
  then show ?case
  proof (induction t)
    case (Cons c t)
    then show ?case by (cases t) auto
  qed simp
qed simp

lemma slug_core_cases:
  "slug_core p = [] \<or> (valid_segment (slug_core p) \<and> alnum_char (last (slug_core p)))"
  "\<not> has_double_dash (slug_core p)"
proof -
  let ?s = "squash (sanitize_runes (slug_source p))"
  have a: "allowed ?s" by (rule allowed_subset [OF set_squash]) simp
  then show "slug_core p = [] \<or> (valid_segment (slug_core p) \<and> alnum_char (last (slug_core p)))"
    using trim_valid by (simp add: slug_core_def collapse_dashes_eq)
  have "slug_core p = both_ends (\<lambda>c. \<not> alnum_char c) ?s"
    using a by (simp add: slug_core_def collapse_dashes_eq trim_func_alnum_eq)
  then show "\<not> has_double_dash (slug_core p)"
    using both_ends_split squash_no_double has_double_dash_append by metis
qed

lemma slug_core_fixed:
  assumes "allowed s" and "\<not> has_double_dash s" and "s = [] \<or> (alnum_char (hd s) \<and> alnum_char (last s))"
  shows "slug_core s = s"
  using assms by (simp add: slug_core_allowed squash_id both_ends_id)

text \<open>The capped form: 73 bytes of the slug, a dash and six hex digits.\<close>

definition capped :: "string \<Rightarrow> string" where
  "capped c = take 73 c @ ''-'' @ hex_hash 3 c"

lemma system_slug_cases:
  "system_slug p = (if length (slug_core p) \<le> 80 then slug_core p else capped (slug_core p))"
  by (simp add: system_slug_def capped_def max_system_slug_len_def Let_def)

lemma capped_props:
  assumes "valid_segment c" and "80 < length c"
  shows "valid_segment (capped c)" "length (capped c) = 80" "alnum_char (last (capped c))"
proof -
  have "allowed (take 73 c)" using assms(1) set_take_subset [of 73 c]
    by (auto simp: valid_segment_def intro: allowed_subset)
  moreover have "take 73 c \<noteq> []" "hd (take 73 c) = hd c" using assms by (auto simp: valid_segment_def)
  ultimately have "valid_segment (take 73 c)" using assms(1) by (simp add: valid_segment_def)
  then show "valid_segment (capped c)"
    unfolding capped_def by (rule valid_segment_append) (simp add: hash_allowed)
  show "length (capped c) = 80" using assms(2) by (simp add: capped_def)
  have "hex_hash 3 c \<noteq> []" using length_hex_hash [of 3 c] by fastforce
  then have "last (capped c) \<in> set (hex_hash 3 c)" by (simp add: capped_def)
  then show "alnum_char (last (capped c))" by (blast intro: hex_char_alnum hex_hash_hex)
qed

lemma has_double_dash_snoc:
  "has_double_dash (s @ [c]) \<longleftrightarrow> has_double_dash s \<or> (s \<noteq> [] \<and> last s = CHR ''-'' \<and> c = CHR ''-'')"
  by (induction s) (auto simp: hd_append)

lemma has_double_dash_join:
  "s \<noteq> [] \<Longrightarrow> t \<noteq> [] \<Longrightarrow> has_double_dash (s @ t) \<longleftrightarrow>
   has_double_dash s \<or> has_double_dash t \<or> (last s = CHR ''-'' \<and> hd t = CHR ''-'')"
  by (induction s) (auto simp: hd_append)

lemma has_double_dash_take: "has_double_dash (take n s) \<Longrightarrow> has_double_dash s"
  using has_double_dash_append [of "take n s" "[]" "drop n s"] by simp

lemma hex_no_double: "\<not> has_double_dash (hex_hash 3 s)"
proof -
  have "list_all alnum_char t \<Longrightarrow> \<not> has_double_dash t" for t
    by (induction t) auto
  moreover have "list_all alnum_char (hex_hash 3 s)"
    by (auto simp: list_all_iff intro: hex_char_alnum hex_hash_hex)
  ultimately show ?thesis by blast
qed

lemma capped_double_dash:
  assumes "\<not> has_double_dash c" and "80 < length c"
  shows "has_double_dash (capped c) \<longleftrightarrow> c ! 72 = CHR ''-''"
proof -
  have h: "hex_hash 3 c \<noteq> []" using length_hex_hash [of 3 c] by fastforce
  have "last (take 73 c) = c ! 72"
    using assms(2) by (subst last_conv_nth) auto
  moreover have "take 73 c \<noteq> []" using assms(2) by auto
  moreover have "\<not> has_double_dash (take 73 c)" using assms(1) has_double_dash_take by blast
  moreover have "hd (hex_hash 3 c) \<noteq> CHR ''-''"
    using h by (metis allowed_dash(2) hd_in_set hex_char_alnum hex_hash_hex)
  ultimately show ?thesis
    using h hex_no_double [of c]
    by (simp add: capped_def has_double_dash_join)
qed

section \<open>Sanitized instances and segments\<close>

text \<open>What a segment must be for the instance sanitizer to leave it alone.\<close>

definition canonical_instance :: "string \<Rightarrow> bool" where
  "canonical_instance s \<longleftrightarrow>
     valid_segment s \<and> \<not> has_double_dash s \<and> alnum_char (last s) \<and> length s \<le> max_instance_len"

lemma sanitize_instance_fixed:
  assumes "canonical_instance s"
  shows "sanitize_instance s = s"
proof -
  have "allowed s" "s \<noteq> []" "alnum_char (hd s)" "alnum_char (last s)" "\<not> has_double_dash s"
    using assms by (auto simp: canonical_instance_def valid_segment_def)
  then have "trim_func non_alnum (collapse_dashes (sanitize_runes s)) = s"
    by (simp add: sanitize_runes_id collapse_dashes_eq squash_id trim_func_alnum_eq both_ends_id)
  with \<open>s \<noteq> []\<close> assms show ?thesis
    by (simp add: sanitize_instance_def canonical_instance_def Let_def)
qed

lemma hash_no_double: "\<not> has_double_dash (hex_hash k s)"
proof -
  have "list_all alnum_char t \<Longrightarrow> \<not> has_double_dash t" for t
    by (induction t) auto
  moreover have "list_all alnum_char (hex_hash k s)"
    by (auto simp: list_all_iff intro: hex_char_alnum hex_hash_hex)
  ultimately show ?thesis by blast
qed

lemma short_hash_ends: "short_hash s \<noteq> []" "alnum_char (hd (short_hash s))"
  "alnum_char (last (short_hash s))" "\<not> has_double_dash (short_hash s)"
proof -
  show ne: "short_hash s \<noteq> []" using short_hash_length [of s] by fastforce
  have "c \<in> set (short_hash s) \<Longrightarrow> alnum_char c" for c
    unfolding short_hash_def by (blast intro: hex_char_alnum hex_hash_hex)
  with ne show "alnum_char (hd (short_hash s))" "alnum_char (last (short_hash s))" by auto
  show "\<not> has_double_dash (short_hash s)" by (simp add: short_hash_def hash_no_double)
qed

lemma short_hash_canonical: "canonical_instance (short_hash s)"
  by (simp add: canonical_instance_def short_hash_valid short_hash_ends max_instance_len_def)

lemma trim_right_alnum_last:
  assumes "valid_segment s"
  shows "alnum_char (last (trim_right_runes non_alnum s))"
    and "\<not> has_double_dash s \<Longrightarrow> \<not> has_double_dash (trim_right_runes non_alnum s)"
proof -
  let ?p = "\<lambda>c. \<not> alnum_char c"
  have eq: "trim_right_runes non_alnum s = rev (dropWhile ?p (rev s))"
    using assms by (simp add: trim_right_runes_ascii valid_segment_ascii non_alnum_def alnum_char_def)
  have "dropWhile ?p (rev s) \<noteq> []" using trim_right_valid(1) [OF assms] eq
    by (auto simp: valid_segment_def)
  then show "alnum_char (last (trim_right_runes non_alnum s))"
    using hd_dropWhile [of ?p "rev s"] unfolding eq last_rev by blast
  have "s = rev (dropWhile ?p (rev s)) @ rev (takeWhile ?p (rev s))"
    by (metis rev_append rev_rev_ident takeWhile_dropWhile_id)
  then show "\<not> has_double_dash s \<Longrightarrow> \<not> has_double_dash (trim_right_runes non_alnum s)"
    unfolding eq by (metis append_Nil has_double_dash_append)
qed

lemma valid_segment_take: "valid_segment s \<Longrightarrow> 0 < n \<Longrightarrow> valid_segment (take n s)"
  using allowed_subset [OF set_take_subset, of s n] by (auto simp: valid_segment_def)

lemma sanitize_instance_canonical: "canonical_instance (sanitize_instance s)"
proof -
  let ?q = "squash (sanitize_runes s)"
  define out where "out = trim_func non_alnum (collapse_dashes (sanitize_runes s))"
  have a: "allowed ?q" by (rule allowed_subset [OF set_squash]) simp
  have out: "out = both_ends (\<lambda>c. \<not> alnum_char c) ?q"
    using a by (simp add: out_def collapse_dashes_eq trim_func_alnum_eq)
  have nd: "\<not> has_double_dash out"
    unfolding out using both_ends_split squash_no_double has_double_dash_append by metis
  consider "out = []" | "out \<noteq> []" "length out \<le> 60" | "out \<noteq> []" "60 < length out"
    by linarith
  then show ?thesis
  proof cases
    case 1
    then show ?thesis
      by (simp add: sanitize_instance_def Let_def out_def [symmetric] short_hash_canonical)
  next
    case 2
    then have "canonical_instance out"
      using trim_valid [OF a] nd
      by (simp add: canonical_instance_def out_def collapse_dashes_eq max_instance_len_def)
    with 2 show ?thesis
      by (simp add: sanitize_instance_def Let_def out_def [symmetric] max_instance_len_def)
  next
    case 3
    have v: "valid_segment out" using 3 trim_valid [OF a] by (simp add: out_def collapse_dashes_eq)
    let ?t = "take 51 out"
    have t: "valid_segment ?t" "\<not> has_double_dash ?t"
      using valid_segment_take [OF v, of 51] nd has_double_dash_take [of 51 out] by auto
    let ?k = "trim_right_runes non_alnum ?t"
    have k: "valid_segment ?k" "length ?k \<le> 51" "alnum_char (last ?k)" "\<not> has_double_dash ?k"
      using trim_right_valid [OF t(1)] trim_right_alnum_last [OF t(1)] t(2) 3 by auto
    have "sanitize_instance s = ?k @ ''-'' @ short_hash s"
      using 3 k(1) unfolding sanitize_instance_def Let_def out_def [symmetric]
      by (simp add: max_instance_len_def valid_segment_def)
    moreover have "\<not> has_double_dash (?k @ ''-'' @ short_hash s)"
      using k short_hash_ends [of s]
      by (subst has_double_dash_join) (auto simp: valid_segment_def)
    moreover have "valid_segment (?k @ ''-'' @ short_hash s)"
      using k(1) short_hash_valid [of s]
      by (intro valid_segment_append) (auto simp: valid_segment_def)
    moreover have "length (?k @ ''-'' @ short_hash s) \<le> 60" using k(2) by simp
    moreover have "last (?k @ ''-'' @ short_hash s) = last (short_hash s)"
      using short_hash_ends(1) [of s] by simp
    ultimately show ?thesis
      using short_hash_ends(3) [of s] by (auto simp only: canonical_instance_def max_instance_len_def)
  qed
qed

lemma trim_left_valid:
  assumes "allowed s"
  shows "trim_left_runes non_alnum s = [] \<or> valid_segment (trim_left_runes non_alnum s)"
    and "valid_segment s \<Longrightarrow> trim_left_runes non_alnum s = s"
proof -
  have eq: "trim_left_runes non_alnum s = dropWhile (\<lambda>c. \<not> alnum_char c) s"
    using assms by (simp add: trim_left_runes_ascii allowed_ascii non_alnum_def alnum_char_def)
  have "allowed (dropWhile (\<lambda>c. \<not> alnum_char c) s)"
    using assms set_dropWhileD by (metis allowed_subset subsetI)
  then show "trim_left_runes non_alnum s = [] \<or> valid_segment (trim_left_runes non_alnum s)"
    unfolding eq valid_segment_def using hd_dropWhile by blast
  show "valid_segment s \<Longrightarrow> trim_left_runes non_alnum s = s"
    unfolding eq by (cases s) (auto simp: valid_segment_def)
qed

lemma sanitize_segment_valid: "valid_segment (sanitize_segment s)"
proof -
  let ?o = "trim_left_runes non_alnum (sanitize_runes s)"
  have "valid_segment (x @ ''-'' @ short_hash s)" if "valid_segment x" for x
    using that short_hash_valid [of s]
    by (intro valid_segment_append) (auto simp: valid_segment_def)
  with trim_left_valid(1) [of "sanitize_runes s"] show ?thesis
    by (auto simp: sanitize_segment_def Let_def short_hash_valid)
qed

lemma sanitize_segment_fixed: "valid_segment s \<Longrightarrow> sanitize_segment s = s"
  using trim_left_valid(2) [of s]
  by (auto simp: sanitize_segment_def Let_def valid_segment_def sanitize_runes_id)

section \<open>Keys\<close>

definition key_char :: "char \<Rightarrow> bool" where
  "key_char c \<longleftrightarrow> 33 \<le> (byte c :: nat) \<and> (byte c :: nat) \<le> 126 \<and> c \<notin> set nats_kv_forbidden"

lemma decode_bytes_large: "128 \<le> b \<Longrightarrow> 128 \<le> fst (decode_bytes (b # r))"
proof -
  assume ge: "128 \<le> b"
  have err: "128 \<le> rune_error" by (simp add: rune_error_def)
  consider "194 \<le> b \<and> b \<le> 223" | "224 \<le> b \<and> b \<le> 239" | "240 \<le> b \<and> b \<le> 244"
    | "b < 194 \<or> 244 < b" by linarith
  then show ?thesis
  proof cases
    case 1
    then show ?thesis using err
      by (auto simp: decode_bytes_def split: list.split)
  next
    case 2
    then have "b - 224 = 0 \<longrightarrow> b = 224" by simp
    with 2 show ?thesis using err
      by (cases "b = 224") (auto simp: decode_bytes_def split: list.split)
  next
    case 3
    then show ?thesis using err
      by (cases "b = 240") (auto simp: decode_bytes_def split: list.split)
  next
    case 4
    with ge err show ?thesis by (auto simp: decode_bytes_def)
  qed
qed

lemma decode_rune_small:
  assumes "s \<noteq> []" and "fst (decode_rune s) < 128"
  shows "byte (hd s) < (128 :: nat)"
proof -
  obtain c r where s: "s = c # r" using assms(1) by (cases s) auto
  have "128 \<le> (byte c :: nat) \<Longrightarrow> 128 \<le> fst (decode_bytes (byte c # map byte (take 3 r)))"
    by (rule decode_bytes_large)
  with assms(2) s show ?thesis by (auto simp: decode_rune_def simp flip: not_le)
qed

lemma runes_small_ascii: "list_all (\<lambda>r. r < 128) (runes s) \<Longrightarrow> is_ascii s"
proof (induction s rule: runes.induct)
  case (1 s)
  show ?case
  proof (cases s)
    case (Cons c t)
    have "fst (decode_rune s) < 128" using 1(2) Cons by (subst (asm) runes.simps) simp
    with decode_rune_small [of s] Cons have c: "byte c < (128 :: nat)" by simp
    then have "snd (decode_rune s) = 1" using Cons by (simp add: decode_rune_ascii)
    with 1 Cons c have "list_all (\<lambda>r. r < 128) (runes t) \<Longrightarrow> is_ascii t" by simp
    with 1(2) Cons c show ?thesis by (simp add: runes_ascii_Cons)
  qed simp
qed

lemma validate_key_runes_iff:
  "validate_key_runes rs = None \<longleftrightarrow>
   list_all (\<lambda>r. r \<notin> set (runes nats_kv_forbidden) \<and> 33 \<le> r \<and> r \<le> 126) rs"
  by (induction rs) (auto simp: not_less not_le)

lemma forbidden_runes: "set (runes nats_kv_forbidden) = byte ` set nats_kv_forbidden"
  by (simp add: runes_ascii nats_kv_forbidden_def)

lemma key_char_rune:
  "byte c \<notin> set (runes nats_kv_forbidden) \<and> 33 \<le> (byte c :: nat) \<and> byte c \<le> (126 :: nat)
   \<longleftrightarrow> key_char c"
  unfolding forbidden_runes key_char_def by (auto simp: image_iff)

lemma validate_key_chars:
  "validate_nats_kv_key k = None \<longleftrightarrow> k \<noteq> [] \<and> list_all key_char k"
proof (cases "is_ascii k")
  case True
  then show ?thesis
    by (simp add: validate_nats_kv_key_def validate_key_runes_iff runes_ascii list_all_iff key_char_rune)
next
  case False
  have "\<not> list_all (\<lambda>r. r \<notin> set (runes nats_kv_forbidden) \<and> 33 \<le> r \<and> r \<le> 126) (runes k)"
  proof
    assume "list_all (\<lambda>r. r \<notin> set (runes nats_kv_forbidden) \<and> 33 \<le> r \<and> r \<le> 126) (runes k)"
    then have "list_all (\<lambda>r. r < 128) (runes k)" by (auto simp: list_all_iff)
    with False show False by (simp add: runes_small_ascii)
  qed
  moreover have "\<not> list_all key_char k"
    using False by (force simp: is_ascii_def list_all_iff key_char_def)
  moreover have "k \<noteq> []" using False by auto
  ultimately show ?thesis by (simp add: validate_nats_kv_key_def validate_key_runes_iff)
qed

lemma allowed_key_char: "allowed_char c \<Longrightarrow> key_char c"
  by (auto simp: allowed_char_def is_allowed_instance_rune_def is_ascii_alnum_def ascii_lower_def
      ascii_upper_def ascii_digit_def key_char_def nats_kv_forbidden_def)

section \<open>The contract of a segment sanitizer\<close>

text \<open>
  What the builders rely on when they sanitize a part of an identifier: the result is a valid
  segment, and a second pass changes nothing. The facts on whole identifiers follow from it.
\<close>

lemma str_split_join:
  "xs \<noteq> [] \<Longrightarrow> list_all (\<lambda>x. c \<notin> set x) xs \<Longrightarrow> str_split (str_join xs [c]) c = xs"
proof (induction xs rule: induct_list012)
  case (2 x)
  then show ?case by (induction x) auto
next
  case (3 x y zs)
  have "c \<notin> set x \<Longrightarrow> str_split (x @ c # t) c = x # str_split t c" for t
    by (induction x) auto
  with 3 show ?case by simp
qed simp

lemma set_str_join: "set (str_join xs sep) \<subseteq> (\<Union>x \<in> set xs. set x) \<union> set sep"
  by (induction xs sep rule: str_join.induct) auto

lemma valid_segment_no_dot: "valid_segment s \<Longrightarrow> CHR ''.'' \<notin> set s"
  using not_allowed_chars(1) by (auto simp: valid_segment_def list_all_iff)

lemma id_join_split:
  "xs \<noteq> [] \<Longrightarrow> list_all valid_segment xs \<Longrightarrow> str_split (id_join xs) (CHR ''.'') = xs"
  unfolding id_join_def
  by (rule str_split_join) (auto simp: list_all_iff dest: valid_segment_no_dot)

lemma id_join_key:
  assumes "xs \<noteq> []" and "list_all valid_segment xs"
  shows "validate_nats_kv_key (id_join xs) = None"
proof -
  have "key_char (CHR ''.'')" by (simp add: key_char_def nats_kv_forbidden_def)
  moreover have "key_char c" if "x \<in> set xs" "c \<in> set x" for x c
    using assms(2) that by (auto simp: list_all_iff valid_segment_def intro: allowed_key_char)
  ultimately have "list_all key_char (id_join xs)"
    using set_str_join [of xs "''.''"] by (auto simp: id_join_def list_all_iff)
  moreover have "id_join xs \<noteq> []"
    using id_join_split [OF assms] assms by (auto simp: valid_segment_def)
  ultimately show ?thesis by (simp add: validate_key_chars)
qed

locale segment_sanitizer =
  fixes san :: "string \<Rightarrow> string"
  assumes san_valid: "valid_segment (san s)"
    and san_again: "san (san s) = san s"
begin

lemma san_key: "xs \<noteq> [] \<Longrightarrow> validate_nats_kv_key (id_join (map san xs)) = None"
  by (rule id_join_key) (auto simp: list_all_iff san_valid)

lemma san_split: "xs \<noteq> [] \<Longrightarrow> str_split (id_join (map san xs)) (CHR ''.'') = map san xs"
  by (rule id_join_split) (auto simp: list_all_iff san_valid)

lemma san_fixed_valid: "san s = s \<Longrightarrow> valid_segment s"
  using san_valid [of s] by simp

end

interpretation instance_sanitizer: segment_sanitizer sanitize_instance
  by unfold_locales
    (use sanitize_instance_canonical sanitize_instance_fixed in \<open>auto simp: canonical_instance_def\<close>)

interpretation fragment_sanitizer: segment_sanitizer sanitize_segment
  by unfold_locales (simp_all add: sanitize_segment_valid sanitize_segment_fixed)

section \<open>Bounds of the assembled identifier\<close>

lemma trim_right_runes_prefix: "\<exists>n. trim_right_runes p s = take n s"
proof (induction p s rule: trim_right_runes.induct)
  case (1 p s)
  show ?case
  proof (cases "s \<noteq> [] \<and> p (fst (decode_last_rune s))")
    case True
    with 1 show ?thesis by (subst trim_right_runes.simps) (metis take_take)
  next
    case False
    then show ?thesis by (subst trim_right_runes.simps) (metis take_all order_refl)
  qed
qed

lemma trim_right_runes_le: "length (trim_right_runes p s) \<le> length s"
  using trim_right_runes_prefix [of p s] by auto

lemma bound_instance_length:
  "int (length (bound_instance M k inst)) \<le> max 8 (M - k)"
proof (cases "M - k < 10")
  case True
  then show ?thesis by (simp add: bound_instance_def Let_def)
next
  case False
  let ?t = "trim_right_runes (\<lambda>r. \<not> is_ascii_alnum r) (take (nat (M - k - 9)) inst)"
  have "length ?t \<le> nat (M - k - 9)"
    using trim_right_runes_le [of _ "take (nat (M - k - 9)) inst"] by (simp add: min.coboundedI2)
  with False show ?thesis
    by (auto simp: bound_instance_def Let_def)
qed

lemma id_join_six:
  "id_join [a, b, c, d, e, f] = a @ ''.'' @ b @ ''.'' @ c @ ''.'' @ d @ ''.'' @ e @ ''.'' @ f"
  by (simp add: id_join_def)

lemma build_id_length:
  assumes "int (length org + length platform + length system + length domain + length ty) + 13 \<le> M"
  shows "int (length (build_id M org platform system domain ty inst)) \<le> M"
proof -
  let ?k = "int (length org + length platform + length system + length domain + length ty) + 5"
  have k: "int (length (id_join [org, platform, system, domain, ty, inst])) - int (length inst) = ?k"
    by (simp add: id_join_six)
  have "int (length (bound_instance M ?k inst)) \<le> M - ?k"
    using bound_instance_length [of M ?k inst] assms by simp
  then have "int (length (id_join [org, platform, system, domain, ty, bound_instance M ?k inst])) \<le> M"
    by (simp add: id_join_six)
  then show ?thesis unfolding build_id_def Let_def k
    by (cases "int (length (id_join [org, platform, system, domain, ty, inst])) \<le> M") simp_all
qed

lemma bound_instance_valid:
  assumes "valid_segment inst"
  shows "valid_segment (bound_instance M k inst)"
proof (cases "M - k < 10")
  case True
  then show ?thesis by (simp add: bound_instance_def Let_def short_hash_valid)
next
  case False
  let ?t = "trim_right_runes (\<lambda>r. \<not> is_ascii_alnum r) (take (nat (M - k - 9)) inst)"
  have "valid_segment ?t"
    using trim_right_valid(1) [OF valid_segment_take [OF assms]] False
    by (simp add: non_alnum_def [abs_def])
  then have "valid_segment (?t @ ''-'' @ short_hash inst)"
    using short_hash_valid [of inst] by (intro valid_segment_append) (auto simp: valid_segment_def)
  with False show ?thesis by (auto simp: bound_instance_def Let_def short_hash_valid)
qed

lemma build_id_segments:
  "\<exists>i. build_id M org platform system domain ty inst = id_join [org, platform, system, domain, ty, i]
       \<and> (valid_segment inst \<longrightarrow> valid_segment i)"
  unfolding build_id_def Let_def using bound_instance_valid by (auto split: if_splits)

lemma index_byte_append: "c \<notin> set a \<Longrightarrow> index_byte (a @ c # b) c = Some (length a)"
  by (induction a) auto

lemma str_split_n_step:
  "c \<notin> set a \<Longrightarrow> str_split_n (Suc (Suc n)) (a @ c # b) c = a # str_split_n (Suc n) b c"
  by (simp add: index_byte_append)

section \<open>Canonical URLs\<close>

lemma str_index_Cons:
  "str_index (c # s) p = (if has_prefix (c # s) p then Some 0 else map_option Suc (str_index s p))"
  by (subst str_index.simps) simp

lemma str_index_Some: "str_index s p = Some i \<Longrightarrow> \<exists>t. s = take i s @ p @ t \<and> length (take i s) = i"
proof (induction s arbitrary: i)
  case Nil
  then show ?case by (subst (asm) str_index.simps) (auto simp: has_prefix_def split: if_splits)
next
  case (Cons c s)
  show ?case
  proof (cases "has_prefix (c # s) p")
    case True
    with Cons(2) show ?thesis by (simp add: str_index_Cons has_prefix_def) (metis append_take_drop_id)
  next
    case False
    with Cons(2) obtain j where "i = Suc j" "str_index s p = Some j" by (auto simp: str_index_Cons)
    with Cons(1) [of j] show ?thesis by auto
  qed
qed

text \<open>Rewriting the text before the first occurrence, bytewise and without touching or creating
  bytes of the pattern, leaves the occurrence where it is.\<close>

lemma str_index_map_before:
  assumes "\<And>c. f c \<in> set p \<longleftrightarrow> c \<in> set p" and "\<And>c. c \<in> set p \<Longrightarrow> f c = c"
  shows "str_index s p = Some i \<Longrightarrow> str_index (map f (take i s) @ p @ x) p = Some i"
proof (induction s arbitrary: i)
  case Nil
  then show ?case
    by (subst (asm) str_index.simps) (auto simp: has_prefix_def str_index.simps split: if_splits)
next
  case (Cons c s)
  show ?case
  proof (cases "has_prefix (c # s) p")
    case True
    with Cons(2) show ?thesis by (auto simp: str_index_Cons has_prefix_def str_index.simps)
  next
    case False
    with Cons(2) obtain j where j: "i = Suc j" "str_index s p = Some j" by (auto simp: str_index_Cons)
    from str_index_Some [OF j(2)] obtain t where t: "s = take j s @ p @ t" by blast
    let ?w = "c # take j s"
    let ?n = "length p"
    have eq: "u = p" if "map f u = p" for u
    proof -
      have "f d = d" if "d \<in> set u" for d
        using that \<open>map f u = p\<close> assms by (metis image_eqI set_map)
      then have "map f u = u" by (simp add: map_idI)
      with that show ?thesis by simp
    qed
    have fp: "map f p = p" using assms(2) by (simp add: map_idI)
    have "take ?n (map f ?w @ p @ x) = map f (take ?n (?w @ p))"
      by (metis append_assoc append_eq_append_conv_if append_take_drop_id fp length_append
          length_map map_append take_map take_append le_add2 diff_is_0_eq take0 append_Nil2)
    moreover have "take ?n (?w @ p) = take ?n (c # s)"
    proof -
      from t have "c # s = (?w @ p) @ t" by simp
      then show ?thesis by (simp only: take_append) simp
    qed
    moreover have "take ?n (c # s) \<noteq> p" using False by (simp add: has_prefix_def)
    ultimately have "\<not> has_prefix (map f ?w @ p @ x) p" using eq by (metis has_prefix_def)
    with Cons(1) [OF j(2)] j(1) show ?thesis by (simp add: str_index_Cons)
  qed
qed

lemma lower_byte_eq: "\<not> ascii_upper (byte d) \<Longrightarrow> \<not> ascii_lower (byte d) \<Longrightarrow> lower_byte c = d \<longleftrightarrow> c = d"
proof -
  assume d: "\<not> ascii_upper (byte d)" "\<not> ascii_lower (byte d)"
  show ?thesis
  proof (cases "ascii_upper (byte c)")
    case True
    then have "byte c + 32 < (256 :: nat)" by (auto simp: ascii_upper_def)
    then have "byte (lower_byte c) = (byte c + 32 :: nat)"
      using True by (simp add: lower_byte_def of_char_of)
    then have "ascii_lower (byte (lower_byte c))"
      using True by (auto simp: ascii_upper_def ascii_lower_def)
    with True d show ?thesis by auto
  qed (auto simp: lower_byte_def)
qed

lemma byte_lower: "byte (lower_byte c) = (if ascii_upper (byte c) then byte c + 32 else byte c :: nat)"
  by (auto simp: lower_byte_def of_char_of ascii_upper_def)

lemma lower_byte_idem [simp]: "lower_byte (lower_byte c) = lower_byte c"
proof -
  have "\<not> ascii_upper (byte (lower_byte c))" by (auto simp: byte_lower ascii_upper_def)
  then show ?thesis by (simp add: lower_byte_def [of "lower_byte c"])
qed

lemma lower_byte_ascii: "byte c < (128 :: nat) \<Longrightarrow> byte (lower_byte c) < (128 :: nat)"
  by (auto simp: byte_lower ascii_upper_def)

lemma trim_right_bytes_idem: "trim_right_bytes p (trim_right_bytes p s) = trim_right_bytes p s"
proof -
  have "dropWhile p (dropWhile p t) = dropWhile p t" for t
    by (induction t) auto
  then show ?thesis by (simp add: trim_right_bytes_def)
qed

lemma trim_right_bytes_prefix: "\<exists>t. s = trim_right_bytes p s @ t"
  by (metis rev_append rev_rev_ident takeWhile_dropWhile_id trim_right_bytes_def)

lemma has_prefix_append: "has_prefix s p \<Longrightarrow> has_prefix (s @ t) p"
  by (auto simp: has_prefix_def) (metis append_take_drop_id length_take min.absorb_iff2 min_def take_all_iff)

lemma str_index_prefix_None: "str_index (s @ t) p = None \<Longrightarrow> str_index s p = None"
proof (induction s)
  case Nil
  show ?case
  proof (cases "p = []")
    case True
    with Nil show ?thesis by (subst (asm) str_index.simps) (simp add: has_prefix_def)
  next
    case False
    then show ?thesis by (subst str_index.simps) (simp add: has_prefix_def)
  qed
next
  case (Cons c s)
  then show ?case using has_prefix_append [of "c # s" p t]
    by (auto simp: str_index_Cons split: if_splits)
qed

lemma cut_takeWhile: "(case str_index s [c] of None \<Rightarrow> s | Some j \<Rightarrow> take j s) = takeWhile (\<lambda>d. d \<noteq> c) s"
proof -
  have "(case index_byte s c of None \<Rightarrow> s | Some j \<Rightarrow> take j s) = takeWhile (\<lambda>d. d \<noteq> c) s"
    by (induction s) (auto split: option.splits)
  then show ?thesis by (simp only: str_index_byte)
qed

lemma cut_pair:
  "(case str_index s [c] of None \<Rightarrow> (s, []) | Some j \<Rightarrow> (take j s, drop j s))
   = (takeWhile (\<lambda>d. d \<noteq> c) s, dropWhile (\<lambda>d. d \<noteq> c) s)"
proof -
  have "(case index_byte s c of None \<Rightarrow> (s, []) | Some j \<Rightarrow> (take j s, drop j s))
   = (takeWhile (\<lambda>d. d \<noteq> c) s, dropWhile (\<lambda>d. d \<noteq> c) s)"
    by (induction s) (auto split: option.splits)
  then show ?thesis by (simp only: str_index_byte)
qed

lemma canonicalize_url_cases:
  "canonicalize_url u raw =
    (if raw = [] then []
     else case str_index raw ''://'' of
       None \<Rightarrow> trim_right_bytes (\<lambda>c. c = CHR ''/'') raw
     | Some i \<Rightarrow>
        (let rest = takeWhile (\<lambda>d. d \<noteq> CHR ''?'') (takeWhile (\<lambda>d. d \<noteq> CHR ''#'') (drop (i + 3) raw))
         in to_lower u (take i raw) @ ''://'' @ to_lower u (takeWhile (\<lambda>d. d \<noteq> CHR ''/'') rest)
            @ trim_right_bytes (\<lambda>c. c = CHR ''/'') (dropWhile (\<lambda>d. d \<noteq> CHR ''/'') rest)))"
  by (simp add: canonicalize_url_def Let_def cut_takeWhile cut_pair split: option.split)

lemma lower_byte_marks:
  "lower_byte c \<in> {CHR '':'', CHR ''/'', CHR ''#'', CHR ''?''} \<longleftrightarrow> c \<in> {CHR '':'', CHR ''/'', CHR ''#'', CHR ''?''}"
  "c \<in> {CHR '':'', CHR ''/'', CHR ''#'', CHR ''?''} \<Longrightarrow> lower_byte c = c"
proof -
  have n: "\<not> ascii_upper (byte d)" "\<not> ascii_lower (byte d)"
    if "d \<in> {CHR '':'', CHR ''/'', CHR ''#'', CHR ''?''}" for d
    using that by (auto simp: ascii_upper_def ascii_lower_def)
  show "lower_byte c \<in> {CHR '':'', CHR ''/'', CHR ''#'', CHR ''?''} \<longleftrightarrow> c \<in> {CHR '':'', CHR ''/'', CHR ''#'', CHR ''?''}"
    using lower_byte_eq [OF n] by blast
  show "c \<in> {CHR '':'', CHR ''/'', CHR ''#'', CHR ''?''} \<Longrightarrow> lower_byte c = c"
    using n by (simp add: lower_byte_def)
qed

lemma lower_byte_mark_iff:
  "lower_byte c = CHR '':'' \<longleftrightarrow> c = CHR '':''" "lower_byte c = CHR ''/'' \<longleftrightarrow> c = CHR ''/''"
  "lower_byte c = CHR ''#'' \<longleftrightarrow> c = CHR ''#''" "lower_byte c = CHR ''?'' \<longleftrightarrow> c = CHR ''?''"
  by (rule lower_byte_eq; simp add: ascii_upper_def ascii_lower_def)+

lemma canonicalize_url_fixed:
  assumes sc: "is_ascii sc" "str_index (sc @ ''://'' @ t) ''://'' = Some (length sc)"
    and h: "is_ascii h" "CHR ''/'' \<notin> set h" "CHR ''#'' \<notin> set (h @ p)" "CHR ''?'' \<notin> set (h @ p)"
    and p: "p = [] \<or> hd p = CHR ''/''" "trim_right_bytes (\<lambda>c. c = CHR ''/'') p = p"
  shows "canonicalize_url u (map lower_byte sc @ ''://'' @ map lower_byte h @ p)
         = map lower_byte sc @ ''://'' @ map lower_byte h @ p"
proof -
  let ?r = "map lower_byte h @ p"
  have idx: "str_index (map lower_byte sc @ ''://'' @ ?r) ''://'' = Some (length sc)"
    using str_index_map_before [of lower_byte "''://''" _ "length sc" ?r, OF _ _ sc(2)]
    by (simp add: lower_byte_mark_iff) (metis lower_byte_mark_iff(1,2))
  have no: "CHR ''#'' \<notin> set ?r" "CHR ''?'' \<notin> set ?r" "CHR ''/'' \<notin> set (map lower_byte h)"
    using h(2,3,4) lower_byte_mark_iff by (simp_all only: set_append Un_iff set_map image_iff) metis+
  have tw: "takeWhile (\<lambda>d. d \<noteq> CHR ''#'') ?r = ?r" "takeWhile (\<lambda>d. d \<noteq> CHR ''?'') ?r = ?r"
    using no(1,2) unfolding takeWhile_eq_all_conv by blast+
  have split: "takeWhile (\<lambda>d. d \<noteq> CHR ''/'') ?r = map lower_byte h"
    "dropWhile (\<lambda>d. d \<noteq> CHR ''/'') ?r = p"
  proof -
    have all: "\<And>x. x \<in> set (map lower_byte h) \<Longrightarrow> x \<noteq> CHR ''/''" using no(3) by metis
    show "takeWhile (\<lambda>d. d \<noteq> CHR ''/'') ?r = map lower_byte h"
      using p(1) by (subst takeWhile_append2 [OF all]) (cases p; auto)+
    show "dropWhile (\<lambda>d. d \<noteq> CHR ''/'') ?r = p"
      using p(1) by (subst dropWhile_append2 [OF all]) (cases p; auto)+
  qed
  have low: "to_lower u (map lower_byte x) = map lower_byte x" if "is_ascii x" for x
    using that by (auto simp: to_lower_def is_ascii_def lower_byte_ascii)
  show ?thesis
    unfolding canonicalize_url_cases idx
    by (simp add: Let_def tw split low sc(1) h(1) p(2))
qed


lemma system_slug_again_iff:
  "system_slug (system_slug p) = system_slug p \<longleftrightarrow>
   \<not> (80 < length (slug_core p) \<and> slug_core p ! 72 = CHR ''-'')"
proof (cases "length (slug_core p) \<le> 80")
  case True
  have "slug_core (slug_core p) = slug_core p"
    using slug_core_cases [of p] by (intro slug_core_fixed) (auto simp: valid_segment_def)
  with True show ?thesis by (simp add: system_slug_cases)
next
  case False
  define c where "c = slug_core p"
  have c: "80 < length c" "valid_segment c" "\<not> has_double_dash c"
    using False slug_core_cases [of p] unfolding c_def by auto
  note cap = capped_props [OF c(2,1)]
  have s: "system_slug p = capped c" using False by (simp add: system_slug_cases c_def)
  have all: "allowed (capped c)" "alnum_char (hd (capped c))" using cap(1) by (auto simp: valid_segment_def)
  show ?thesis
  proof (cases "c ! 72 = CHR ''-''")
    case True
    then have "has_double_dash (capped c)" using capped_double_dash [OF c(3,1)] by simp
    from length_squash_less [OF this]
    have short: "length (slug_core (capped c)) < 80"
      using cap(2) length_both_ends [of "\<lambda>c. \<not> alnum_char c" "squash (capped c)"]
      by (simp add: slug_core_allowed [OF all(1)])
    then have "length (system_slug (capped c)) < 80" by (simp add: system_slug_cases)
    with cap(2) have "system_slug (capped c) \<noteq> capped c" by auto
    with s True c(1) show ?thesis by (simp add: c_def)
  next
    case no: False
    then have "slug_core (capped c) = capped c"
      using capped_double_dash [OF c(3,1)] cap(3) all by (intro slug_core_fixed) auto
    then have "system_slug (capped c) = capped c" using cap(2) by (simp add: system_slug_cases)
    with s no show ?thesis by (simp add: c_def)
  qed
qed

section \<open>Properties\<close>

text \<open>The \<open>for\<close> loop that replaces doubled dashes ends on every string; its result is
  the single pass that drops every dash before a dash, and holds no doubled dash.\<close>

lemma collapse_loop_squash:
  "collapse_dashes s = squash s \<and> \<not> has_double_dash (collapse_dashes s)"
  by (simp add: collapse_dashes_eq squash_no_double)

text \<open>Whatever path, URL or module string it gets, \<open>SystemSlug\<close> returns either the empty
  string or a valid identifier segment that ends in a letter or digit, of at most 80 bytes; and
  the branch- and version-scoped slugs of a slug keep to the 80 bytes however long the
  qualifier is.\<close>

theorem system_slug_segment:
  "(system_slug p = [] \<or> (valid_segment (system_slug p) \<and> alnum_char (last (system_slug p))))
   \<and> length (system_slug p) \<le> max_system_slug_len
   \<and> length (branch_scoped_slug (system_slug p) b) \<le> max_system_slug_len
   \<and> length (scoped_system_slug p v) \<le> max_system_slug_len"
proof -
  have seg: "(system_slug q = [] \<or> (valid_segment (system_slug q) \<and> alnum_char (last (system_slug q))))
    \<and> length (system_slug q) \<le> 80" for q
    using slug_core_cases(1) [of q] capped_props [of "slug_core q"]
    by (auto simp: system_slug_cases)
  then show ?thesis
    by (simp add: branch_scoped_slug_def scoped_system_slug_def version_scoped_slug_def
        max_system_slug_len_def)
qed

text \<open>\<open>SystemSlug\<close> of a slug is that slug exactly when the cap was not applied, or was not
  applied right behind a dash: a 73rd byte that is a dash gives the capped slug a doubled dash,
  which the second pass removes.\<close>

theorem system_slug_idempotent_iff:
  "system_slug (system_slug p) = system_slug p \<longleftrightarrow>
   \<not> (80 < length (slug_core p) \<and> slug_core p ! 72 = CHR ''-'')"
  by (rule system_slug_again_iff)

text \<open>So a second \<open>SystemSlug\<close> on the result of \<open>ScopedSystemSlug\<close> can give another system
  segment, which the comment on \<open>ScopedSystemSlug\<close> rules out: a project of 72 letters, a dash
  and 20 more letters, with no version, is such a case.\<close>

lemma scoped_slug_not_idempotent:
  "(let p = replicate 72 (CHR ''a'') @ ''-'' @ replicate 20 (CHR ''b'')
    in system_slug (scoped_system_slug p []) \<noteq> scoped_system_slug p [])"
proof -
  let ?p = "replicate 72 (CHR ''a'') @ ''-'' @ replicate 20 (CHR ''b'')"
  have ab: "alnum_char (CHR ''a'')" "alnum_char (CHR ''b'')"
    by (simp_all add: alnum_char_def is_ascii_alnum_def ascii_lower_def)
  have nd: "\<not> has_double_dash (replicate n c)" if "c \<noteq> CHR ''-''" for n c
    using that by (induction n) auto
  have "\<not> has_double_dash ?p"
    by (subst has_double_dash_join, simp, simp, subst has_double_dash_join)
      (simp_all add: nd del: replicate_0 replicate_Suc)
  moreover have "allowed ?p"
    using ab by (simp add: list_all_iff alnum_allowed)
  moreover have "alnum_char (hd ?p)" "alnum_char (last ?p)" using ab by simp_all
  ultimately have core: "slug_core ?p = ?p" by (intro slug_core_fixed) auto
  have "slug_core [] = []" by (rule slug_core_fixed) auto
  then have "scoped_system_slug ?p [] = system_slug ?p"
    by (simp add: scoped_system_slug_def version_scoped_slug_def system_slug_cases)
  moreover have "80 < length ?p" "?p ! 72 = CHR ''-''" by (simp_all add: nth_append)
  ultimately show ?thesis
    unfolding Let_def using system_slug_again_iff [of ?p] core by (simp only: not_True_eq_False simp_thms)
qed

text \<open>\<open>SanitizeInstance\<close> always yields a valid segment of at most 60 bytes without doubled
  dashes that starts and ends in a letter or digit, and applying it again changes nothing; it
  returns its input exactly when the input already has that form.\<close>

theorem sanitize_instance_contract:
  "canonical_instance (sanitize_instance s)
   \<and> sanitize_instance (sanitize_instance s) = sanitize_instance s
   \<and> (sanitize_instance s = s \<longleftrightarrow> canonical_instance s)"
  using sanitize_instance_canonical sanitize_instance_fixed by metis

text \<open>\<open>SanitizeSegment\<close> always yields a valid segment, passes a string through unchanged
  exactly when it is a valid segment, marks every changed input with the hash of the
  original, and is idempotent.\<close>

theorem sanitize_segment_contract:
  "valid_segment (sanitize_segment s)
   \<and> sanitize_segment (sanitize_segment s) = sanitize_segment s
   \<and> (sanitize_segment s = s \<longleftrightarrow> valid_segment s)
   \<and> (valid_segment s \<or> has_suffix (sanitize_segment s) (short_hash s))"
proof -
  have "has_suffix (sanitize_segment s) (short_hash s)" if "\<not> valid_segment s"
  proof -
    have "sanitize_segment s \<noteq> s" using that sanitize_segment_valid by metis
    then consider "sanitize_segment s = short_hash s"
      | pre where "sanitize_segment s = pre @ ''-'' @ short_hash s"
      by (auto simp: sanitize_segment_def Let_def split: if_splits)
    then show ?thesis by cases (simp_all add: has_suffix_def)
  qed
  then show ?thesis
    using sanitize_segment_valid [of s] sanitize_segment_fixed fragment_sanitizer.san_again
      fragment_sanitizer.san_fixed_valid by blast
qed

text \<open>\<open>ValidateNATSKVKey\<close>, which decodes runes, accepts exactly the non-empty strings whose
  bytes are printable ASCII other than space, star, greater-than, slash and backslash.\<close>

theorem validate_key_iff:
  "validate_nats_kv_key k = None \<longleftrightarrow> k \<noteq> [] \<and> list_all key_char k"
  by (rule validate_key_chars)

text \<open>An identifier built from six valid segments has exactly six segments, each valid, the
  first five unchanged, and is an accepted key, whether or not its instance had to be cut.\<close>

theorem build_six_valid_segments:
  assumes "list_all valid_segment [org, platform, system, domain, ty, inst]"
  shows "\<exists>i. str_split (build_id M org platform system domain ty inst) (CHR ''.'')
               = [org, platform, system, domain, ty, i]
             \<and> valid_segment i
             \<and> validate_nats_kv_key (build_id M org platform system domain ty inst) = None"
proof -
  obtain i where i: "build_id M org platform system domain ty inst
      = id_join [org, platform, system, domain, ty, i]" "valid_segment i"
    using build_id_segments [of M org platform system domain ty inst] assms by auto
  have "list_all valid_segment [org, platform, system, domain, ty, i]" using assms i(2) by simp
  from id_join_split [OF _ this] id_join_key [OF _ this] i(2) show ?thesis unfolding i(1) by blast
qed

theorem build_six_valid_segments_witness:
  "\<exists>i. str_split (build_id 255 ''acme'' ''semsource'' ''gcs'' ''golang'' ''function'' ''main-go-Run'')
               (CHR ''.'') = [''acme'', ''semsource'', ''gcs'', ''golang'', ''function'', i]
             \<and> valid_segment i
             \<and> validate_nats_kv_key
                 (build_id 255 ''acme'' ''semsource'' ''gcs'' ''golang'' ''function'' ''main-go-Run'') = None"
proof (rule build_six_valid_segments)
  show "list_all valid_segment [''acme'', ''semsource'', ''gcs'', ''golang'', ''function'', ''main-go-Run'']"
    by (simp add: valid_segment_def alnum_char_def allowed_char_def is_allowed_instance_rune_def
        is_ascii_alnum_def ascii_lower_def ascii_upper_def ascii_digit_def)
qed

text \<open>An authority that passes \<open>Validate\<close> leaves room for every identifier below it: with a
  system segment from the slug builders, a domain of at most 10 bytes and a type of at most 12,
  \<open>Build\<close> stays within the framework's limit whatever the instance is.\<close>

theorem authority_leaves_room:
  assumes "authority_validate M vp a = None"
    and "length system \<le> max_system_slug_len" and "length domain \<le> 10" and "length ty \<le> 12"
  shows "int (length (authority_build M a system domain ty inst)) \<le> M"
proof -
  have "int (length (auth_org a) + length (auth_platform a)) \<le> max_authority_pair_len M"
    using assms(1) by (auto simp: authority_validate_def split: if_splits option.splits)
  with assms(2-4) show ?thesis unfolding authority_build_def
    by (intro build_id_length) (simp add: max_authority_pair_len_def max_system_slug_len_def)
qed

theorem authority_leaves_room_witness:
  "int (length (authority_build 255 \<lparr>auth_org = ''acme'', auth_platform = ''semsource''\<rparr>
     ''gcs'' ''golang'' ''function'' (replicate 300 (CHR ''x'')))) \<le> 255"
proof (rule authority_leaves_room [where vp = "\<lambda>s. if s = [] then Some () else None"])
  show "authority_validate 255 (\<lambda>s. if s = [] then Some () else None)
      \<lparr>auth_org = ''acme'', auth_platform = ''semsource''\<rparr> = None"
    by (simp add: authority_validate_def str_contains_def str_index_byte max_authority_pair_len_def
        max_system_slug_len_def)
qed (simp_all add: max_system_slug_len_def)

text \<open>\<open>OrgFromID\<close> and \<open>Parts\<close> read back what \<open>Build\<close> was given, for every instance, dots in
  it included: the organization, the domain and the type.\<close>

theorem build_parts_roundtrip:
  assumes "list_all (\<lambda>s. CHR ''.'' \<notin> set s) [org, platform, system, domain, ty]"
  shows "org_from_id (build_id M org platform system domain ty inst) = org
         \<and> id_parts (build_id M org platform system domain ty inst) = (domain, ty)"
proof -
  obtain i where i: "build_id M org platform system domain ty inst
      = id_join [org, platform, system, domain, ty, i]"
    using build_id_segments by blast
  have "str_split_n 6 (id_join [org, platform, system, domain, ty, i]) (CHR ''.'')
      = [org, platform, system, domain, ty, i]"
    using assms by (simp add: id_join_six index_byte_append numeral_eq_Suc)
  moreover have "org_from_id (id_join [org, platform, system, domain, ty, i]) = org"
    using assms by (simp add: id_join_six org_from_id_def index_byte_append)
  ultimately show ?thesis unfolding i by (simp add: id_parts_def Let_def numeral_eq_Suc)
qed

theorem build_parts_roundtrip_witness:
  "org_from_id (build_id 255 ''acme'' ''semsource'' ''gcs'' ''golang'' ''function'' ''a.b'') = ''acme''
   \<and> id_parts (build_id 255 ''acme'' ''semsource'' ''gcs'' ''golang'' ''function'' ''a.b'')
     = (''golang'', ''function'')"
  by (rule build_parts_roundtrip) simp

text \<open>On ASCII input, \<open>CanonicalizeURL\<close> is idempotent: an already canonical URL keeps its
  identity, with or without a scheme, query, fragment or trailing slashes.\<close>

lemma canonicalize_url_idempotent:
  assumes "is_ascii raw"
  shows "canonicalize_url u (canonicalize_url u raw) = canonicalize_url u raw"
proof (cases "str_index raw ''://''")
  case None
  obtain t where t: "raw = trim_right_bytes (\<lambda>c. c = CHR ''/'') raw @ t"
    using trim_right_bytes_prefix by blast
  then have "str_index (trim_right_bytes (\<lambda>c. c = CHR ''/'') raw) ''://'' = None"
    using str_index_prefix_None [of "trim_right_bytes (\<lambda>c. c = CHR ''/'') raw" t] None by simp
  with None show ?thesis
    by (cases "raw = []") (auto simp: canonicalize_url_cases trim_right_bytes_idem)
next
  case (Some i)
  define rest where
    "rest = takeWhile (\<lambda>d. d \<noteq> CHR ''?'') (takeWhile (\<lambda>d. d \<noteq> CHR ''#'') (drop (i + 3) raw))"
  define h where "h = takeWhile (\<lambda>d. d \<noteq> CHR ''/'') rest"
  define d where "d = dropWhile (\<lambda>d. d \<noteq> CHR ''/'') rest"
  define p where "p = trim_right_bytes (\<lambda>c. c = CHR ''/'') d"
  obtain t where t: "raw = take i raw @ ''://'' @ t" "length (take i raw) = i"
    using str_index_Some [OF Some] by blast
  obtain q where q: "d = p @ q" using trim_right_bytes_prefix unfolding p_def by blast
  have sub: "set rest \<subseteq> set raw"
    unfolding rest_def by (auto dest!: set_takeWhileD in_set_dropD)
  have "h @ d = rest" by (simp add: h_def d_def)
  then have "rest = h @ p @ q" using q by simp
  then have hp: "set (h @ p) \<subseteq> set rest" by auto
  have no: "CHR ''?'' \<notin> set rest" "CHR ''#'' \<notin> set rest"
    unfolding rest_def by (auto dest: set_takeWhileD)
  have asc: "is_ascii (take i raw)" "is_ascii h"
    using assms sub hp by (auto simp: is_ascii_def dest: in_set_takeD)
  have r: "canonicalize_url u raw = map lower_byte (take i raw) @ ''://'' @ map lower_byte h @ p"
    using t(1) asc unfolding canonicalize_url_cases Some
    by (auto simp: Let_def to_lower_def p_def h_def d_def rest_def)
  have first: "str_index (take i raw @ ''://'' @ t) ''://'' = Some (length (take i raw))"
    using t Some by simp
  have "d = [] \<or> hd d = CHR ''/''" unfolding d_def using hd_dropWhile by blast
  with q have hp': "p = [] \<or> hd p = CHR ''/''" by (cases p) auto
  have noslash: "CHR ''/'' \<notin> set h" unfolding h_def by (auto dest: set_takeWhileD)
  have "trim_right_bytes (\<lambda>c. c = CHR ''/'') p = p" by (simp add: p_def trim_right_bytes_idem)
  from canonicalize_url_fixed [OF asc(1) first asc(2) noslash _ _ hp' this, of u] no hp
  show ?thesis unfolding r by blast
qed

theorem canonicalize_url_idempotent_witness:
  "canonicalize_url ascii_tables
     (canonicalize_url ascii_tables
        ''HTTPS://Docs.Example.com/Guide/?q=1#top'')
   = canonicalize_url ascii_tables
        ''HTTPS://Docs.Example.com/Guide/?q=1#top''"
  by (rule canonicalize_url_idempotent) simp

end
