(* ===== verification/GoTime.thy ===== *)
theory GoTime
  imports GoStrings "HOL-Library.Monad_Syntax"
begin

text \<open>
  \<open>time.Parse (time.RFC3339, s)\<close> as the program uses it: the instant in nanoseconds on a fixed
  scale, or \<open>None\<close> for an error. As in the package, the hour may have one digit, a fraction may
  follow the seconds, and only nine of its digits count.
\<close>

definition digit_char :: "char \<Rightarrow> bool" where
  "digit_char c \<longleftrightarrow> ascii_digit (byte c)"

definition digit_val :: "char \<Rightarrow> nat" where
  "digit_val c = byte c - 48"

definition digits_val :: "string \<Rightarrow> nat" where
  "digits_val s = foldl (\<lambda>n c. n * 10 + digit_val c) 0 s"

definition get_num :: "bool \<Rightarrow> string \<Rightarrow> (nat \<times> string) option" where
  "get_num fixed s =
     (case s of
        [] \<Rightarrow> None
      | a # r \<Rightarrow>
          if \<not> digit_char a then None
          else (case r of
                  b # t \<Rightarrow> if digit_char b then Some (digit_val a * 10 + digit_val b, t)
                          else if fixed then None else Some (digit_val a, r)
                | [] \<Rightarrow> if fixed then None else Some (digit_val a, r)))"

definition get_year :: "string \<Rightarrow> (nat \<times> string) option" where
  "get_year s =
     (if 4 \<le> length s \<and> list_all digit_char (take 4 s) then Some (digits_val (take 4 s), drop 4 s)
      else None)"

definition skip_char :: "char \<Rightarrow> string \<Rightarrow> string option" where
  "skip_char c s = (case s of [] \<Rightarrow> None | a # r \<Rightarrow> if a = c then Some r else None)"

definition is_leap :: "nat \<Rightarrow> bool" where
  "is_leap y \<longleftrightarrow> y mod 4 = 0 \<and> (y mod 100 \<noteq> 0 \<or> y mod 400 = 0)"

definition month_days :: "nat \<Rightarrow> nat list" where
  "month_days y = [31, if is_leap y then 29 else 28, 31, 30, 31, 30, 31, 31, 30, 31, 30, 31]"

text \<open>Days from the first day of year 0.\<close>

definition day_number :: "nat \<Rightarrow> nat \<Rightarrow> nat \<Rightarrow> int" where
  "day_number y m d =
     int (365 * y + (y + 3) div 4 + (y + 399) div 400 + sum_list (take (m - 1) (month_days y)) + d)
     - int ((y + 99) div 100)"

definition get_fraction :: "string \<Rightarrow> nat \<times> string" where
  "get_fraction s =
     (case s of
        c # r \<Rightarrow>
          (let ds = takeWhile digit_char r
           in if (c = CHR ''.'' \<or> c = CHR '','') \<and> ds \<noteq> []
              then (digits_val (take 9 (ds @ replicate 9 (CHR ''0''))), dropWhile digit_char r)
              else (0, s))
      | [] \<Rightarrow> (0, s))"

definition get_zone :: "string \<Rightarrow> (int \<times> string) option" where
  "get_zone s =
     (case s of
        [] \<Rightarrow> None
      | c # r \<Rightarrow>
          if c = CHR ''Z'' then Some (0, r)
          else if c \<noteq> CHR ''+'' \<and> c \<noteq> CHR ''-'' then None
          else do {
            (h, r1) \<leftarrow> get_num True r;
            r2 \<leftarrow> skip_char (CHR '':'') r1;
            (m, r3) \<leftarrow> get_num True r2;
            if h > 24 \<or> m > 60 then None
            else Some ((if c = CHR ''+'' then 1 else -1) * int (h * 3600 + m * 60), r3)
          })"

definition parse_rfc3339 :: "string \<Rightarrow> int option" where
  "parse_rfc3339 s = do {
     (y, s1) \<leftarrow> get_year s;
     s2 \<leftarrow> skip_char (CHR ''-'') s1;
     (mo, s3) \<leftarrow> get_num True s2;
     s4 \<leftarrow> skip_char (CHR ''-'') s3;
     (d, s5) \<leftarrow> get_num True s4;
     s6 \<leftarrow> skip_char (CHR ''T'') s5;
     (h, s7) \<leftarrow> get_num False s6;
     s8 \<leftarrow> skip_char (CHR '':'') s7;
     (mi, s9) \<leftarrow> get_num True s8;
     s10 \<leftarrow> skip_char (CHR '':'') s9;
     (sec, s11) \<leftarrow> get_num True s10;
     let (ns, s12) = get_fraction s11;
     (off, s13) \<leftarrow> get_zone s12;
     if s13 \<noteq> [] \<or> mo < 1 \<or> mo > 12 \<or> h > 23 \<or> mi > 59 \<or> sec > 59
        \<or> d < 1 \<or> d > month_days y ! (mo - 1) then None
     else Some ((day_number y mo d * 86400 + int (h * 3600 + mi * 60 + sec) - off) * 1000000000
                + int ns)
   }"

section \<open>Durations\<close>

text \<open>
  \<open>time.ParseDuration\<close>: the number of nanoseconds, \<open>None\<close> for an error. The part behind a
  decimal point is computed in floating point; \<open>frac f unit scale\<close> is that product, truncated.
\<close>

definition max_uint63 :: nat where
  "max_uint63 = 2 ^ 63"

fun leading_int :: "nat \<Rightarrow> string \<Rightarrow> (nat \<times> string) option" where
  "leading_int x [] = Some (x, [])"
| "leading_int x (c # s) =
     (if \<not> digit_char c then Some (x, c # s)
      else if x > max_uint63 div 10 then None
      else (let y = x * 10 + digit_val c in if y > max_uint63 then None else leading_int y s))"

fun leading_fraction :: "bool \<Rightarrow> nat \<Rightarrow> nat \<Rightarrow> string \<Rightarrow> nat \<times> nat \<times> string" where
  "leading_fraction over x scale [] = (x, scale, [])"
| "leading_fraction over x scale (c # s) =
     (if \<not> digit_char c then (x, scale, c # s)
      else if over then leading_fraction True x scale s
      else if x > (max_uint63 - 1) div 10 then leading_fraction True x scale s
      else (let y = x * 10 + digit_val c
            in if y > max_uint63 then leading_fraction True x scale s
               else leading_fraction False y (scale * 10) s))"

definition duration_unit :: "string \<Rightarrow> nat option" where
  "duration_unit u =
     (if u = ''ns'' then Some 1
      else if u = ''us'' \<or> u = [CHR 0xC2, CHR 0xB5, CHR ''s''] \<or> u = [CHR 0xCE, CHR 0xBC, CHR ''s'']
      then Some 1000
      else if u = ''ms'' then Some 1000000
      else if u = ''s'' then Some 1000000000
      else if u = ''m'' then Some 60000000000
      else if u = ''h'' then Some 3600000000000 else None)"

definition unit_char :: "char \<Rightarrow> bool" where
  "unit_char c \<longleftrightarrow> c \<noteq> CHR ''.'' \<and> \<not> digit_char c"

text \<open>One \<open>number unit\<close> group: its value and the rest.\<close>

definition duration_group :: "(nat \<Rightarrow> nat \<Rightarrow> nat \<Rightarrow> nat) \<Rightarrow> string \<Rightarrow> (nat \<times> string) option" where
  "duration_group frac s =
     (if s = [] \<or> \<not> (hd s = CHR ''.'' \<or> digit_char (hd s)) then None
      else case leading_int 0 s of
        None \<Rightarrow> None
      | Some (v, s1) \<Rightarrow>
          (let pre = (length s1 \<noteq> length s);
               dot = (s1 \<noteq> [] \<and> hd s1 = CHR ''.'');
               (f, scale, s2) = (if dot then leading_fraction False 0 1 (tl s1) else (0, 1, s1));
               post = (dot \<and> length s2 \<noteq> length (tl s1));
               un = takeWhile unit_char s2
           in if (\<not> pre \<and> \<not> post) \<or> un = [] then None
              else (case duration_unit un of
                      None \<Rightarrow> None
                    | Some unit \<Rightarrow>
                        if v > max_uint63 div unit then None
                        else (let w = v * unit + (if f > 0 then frac f unit scale else 0)
                              in if f > 0 \<and> w > max_uint63 then None
                                 else Some (w, dropWhile unit_char s2)))))"

lemma leading_int_le: "leading_int x s = Some (v, t) \<Longrightarrow> length t \<le> length s"
  by (induction x s rule: leading_int.induct) (auto simp: Let_def split: if_splits)

lemma leading_fraction_le: "length (snd (snd (leading_fraction over x scale s))) \<le> length s"
proof (induction s arbitrary: over x scale)
  case (Cons c s)
  note IH = Cons [THEN le_SucI]
  show ?case by (simp add: Let_def IH)
qed simp

lemma duration_group_shorter:
  assumes "duration_group frac s = Some (w, t)"
  shows "length t < length s"
proof -
  obtain v s1 where li: "leading_int 0 s = Some (v, s1)"
    using assms by (auto simp: duration_group_def split: if_splits option.splits)
  define s2 where "s2 = (if s1 \<noteq> [] \<and> hd s1 = CHR ''.''
      then snd (snd (leading_fraction False 0 1 (tl s1))) else s1)"
  have "length s2 \<le> length s1"
    using leading_fraction_le [of False 0 1 "tl s1"] by (auto simp: s2_def)
  moreover have "takeWhile unit_char s2 \<noteq> []" "t = dropWhile unit_char s2"
    using assms li by (auto simp: duration_group_def s2_def Let_def split: if_splits option.splits prod.splits)
  then have "length t < length s2"
    by (metis append_self_conv2 length_append length_greater_0_conv less_add_same_cancel2 takeWhile_dropWhile_id)
  ultimately show ?thesis using leading_int_le [OF li] by simp
qed

function duration_groups :: "(nat \<Rightarrow> nat \<Rightarrow> nat \<Rightarrow> nat) \<Rightarrow> nat \<Rightarrow> string \<Rightarrow> nat option" where
  "duration_groups frac d s =
     (if s = [] then Some d
      else case duration_group frac s of
        None \<Rightarrow> None
      | Some (w, t) \<Rightarrow> if d + w > max_uint63 then None else duration_groups frac (d + w) t)"
  by pat_completeness auto
termination
  by (relation "measure (\<lambda>(f, d, s). length s)") (auto dest: duration_group_shorter)

declare duration_groups.simps [simp del]

definition parse_duration :: "(nat \<Rightarrow> nat \<Rightarrow> nat \<Rightarrow> nat) \<Rightarrow> string \<Rightarrow> int option" where
  "parse_duration frac s0 =
     (let neg = (s0 \<noteq> [] \<and> hd s0 = CHR ''-'');
          s = (if s0 \<noteq> [] \<and> (hd s0 = CHR ''-'' \<or> hd s0 = CHR ''+'') then tl s0 else s0)
      in if s = ''0'' then Some 0
         else if s = [] then None
         else case duration_groups frac 0 s of
           None \<Rightarrow> None
         | Some d \<Rightarrow> if neg then Some (- int d)
                     else if d > max_uint63 - 1 then None else Some (int d))"

end
