(* ===== verification/GraphModel.thy ===== *)
theory GraphModel
  imports EntityId GoTime Complex_Main
begin

text \<open>
  The graph data the processors read and write: a triple with its dynamically typed object, an
  entity with its triples, the predicates, and the readers \<open>tripleString\<close>, \<open>tripleInt\<close> and
  \<open>pathOf\<close> of package supersession. Times are integers, nanoseconds on the scale of \<open>GoTime\<close>.
\<close>

section \<open>Triples and entities\<close>

text \<open>The object of a triple is a Go \<open>any\<close>: these are the dynamic types the readers distinguish;
  a \<open>float64\<close> that comes out of JSON is a finite rational.\<close>

datatype obj = OString string | OInt int | OInt64 int | OFloat rat | ONumber string | OOther

record triple =
  t_subject :: string
  t_predicate :: string
  t_object :: obj
  t_datatype :: string
  t_source :: string
  t_time :: int
  t_confidence :: rat

record entity =
  e_id :: string
  e_triples :: "triple list"
  e_updated :: int

section \<open>Predicates\<close>

definition code_path :: string where "code_path = ''code.artifact.path''"
definition code_hash :: string where "code_hash = ''code.artifact.hash''"
definition code_package :: string where "code_package = ''code.artifact.package''"
definition code_project :: string where "code_project = ''code.artifact.project''"
definition code_version :: string where "code_version = ''code.artifact.version''"
definition code_type :: string where "code_type = ''code.artifact.type''"
definition code_supersedes :: string where "code_supersedes = ''code.lineage.supersedes''"
definition code_superseded_by :: string where "code_superseded_by = ''code.lineage.superseded-by''"
definition code_lineage_change :: string where "code_lineage_change = ''code.lineage.change''"
definition code_body_store :: string where "code_body_store = ''code.body.store''"
definition code_body_key :: string where "code_body_key = ''code.body.key''"
definition code_belongs :: string where "code_belongs = ''code.structure.belongs''"
definition dc_title :: string where "dc_title = ''dc.terms.title''"
definition dc_created :: string where "dc_created = ''dc.terms.created''"
definition doc_chunk_index :: string where "doc_chunk_index = ''source.doc.chunk-index''"
definition doc_chunk_count :: string where "doc_chunk_count = ''source.doc.chunk-count''"
definition doc_file_path :: string where "doc_file_path = ''source.doc.file-path''"
definition lifecycle_stale :: string where "lifecycle_stale = ''entity.lifecycle.stale''"

lemmas predicate_defs =
  code_path_def code_hash_def code_package_def code_project_def code_version_def code_type_def
  code_supersedes_def code_superseded_by_def code_lineage_change_def code_body_store_def
  code_body_key_def code_belongs_def dc_title_def dc_created_def doc_chunk_index_def
  doc_chunk_count_def doc_file_path_def lifecycle_stale_def

section \<open>Readers\<close>

fun triple_string :: "triple list \<Rightarrow> string \<Rightarrow> string" where
  "triple_string [] p = []"
| "triple_string (t # ts) p =
     (if t_predicate t = p then (case t_object t of OString s \<Rightarrow> s | _ \<Rightarrow> []) else triple_string ts p)"

text \<open>\<open>json.Number.Int64\<close>: a decimal 64-bit integer.\<close>

definition parse_int64 :: "string \<Rightarrow> int option" where
  "parse_int64 s =
     (let neg = (s \<noteq> [] \<and> hd s = CHR ''-'');
          ds = (if s \<noteq> [] \<and> (hd s = CHR ''-'' \<or> hd s = CHR ''+'') then tl s else s);
          v = int (digits_val ds)
      in if ds = [] \<or> \<not> list_all digit_char ds then None
         else if neg then (if v \<le> 2 ^ 63 then Some (- v) else None)
         else (if v < 2 ^ 63 then Some v else None))"

definition truncate_rat :: "rat \<Rightarrow> int" where
  "truncate_rat r = (if r < 0 then \<lceil>r\<rceil> else \<lfloor>r\<rfloor>)"

fun triple_int :: "triple list \<Rightarrow> string \<Rightarrow> int option" where
  "triple_int [] p = None"
| "triple_int (t # ts) p =
     (if t_predicate t \<noteq> p then triple_int ts p
      else (case t_object t of
              OInt v \<Rightarrow> Some v
            | OInt64 v \<Rightarrow> Some v
            | OFloat r \<Rightarrow> Some (truncate_rat r)
            | ONumber s \<Rightarrow> parse_int64 s
            | _ \<Rightarrow> None))"

definition path_of :: "triple list \<Rightarrow> string option" where
  "path_of ts =
     (if triple_string ts code_path \<noteq> [] then Some (triple_string ts code_path)
      else if triple_string ts doc_file_path \<noteq> [] then Some (triple_string ts doc_file_path)
      else None)"

definition entity_id_system :: "string \<Rightarrow> string" where
  "entity_id_system eid =
     (let parts = str_split_n 6 eid (CHR ''.'') in if length parts < 6 then [] else parts ! 2)"

section \<open>Reading around an edit\<close>

text \<open>Removing or adding triples of other predicates does not change what a reader sees.\<close>

lemma triple_string_filter:
  "(\<And>t. t \<in> set ts \<Longrightarrow> t_predicate t = p \<Longrightarrow> P t) \<Longrightarrow>
   triple_string (filter P ts) p = triple_string ts p"
  by (induction ts) auto

lemma triple_string_append_other:
  "(\<And>t. t \<in> set us \<Longrightarrow> t_predicate t \<noteq> p) \<Longrightarrow> triple_string (ts @ us) p = triple_string ts p"
proof (induction ts)
  case Nil
  then show ?case by (induction us) auto
qed (auto split: obj.split)

lemma triple_int_filter:
  "(\<And>t. t \<in> set ts \<Longrightarrow> t_predicate t = p \<Longrightarrow> P t) \<Longrightarrow>
   triple_int (filter P ts) p = triple_int ts p"
  by (induction ts) auto

lemma triple_int_append_other:
  "(\<And>t. t \<in> set us \<Longrightarrow> t_predicate t \<noteq> p) \<Longrightarrow> triple_int (ts @ us) p = triple_int ts p"
proof (induction ts)
  case Nil
  then show ?case by (induction us) auto
qed (auto split: obj.split)

text \<open>The system segment is the one \<open>Build\<close> put third.\<close>

text \<open>The system segment that scopes a lifecycle pass is the one \<open>Build\<close> was given, which it
  places third, not at index 3 as the comment on \<open>entityIDSystem\<close> says.\<close>

lemma entity_id_system_build:
  assumes "list_all (\<lambda>s. CHR ''.'' \<notin> set s) [org, platform, system, domain, ty]"
  shows "entity_id_system (build_id M org platform system domain ty inst) = system"
proof -
  obtain i where i: "build_id M org platform system domain ty inst
      = id_join [org, platform, system, domain, ty, i]"
    using build_id_segments by blast
  have "str_split_n 6 (id_join [org, platform, system, domain, ty, i]) (CHR ''.'')
      = [org, platform, system, domain, ty, i]"
    using assms by (simp add: id_join_six index_byte_append numeral_eq_Suc)
  then show ?thesis unfolding i by (simp add: entity_id_system_def)
qed

theorem entity_id_system_build_witness:
  "entity_id_system (build_id 255 ''acme'' ''semsource'' ''gcs'' ''golang'' ''function'' ''a.b'') = ''gcs''"
  by (rule entity_id_system_build) simp

end
