(* ===== verification/VersionOrder.thy ===== *)
theory VersionOrder
  imports GraphModel
begin

text \<open>
  \<open>processor/supersession/correspondence.go\<close> and \<open>ordering.go\<close>: candidates, correspondence
  groups, and the version order of a group. The semantic-version library is third-party code:
  a \<open>semver_lib\<close> is its \<open>NewVersion\<close>, \<open>Equal\<close> and \<open>LessThan\<close>, and \<open>semver_laws\<close> states
  what they document, a total preorder of the parsed versions.
\<close>

section \<open>Candidates\<close>

record candidate =
  c_id :: string
  c_org :: string
  c_project :: string
  c_version :: string
  c_path :: string
  c_name :: string
  c_ctype :: string
  c_pkg :: string
  c_hash :: string
  c_hash_kind :: string
  c_store :: string
  c_bkey :: string
  c_indexed :: int

record corr_key =
  k_org :: string
  k_project :: string
  k_path :: string
  k_name :: string
  k_ctype :: string
  k_pkg :: string

definition cand_key :: "candidate \<Rightarrow> corr_key" where
  "cand_key c = \<lparr>k_org = c_org c, k_project = c_project c, k_path = c_path c, k_name = c_name c,
                 k_ctype = c_ctype c, k_pkg = c_pkg c\<rparr>"

definition body_hash_of :: "triple list \<Rightarrow> string \<times> string" where
  "body_hash_of ts =
     (if triple_string ts code_body_key \<noteq> [] then (triple_string ts code_body_key, ''bodykey'')
      else if triple_string ts code_hash \<noteq> [] then (triple_string ts code_hash, ''hash'')
      else ([], []))"

definition indexed_at_of :: "entity \<Rightarrow> int" where
  "indexed_at_of e =
     (let s = triple_string (e_triples e) dc_created
      in if s = [] then e_updated e
         else case parse_rfc3339 s of Some t \<Rightarrow> t | None \<Rightarrow> e_updated e)"

definition candidate_from_entity :: "entity \<Rightarrow> candidate option" where
  "candidate_from_entity e =
     (let ts = e_triples e; version = triple_string ts code_version
      in if version = [] then None
         else Some \<lparr>c_id = e_id e, c_org = org_from_id (e_id e),
                    c_project = triple_string ts code_project, c_version = version,
                    c_path = triple_string ts code_path, c_name = triple_string ts dc_title,
                    c_ctype = triple_string ts code_type, c_pkg = triple_string ts code_package,
                    c_hash = fst (body_hash_of ts), c_hash_kind = snd (body_hash_of ts),
                    c_store = triple_string ts code_body_store,
                    c_bkey = triple_string ts code_body_key,
                    c_indexed = indexed_at_of e\<rparr>)"

definition group_by_correspondence :: "candidate list \<Rightarrow> (corr_key, candidate list) gomap" where
  "group_by_correspondence cands = foldl (\<lambda>groups c. gm_append (cand_key c) c groups) [] cands"

section \<open>Natural comparison\<close>

definition next_run :: "string \<Rightarrow> string \<times> string \<times> bool" where
  "next_run s =
     (let numeric = digit_char (hd s)
      in (takeWhile (\<lambda>c. digit_char c = numeric) s, dropWhile (\<lambda>c. digit_char c = numeric) s,
          numeric))"

fun trim_leading_zeros :: "string \<Rightarrow> string" where
  "trim_leading_zeros (x # y # xs) =
     (if x = CHR ''0'' then trim_leading_zeros (y # xs) else x # y # xs)"
| "trim_leading_zeros xs = xs"

function natural_compare :: "string \<Rightarrow> string \<Rightarrow> int" where
  "natural_compare a b =
     (if a \<noteq> [] \<and> b \<noteq> [] then
        (let (ar, arest, a_num) = next_run a;
             (br, brest, b_num) = next_run b
         in if a_num \<and> b_num then
              (let ta = trim_leading_zeros ar; tb = trim_leading_zeros br
               in if length ta \<noteq> length tb then (if length ta < length tb then -1 else 1)
                  else if ta \<noteq> tb then (if ta < tb then -1 else 1)
                  else natural_compare arest brest)
            else if \<not> a_num \<and> \<not> b_num then
              (if ar \<noteq> br then (if ar < br then -1 else 1) else natural_compare arest brest)
            else if a_num then -1
            else 1)
      else if a = [] \<and> b = [] then 0
      else if a = [] then -1 else 1)"
  by pat_completeness auto
termination
  by (relation "measure (\<lambda>(a, b). length a)")
    (auto simp: next_run_def Let_def neq_Nil_conv less_Suc_eq_le length_dropWhile_le)

declare natural_compare.simps [simp del]

section \<open>The order of a group\<close>

record 'v semver_lib =
  sv_parse :: "string \<Rightarrow> 'v option"
  sv_equal :: "'v \<Rightarrow> 'v \<Rightarrow> bool"
  sv_less :: "'v \<Rightarrow> 'v \<Rightarrow> bool"

definition semver_of :: "'v semver_lib \<Rightarrow> candidate \<Rightarrow> 'v option" where
  "semver_of sv c = sv_parse sv (c_version c)"

definition candidate_less :: "'v semver_lib \<Rightarrow> candidate \<Rightarrow> candidate \<Rightarrow> bool" where
  "candidate_less sv a b =
     (case (semver_of sv a, semver_of sv b) of
        (Some _, None) \<Rightarrow> True
      | (None, Some _) \<Rightarrow> False
      | (Some av, Some bv) \<Rightarrow>
          if \<not> sv_equal sv av bv then sv_less sv av bv else c_id a < c_id b
      | (None, None) \<Rightarrow>
          (let c = natural_compare (c_version a) (c_version b)
           in if c \<noteq> 0 then c < 0 else c_id a < c_id b))"

definition order_group :: "'v semver_lib \<Rightarrow> candidate list \<Rightarrow> candidate list" where
  "order_group sv grp = stable_sort (candidate_less sv) grp"

definition version_comparable :: "'v semver_lib \<Rightarrow> candidate \<Rightarrow> candidate \<Rightarrow> bool" where
  "version_comparable sv a b =
     (case (semver_of sv a, semver_of sv b) of
        (Some av, Some bv) \<Rightarrow> \<not> sv_equal sv av bv
      | (None, None) \<Rightarrow> c_version a \<noteq> c_version b
      | _ \<Rightarrow> False)"

text \<open>What the semantic-version package documents of its comparison: \<open>LessThan\<close> is a strict weak
  order whose ties are the \<open>Equal\<close> pairs.\<close>

definition semver_laws :: "'v semver_lib \<Rightarrow> bool" where
  "semver_laws sv \<longleftrightarrow>
     (\<forall>x. \<not> sv_less sv x x)
     \<and> (\<forall>x y z. sv_less sv x y \<longrightarrow> sv_less sv y z \<longrightarrow> sv_less sv x z)
     \<and> (\<forall>x y. sv_equal sv x y \<longleftrightarrow> \<not> sv_less sv x y \<and> \<not> sv_less sv y x)
     \<and> (\<forall>x y z. sv_less sv x z \<longrightarrow> sv_less sv x y \<or> sv_less sv y z)"

section \<open>The run keys behind natural comparison\<close>

text \<open>A version string as the list of its runs, a run of digits as its number. A number comes
  before a text, numbers compare by size, texts bytewise.\<close>

datatype run = NumRun nat | TextRun string

instantiation run :: linorder
begin

fun less_run :: "run \<Rightarrow> run \<Rightarrow> bool" where
  "less_run (NumRun m) (NumRun n) = (m < n)"
| "less_run (NumRun m) (TextRun t) = True"
| "less_run (TextRun s) (NumRun n) = False"
| "less_run (TextRun s) (TextRun t) = (s < t)"

definition less_eq_run :: "run \<Rightarrow> run \<Rightarrow> bool" where
  "less_eq_run a b \<longleftrightarrow> a = b \<or> a < b"

instance
proof
  fix x y z :: run
  show "x < y \<longleftrightarrow> x \<le> y \<and> \<not> y \<le> x"
    by (cases x; cases y) (auto simp: less_eq_run_def)
  show "x \<le> x" by (simp add: less_eq_run_def)
  show "x \<le> y \<Longrightarrow> y \<le> z \<Longrightarrow> x \<le> z"
    by (cases x; cases y; cases z) (auto simp: less_eq_run_def)
  show "x \<le> y \<Longrightarrow> y \<le> x \<Longrightarrow> x = y"
    by (cases x; cases y) (auto simp: less_eq_run_def)
  show "x \<le> y \<or> y \<le> x"
    by (cases x; cases y) (auto simp: less_eq_run_def)
qed

end

function version_runs :: "string \<Rightarrow> run list" where
  "version_runs s =
     (if s = [] then []
      else let (r, rest, numeric) = next_run s
           in (if numeric then NumRun (digits_val r) else TextRun r) # version_runs rest)"
  by pat_completeness auto
termination
  by (relation "measure length")
    (auto simp: next_run_def Let_def neq_Nil_conv less_Suc_eq_le length_dropWhile_le)

declare version_runs.simps [simp del]

section \<open>Digit runs compare by value\<close>

lemma digit_val_lt: "digit_char c \<Longrightarrow> digit_val c < 10"
  by (auto simp: digit_char_def ascii_digit_def digit_val_def)

lemma digit_less: "digit_char c \<Longrightarrow> digit_char d \<Longrightarrow> c < d \<longleftrightarrow> digit_val c < digit_val d"
  by (auto simp: digit_char_def ascii_digit_def digit_val_def less_char_def)

lemma digit_eq: "digit_char c \<Longrightarrow> digit_char d \<Longrightarrow> c = d \<longleftrightarrow> digit_val c = digit_val d"
  using digit_less [of c d] digit_less [of d c] by (metis less_irrefl linorder_neq_iff)

lemma digits_foldl:
  "foldl (\<lambda>n c. n * 10 + digit_val c) k s = k * 10 ^ length s + digits_val s"
proof (induction s arbitrary: k)
  case (Cons c s)
  show ?case using Cons [of "k * 10 + digit_val c"] Cons [of "digit_val c"]
    by (simp add: digits_val_def algebra_simps)
qed (simp add: digits_val_def)

lemma digits_val_simps [simp]:
  "digits_val [] = 0"
  "digits_val (c # s) = digit_val c * 10 ^ length s + digits_val s"
  using digits_foldl [of "digit_val c" s] by (simp_all add: digits_val_def)

lemma digits_val_lt: "list_all digit_char s \<Longrightarrow> digits_val s < 10 ^ length s"
proof (induction s)
  case (Cons c s)
  then have lt: "digit_val c + 1 \<le> 10" "digits_val s < 10 ^ length s" by (auto dest: digit_val_lt)
  have "digits_val (c # s) < digit_val c * 10 ^ length s + 10 ^ length s" using lt(2) by simp
  also have "\<dots> = (digit_val c + 1) * 10 ^ length s" by simp
  also have "\<dots> \<le> 10 * 10 ^ length s" using lt(1) by (rule mult_right_mono) simp
  finally show ?case by simp
qed simp

lemma digits_less_same_length:
  "length a = length b \<Longrightarrow> list_all digit_char a \<Longrightarrow> list_all digit_char b \<Longrightarrow>
   (a < b \<longleftrightarrow> digits_val a < digits_val b) \<and> (a = b \<longleftrightarrow> digits_val a = digits_val b)"
proof (induction a b rule: list_induct2)
  case (Cons x xs y ys)
  have lt: "digits_val xs < 10 ^ length xs" "digits_val ys < 10 ^ length xs"
    using Cons digits_val_lt [of xs] digits_val_lt [of ys] by auto
  have step: "m * 10 ^ length xs + u < n * 10 ^ length xs + v"
    if "m < n" "u < 10 ^ length xs" for m n u v :: nat
  proof -
    have "m * 10 ^ length xs + u < (m + 1) * 10 ^ length xs" using that(2) by simp
    also have "\<dots> \<le> n * 10 ^ length xs" using that(1) by (intro mult_right_mono) auto
    finally show ?thesis by simp
  qed
  consider "digit_val x < digit_val y" | "digit_val y < digit_val x" | "x = y"
    using Cons(3,4) digit_eq [of x y] by fastforce
  then show ?case
  proof cases
    case 1
    then have "x < y" "x \<noteq> y" using Cons(3,4) digit_less by auto
    with 1 step [OF 1 lt(1), of "digits_val ys"] show ?thesis using Cons(1) by auto
  next
    case 2
    then have "\<not> x < y" "x \<noteq> y" using Cons(3,4) digit_less [of x y] by auto
    with 2 step [OF 2 lt(2), of "digits_val xs"] show ?thesis using Cons(1) by auto
  next
    case 3
    with Cons show ?thesis by auto
  qed
qed simp

lemma trim_zeros_facts:
  "list_all digit_char s \<Longrightarrow> list_all digit_char (trim_leading_zeros s)"
  "digits_val (trim_leading_zeros s) = digits_val s"
  "s \<noteq> [] \<Longrightarrow> trim_leading_zeros s \<noteq> []"
  by (induction s rule: trim_leading_zeros.induct) (auto simp: digit_val_def)

lemma trim_zeros_head:
  "1 < length (trim_leading_zeros s) \<Longrightarrow> hd (trim_leading_zeros s) \<noteq> CHR ''0''"
  by (induction s rule: trim_leading_zeros.induct) auto

text \<open>For trimmed runs, more digits is a greater number.\<close>

lemma longer_trimmed_greater:
  assumes "list_all digit_char s" "list_all digit_char t"
    and "trim_leading_zeros s \<noteq> []"
    and "length (trim_leading_zeros s) < length (trim_leading_zeros t)"
  shows "digits_val s < digits_val t"
proof -
  let ?s = "trim_leading_zeros s" and ?t = "trim_leading_zeros t"
  from assms(3) have "0 < length ?s" by simp
  with assms(4) have "1 < length ?t" by linarith
  then obtain c r where t: "?t = c # r" "c \<noteq> CHR ''0''" "r \<noteq> []"
    using trim_zeros_head [of t] by (cases ?t) auto
  have "digit_char c" using trim_zeros_facts(1) [OF assms(2)] t(1) by simp
  then have "digit_val c \<noteq> 0" using t(2) digit_eq [of c "CHR ''0''"]
    by (simp add: digit_val_def digit_char_def ascii_digit_def)
  then have "1 * 10 ^ length r \<le> digit_val c * 10 ^ length r" by (intro mult_right_mono) auto
  then have "10 ^ length r \<le> digits_val ?t" unfolding t(1) digits_val_simps by linarith
  moreover have "digits_val ?s < 10 ^ length ?s"
    using digits_val_lt trim_zeros_facts(1) [OF assms(1)] by blast
  moreover have "(10 :: nat) ^ length ?s \<le> 10 ^ length r"
    using assms(4) t(1) by (intro power_increasing) auto
  ultimately have "digits_val ?s < digits_val ?t" by (meson order_less_le_trans)
  then show ?thesis by (simp add: trim_zeros_facts(2))
qed

lemma run_compare:
  assumes "list_all digit_char s" "list_all digit_char t" "s \<noteq> []" "t \<noteq> []"
  defines "a \<equiv> trim_leading_zeros s" and "b \<equiv> trim_leading_zeros t"
  shows "(if length a \<noteq> length b then (if length a < length b then -1 else 1)
          else if a \<noteq> b then (if a < b then -1 else 1) else 0 :: int)
         = (if digits_val s < digits_val t then -1 else if digits_val s = digits_val t then 0 else 1)"
proof -
  have ne: "a \<noteq> []" "b \<noteq> []" using assms trim_zeros_facts(3) by auto
  consider "length a < length b" | "length b < length a" | "length a = length b" by linarith
  then show ?thesis
  proof cases
    case 1
    with longer_trimmed_greater [of s t] assms ne show ?thesis by auto
  next
    case 2
    with longer_trimmed_greater [of t s] assms ne show ?thesis by auto
  next
    case 3
    have "(a < b \<longleftrightarrow> digits_val a < digits_val b) \<and> (a = b \<longleftrightarrow> digits_val a = digits_val b)"
      using 3 assms trim_zeros_facts(1) by (intro digits_less_same_length) auto
    with 3 show ?thesis unfolding a_def b_def by (auto simp: trim_zeros_facts(2))
  qed
qed

definition three_way :: "'a :: linorder \<Rightarrow> 'a \<Rightarrow> int" where
  "three_way x y = (if x < y then -1 else if x = y then 0 else 1)"

lemma next_run_digits:
  "next_run s = (r, rest, numeric) \<Longrightarrow> s \<noteq> [] \<Longrightarrow>
   r \<noteq> [] \<and> (numeric \<longrightarrow> list_all digit_char r)"
  by (cases s) (auto simp: next_run_def Let_def list_all_iff dest: set_takeWhileD)

lemma natural_compare_runs: "natural_compare a b = three_way (version_runs a) (version_runs b)"
proof (induction a b rule: natural_compare.induct)
  case (1 a b)
  show ?case
  proof (cases "a = [] \<or> b = []")
    case True
    then show ?thesis
      by (cases a; cases b)
        (auto simp: natural_compare.simps version_runs.simps three_way_def split: prod.splits)
  next
    case False
    obtain ar arest an where ra: "next_run a = (ar, arest, an)" by (cases "next_run a") auto
    obtain br brest bn where rb: "next_run b = (br, brest, bn)" by (cases "next_run b") auto
    have va: "version_runs a = (if an then NumRun (digits_val ar) else TextRun ar) # version_runs arest"
      using False ra by (subst version_runs.simps) simp
    have vb: "version_runs b = (if bn then NumRun (digits_val br) else TextRun br) # version_runs brest"
      using False rb by (subst version_runs.simps) simp
    show ?thesis
    proof (cases "an \<and> bn")
      case True
      have cmp: "(if length (trim_leading_zeros ar) \<noteq> length (trim_leading_zeros br)
           then (if length (trim_leading_zeros ar) < length (trim_leading_zeros br) then -1 else 1)
           else if trim_leading_zeros ar \<noteq> trim_leading_zeros br
           then (if trim_leading_zeros ar < trim_leading_zeros br then -1 else 1) else 0 :: int)
         = (if digits_val ar < digits_val br then -1
            else if digits_val ar = digits_val br then 0 else 1)"
        using True next_run_digits [OF ra] next_run_digits [OF rb] False by (intro run_compare) auto
      have ih: "length (trim_leading_zeros ar) = length (trim_leading_zeros br) \<Longrightarrow>
          trim_leading_zeros ar = trim_leading_zeros br \<Longrightarrow>
          natural_compare arest brest = three_way (version_runs arest) (version_runs brest)"
        using 1(1) False True ra rb by simp
      show ?thesis
        using False True ra rb cmp ih
        by (subst natural_compare.simps)
          (auto simp: Let_def va vb three_way_def split: if_splits)
    next
      case mixed: False
      show ?thesis
      proof (cases "\<not> an \<and> \<not> bn")
        case True
        then have "ar = br \<Longrightarrow>
            natural_compare arest brest = three_way (version_runs arest) (version_runs brest)"
          using 1(2) False ra rb by simp
        with False True ra rb show ?thesis
          by (subst natural_compare.simps) (auto simp: va vb three_way_def)
      next
        case False
        with mixed \<open>\<not> (a = [] \<or> b = [])\<close> ra rb show ?thesis
          by (subst natural_compare.simps) (auto simp: va vb three_way_def)
      qed
    qed
  qed
qed

section \<open>The comparators are strict weak orders\<close>

definition natural_less :: "string \<Rightarrow> string \<Rightarrow> bool" where
  "natural_less a b \<longleftrightarrow> natural_compare a b < 0"

lemma natural_less_runs: "natural_less a b \<longleftrightarrow> version_runs a < version_runs b"
  by (simp add: natural_less_def natural_compare_runs three_way_def)

interpretation natural_order: strict_weak_order natural_less
  by unfold_locales (auto simp: natural_less_runs)

text \<open>The order is the version order with ties broken by the identifier.\<close>

definition version_less :: "'v semver_lib \<Rightarrow> candidate \<Rightarrow> candidate \<Rightarrow> bool" where
  "version_less sv a b =
     (case (semver_of sv a, semver_of sv b) of
        (Some av, Some bv) \<Rightarrow> sv_less sv av bv
      | (Some _, None) \<Rightarrow> True
      | (None, Some _) \<Rightarrow> False
      | (None, None) \<Rightarrow> natural_less (c_version a) (c_version b))"

lemma candidate_less_lex:
  "semver_laws sv \<Longrightarrow>
   candidate_less sv a b \<longleftrightarrow> version_less sv a b \<or> (\<not> version_less sv b a \<and> c_id a < c_id b)"
  by (cases "semver_of sv a"; cases "semver_of sv b")
    (auto simp: candidate_less_def version_less_def semver_laws_def natural_less_def
      natural_compare_runs three_way_def)

lemma version_less_swo:
  assumes "semver_laws sv"
  shows "strict_weak_order (version_less sv)"
proof
  fix x y z :: candidate
  have irr: "\<not> sv_less sv u u" for u using assms by (simp add: semver_laws_def)
  have tr: "sv_less sv u v \<Longrightarrow> sv_less sv v w \<Longrightarrow> sv_less sv u w" for u v w
    using assms unfolding semver_laws_def by blast
  have co: "sv_less sv u w \<Longrightarrow> sv_less sv u v \<or> sv_less sv v w" for u v w
    using assms unfolding semver_laws_def by blast
  show "\<not> version_less sv x x"
    by (auto simp: version_less_def irr natural_less_runs split: option.split)
  show "version_less sv x y \<Longrightarrow> version_less sv y z \<Longrightarrow> version_less sv x z"
    by (cases "semver_of sv x"; cases "semver_of sv y"; cases "semver_of sv z")
      (auto simp: version_less_def natural_less_runs dest: tr)
  show "version_less sv x z \<Longrightarrow> version_less sv x y \<or> version_less sv y z"
    by (cases "semver_of sv x"; cases "semver_of sv y"; cases "semver_of sv z")
      (auto simp: version_less_def natural_less_runs dest: co)
qed

lemma candidate_less_swo:
  assumes "semver_laws sv"
  shows "strict_weak_order (candidate_less sv)"
proof -
  have "strict_weak_order (\<lambda>a b :: candidate. c_id a < c_id b)" by unfold_locales auto
  from strict_weak_order_lex [OF version_less_swo [OF assms] this]
  show ?thesis by (simp add: candidate_less_lex [OF assms, abs_def])
qed

lemma candidate_less_total:
  "semver_laws sv \<Longrightarrow> \<not> candidate_less sv a b \<Longrightarrow> \<not> candidate_less sv b a \<Longrightarrow> c_id a = c_id b"
  by (metis candidate_less_lex linorder_neq_iff)

text \<open>Natural comparison of version strings, the loop over their runs, is the three-way
  comparison of their run lists, where digit runs compare as numbers, texts bytewise and a number
  comes before a text; so it is a total preorder, and exchanging the arguments negates it.\<close>

theorem natural_compare_by_runs:
  "natural_compare a b = three_way (version_runs a) (version_runs b)
   \<and> natural_compare b a = - natural_compare a b"
  by (auto simp: natural_compare_runs three_way_def)

text \<open>The order of a group is determined by its members: it lists the same candidates in an
  order no pair contradicts, and for distinct identifiers any arrangement of the group gives the
  same list.\<close>

theorem order_group_canonical:
  assumes "semver_laws sv" and "distinct (map c_id g)" and "mset g' = mset g"
  shows "order_group sv g' = order_group sv g
         \<and> mset (order_group sv g) = mset g
         \<and> sorted_wrt (\<lambda>a b. candidate_less sv a b) (order_group sv g)"
proof -
  note swo = candidate_less_swo [OF assms(1)]
  have inj: "a = b" if "a \<in> set g" "b \<in> set g" "c_id a = c_id b" for a b
    using that assms(2) by (auto simp: distinct_map dest: inj_onD)
  have "order_group sv g' = order_group sv g"
    unfolding order_group_def
  proof (rule strict_weak_order.stable_sort_perm [OF swo assms(3)])
    fix a b
    assume ab: "a \<in> set g'" "b \<in> set g'" "\<not> candidate_less sv a b" "\<not> candidate_less sv b a"
    then have "a \<in> set g" "b \<in> set g" using assms(3) by (metis set_mset_mset)+
    with ab(3,4) candidate_less_total [OF assms(1)] show "a = b" by (intro inj)
  qed
  moreover have m: "mset (order_group sv g) = mset g" by (simp add: order_group_def)
  moreover have "sorted_wrt (\<lambda>a b. candidate_less sv a b) (order_group sv g)"
  proof -
    have s: "sorted_wrt (\<lambda>a b. \<not> candidate_less sv b a) (order_group sv g)"
      unfolding order_group_def by (rule strict_weak_order.stable_sort_sorted [OF swo])
    have "distinct (order_group sv g)"
      using m assms(2) by (metis distinct_map mset_eq_imp_distinct_iff)
    with s have "sorted_wrt (\<lambda>a b. a \<noteq> b \<and> \<not> candidate_less sv b a) (order_group sv g)"
      by (induction "order_group sv g" rule: rev_induct)
        (auto simp: sorted_wrt_append sorted_wrt_iff_nth_less distinct_conv_nth)
    then show ?thesis
    proof (rule sorted_wrt_mono_rel [rotated])
      fix a b
      assume mem: "a \<in> set (order_group sv g)" "b \<in> set (order_group sv g)"
        and ab: "a \<noteq> b \<and> \<not> candidate_less sv b a"
      then have "a \<in> set g" "b \<in> set g" by (simp_all add: order_group_def)
      with ab inj candidate_less_total [OF assms(1)] show "candidate_less sv a b" by blast
    qed
  qed
  ultimately show ?thesis by blast
qed

definition demo_semver :: "nat semver_lib" where
  "demo_semver = \<lparr>sv_parse = (\<lambda>s. if s \<noteq> [] \<and> list_all digit_char s then Some (digits_val s) else None),
                  sv_equal = (=), sv_less = (<)\<rparr>"

definition demo_cand :: "string \<Rightarrow> string \<Rightarrow> string \<Rightarrow> candidate" where
  "demo_cand eid version h =
     \<lparr>c_id = eid, c_org = ''acme'', c_project = ''gcs'', c_version = version, c_path = ''a.go'',
      c_name = ''Run'', c_ctype = ''function'', c_pkg = ''main'', c_hash = h, c_hash_kind = ''hash'',
      c_store = [], c_bkey = [], c_indexed = 0\<rparr>"

lemma demo_semver_laws: "semver_laws demo_semver"
  by (auto simp: semver_laws_def demo_semver_def)

theorem order_group_canonical_witness:
  "order_group demo_semver [demo_cand ''i2'' ''2'' ''h'', demo_cand ''i1'' ''10'' ''h'']
     = order_group demo_semver [demo_cand ''i1'' ''10'' ''h'', demo_cand ''i2'' ''2'' ''h'']"
proof -
  have "distinct (map c_id [demo_cand ''i1'' ''10'' ''h'', demo_cand ''i2'' ''2'' ''h''])"
    by (simp add: demo_cand_def)
  then show ?thesis
    using order_group_canonical [OF demo_semver_laws, of "[demo_cand ''i1'' ''10'' ''h'', demo_cand ''i2'' ''2'' ''h'']"
        "[demo_cand ''i2'' ''2'' ''h'', demo_cand ''i1'' ''10'' ''h'']"]
    by (simp add: add_mset_commute)
qed

end
