(* ===== verification/Lineage.thy ===== *)
theory Lineage
  imports VersionOrder
begin

text \<open>
  \<open>processor/supersession/edges.go\<close> and the pure core of \<open>runPass\<close>: the lineage triples a
  snapshot of the graph should carry, the difference to what it carries, and the statistics of
  the pass. \<open>ref\<close> is the framework's datatype tag of entity references.
\<close>

section \<open>Edges\<close>

record pass_stats =
  ps_entities :: nat
  ps_groups :: nat
  ps_corresponding :: nat
  ps_supersedes :: nat
  ps_incomparable :: nat
  ps_changed :: nat
  ps_unchanged :: nat
  ps_truncated :: bool

definition zero_stats :: pass_stats where
  "zero_stats = \<lparr>ps_entities = 0, ps_groups = 0, ps_corresponding = 0, ps_supersedes = 0,
                 ps_incomparable = 0, ps_changed = 0, ps_unchanged = 0, ps_truncated = False\<rparr>"

definition lineage_reference_triple :: "string \<Rightarrow> string \<Rightarrow> string \<Rightarrow> string \<Rightarrow> triple" where
  "lineage_reference_triple ref subj pred ob =
     \<lparr>t_subject = subj, t_predicate = pred, t_object = OString ob, t_datatype = ref,
      t_source = ''supersession'', t_time = 0, t_confidence = 1\<rparr>"

definition lineage_literal_triple :: "string \<Rightarrow> string \<Rightarrow> string \<Rightarrow> triple" where
  "lineage_literal_triple subj pred ob =
     \<lparr>t_subject = subj, t_predicate = pred, t_object = OString ob, t_datatype = [],
      t_source = ''supersession'', t_time = 0, t_confidence = 1\<rparr>"

definition classify_change :: "candidate \<Rightarrow> candidate \<Rightarrow> string option" where
  "classify_change older newer =
     (if c_hash older = [] \<or> c_hash newer = [] then None
      else if c_hash_kind older \<noteq> c_hash_kind newer then None
      else if c_hash older \<noteq> c_hash newer then Some ''changed''
      else Some ''unchanged'')"

type_synonym edge_state = "(string, triple list) gomap \<times> pass_stats"

definition link_pair ::
  "'v semver_lib \<Rightarrow> string \<Rightarrow> candidate \<Rightarrow> candidate \<Rightarrow> edge_state \<Rightarrow> edge_state" where
  "link_pair sv ref older newer ds =
     (case ds of (desired, stats) \<Rightarrow>
        if \<not> version_comparable sv older newer then
          (desired, stats\<lparr>ps_incomparable := ps_incomparable stats + 1\<rparr>)
        else
          (let stats1 = stats\<lparr>ps_supersedes := ps_supersedes stats + 1\<rparr>;
               d1 = gm_append (c_id newer)
                      (lineage_reference_triple ref (c_id newer) code_supersedes (c_id older)) desired;
               d2 = gm_append (c_id older)
                      (lineage_reference_triple ref (c_id older) code_superseded_by (c_id newer)) d1
           in case classify_change older newer of
                None \<Rightarrow> (d2, stats1)
              | Some change \<Rightarrow>
                  (gm_append (c_id newer)
                     (lineage_literal_triple (c_id newer) code_lineage_change change) d2,
                   if change = ''changed'' then stats1\<lparr>ps_changed := ps_changed stats1 + 1\<rparr>
                   else stats1\<lparr>ps_unchanged := ps_unchanged stats1 + 1\<rparr>)))"

fun link_group ::
  "'v semver_lib \<Rightarrow> string \<Rightarrow> candidate list \<Rightarrow> edge_state \<Rightarrow> edge_state" where
  "link_group sv ref (older # newer # rest) ds =
     link_group sv ref (newer # rest) (link_pair sv ref older newer ds)"
| "link_group sv ref _ ds = ds"

definition add_group ::
  "'v semver_lib \<Rightarrow> string \<Rightarrow> edge_state \<Rightarrow> candidate list \<Rightarrow> edge_state" where
  "add_group sv ref ds grp =
     (case ds of (desired, stats) \<Rightarrow>
        link_group sv ref (order_group sv grp)
          (desired, if length grp > 1 then stats\<lparr>ps_corresponding := ps_corresponding stats + 1\<rparr>
                    else stats))"

definition desired_edges ::
  "'v semver_lib \<Rightarrow> string \<Rightarrow> (corr_key, candidate list) gomap \<Rightarrow> edge_state" where
  "desired_edges sv ref groups =
     foldl (add_group sv ref) ([], zero_stats\<lparr>ps_groups := length groups\<rparr>) (map snd groups)"

section \<open>The delta\<close>

definition object_string :: "obj \<Rightarrow> string" where
  "object_string ob = (case ob of OString s \<Rightarrow> s | _ \<Rightarrow> [])"

definition triple_key :: "triple \<Rightarrow> string" where
  "triple_key t = t_predicate t @ [CHR 0x00] @ object_string (t_object t)"

definition predicate_object_set :: "triple list \<Rightarrow> string set" where
  "predicate_object_set ts = set (map triple_key ts)"

definition gm_slice :: "('k, 'v list) gomap \<Rightarrow> 'k \<Rightarrow> 'v list" where
  "gm_slice m k = (case map_of m k of None \<Rightarrow> [] | Some vs \<Rightarrow> vs)"

definition fresh_triples :: "triple list \<Rightarrow> triple list \<Rightarrow> triple list" where
  "fresh_triples want have_ts = filter (\<lambda>t. triple_key t \<notin> predicate_object_set have_ts) want"

definition diff_new ::
  "(string, triple list) gomap \<Rightarrow> (string, triple list) gomap \<Rightarrow> (string, triple list) gomap" where
  "diff_new desired existing =
     foldl (\<lambda>delta (eid, want).
              let fresh = fresh_triples want (gm_slice existing eid)
              in if fresh \<noteq> [] then gm_put eid fresh delta else delta) [] desired"

section \<open>The pass\<close>

text \<open>What \<open>runPass\<close> computes between the enumeration and the publish: the candidates and the
  triples they carry, then the statistics and the delta.\<close>

definition pass_scan :: "entity list \<Rightarrow> candidate list \<times> (string, triple list) gomap" where
  "pass_scan es =
     foldl (\<lambda>(cands, existing) e.
              case candidate_from_entity e of
                None \<Rightarrow> (cands, existing)
              | Some c \<Rightarrow> (cands @ [c], gm_put (c_id c) (e_triples e) existing)) ([], []) es"

definition pass_core ::
  "'v semver_lib \<Rightarrow> string \<Rightarrow> entity list \<Rightarrow> bool \<Rightarrow> pass_stats \<times> (string, triple list) gomap" where
  "pass_core sv ref es truncated =
     (let (cands, existing) = pass_scan es;
          (desired, stats) = desired_edges sv ref (group_by_correspondence cands)
      in (stats\<lparr>ps_entities := length cands, ps_truncated := truncated\<rparr>, diff_new desired existing))"

section \<open>The pass as emissions and sums\<close>

text \<open>Each pair of neighbours emits its triples and its statistics independently of the state
  the loop has built so far.\<close>

definition pair_emits ::
  "'v semver_lib \<Rightarrow> string \<Rightarrow> candidate \<Rightarrow> candidate \<Rightarrow> (string \<times> triple) list" where
  "pair_emits sv ref older newer =
     (if \<not> version_comparable sv older newer then []
      else [(c_id newer, lineage_reference_triple ref (c_id newer) code_supersedes (c_id older)),
            (c_id older, lineage_reference_triple ref (c_id older) code_superseded_by (c_id newer))]
           @ (case classify_change older newer of
                None \<Rightarrow> []
              | Some ch \<Rightarrow> [(c_id newer, lineage_literal_triple (c_id newer) code_lineage_change ch)]))"

fun list_emits :: "'v semver_lib \<Rightarrow> string \<Rightarrow> candidate list \<Rightarrow> (string \<times> triple) list" where
  "list_emits sv ref (older # newer # rest) =
     pair_emits sv ref older newer @ list_emits sv ref (newer # rest)"
| "list_emits sv ref _ = []"

definition stats_add :: "pass_stats \<Rightarrow> pass_stats \<Rightarrow> pass_stats" where
  "stats_add a b =
     \<lparr>ps_entities = ps_entities a + ps_entities b, ps_groups = ps_groups a + ps_groups b,
      ps_corresponding = ps_corresponding a + ps_corresponding b,
      ps_supersedes = ps_supersedes a + ps_supersedes b,
      ps_incomparable = ps_incomparable a + ps_incomparable b,
      ps_changed = ps_changed a + ps_changed b, ps_unchanged = ps_unchanged a + ps_unchanged b,
      ps_truncated = (ps_truncated a \<or> ps_truncated b)\<rparr>"

lemma stats_add_assoc: "stats_add (stats_add a b) c = stats_add a (stats_add b c)"
  by (simp add: stats_add_def)

lemma stats_add_swap: "stats_add (stats_add a b) c = stats_add (stats_add a c) b"
  by (auto simp: stats_add_def)

lemma stats_add_zero [simp]: "stats_add a zero_stats = a"
  by (simp add: stats_add_def zero_stats_def)

definition pair_stats :: "'v semver_lib \<Rightarrow> candidate \<Rightarrow> candidate \<Rightarrow> pass_stats" where
  "pair_stats sv older newer =
     (if \<not> version_comparable sv older newer then zero_stats\<lparr>ps_incomparable := 1\<rparr>
      else zero_stats\<lparr>ps_supersedes := 1,
             ps_changed := (if classify_change older newer = Some ''changed'' then 1 else 0),
             ps_unchanged := (if classify_change older newer = Some ''unchanged'' then 1 else 0)\<rparr>)"

fun list_stats :: "'v semver_lib \<Rightarrow> candidate list \<Rightarrow> pass_stats" where
  "list_stats sv (older # newer # rest) =
     stats_add (pair_stats sv older newer) (list_stats sv (newer # rest))"
| "list_stats sv _ = zero_stats"

definition group_stats :: "'v semver_lib \<Rightarrow> candidate list \<Rightarrow> pass_stats" where
  "group_stats sv g =
     stats_add (zero_stats\<lparr>ps_corresponding := (if length g > 1 then 1 else 0)\<rparr>)
       (list_stats sv (order_group sv g))"

abbreviation append_all ::
  "(string, triple list) gomap \<Rightarrow> (string \<times> triple) list \<Rightarrow> (string, triple list) gomap" where
  "append_all \<equiv> foldl (\<lambda>m (k, v). gm_append k v m)"

lemma classify_change_values: "classify_change a b \<in> {None, Some ''changed'', Some ''unchanged''}"
  by (simp add: classify_change_def)

lemma link_pair_emits:
  "link_pair sv ref o1 n1 (d, st) = (append_all d (pair_emits sv ref o1 n1), stats_add st (pair_stats sv o1 n1))"
  using classify_change_values [of o1 n1]
  by (cases st) (auto simp: link_pair_def pair_emits_def pair_stats_def stats_add_def zero_stats_def
      Let_def split: option.split)

lemma link_group_emits:
  "link_group sv ref l (d, st) = (append_all d (list_emits sv ref l), stats_add st (list_stats sv l))"
  by (induction sv ref l arbitrary: d st rule: list_emits.induct)
    (simp_all add: link_pair_emits stats_add_assoc)

lemma add_group_emits:
  "add_group sv ref (d, st) g =
     (append_all d (list_emits sv ref (order_group sv g)), stats_add st (group_stats sv g))"
proof -
  have "(if length g > 1 then st\<lparr>ps_corresponding := ps_corresponding st + 1\<rparr> else st)
      = stats_add st (zero_stats\<lparr>ps_corresponding := (if length g > 1 then 1 else 0)\<rparr>)"
    by (cases st) (simp add: stats_add_def zero_stats_def)
  then show ?thesis by (simp add: add_group_def link_group_emits group_stats_def stats_add_assoc)
qed

definition group_emits ::
  "'v semver_lib \<Rightarrow> string \<Rightarrow> candidate list \<Rightarrow> (string \<times> triple) list" where
  "group_emits sv ref g = list_emits sv ref (order_group sv g)"

lemma foldl_add_group:
  "foldl (add_group sv ref) (d, st) gs =
     (append_all d (concat (map (group_emits sv ref) gs)), foldl stats_add st (map (group_stats sv) gs))"
  by (induction gs arbitrary: d st) (simp_all add: add_group_emits group_emits_def)

lemma desired_edges_emits:
  "desired_edges sv ref gs =
     (append_all [] (concat (map (group_emits sv ref) (map snd gs))),
      foldl stats_add (zero_stats\<lparr>ps_groups := length gs\<rparr>) (map (group_stats sv) (map snd gs)))"
  unfolding desired_edges_def foldl_add_group ..

lemma desired_lookup:
  "map_of (fst (desired_edges sv ref gs)) k =
     (let vs = map snd (filter (\<lambda>kv. fst kv = k) (concat (map (group_emits sv ref) (map snd gs))))
      in if vs = [] then None else Some vs)"
  unfolding desired_edges_emits fst_conv gm_append_foldl by (simp add: Let_def)

lemma desired_wf: "gm_wf (fst (desired_edges sv ref gs))"
  unfolding desired_edges_emits fst_conv by (rule gm_append_foldl_wf) simp

section \<open>Grouping\<close>

lemma group_lookup:
  "map_of (group_by_correspondence cands) k =
     (let g = filter (\<lambda>c. cand_key c = k) cands in if g = [] then None else Some g)"
proof -
  have a: "group_by_correspondence cands = foldl (\<lambda>m (k, v). gm_append k v m) [] (map (\<lambda>c. (cand_key c, c)) cands)"
    by (simp add: group_by_correspondence_def foldl_map)
  have b: "map snd (filter (\<lambda>kv. fst kv = k) (map (\<lambda>c. (cand_key c, c)) cands))
      = filter (\<lambda>c. cand_key c = k) cands"
    by (induction cands) auto
  show ?thesis unfolding a gm_append_foldl b by (simp add: Let_def)
qed

lemma group_wf: "gm_wf (group_by_correspondence cands)"
proof -
  have "gm_wf m \<Longrightarrow> gm_wf (foldl (\<lambda>groups c. gm_append (cand_key c) c groups) m cs)" for m cs
    by (induction cs arbitrary: m) auto
  then show ?thesis by (simp add: group_by_correspondence_def)
qed

lemma order_group_set [simp]: "set (order_group sv g) = set g"
  by (simp add: order_group_def)

lemma order_group_perm:
  assumes "semver_laws sv" and "mset g = mset g'" and "inj_on c_id (set g)"
  shows "order_group sv g = order_group sv g'"
  unfolding order_group_def
proof (rule strict_weak_order.stable_sort_perm [OF candidate_less_swo [OF assms(1)] assms(2)])
  fix a b
  assume "a \<in> set g" "b \<in> set g" "\<not> candidate_less sv a b" "\<not> candidate_less sv b a"
  with candidate_less_total [OF assms(1)] show "a = b" by (intro inj_onD [OF assms(3)])
qed

lemma list_emits_ids: "e \<in> set (list_emits sv ref l) \<Longrightarrow> fst e \<in> c_id ` set l"
  by (induction sv ref l rule: list_emits.induct)
    (auto simp: pair_emits_def split: if_splits option.splits)

lemma group_emits_ids: "e \<in> set (group_emits sv ref g) \<Longrightarrow> fst e \<in> c_id ` set g"
  using list_emits_ids [of e sv ref "order_group sv g"] by (simp add: group_emits_def)

section \<open>Independence of the map order\<close>

text \<open>The groups of one snapshot, in any order of the Go map, with the members ordered.\<close>

definition ordered_groups ::
  "'v semver_lib \<Rightarrow> (corr_key, candidate list) gomap \<Rightarrow> (corr_key \<times> candidate list) list" where
  "ordered_groups sv gs = map (\<lambda>(k, g). (k, order_group sv g)) gs"

lemma group_same_members:
  assumes "gm_same gs (group_by_correspondence cands)" and "(k, g) \<in> set gs"
  shows "g = filter (\<lambda>c. cand_key c = k) cands" "g \<noteq> []"
proof -
  have "map_of gs k = Some g" using assms gm_get_mem [of gs k g] by (simp add: gm_same_def)
  then have "map_of (group_by_correspondence cands) k = Some g" using assms(1) by (simp add: gm_same_def)
  then show "g = filter (\<lambda>c. cand_key c = k) cands" "g \<noteq> []"
    by (auto simp: group_lookup Let_def split: if_splits)
qed

lemma ordered_groups_mset:
  assumes "semver_laws sv" and "mset cands = mset cands'" and "distinct (map c_id cands)"
    and "gm_same gs (group_by_correspondence cands)"
    and "gm_same gs' (group_by_correspondence cands')"
  shows "mset (ordered_groups sv gs) = mset (ordered_groups sv gs')"
proof -
  have sub: "set (ordered_groups sv hs) \<subseteq> set (ordered_groups sv hs')"
    if p: "mset cs = mset cs'" "distinct (map c_id cs)"
      and s: "gm_same hs (group_by_correspondence cs)" "gm_same hs' (group_by_correspondence cs')"
    for cs cs' hs hs'
  proof
    fix x assume "x \<in> set (ordered_groups sv hs)"
    then obtain k g where x: "x = (k, order_group sv g)" and kg: "(k, g) \<in> set hs"
      by (auto simp: ordered_groups_def)
    let ?g' = "filter (\<lambda>c. cand_key c = k) cs'"
    note g = group_same_members [OF s(1) kg]
    have perm: "mset g = mset ?g'" using p(1) g(1) by (metis mset_filter)
    then have "?g' \<noteq> []" using g(2) by (metis mset_zero_iff)
    then have "map_of hs' k = Some ?g'" using s(2) by (auto simp: gm_same_def group_lookup Let_def)
    then have "(k, ?g') \<in> set hs'" by (rule map_of_SomeD)
    moreover have "inj_on c_id (set g)" using p(2) g(1) by (auto simp: distinct_map inj_on_def)
    then have "order_group sv g = order_group sv ?g'" by (intro order_group_perm assms(1) perm)
    ultimately show "x \<in> set (ordered_groups sv hs')" using x by (force simp: ordered_groups_def)
  qed
  have d: "distinct (ordered_groups sv hs)" if "gm_wf hs" for hs
  proof -
    have "map fst (ordered_groups sv hs) = map fst hs" by (induction hs) (auto simp: ordered_groups_def)
    with that show ?thesis by (metis distinct_map gm_wf_def)
  qed
  have d': "distinct (map c_id cands')" using assms(2,3) by (metis mset_eq_imp_distinct_iff mset_map)
  have "set (ordered_groups sv gs) = set (ordered_groups sv gs')"
    using sub [OF assms(2,3,4,5)] sub [OF assms(2)[symmetric] d' assms(5,4)] by blast
  moreover have "distinct (ordered_groups sv gs)" "distinct (ordered_groups sv gs')"
    using d assms(4,5) by (auto simp: gm_same_def)
  ultimately show ?thesis by (simp add: set_eq_iff_mset_eq_distinct)
qed

lemma foldl_stats_mset:
  assumes "mset xs = mset ys"
  shows "foldl stats_add z xs = foldl stats_add z ys"
proof -
  have "fold (\<lambda>x a. stats_add a x) xs = fold (\<lambda>x a. stats_add a x) ys"
    by (rule fold_multiset_equiv [OF _ assms]) (auto simp: stats_add_swap fun_eq_iff)
  then show ?thesis by (simp add: foldl_conv_fold)
qed

text \<open>The emissions for one identifier come from one group.\<close>

lemma filter_concat_single:
  assumes "distinct (map fst gs)" and "\<And>k g. (k, g) \<in> set gs \<Longrightarrow> k \<noteq> k0 \<Longrightarrow> filter P (f g) = []"
  shows "filter P (concat (map f (map snd gs))) = (case map_of gs k0 of None \<Rightarrow> [] | Some g \<Rightarrow> filter P (f g))"
  using assms
proof (induction gs)
  case (Cons kg gs)
  obtain k g where kg: "kg = (k, g)" by (cases kg) auto
  have ih: "filter P (concat (map f (map snd gs))) = (case map_of gs k0 of None \<Rightarrow> [] | Some g \<Rightarrow> filter P (f g))"
    using Cons by (intro Cons.IH) auto
  show ?case
  proof (cases "k = k0")
    case True
    with Cons(2) kg have "map_of gs k0 = None" by (auto simp: map_of_eq_None_iff)
    with ih True kg show ?thesis by simp
  next
    case False
    with Cons(3) [of k g] kg ih show ?thesis by simp
  qed
qed simp

lemma emits_for_id:
  assumes "gm_same gs (group_by_correspondence cands)" and "distinct (map c_id cands)"
  shows "filter (\<lambda>kv. fst kv = eid) (concat (map (group_emits sv ref) (map snd gs)))
    = (case find (\<lambda>c. c_id c = eid) cands of
         None \<Rightarrow> []
       | Some c \<Rightarrow> filter (\<lambda>kv. fst kv = eid)
                     (group_emits sv ref (filter (\<lambda>d. cand_key d = cand_key c) cands)))"
proof (cases "find (\<lambda>c. c_id c = eid) cands")
  case None
  then have none: "\<forall>c \<in> set cands. c_id c \<noteq> eid" by (auto simp: find_None_iff)
  have "filter (\<lambda>kv. fst kv = eid) (group_emits sv ref g) = []" if "(k, g) \<in> set gs" for k g
    using group_same_members(1) [OF assms(1) that] none
    by (auto simp: filter_empty_conv dest!: group_emits_ids)
  then have "filter (\<lambda>kv. fst kv = eid) (concat (map (group_emits sv ref) (map snd gs))) = []"
    by (fastforce simp: filter_empty_conv)
  with None show ?thesis by simp
next
  case (Some c)
  then have c: "c \<in> set cands" "c_id c = eid" by (auto simp: find_Some_iff)
  have other: "filter (\<lambda>kv. fst kv = eid) (group_emits sv ref g) = []"
    if kg: "(k, g) \<in> set gs" "k \<noteq> cand_key c" for k g
  proof -
    have "c_id d \<noteq> eid" if "d \<in> set g" for d
    proof
      assume "c_id d = eid"
      with that c assms(2) group_same_members(1) [OF assms(1) kg(1)] have "d = c"
        by (auto simp: distinct_map inj_on_def)
      with that kg group_same_members(1) [OF assms(1) kg(1)] show False by auto
    qed
    then show ?thesis by (fastforce simp: filter_empty_conv dest!: group_emits_ids)
  qed
  have "c \<in> set (filter (\<lambda>d. cand_key d = cand_key c) cands)" using c(1) by simp
  then have "filter (\<lambda>d. cand_key d = cand_key c) cands \<noteq> []" by (metis empty_iff list.set(1))
  then have "map_of gs (cand_key c) = Some (filter (\<lambda>d. cand_key d = cand_key c) cands)"
    using assms(1) by (simp add: gm_same_def group_lookup Let_def)
  with filter_concat_single [of gs "cand_key c", OF _ other] assms(1) Some show ?thesis
    by (simp add: gm_same_def gm_wf_def)
qed

lemma find_unique: "distinct (map f xs) \<Longrightarrow> c \<in> set xs \<Longrightarrow> find (\<lambda>x. f x = f c) xs = Some c"
  by (induction xs) (auto simp: image_iff)

text \<open>The lineage of a snapshot is a function of the snapshot alone. For entities with distinct
  identifiers, neither the order in which the enumeration returned them nor the order in which
  Go visits the maps of groups changes any entity's list of desired triples or the statistics.\<close>

theorem desired_edges_deterministic:
  assumes "semver_laws sv" and "mset cands = mset cands'" and "distinct (map c_id cands)"
    and "gm_same gs (group_by_correspondence cands)"
    and "gm_same gs' (group_by_correspondence cands')"
  shows "map_of (fst (desired_edges sv ref gs)) = map_of (fst (desired_edges sv ref gs'))
         \<and> snd (desired_edges sv ref gs) = snd (desired_edges sv ref gs')"
proof
  have d': "distinct (map c_id cands')" using assms(2,3) by (metis mset_eq_imp_distinct_iff mset_map)
  note og = ordered_groups_mset [OF assms]
  show "map_of (fst (desired_edges sv ref gs)) = map_of (fst (desired_edges sv ref gs'))"
  proof
    fix eid
    have find: "find (\<lambda>c. c_id c = eid) cands = find (\<lambda>c. c_id c = eid) cands'"
    proof -
      have set: "set cands = set cands'" using assms(2) by (metis set_mset_mset)
      show ?thesis
      proof (cases "\<exists>c \<in> set cands. c_id c = eid")
        case True
        then obtain c where c: "c \<in> set cands" "eid = c_id c" by blast
        with find_unique [OF assms(3) c(1)] find_unique [OF d', of c] set show ?thesis by simp
      next
        case False
        then have "find (\<lambda>c. c_id c = eid) cands = None" "find (\<lambda>c. c_id c = eid) cands' = None"
          using set unfolding find_None_iff by blast+
        then show ?thesis by simp
      qed
    qed
    have emits: "group_emits sv ref (filter P cands) = group_emits sv ref (filter P cands')" for P
    proof -
      have "mset (filter P cands) = mset (filter P cands')" using assms(2) by (metis mset_filter)
      moreover have "inj_on c_id (set (filter P cands))" using assms(3) by (auto simp: distinct_map inj_on_def)
      ultimately show ?thesis unfolding group_emits_def using order_group_perm [OF assms(1)] by metis
    qed
    show "map_of (fst (desired_edges sv ref gs)) eid = map_of (fst (desired_edges sv ref gs')) eid"
      unfolding desired_lookup emits_for_id [OF assms(4,3)] emits_for_id [OF assms(5) d'] find emits ..
  qed
  have len: "length gs = length gs'"
    using og by (metis length_map ordered_groups_def size_mset)
  have stats: "map (group_stats sv) (map snd hs)
      = map (\<lambda>l. stats_add (zero_stats\<lparr>ps_corresponding := (if length l > 1 then 1 else 0)\<rparr>) (list_stats sv l))
          (map snd (ordered_groups sv hs))" for hs
    by (induction hs) (auto simp: ordered_groups_def group_stats_def order_group_def)
  have "mset (map (group_stats sv) (map snd gs)) = mset (map (group_stats sv) (map snd gs'))"
    unfolding stats mset_map og ..
  then show "snd (desired_edges sv ref gs) = snd (desired_edges sv ref gs')"
    unfolding desired_edges_emits snd_conv len by (rule foldl_stats_mset)
qed

text \<open>A library that reads plain decimal numbers, and three versions of one symbol.\<close>

theorem desired_edges_deterministic_witness:
  "map_of (fst (desired_edges demo_semver ''ref'' (group_by_correspondence
      [demo_cand ''i2'' ''2'' ''h2'', demo_cand ''i1'' ''1'' ''h1'']))) ''i2''
   = map_of (fst (desired_edges demo_semver ''ref'' (group_by_correspondence
      [demo_cand ''i1'' ''1'' ''h1'', demo_cand ''i2'' ''2'' ''h2'']))) ''i2''"
proof -
  let ?c = "[demo_cand ''i2'' ''2'' ''h2'', demo_cand ''i1'' ''1'' ''h1'']"
  let ?d = "[demo_cand ''i1'' ''1'' ''h1'', demo_cand ''i2'' ''2'' ''h2'']"
  have "mset ?c = mset ?d" by (simp add: add_mset_commute)
  moreover have "distinct (map c_id ?c)" by (simp add: demo_cand_def)
  ultimately show ?thesis
    using desired_edges_deterministic [OF demo_semver_laws, of ?c ?d
        "group_by_correspondence ?c" "group_by_correspondence ?d" "''ref''"] group_wf
    by (simp add: gm_same_def)
qed

section \<open>What the edges say\<close>

definition lineage_has :: "(string, triple list) gomap \<Rightarrow> string \<Rightarrow> string \<Rightarrow> string \<Rightarrow> bool" where
  "lineage_has desired subj pred ob =
     list_ex (\<lambda>t. t_predicate t = pred \<and> t_object t = OString ob) (gm_slice desired subj)"

definition linked :: "'v semver_lib \<Rightarrow> candidate list list \<Rightarrow> string \<Rightarrow> string \<Rightarrow> bool" where
  "linked sv ordered newer older =
     list_ex (\<lambda>l. list_ex (\<lambda>(a, b). c_id a = older \<and> c_id b = newer \<and> version_comparable sv a b)
                     (zip l (tl l))) ordered"

lemma slice_lookup:
  "set (gm_slice (fst (desired_edges sv ref gs)) k)
   = {t. (k, t) \<in> set (concat (map (group_emits sv ref) (map snd gs)))}"
  by (force simp: gm_slice_def desired_lookup Let_def filter_empty_conv)

lemma list_emits_zip:
  "set (list_emits sv ref l) = (\<Union>(a, b) \<in> set (zip l (tl l)). set (pair_emits sv ref a b))"
  by (induction sv ref l rule: list_emits.induct) auto

lemma lineage_predicates_distinct:
  "code_supersedes \<noteq> code_superseded_by" "code_superseded_by \<noteq> code_supersedes"
  "code_lineage_change \<noteq> code_supersedes" "code_lineage_change \<noteq> code_superseded_by"
  by (simp_all add: predicate_defs)

lemma lineage_triple_sels [simp]:
  "t_predicate (lineage_reference_triple ref s p ob) = p"
  "t_object (lineage_reference_triple ref s p ob) = OString ob"
  "t_predicate (lineage_literal_triple s p ob) = p"
  "t_object (lineage_literal_triple s p ob) = OString ob"
  by (simp_all add: lineage_reference_triple_def lineage_literal_triple_def)

lemma pair_emits_supersedes:
  "(\<exists>t. (k, t) \<in> set (pair_emits sv ref a b) \<and> t_predicate t = code_supersedes \<and> t_object t = OString ob)
   \<longleftrightarrow> c_id a = ob \<and> c_id b = k \<and> version_comparable sv a b"
  by (cases "classify_change a b") (auto simp: pair_emits_def lineage_predicates_distinct)

lemma pair_emits_superseded_by:
  "(\<exists>t. (k, t) \<in> set (pair_emits sv ref a b) \<and> t_predicate t = code_superseded_by \<and> t_object t = OString ob)
   \<longleftrightarrow> c_id a = k \<and> c_id b = ob \<and> version_comparable sv a b"
  by (cases "classify_change a b") (auto simp: pair_emits_def lineage_predicates_distinct)

lemma lineage_has_pairs:
  "lineage_has (fst (desired_edges sv ref gs)) k pred ob \<longleftrightarrow>
   (\<exists>l \<in> set (map (order_group sv) (map snd gs)). \<exists>p \<in> set (zip l (tl l)).
      \<exists>t. (k, t) \<in> set (pair_emits sv ref (fst p) (snd p)) \<and> t_predicate t = pred \<and> t_object t = OString ob)"
proof -
  have "(k, t) \<in> set (concat (map (group_emits sv ref) (map snd gs))) \<longleftrightarrow>
    (\<exists>l \<in> set (map (order_group sv) (map snd gs)). \<exists>p \<in> set (zip l (tl l)).
       (k, t) \<in> set (pair_emits sv ref (fst p) (snd p)))" for t
    by (simp add: group_emits_def list_emits_zip split_def)
  then show ?thesis
    unfolding lineage_has_def list_ex_iff slice_lookup by blast
qed

text \<open>C5: The desired edges are exactly the neighbouring comparable pairs of the ordered groups,
  each recorded in both directions: newer supersedes older, older is superseded by newer.\<close>

theorem lineage_edges_iff:
  "lineage_has (fst (desired_edges sv ref gs)) n code_supersedes ol
     = linked sv (map (order_group sv) (map snd gs)) n ol
   \<and> lineage_has (fst (desired_edges sv ref gs)) ol code_superseded_by n
     = linked sv (map (order_group sv) (map snd gs)) n ol"
  unfolding lineage_has_pairs pair_emits_supersedes pair_emits_superseded_by
  by (simp add: linked_def list_ex_iff split_def)

lemma linkedE:
  assumes "linked sv (map (order_group sv) (map snd gs)) n ol"
  obtains k g a b i where "(k, g) \<in> set gs" "Suc i < length g" "a = order_group sv g ! i"
    "b = order_group sv g ! Suc i" "c_id a = ol" "c_id b = n" "version_comparable sv a b"
proof -
  from assms obtain k g a b where kg: "(k, g) \<in> set gs"
    and p: "(a, b) \<in> set (zip (order_group sv g) (tl (order_group sv g)))"
      "c_id a = ol" "c_id b = n" "version_comparable sv a b"
    by (auto simp: linked_def list_ex_iff)
  from p(1) obtain i where i: "i < length (tl (order_group sv g))" "a = order_group sv g ! i"
      "b = tl (order_group sv g) ! i"
    by (auto simp: set_zip)
  have "length (order_group sv g) = length g" by (simp add: order_group_def)
  with i(1) have "Suc i < length g" by simp
  from that [OF kg this i(2) _ p(2-4)] i(1,3) show thesis by (simp add: nth_tl)
qed

text \<open>An edge never relates different symbols or sources and never runs against the versions:
  both ends are candidates with the same correspondence key and a comparable pair of versions,
  and either the newer version is greater, or the two are different texts with the same runs.\<close>

theorem lineage_follows_versions:
  assumes "semver_laws sv" and "gm_same gs (group_by_correspondence cands)"
    and "lineage_has (fst (desired_edges sv ref gs)) n code_supersedes ol"
  shows "\<exists>a b. a \<in> set cands \<and> b \<in> set cands \<and> c_id a = ol \<and> c_id b = n \<and> cand_key a = cand_key b
           \<and> version_comparable sv a b
           \<and> (version_less sv a b
              \<or> (c_version a \<noteq> c_version b \<and> version_runs (c_version a) = version_runs (c_version b)))"
proof -
  have "linked sv (map (order_group sv) (map snd gs)) n ol"
    using assms(3) unfolding lineage_has_pairs pair_emits_supersedes
    by (auto simp: linked_def list_ex_iff split_def)
  then obtain k g a b i where e: "(k, g) \<in> set gs" "Suc i < length g" "a = order_group sv g ! i"
    "b = order_group sv g ! Suc i" "c_id a = ol" "c_id b = n" "version_comparable sv a b"
    by (rule linkedE)
  have len: "length (order_group sv g) = length g" by (simp add: order_group_def)
  have "a \<in> set (order_group sv g)" "b \<in> set (order_group sv g)"
    using e(2-4) len by (metis Suc_lessD nth_mem)+
  then have "a \<in> set g" "b \<in> set g" by simp_all
  with group_same_members(1) [OF assms(2) e(1)]
  have ab: "a \<in> set cands" "b \<in> set cands" "cand_key a = cand_key b" by auto
  have "sorted_wrt (\<lambda>x y. \<not> candidate_less sv y x) (order_group sv g)"
    unfolding order_group_def
    by (rule strict_weak_order.stable_sort_sorted [OF candidate_less_swo [OF assms(1)]])
  then have "\<not> candidate_less sv b a"
    using e(2-4) len by (metis lessI sorted_wrt_nth_less)
  then have "\<not> version_less sv b a" by (simp add: candidate_less_lex [OF assms(1)])
  with e(7) assms(1) have "version_less sv a b
      \<or> (c_version a \<noteq> c_version b \<and> version_runs (c_version a) = version_runs (c_version b))"
    by (auto simp: version_comparable_def version_less_def natural_less_runs semver_laws_def
        split: option.splits)
  with ab e(5-7) show ?thesis by blast
qed

theorem lineage_follows_versions_witness:
  "\<exists>a b. a \<in> set [demo_cand ''i2'' ''2'' ''h2'', demo_cand ''i1'' ''1'' ''h1'']
       \<and> b \<in> set [demo_cand ''i2'' ''2'' ''h2'', demo_cand ''i1'' ''1'' ''h1'']
       \<and> c_id a = ''i1'' \<and> c_id b = ''i2'' \<and> cand_key a = cand_key b
       \<and> version_comparable demo_semver a b
       \<and> (version_less demo_semver a b
          \<or> (c_version a \<noteq> c_version b \<and> version_runs (c_version a) = version_runs (c_version b)))"
proof (rule lineage_follows_versions [OF demo_semver_laws])
  let ?c = "[demo_cand ''i2'' ''2'' ''h2'', demo_cand ''i1'' ''1'' ''h1'']"
  show "gm_same (group_by_correspondence ?c) (group_by_correspondence ?c)"
    by (simp add: gm_same_def group_wf)
  show "lineage_has (fst (desired_edges demo_semver ''ref'' (group_by_correspondence ?c)))
          ''i2'' code_supersedes ''i1''"
    by code_simp
qed

text \<open>Where two different version texts have the same runs, as \<open>r7\<close> and \<open>r007\<close>, an edge is
  emitted all the same and its direction is the order of the entity identifiers: exchanging the
  identifiers turns the edge round. The comment on \<open>versionComparable\<close> says a direction is
  never guessed.\<close>

lemma tied_versions_follow_ids:
  "lineage_has (fst (desired_edges demo_semver ''ref'' (group_by_correspondence
      [demo_cand ''i1'' ''r7'' ''h'', demo_cand ''i2'' ''r007'' ''h'']))) ''i2'' code_supersedes ''i1''
   \<and> lineage_has (fst (desired_edges demo_semver ''ref'' (group_by_correspondence
      [demo_cand ''i2'' ''r7'' ''h'', demo_cand ''i1'' ''r007'' ''h'']))) ''i2'' code_supersedes ''i1''"
  by code_simp

section \<open>Accounting of a pass\<close>

lemma list_stats_counts:
  "ps_supersedes (list_stats sv l) + ps_incomparable (list_stats sv l) = length l - 1"
  "ps_changed (list_stats sv l) + ps_unchanged (list_stats sv l) \<le> ps_supersedes (list_stats sv l)"
  by (induction sv l rule: list_stats.induct)
    (auto simp: stats_add_def pair_stats_def zero_stats_def)

lemma foldl_stats_fields:
  "ps_supersedes (foldl stats_add z ss) = ps_supersedes z + sum_list (map ps_supersedes ss)"
  "ps_incomparable (foldl stats_add z ss) = ps_incomparable z + sum_list (map ps_incomparable ss)"
  "ps_changed (foldl stats_add z ss) = ps_changed z + sum_list (map ps_changed ss)"
  "ps_unchanged (foldl stats_add z ss) = ps_unchanged z + sum_list (map ps_unchanged ss)"
  "ps_corresponding (foldl stats_add z ss) = ps_corresponding z + sum_list (map ps_corresponding ss)"
  "ps_groups (foldl stats_add z ss) = ps_groups z + sum_list (map ps_groups ss)"
  by (induction ss arbitrary: z) (auto simp: stats_add_def)

lemma list_stats_other [simp]:
  "ps_corresponding (list_stats sv l) = 0" "ps_groups (list_stats sv l) = 0"
  by (induction sv l rule: list_stats.induct) (auto simp: stats_add_def pair_stats_def zero_stats_def)

lemma group_stats_counts:
  "ps_supersedes (group_stats sv g) + ps_incomparable (group_stats sv g) = length g - 1"
  "ps_changed (group_stats sv g) + ps_unchanged (group_stats sv g) \<le> ps_supersedes (group_stats sv g)"
  "ps_corresponding (group_stats sv g) = (if length g > 1 then 1 else 0)"
  "ps_groups (group_stats sv g) = 0"
  using list_stats_counts [of sv "order_group sv g"]
  by (auto simp: group_stats_def stats_add_def zero_stats_def order_group_def)

text \<open>The statistics account for every neighbouring pair: each is counted once, as an edge or
  as incomparable; a pair marked changed or unchanged is an edge; and the corresponding groups are
  those with more than one member.\<close>

lemma pass_stats_account:
  "ps_supersedes (snd (desired_edges sv ref gs)) + ps_incomparable (snd (desired_edges sv ref gs))
     = sum_list (map (\<lambda>g. length (snd g) - 1) gs)
   \<and> ps_changed (snd (desired_edges sv ref gs)) + ps_unchanged (snd (desired_edges sv ref gs))
     \<le> ps_supersedes (snd (desired_edges sv ref gs))
   \<and> ps_corresponding (snd (desired_edges sv ref gs)) = length (filter (\<lambda>g. length (snd g) > 1) gs)
   \<and> ps_groups (snd (desired_edges sv ref gs)) = length gs"
proof -
  have sums: "sum_list (map (ps_supersedes \<circ> group_stats sv \<circ> snd) gs)
        + sum_list (map (ps_incomparable \<circ> group_stats sv \<circ> snd) gs)
      = sum_list (map (\<lambda>g. length (snd g) - 1) gs)"
    "sum_list (map (ps_changed \<circ> group_stats sv \<circ> snd) gs)
        + sum_list (map (ps_unchanged \<circ> group_stats sv \<circ> snd) gs)
      \<le> sum_list (map (ps_supersedes \<circ> group_stats sv \<circ> snd) gs)"
    "sum_list (map (ps_corresponding \<circ> group_stats sv \<circ> snd) gs)
      = length (filter (\<lambda>g. length (snd g) > 1) gs)"
    "sum_list (map (ps_groups \<circ> group_stats sv \<circ> snd) gs) = 0"
  proof (induction gs)
    case (Cons g gs)
    note c = group_stats_counts [of sv "snd g"]
    {
      case 1 show ?case using Cons(1) c(1) by simp
    next
      case 2 show ?case using Cons(2) c(2) by simp
    next
      case 3 show ?case using Cons(3) c(3) by simp
    next
      case 4 show ?case using Cons(4) c(4) by simp
    }
  qed simp_all
  show ?thesis
    unfolding desired_edges_emits snd_conv foldl_stats_fields using sums
    by (simp add: zero_stats_def comp_assoc [symmetric] flip: comp_def)
qed

section \<open>Deltas\<close>

definition fresh_or_none :: "(string, triple list) gomap \<Rightarrow> string \<Rightarrow> triple list \<Rightarrow> triple list option" where
  "fresh_or_none existing eid want =
     (let fresh = fresh_triples want (gm_slice existing eid) in if fresh = [] then None else Some fresh)"

lemma diff_new_put:
  "diff_new desired existing =
     foldl (\<lambda>m (k, w). case fresh_or_none existing k w of None \<Rightarrow> m | Some v \<Rightarrow> gm_put k v m) [] desired"
proof -
  have "(\<lambda>delta (eid, want). let fresh = fresh_triples want (gm_slice existing eid)
            in if fresh \<noteq> [] then gm_put eid fresh delta else delta)
      = (\<lambda>m (k, w). case fresh_or_none existing k w of None \<Rightarrow> m | Some v \<Rightarrow> gm_put k v m)"
    by (auto simp: fun_eq_iff fresh_or_none_def Let_def)
  then show ?thesis by (simp only: diff_new_def)
qed

lemma diff_new_lookup:
  "gm_wf desired \<Longrightarrow>
   map_of (diff_new desired existing) k =
    (case map_of desired k of None \<Rightarrow> None | Some want \<Rightarrow> fresh_or_none existing k want)"
  unfolding diff_new_put gm_foldl_put by (auto split: option.split)

lemma diff_new_wf: "gm_wf (diff_new desired existing)"
  unfolding diff_new_put by (rule gm_foldl_put_wf) simp

lemma gm_slice_simps [simp]:
  "gm_slice [] k = []"
  "gm_slice (gm_put a v m) k = (if k = a then v else gm_slice m k)"
  by (simp_all add: gm_slice_def gm_get_put)

lemma gm_slice_none: "map_of m k \<noteq> Some [] \<Longrightarrow> gm_slice m k = [] \<Longrightarrow> map_of m k = None"
  by (cases "map_of m k") (auto simp: gm_slice_def)

lemma fresh_triples_again: "fresh_triples want (ts @ fresh_triples want ts) = []"
  by (auto simp: fresh_triples_def predicate_object_set_def filter_empty_conv)

lemma diff_new_slice:
  "gm_wf desired \<Longrightarrow>
   gm_slice (diff_new desired existing) k = fresh_triples (gm_slice desired k) (gm_slice existing k)"
  by (auto simp: gm_slice_def [of "diff_new desired existing"] gm_slice_def [of desired] diff_new_lookup
      fresh_or_none_def Let_def fresh_triples_def split: option.split)

lemma diff_new_no_empty: "gm_wf desired \<Longrightarrow> map_of (diff_new desired existing) k \<noteq> Some []"
  by (auto simp: diff_new_lookup fresh_or_none_def Let_def split: option.split)

text \<open>A delta holds, for every entity, exactly the desired triples whose predicate and object
  it does not carry yet, no empty entries, and nothing for an entity without desired triples;
  an entity that carries the desired triples already is not published.\<close>

theorem diff_new_exact:
  "gm_slice (diff_new (fst (desired_edges sv ref gs)) existing) k
     = filter (\<lambda>t. triple_key t \<notin> triple_key ` set (gm_slice existing k))
         (gm_slice (fst (desired_edges sv ref gs)) k)
   \<and> map_of (diff_new (fst (desired_edges sv ref gs)) existing) k \<noteq> Some []"
  by (auto simp: diff_new_slice desired_wf fresh_triples_def predicate_object_set_def
      diff_new_lookup fresh_or_none_def Let_def split: option.split)

section \<open>Passes converge\<close>

text \<open>What the ingest lane makes of a published delta: it appends the triples to each entity and
  may set the update time to anything.\<close>

definition ingest_delta ::
  "(string \<Rightarrow> int) \<Rightarrow> (string, triple list) gomap \<Rightarrow> entity list \<Rightarrow> entity list" where
  "ingest_delta now delta es =
     map (\<lambda>e. e\<lparr>e_triples := e_triples e @ gm_slice delta (e_id e), e_updated := now (e_id e)\<rparr>) es"

definition versioned :: "entity list \<Rightarrow> candidate list" where
  "versioned es = List.map_filter candidate_from_entity es"

lemma pass_scan_eq:
  "pass_scan es =
     (versioned es,
      foldl (\<lambda>m e. if candidate_from_entity e = None then m else gm_put (e_id e) (e_triples e) m) [] es)"
proof -
  have cid: "candidate_from_entity e = Some c \<Longrightarrow> c_id c = e_id e" for e c
    by (auto simp: candidate_from_entity_def Let_def split: if_splits)
  have "foldl (\<lambda>(cands, existing) e.
              case candidate_from_entity e of
                None \<Rightarrow> (cands, existing)
              | Some c \<Rightarrow> (cands @ [c], gm_put (c_id c) (e_triples e) existing)) (cs, m) es
    = (cs @ versioned es,
       foldl (\<lambda>m e. if candidate_from_entity e = None then m else gm_put (e_id e) (e_triples e) m) m es)"
    for cs m
    by (induction es arbitrary: cs m)
      (auto simp: versioned_def List.map_filter_def cid split: option.split)
  from this [of "[]" "[]"] show ?thesis by (simp add: pass_scan_def)
qed

lemma pass_scan_slice:
  assumes "distinct (map e_id es)" and "e \<in> set es" and "candidate_from_entity e \<noteq> None"
  shows "gm_slice (snd (pass_scan es)) (e_id e) = e_triples e"
proof -
  have other: "gm_slice (foldl (\<lambda>m e. if candidate_from_entity e = None then m
        else gm_put (e_id e) (e_triples e) m) m es) k = gm_slice m k" if "k \<notin> e_id ` set es" for m es k
    using that by (induction es arbitrary: m) auto
  have "gm_slice (foldl (\<lambda>m e. if candidate_from_entity e = None then m
        else gm_put (e_id e) (e_triples e) m) m es) (e_id e) = e_triples e" for m
    using assms by (induction es arbitrary: m) (auto simp: other)
  then show ?thesis by (simp add: pass_scan_eq)
qed

text \<open>The index time of a candidate plays no part in the edges.\<close>

definition timeless :: "candidate \<Rightarrow> candidate" where
  "timeless c = c\<lparr>c_indexed := 0\<rparr>"

lemma timeless_sels [simp]:
  "c_id (timeless c) = c_id c" "c_version (timeless c) = c_version c" "c_hash (timeless c) = c_hash c"
  "c_hash_kind (timeless c) = c_hash_kind c" "cand_key (timeless c) = cand_key c"
  by (simp_all add: timeless_def cand_key_def)

lemma order_group_timeless: "order_group sv (map timeless g) = map timeless (order_group sv g)"
  unfolding order_group_def
  by (rule stable_sort_map) (simp add: candidate_less_def semver_of_def cong: option.case_cong)

lemma pair_emits_timeless [simp]: "pair_emits sv ref (timeless a) (timeless b) = pair_emits sv ref a b"
  by (simp add: pair_emits_def version_comparable_def semver_of_def classify_change_def
      cong: option.case_cong)

lemma pair_stats_timeless [simp]: "pair_stats sv (timeless a) (timeless b) = pair_stats sv a b"
  by (simp add: pair_stats_def version_comparable_def semver_of_def classify_change_def
      cong: option.case_cong)

lemma list_timeless:
  "list_emits sv ref (map timeless l) = list_emits sv ref l"
  "list_stats sv (map timeless l) = list_stats sv l"
  by (induction sv ref l rule: list_emits.induct) simp_all

lemma group_timeless:
  "group_emits sv ref (map timeless g) = group_emits sv ref g"
  "group_stats sv (map timeless g) = group_stats sv g"
  by (simp_all add: group_emits_def group_stats_def order_group_timeless list_timeless)

lemma group_by_timeless:
  "group_by_correspondence (map timeless cs) = map (\<lambda>(k, g). (k, map timeless g)) (group_by_correspondence cs)"
proof -
  have "foldl (\<lambda>groups c. gm_append (cand_key c) c groups) (map (\<lambda>(k, g). (k, map timeless g)) m) (map timeless cs)
      = map (\<lambda>(k, g). (k, map timeless g)) (foldl (\<lambda>groups c. gm_append (cand_key c) c groups) m cs)" for m
    by (induction cs arbitrary: m) (simp_all add: gm_append_map)
  from this [of "[]"] show ?thesis by (simp add: group_by_correspondence_def)
qed

lemma desired_edges_timeless:
  "desired_edges sv ref (group_by_correspondence (map timeless cs))
   = desired_edges sv ref (group_by_correspondence cs)"
proof -
  have "map snd (map (\<lambda>(k, g). (k, map timeless g)) m) = map (map timeless) (map snd m)"
    for m :: "(corr_key, candidate list) gomap"
    by (induction m) auto
  moreover have "map (group_emits sv ref) (map (map timeless) gs) = map (group_emits sv ref) gs"
    "map (group_stats sv) (map (map timeless) gs) = map (group_stats sv) gs" for gs
    by (simp_all add: comp_def group_timeless)
  ultimately show ?thesis unfolding desired_edges_emits group_by_timeless by (simp only: length_map)
qed

lemma lineage_triples_predicates:
  "t \<in> set (gm_slice (fst (desired_edges sv ref gs)) k) \<Longrightarrow>
   t_predicate t \<in> {code_supersedes, code_superseded_by, code_lineage_change}"
proof -
  have "(k, t) \<in> set (list_emits sv ref l) \<Longrightarrow>
      t_predicate t \<in> {code_supersedes, code_superseded_by, code_lineage_change}" for l
    by (induction sv ref l rule: list_emits.induct)
      (auto simp: pair_emits_def split: if_splits option.splits)
  then show "t \<in> set (gm_slice (fst (desired_edges sv ref gs)) k) \<Longrightarrow>
      t_predicate t \<in> {code_supersedes, code_superseded_by, code_lineage_change}"
    by (auto simp: slice_lookup group_emits_def)
qed

text \<open>Lineage triples do not change what an entity projects to, but for its index time.\<close>

lemma candidate_lineage_appended:
  assumes "\<forall>t \<in> set us. t_predicate t \<in> {code_supersedes, code_superseded_by, code_lineage_change}"
  shows "map_option timeless (candidate_from_entity (e\<lparr>e_triples := e_triples e @ us, e_updated := n\<rparr>))
         = map_option timeless (candidate_from_entity e)"
proof -
  have "triple_string (e_triples e @ us) p = triple_string (e_triples e) p"
    if "p \<in> {code_version, code_project, code_path, dc_title, code_type, code_package, code_body_key,
             code_hash, code_body_store, dc_created}" for p
    by (rule triple_string_append_other) (use assms that in \<open>auto simp: predicate_defs\<close>)
  then show ?thesis
    by (simp add: candidate_from_entity_def Let_def body_hash_of_def timeless_def)
qed

lemma versioned_timeless:
  assumes "\<And>e. e \<in> set es \<Longrightarrow> map_option timeless (candidate_from_entity (f e)) = map_option timeless (candidate_from_entity e)"
  shows "map timeless (versioned (map f es)) = map timeless (versioned es)"
  using assms
proof (induction es)
  case (Cons e es)
  have "map_option timeless (candidate_from_entity (f e)) = map_option timeless (candidate_from_entity e)"
    using Cons by simp
  with Cons show ?case
    by (cases "candidate_from_entity e"; cases "candidate_from_entity (f e)")
      (auto simp: versioned_def List.map_filter_def)
qed (simp add: versioned_def List.map_filter_def)

lemma desired_ids_versioned:
  assumes "gm_slice (fst (desired_edges sv ref (group_by_correspondence cands))) k \<noteq> []"
  shows "k \<in> c_id ` set cands"
proof -
  from assms obtain t where "t \<in> set (gm_slice (fst (desired_edges sv ref (group_by_correspondence cands))) k)"
    by (metis last_in_set)
  then obtain q g where qg: "(q, g) \<in> set (group_by_correspondence cands)" "(k, t) \<in> set (group_emits sv ref g)"
    by (auto simp: slice_lookup)
  have "g = filter (\<lambda>c. cand_key c = q) cands"
    by (rule group_same_members(1) [OF _ qg(1)]) (simp add: gm_same_def group_wf)
  moreover have "k \<in> c_id ` set g" using group_emits_ids [OF qg(2)] by simp
  ultimately show ?thesis by auto
qed

text \<open>C1: Passes converge. When the ingest lane has appended the delta of a pass to the entities,
  whatever update times it set, the next pass over them publishes nothing and reports the same
  statistics.\<close>

theorem pass_converges:
  assumes "distinct (map e_id es)" and "pass_core sv ref es tr = (stats, delta)"
  shows "pass_core sv ref (ingest_delta now delta es) tr = (stats, [])"
proof -
  define es' where "es' = ingest_delta now delta es"
  let ?D = "desired_edges sv ref (group_by_correspondence (versioned es))"
  have delta: "delta = diff_new (fst ?D) (snd (pass_scan es))"
    and stats: "stats = (snd ?D)\<lparr>ps_entities := length (versioned es), ps_truncated := tr\<rparr>"
    using assms(2) by (auto simp: pass_core_def pass_scan_eq Let_def split: prod.splits)
  have preds: "\<forall>t \<in> set (gm_slice delta k). t_predicate t \<in> {code_supersedes, code_superseded_by, code_lineage_change}" for k
    by (simp add: delta diff_new_slice desired_wf fresh_triples_def)
      (use lineage_triples_predicates in blast)
  have tl: "map timeless (versioned es') = map timeless (versioned es)"
    unfolding es'_def ingest_delta_def
    by (rule versioned_timeless) (rule candidate_lineage_appended [OF preds])
  then have D: "desired_edges sv ref (group_by_correspondence (versioned es')) = ?D"
    by (metis desired_edges_timeless)
  have len: "length (versioned es') = length (versioned es)" using tl by (metis length_map)
  have ids: "map e_id es' = map e_id es" by (simp add: es'_def ingest_delta_def comp_def)
  have "gm_slice (diff_new (fst ?D) (snd (pass_scan es'))) k = []" for k
  proof (cases "gm_slice (fst ?D) k = []")
    case True
    then show ?thesis by (simp add: diff_new_slice desired_wf fresh_triples_def)
  next
    case False
    then obtain e where e: "e \<in> set es" "e_id e = k" "candidate_from_entity e \<noteq> None"
      using desired_ids_versioned [OF False]
      by (auto simp: versioned_def List.map_filter_def candidate_from_entity_def Let_def split: if_splits)
    let ?e = "e\<lparr>e_triples := e_triples e @ gm_slice delta (e_id e), e_updated := now (e_id e)\<rparr>"
    have e': "?e \<in> set es'" using e(1) by (auto simp: es'_def ingest_delta_def)
    have "candidate_from_entity ?e \<noteq> None"
      using candidate_lineage_appended [OF preds [of "e_id e"], where e = e and n = "now (e_id e)"] e(3) by auto
    with e' have "gm_slice (snd (pass_scan es')) k = e_triples e @ gm_slice delta k"
      using pass_scan_slice [of es' ?e] assms(1) ids e(2) by simp
    moreover have "gm_slice delta k = fresh_triples (gm_slice (fst ?D) k) (e_triples e)"
      using pass_scan_slice [OF assms(1) e(1,3)] e(2) by (simp add: delta diff_new_slice desired_wf)
    ultimately show ?thesis
      by (simp add: diff_new_slice desired_wf fresh_triples_again)
  qed
  then have "diff_new (fst ?D) (snd (pass_scan es')) = []"
    by (intro gm_empty_lookup gm_slice_none diff_new_no_empty desired_wf)
  then show ?thesis
    unfolding es'_def [symmetric]
    by (simp add: pass_core_def pass_scan_eq Let_def split_def D len stats)
qed

definition demo_entity :: "string \<Rightarrow> string \<Rightarrow> string \<Rightarrow> entity" where
  "demo_entity eid version h =
     \<lparr>e_id = eid,
      e_triples = map (\<lambda>(p, ob). \<lparr>t_subject = eid, t_predicate = p, t_object = OString ob, t_datatype = [],
          t_source = ''ast'', t_time = 0, t_confidence = 1\<rparr>)
        [(code_version, version), (code_project, ''gcs''), (code_path, ''a.go''), (dc_title, ''Run''),
         (code_type, ''function''), (code_hash, h)],
      e_updated = 0\<rparr>"

theorem pass_converges_witness:
  "(let es = [demo_entity ''acme.p.s.go.f.i1'' ''1'' ''h1'', demo_entity ''acme.p.s.go.f.i2'' ''2'' ''h2''];
        first = pass_core demo_semver ''ref'' es False
    in length (snd first) = 2 \<and>
       pass_core demo_semver ''ref'' (ingest_delta (\<lambda>_. 7) (snd first) es) False = (fst first, []))"
proof -
  let ?es = "[demo_entity ''acme.p.s.go.f.i1'' ''1'' ''h1'', demo_entity ''acme.p.s.go.f.i2'' ''2'' ''h2'']"
  have "distinct (map e_id ?es)" by (simp add: demo_entity_def)
  moreover have "length (snd (pass_core demo_semver ''ref'' ?es False)) = 2" by code_simp
  ultimately show ?thesis
    using pass_converges [OF _ prod.collapse [symmetric], where es = ?es and sv = demo_semver
        and ref = "''ref''" and tr = False and now = "\<lambda>_. 7"]
    by (simp only: Let_def simp_thms)
qed

end
