(* ===== verification/VersionDiff.thy ===== *)
theory VersionDiff
  imports Lineage
begin

text \<open>
  \<open>processor/supersession/versiondiff.go\<close> and \<open>versiondiff_serve.go\<close>: what changed between two
  versions of a project. Two Go choices are parameters: \<open>visit\<close> is the order in which \<open>range\<close>
  visits the map of buckets, \<open>arrange\<close> the result of the unstable \<open>sort.Slice\<close>. The body store
  is the function \<open>resolve\<close> of the store and the key, \<open>None\<close> for a storage error.
\<close>

section \<open>Requests and responses\<close>

record diff_request =
  rq_project :: string
  rq_from :: string
  rq_to :: string
  rq_want_bodies :: "bool option"
  rq_max_symbols :: int
  rq_max_body_bytes :: int

record change =
  ch_name :: string
  ch_path :: string
  ch_type :: string
  ch_pkg :: string
  ch_status :: string
  ch_from_id :: string
  ch_to_id :: string
  ch_from_body :: string
  ch_to_body :: string
  ch_from_err :: bool
  ch_to_err :: bool

record diff_counts =
  n_added :: nat
  n_removed :: nat
  n_changed :: nat
  n_unchanged :: nat
  n_indeterminate :: nat

record diff_response =
  rs_project :: string
  rs_from :: string
  rs_to :: string
  rs_ready :: bool
  rs_note :: string
  rs_counts :: diff_counts
  rs_changes :: "change list"
  rs_truncated :: bool
  rs_dropped :: nat
  rs_omitted :: nat
  rs_failed :: nat

definition default_max_diff_symbols :: int where "default_max_diff_symbols = 2000"
definition default_max_body_bytes :: int where "default_max_body_bytes = 512 * 1024"

definition want_bodies :: "diff_request \<Rightarrow> bool" where
  "want_bodies r = (case rq_want_bodies r of None \<Rightarrow> True | Some b \<Rightarrow> b)"

definition max_symbols :: "diff_request \<Rightarrow> int" where
  "max_symbols r = (if rq_max_symbols r \<le> 0 then default_max_diff_symbols else rq_max_symbols r)"

definition max_body_bytes :: "diff_request \<Rightarrow> int" where
  "max_body_bytes r = (if rq_max_body_bytes r \<le> 0 then default_max_body_bytes else rq_max_body_bytes r)"

section \<open>Classification\<close>

definition newest_of :: "candidate option \<Rightarrow> candidate \<Rightarrow> candidate" where
  "newest_of a b =
     (case a of None \<Rightarrow> b | Some x \<Rightarrow> if c_indexed b < c_indexed x then x else b)"

record side_acc =
  sa_from :: "candidate option"
  sa_to :: "candidate option"

type_synonym diff_buckets = "(corr_key, side_acc) gomap"

definition bucket_add ::
  "string \<Rightarrow> string \<Rightarrow> string \<Rightarrow> diff_buckets \<Rightarrow> candidate \<Rightarrow> diff_buckets" where
  "bucket_add project from to buckets c =
     (if c_project c \<noteq> project then buckets
      else if c_version c \<noteq> from \<and> c_version c \<noteq> to then buckets
      else
        (let acc = (case map_of buckets (cand_key c) of
                      None \<Rightarrow> \<lparr>sa_from = None, sa_to = None\<rparr> | Some a \<Rightarrow> a);
             acc1 = (if c_version c = from then acc\<lparr>sa_from := Some (newest_of (sa_from acc) c)\<rparr> else acc);
             acc2 = (if c_version c = to then acc1\<lparr>sa_to := Some (newest_of (sa_to acc1) c)\<rparr> else acc1)
         in gm_put (cand_key c) acc2 buckets))"

definition diff_buckets :: "candidate list \<Rightarrow> string \<Rightarrow> string \<Rightarrow> string \<Rightarrow> diff_buckets" where
  "diff_buckets cands project from to = foldl (bucket_add project from to) [] cands"

definition change_from :: "corr_key \<Rightarrow> string \<Rightarrow> change" where
  "change_from key status =
     \<lparr>ch_name = k_name key, ch_path = k_path key, ch_type = k_ctype key, ch_pkg = k_pkg key,
      ch_status = status, ch_from_id = [], ch_to_id = [], ch_from_body = [], ch_to_body = [],
      ch_from_err = False, ch_to_err = False\<rparr>"

definition change_id :: "change \<Rightarrow> string" where
  "change_id c = ch_from_id c @ [CHR 0x00] @ ch_to_id c"

definition classify_diff :: "candidate \<Rightarrow> candidate \<Rightarrow> string" where
  "classify_diff f t =
     (case classify_change f t of
        None \<Rightarrow> ''indeterminate''
      | Some res \<Rightarrow> if res = ''changed'' then ''changed'' else ''unchanged'')"

type_synonym side_pair = "candidate option \<times> candidate option"
type_synonym diff_state = "change list \<times> diff_counts \<times> (string, side_pair) gomap"

definition zero_counts :: diff_counts where
  "zero_counts = \<lparr>n_added = 0, n_removed = 0, n_changed = 0, n_unchanged = 0, n_indeterminate = 0\<rparr>"

text \<open>One bucket; \<open>None\<close> is the nil dereference the \<open>default\<close> branch would meet on a bucket
  with neither side.\<close>

definition diff_bucket :: "diff_state \<Rightarrow> corr_key \<times> side_acc \<Rightarrow> diff_state option" where
  "diff_bucket st ka =
     (case (st, ka) of ((changes, counts, pairs), (key, acc)) \<Rightarrow>
        case (sa_from acc, sa_to acc) of
          (None, Some t) \<Rightarrow>
            (let ch = (change_from key ''added'')\<lparr>ch_to_id := c_id t\<rparr>
             in Some (changes @ [ch], counts\<lparr>n_added := n_added counts + 1\<rparr>,
                      gm_put (change_id ch) (None, Some t) pairs))
        | (Some f, None) \<Rightarrow>
            (let ch = (change_from key ''removed'')\<lparr>ch_from_id := c_id f\<rparr>
             in Some (changes @ [ch], counts\<lparr>n_removed := n_removed counts + 1\<rparr>,
                      gm_put (change_id ch) (Some f, None) pairs))
        | (Some f, Some t) \<Rightarrow>
            (let status = classify_diff f t;
                 counts' = (if status = ''changed'' then counts\<lparr>n_changed := n_changed counts + 1\<rparr>
                            else if status = ''unchanged'' then
                              counts\<lparr>n_unchanged := n_unchanged counts + 1\<rparr>
                            else counts\<lparr>n_indeterminate := n_indeterminate counts + 1\<rparr>)
             in if status = ''unchanged'' then Some (changes, counts', pairs)
                else
                  (let ch = (change_from key status)\<lparr>ch_from_id := c_id f, ch_to_id := c_id t\<rparr>
                   in Some (changes @ [ch], counts', gm_put (change_id ch) (Some f, Some t) pairs)))
        | (None, None) \<Rightarrow> None)"

fun diff_scan :: "diff_state \<Rightarrow> (corr_key \<times> side_acc) list \<Rightarrow> diff_state option" where
  "diff_scan st [] = Some st"
| "diff_scan st (b # bs) = (case diff_bucket st b of None \<Rightarrow> None | Some st' \<Rightarrow> diff_scan st' bs)"

definition change_less :: "change \<Rightarrow> change \<Rightarrow> bool" where
  "change_less a b =
     (if ch_path a \<noteq> ch_path b then ch_path a < ch_path b
      else if ch_pkg a \<noteq> ch_pkg b then ch_pkg a < ch_pkg b
      else if ch_name a \<noteq> ch_name b then ch_name a < ch_name b
      else ch_status a < ch_status b)"

definition diff_candidates ::
  "(diff_buckets \<Rightarrow> diff_buckets) \<Rightarrow> (change list \<Rightarrow> change list) \<Rightarrow>
   candidate list \<Rightarrow> string \<Rightarrow> string \<Rightarrow> string \<Rightarrow> diff_state option" where
  "diff_candidates visit arrange cands project from to =
     (case diff_scan ([], zero_counts, []) (visit (diff_buckets cands project from to)) of
        None \<Rightarrow> None
      | Some (changes, counts, pairs) \<Rightarrow> Some (arrange changes, counts, pairs))"

section \<open>Bodies\<close>

text \<open>The body, whether it was skipped for the budget, whether resolving failed, and the bytes used.\<close>

definition hydrate_one ::
  "(string \<Rightarrow> string \<Rightarrow> string option) \<Rightarrow> candidate \<Rightarrow> int \<Rightarrow> int \<Rightarrow> string \<times> bool \<times> bool \<times> int" where
  "hydrate_one resolve cand used max_bytes =
     (if c_store cand = [] \<or> c_bkey cand = [] then ([], False, False, used)
      else if used \<ge> max_bytes then ([], True, False, used)
      else case resolve (c_store cand) (c_bkey cand) of
             None \<Rightarrow> ([], False, True, used)
           | Some data \<Rightarrow>
               if data = [] then ([], False, False, used)
               else if used + int (length data) > max_bytes then ([], True, False, used)
               else (data, False, False, used + int (length data)))"

record hydrate_state =
  h_used :: int
  h_omitted :: nat
  h_failed :: nat

definition hydrate_from ::
  "(string \<Rightarrow> string \<Rightarrow> string option) \<Rightarrow> int \<Rightarrow> candidate option \<Rightarrow> change \<times> hydrate_state \<Rightarrow>
   change \<times> hydrate_state" where
  "hydrate_from resolve max_bytes side cs =
     (case (side, cs) of
        (None, _) \<Rightarrow> cs
      | (Some c, (ch, h)) \<Rightarrow>
          (case hydrate_one resolve c (h_used h) max_bytes of
             (b, skipped, failed, used) \<Rightarrow>
               if failed then (ch\<lparr>ch_from_err := True\<rparr>, h\<lparr>h_used := used, h_failed := h_failed h + 1\<rparr>)
               else if skipped then (ch, h\<lparr>h_used := used, h_omitted := h_omitted h + 1\<rparr>)
               else (ch\<lparr>ch_from_body := b\<rparr>, h\<lparr>h_used := used\<rparr>)))"

definition hydrate_to ::
  "(string \<Rightarrow> string \<Rightarrow> string option) \<Rightarrow> int \<Rightarrow> candidate option \<Rightarrow> change \<times> hydrate_state \<Rightarrow>
   change \<times> hydrate_state" where
  "hydrate_to resolve max_bytes side cs =
     (case (side, cs) of
        (None, _) \<Rightarrow> cs
      | (Some c, (ch, h)) \<Rightarrow>
          (case hydrate_one resolve c (h_used h) max_bytes of
             (b, skipped, failed, used) \<Rightarrow>
               if failed then (ch\<lparr>ch_to_err := True\<rparr>, h\<lparr>h_used := used, h_failed := h_failed h + 1\<rparr>)
               else if skipped then (ch, h\<lparr>h_used := used, h_omitted := h_omitted h + 1\<rparr>)
               else (ch\<lparr>ch_to_body := b\<rparr>, h\<lparr>h_used := used\<rparr>)))"

fun hydrate_loop ::
  "(string \<Rightarrow> string \<Rightarrow> string option) \<Rightarrow> int \<Rightarrow> (string, side_pair) gomap \<Rightarrow> change list \<Rightarrow>
   hydrate_state \<Rightarrow> change list \<times> hydrate_state" where
  "hydrate_loop resolve max_bytes pairs [] h = ([], h)"
| "hydrate_loop resolve max_bytes pairs (ch # chs) h =
     (let pair = (case map_of pairs (change_id ch) of None \<Rightarrow> (None, None) | Some p \<Rightarrow> p);
          (ch1, h1) = hydrate_from resolve max_bytes (fst pair) (ch, h);
          (ch2, h2) = hydrate_to resolve max_bytes (snd pair) (ch1, h1);
          (chs', h3) = hydrate_loop resolve max_bytes pairs chs h2
      in (ch2 # chs', h3))"

definition hydrate_bodies ::
  "(string \<Rightarrow> string \<Rightarrow> string option) \<Rightarrow> change list \<Rightarrow> (string, side_pair) gomap \<Rightarrow> int \<Rightarrow>
   change list \<times> nat \<times> nat" where
  "hydrate_bodies resolve changes pairs max_bytes =
     (case hydrate_loop resolve max_bytes pairs changes \<lparr>h_used = 0, h_omitted = 0, h_failed = 0\<rparr> of
        (chs, h) \<Rightarrow> (chs, h_omitted h, h_failed h))"

section \<open>The query\<close>

datatype index_status = StatusUnavailable | StatusUnreadable | StatusRead bool

definition index_ready :: "index_status \<Rightarrow> bool \<times> string" where
  "index_ready st =
     (case st of
        StatusUnavailable \<Rightarrow>
          (False, ''index status unavailable; diff computed over currently-indexed state'')
      | StatusUnreadable \<Rightarrow>
          (False, ''index status unreadable; diff computed over currently-indexed state'')
      | StatusRead ready \<Rightarrow>
          if \<not> ready then (False, ''structural index still building; diff may be incomplete'')
          else (True, []))"

definition missing_version_note :: "unicode_tables \<Rightarrow> diff_request \<Rightarrow> nat \<Rightarrow> nat \<Rightarrow> string" where
  "missing_version_note u req from_count to_count =
     (let pre = ''no indexed entities for project '' @ go_quote u (rq_project req) @ '' at ''
      in if from_count = 0 \<and> to_count = 0 then
           pre @ ''either version '' @ go_quote u (rq_from req) @ '' or '' @ go_quote u (rq_to req)
         else if from_count = 0 then pre @ ''version '' @ go_quote u (rq_from req) @ '' (from)''
         else pre @ ''version '' @ go_quote u (rq_to req) @ '' (to)'')"

definition append_note :: "string \<Rightarrow> string \<Rightarrow> string" where
  "append_note a b = (if a = [] then b else if b = [] then a else a @ ''; '' @ b)"

datatype diff_error = MissingFields | DiffNotStarted | EnumerateFailed | DiffPanic

text \<open>\<open>serveDiff\<close> after the request is decoded and before the response is encoded. \<open>started\<close> is
  whether the query client is set, \<open>enum\<close> the result of the enumeration, \<open>resolver\<close> the body
  resolver if one is attached.\<close>

definition project_candidates :: "entity list \<Rightarrow> string \<Rightarrow> candidate list" where
  "project_candidates es project =
     List.map_filter (\<lambda>e. case candidate_from_entity e of
                            Some c \<Rightarrow> if c_project c = project then Some c else None
                          | None \<Rightarrow> None) es"

definition count_version :: "candidate list \<Rightarrow> string \<Rightarrow> nat" where
  "count_version cands v = length (filter (\<lambda>c. c_version c = v) cands)"

definition cap_changes :: "diff_request \<Rightarrow> change list \<Rightarrow> change list \<times> nat \<times> bool" where
  "cap_changes req changes =
     (if int (length changes) > max_symbols req
      then (take (nat (max_symbols req)) changes, length changes - nat (max_symbols req), True)
      else (changes, 0, False))"

definition serve_diff ::
  "unicode_tables \<Rightarrow> (diff_buckets \<Rightarrow> diff_buckets) \<Rightarrow> (change list \<Rightarrow> change list) \<Rightarrow>
   bool \<Rightarrow> index_status \<Rightarrow> (entity list \<times> bool) option \<Rightarrow>
   (string \<Rightarrow> string \<Rightarrow> string option) option \<Rightarrow> diff_request \<Rightarrow> diff_error + diff_response" where
  "serve_diff u visit arrange started status enum resolver req =
     (if rq_project req = [] \<or> rq_from req = [] \<or> rq_to req = [] then Inl MissingFields
      else if \<not> started then Inl DiffNotStarted
      else
        case enum of
          None \<Rightarrow> Inl EnumerateFailed
        | Some (entities, truncated) \<Rightarrow>
            let (ready, note0) = index_ready status;
                note = (if truncated
                        then append_note note0 ''enumeration hit max_entities; result may be incomplete''
                        else note0);
                cands = project_candidates entities (rq_project req);
                from_count = count_version cands (rq_from req);
                to_count = count_version cands (rq_to req);
                resp = \<lparr>rs_project = rq_project req, rs_from = rq_from req, rs_to = rq_to req,
                        rs_ready = ready, rs_note = note, rs_counts = zero_counts, rs_changes = [],
                        rs_truncated = False, rs_dropped = 0, rs_omitted = 0, rs_failed = 0\<rparr>
            in if from_count = 0 \<or> to_count = 0 then
                 Inr (resp\<lparr>rs_note := append_note note (missing_version_note u req from_count to_count)\<rparr>)
               else
                 (case diff_candidates visit arrange cands (rq_project req) (rq_from req) (rq_to req) of
                    None \<Rightarrow> Inl DiffPanic
                  | Some (changes, counts, pairs) \<Rightarrow>
                      let (listed, dropped, cut) = cap_changes req changes;
                          resp1 = resp\<lparr>rs_counts := counts, rs_dropped := dropped, rs_truncated := cut\<rparr>
                      in case (if want_bodies req then resolver else None) of
                           None \<Rightarrow> Inr (resp1\<lparr>rs_changes := listed\<rparr>)
                         | Some resolve \<Rightarrow>
                             (case hydrate_bodies resolve listed pairs (max_body_bytes req) of
                                (chs, omitted, failed) \<Rightarrow>
                                  Inr (resp1\<lparr>rs_changes := chs, rs_omitted := omitted, rs_failed := failed,
                                        rs_note := (if failed > 0 then
                                          append_note note (show_nat failed
                                            @ '' bodies unavailable due to storage errors (marked body_error)'')
                                          else note)\<rparr>))))"

section \<open>Buckets\<close>

text \<open>What Go promises of \<open>sort.Slice\<close>.\<close>

definition go_arrange :: "(change list \<Rightarrow> change list) \<Rightarrow> bool" where
  "go_arrange arrange \<longleftrightarrow> (\<forall>xs. is_go_sort change_less xs (arrange xs))"

definition in_scope :: "string \<Rightarrow> string \<Rightarrow> string \<Rightarrow> candidate \<Rightarrow> bool" where
  "in_scope project from to c \<longleftrightarrow> c_project c = project \<and> (c_version c = from \<or> c_version c = to)"

definition side_pick :: "candidate list \<Rightarrow> string \<Rightarrow> corr_key \<Rightarrow> string \<Rightarrow> candidate option" where
  "side_pick cands project k v =
     foldl (\<lambda>a c. Some (newest_of a c)) None
       (filter (\<lambda>c. c_project c = project \<and> cand_key c = k \<and> c_version c = v) cands)"

lemma diff_buckets_lookup:
  "map_of (diff_buckets cands project from to) k =
     (if list_ex (\<lambda>c. in_scope project from to c \<and> cand_key c = k) cands
      then Some \<lparr>sa_from = side_pick cands project k from, sa_to = side_pick cands project k to\<rparr>
      else None)"
proof (induction cands rule: rev_induct)
  case Nil
  then show ?case by (simp add: diff_buckets_def)
next
  case (snoc c cs)
  let ?m = "diff_buckets cs project from to"
  have step: "diff_buckets (cs @ [c]) project from to = bucket_add project from to ?m c"
    by (simp add: diff_buckets_def)
  have none: "side_pick cs project k v = None"
    if "\<not> list_ex (\<lambda>c. in_scope project from to c \<and> cand_key c = k) cs" "v = from \<or> v = to" for v
  proof -
    have "filter (\<lambda>c. c_project c = project \<and> cand_key c = k \<and> c_version c = v) cs = []"
      using that by (auto simp: filter_empty_conv list_ex_iff in_scope_def)
    then show ?thesis by (simp add: side_pick_def)
  qed
  have pick: "side_pick (cs @ [c]) project k v =
      (if c_project c = project \<and> cand_key c = k \<and> c_version c = v
       then Some (newest_of (side_pick cs project k v) c) else side_pick cs project k v)" for v
    by (simp add: side_pick_def)
  have acc: "(case map_of ?m k of None \<Rightarrow> \<lparr>sa_from = None, sa_to = None\<rparr> | Some a \<Rightarrow> a)
      = \<lparr>sa_from = side_pick cs project k from, sa_to = side_pick cs project k to\<rparr>"
    using snoc none [of "from"] none [of "to"] by simp
  consider "\<not> in_scope project from to c" | "in_scope project from to c" "cand_key c \<noteq> k"
    | "in_scope project from to c" "cand_key c = k" by blast
  then show ?case
  proof cases
    case 1
    then have "bucket_add project from to ?m c = ?m" by (auto simp: bucket_add_def in_scope_def)
    with 1 snoc show ?thesis unfolding step pick by (auto simp: in_scope_def)
  next
    case 2
    then have "map_of (bucket_add project from to ?m c) k = map_of ?m k"
      by (auto simp: bucket_add_def gm_get_put Let_def)
    with 2 show ?thesis unfolding step by (simp add: pick snoc)
  next
    case 3
    from 3(1) have v: "\<not> (c_version c \<noteq> from \<and> c_version c \<noteq> to)" "c_project c = project"
      by (auto simp: in_scope_def)
    show ?thesis unfolding step bucket_add_def 3(2) acc
      using 3 v by (auto simp: pick gm_get_put Let_def)
  qed
qed

lemma diff_buckets_wf: "gm_wf (diff_buckets cands project from to)"
proof -
  have "gm_wf m \<Longrightarrow> gm_wf (foldl (bucket_add project from to) m cs)" for m cs
    by (induction cs arbitrary: m) (auto simp: bucket_add_def Let_def)
  then show ?thesis by (simp add: diff_buckets_def)
qed

lemma side_pick_Some:
  "side_pick cands project k v = Some c \<Longrightarrow>
   c \<in> set cands \<and> c_project c = project \<and> cand_key c = k \<and> c_version c = v"
proof -
  have gen: "foldl (\<lambda>a c. Some (newest_of a c)) a cs = Some c \<Longrightarrow> a = Some c \<or> c \<in> set cs" for a cs
  proof (induction cs arbitrary: a)
    case (Cons d cs)
    then have "Some (newest_of a d) = Some c \<or> c \<in> set cs" by fastforce
    then show ?case by (auto simp: newest_of_def split: option.splits if_splits)
  qed simp
  assume "side_pick cands project k v = Some c"
  then have "c \<in> set (filter (\<lambda>c. c_project c = project \<and> cand_key c = k \<and> c_version c = v) cands)"
    unfolding side_pick_def using gen [of None] by blast
  then show ?thesis by simp
qed

lemma side_pick_None:
  "side_pick cands project k v = None \<longleftrightarrow>
   (\<forall>c \<in> set cands. \<not> (c_project c = project \<and> cand_key c = k \<and> c_version c = v))"
proof -
  have gen: "foldl (\<lambda>a c. Some (newest_of a c)) a cs = None \<longleftrightarrow> a = None \<and> cs = []" for a cs
    by (induction cs arbitrary: a) auto
  show ?thesis by (auto simp: side_pick_def gen filter_empty_conv)
qed

section \<open>Changes\<close>

text \<open>The change a bucket lists, if any, and the tallies, bucket by bucket.\<close>

definition bucket_change :: "corr_key \<times> side_acc \<Rightarrow> change option" where
  "bucket_change ka =
     (case (sa_from (snd ka), sa_to (snd ka)) of
        (None, Some t) \<Rightarrow> Some ((change_from (fst ka) ''added'')\<lparr>ch_to_id := c_id t\<rparr>)
      | (Some f, None) \<Rightarrow> Some ((change_from (fst ka) ''removed'')\<lparr>ch_from_id := c_id f\<rparr>)
      | (Some f, Some t) \<Rightarrow>
          (if classify_diff f t = ''unchanged'' then None
           else Some ((change_from (fst ka) (classify_diff f t))\<lparr>ch_from_id := c_id f, ch_to_id := c_id t\<rparr>))
      | (None, None) \<Rightarrow> None)"

definition occupied :: "corr_key \<times> side_acc \<Rightarrow> bool" where
  "occupied ka \<longleftrightarrow> sa_from (snd ka) \<noteq> None \<or> sa_to (snd ka) \<noteq> None"

definition counts_total :: "diff_counts \<Rightarrow> nat" where
  "counts_total n = n_added n + n_removed n + n_changed n + n_unchanged n + n_indeterminate n"

lemma classify_diff_values:
  "classify_diff f t \<in> {''indeterminate'', ''changed'', ''unchanged''}"
  by (simp add: classify_diff_def split: option.split)

lemma diff_bucket_step:
  assumes "occupied b"
  obtains counts' pairs' where
    "diff_bucket (changes, counts, pairs) b
       = Some (changes @ (case bucket_change b of None \<Rightarrow> [] | Some ch \<Rightarrow> [ch]), counts', pairs')"
    "counts_total counts' = Suc (counts_total counts)"
    "n_unchanged counts' = n_unchanged counts + (if bucket_change b = None then 1 else 0)"
proof -
  obtain k a where b: "b = (k, a)" by (cases b) auto
  show thesis
    using assms that classify_diff_values [of "the (sa_from a)" "the (sa_to a)"] unfolding b
    by (cases "sa_from a"; cases "sa_to a")
      (auto simp: diff_bucket_def bucket_change_def occupied_def counts_total_def Let_def)
qed

lemma diff_scan_run:
  assumes "list_all occupied bs"
  shows "\<exists>counts' pairs'. diff_scan (changes, counts, pairs) bs
           = Some (changes @ List.map_filter bucket_change bs, counts', pairs')
         \<and> counts_total counts' = counts_total counts + length bs
         \<and> n_unchanged counts' + length (List.map_filter bucket_change bs)
           = n_unchanged counts + length bs"
  using assms
proof (induction bs arbitrary: changes counts pairs)
  case (Cons b bs)
  then have "occupied b" by simp
  then obtain counts1 pairs1 where one:
    "diff_bucket (changes, counts, pairs) b
       = Some (changes @ (case bucket_change b of None \<Rightarrow> [] | Some ch \<Rightarrow> [ch]), counts1, pairs1)"
    "counts_total counts1 = Suc (counts_total counts)"
    "n_unchanged counts1 = n_unchanged counts + (if bucket_change b = None then 1 else 0)"
    by (rule diff_bucket_step)
  from Cons obtain counts' pairs' where rest:
    "diff_scan (changes @ (case bucket_change b of None \<Rightarrow> [] | Some ch \<Rightarrow> [ch]), counts1, pairs1) bs
       = Some ((changes @ (case bucket_change b of None \<Rightarrow> [] | Some ch \<Rightarrow> [ch]))
               @ List.map_filter bucket_change bs, counts', pairs')"
    "counts_total counts' = counts_total counts1 + length bs"
    "n_unchanged counts' + length (List.map_filter bucket_change bs) = n_unchanged counts1 + length bs"
    by fastforce
  show ?case
    by (rule exI [of _ counts'], rule exI [of _ pairs'])
      (use one rest in \<open>auto simp: List.map_filter_simps split: option.splits\<close>)
qed (simp add: List.map_filter_simps)

lemma diff_buckets_occupied: "list_all occupied (diff_buckets cands project from to)"
proof -
  have "occupied (k, a)" if "(k, a) \<in> set (diff_buckets cands project from to)" for k a
  proof -
    have get: "map_of (diff_buckets cands project from to) k = Some a"
      using that diff_buckets_wf by (simp add: gm_get_mem)
    then have a: "a = \<lparr>sa_from = side_pick cands project k from, sa_to = side_pick cands project k to\<rparr>"
      and "list_ex (\<lambda>c. in_scope project from to c \<and> cand_key c = k) cands"
      by (auto simp: diff_buckets_lookup split: if_splits)
    then obtain c where "c \<in> set cands" "in_scope project from to c" "cand_key c = k"
      by (auto simp: list_ex_iff)
    then show ?thesis unfolding occupied_def a by (auto simp: side_pick_None in_scope_def)
  qed
  then show ?thesis by (auto simp: list_all_iff)
qed

lemma visited_buckets:
  assumes "go_visit visit" and bs: "bs = visit (diff_buckets cands project from to)"
  shows "mset bs = mset (diff_buckets cands project from to)" "list_all occupied bs"
proof -
  have "gm_same bs (diff_buckets cands project from to)"
    using assms(1) diff_buckets_wf by (simp add: go_visit_def bs)
  then show m: "mset bs = mset (diff_buckets cands project from to)" by (rule gm_same_mset)
  show "list_all occupied bs"
    using diff_buckets_occupied m by (metis list_all_iff set_mset_mset)
qed

definition symbol_count :: "candidate list \<Rightarrow> string \<Rightarrow> string \<Rightarrow> string \<Rightarrow> nat" where
  "symbol_count cands project from to =
     length (remdups (map cand_key (filter (in_scope project from to) cands)))"

lemma length_diff_buckets:
  "length (diff_buckets cands project from to) = symbol_count cands project from to"
proof -
  have "set (map fst (diff_buckets cands project from to))
      = set (map cand_key (filter (in_scope project from to) cands))"
  proof -
    have mem: "k \<in> fst ` set (diff_buckets cands project from to) \<longleftrightarrow>
        list_ex (\<lambda>c. in_scope project from to c \<and> cand_key c = k) cands" for k
    proof -
      have "k \<in> fst ` set (diff_buckets cands project from to) \<longleftrightarrow>
          map_of (diff_buckets cands project from to) k \<noteq> None"
        by (simp add: map_of_eq_None_iff)
      then show ?thesis by (simp add: diff_buckets_lookup)
    qed
    show ?thesis
      by (rule set_eqI) (simp only: set_map mem, auto simp: list_ex_iff)
  qed
  moreover have "distinct (map fst (diff_buckets cands project from to))"
    using diff_buckets_wf by (simp add: gm_wf_def)
  ultimately have "length (map fst (diff_buckets cands project from to))
      = length (remdups (map cand_key (filter (in_scope project from to) cands)))"
    using distinct_card [of "map fst (diff_buckets cands project from to)"]
      distinct_card [of "remdups (map cand_key (filter (in_scope project from to) cands))"]
    by (simp only: set_remdups distinct_remdups simp_thms)
  then show ?thesis by (simp add: symbol_count_def)
qed

lemma diff_candidates_run:
  assumes "go_visit visit" and "go_arrange arrange"
  shows "\<exists>changes counts pairs.
    diff_candidates visit arrange cands project from to = Some (changes, counts, pairs)
    \<and> mset changes = mset (List.map_filter bucket_change (diff_buckets cands project from to))
    \<and> sorted_wrt (\<lambda>a b. \<not> change_less b a) changes
    \<and> counts_total counts = symbol_count cands project from to
    \<and> length changes + n_unchanged counts = symbol_count cands project from to"
proof -
  note v = visited_buckets [OF assms(1) refl, of cands project "from" "to"]
  let ?bs = "visit (diff_buckets cands project from to)"
  obtain counts pairs where r:
    "diff_scan ([], zero_counts, []) ?bs = Some (List.map_filter bucket_change ?bs, counts, pairs)"
    "counts_total counts = length ?bs"
    "n_unchanged counts + length (List.map_filter bucket_change ?bs) = length ?bs"
    using diff_scan_run [OF v(2), of "[]" zero_counts "[]"] by (auto simp: zero_counts_def counts_total_def)
  have len: "length ?bs = symbol_count cands project from to"
    using v(1) length_diff_buckets by (metis size_mset)
  have sort: "is_go_sort change_less (List.map_filter bucket_change ?bs) (arrange (List.map_filter bucket_change ?bs))"
    using assms(2) by (simp add: go_arrange_def)
  have "mset (List.map_filter bucket_change ?bs)
      = mset (List.map_filter bucket_change (diff_buckets cands project from to))"
    using v(1) by (simp add: List.map_filter_def mset_filter)
  moreover have "length (arrange (List.map_filter bucket_change ?bs)) = length (List.map_filter bucket_change ?bs)"
    using sort by (auto simp: is_go_sort_def dest: mset_eq_length)
  ultimately show ?thesis using r sort len
    by (auto simp: diff_candidates_def is_go_sort_def)
qed

text \<open>The sort key is a tuple of strings, so the comparator is a strict weak order and stable
  sorting is one of the results \<open>sort.Slice\<close> may give.\<close>

definition change_sort_key :: "change \<Rightarrow> string list" where
  "change_sort_key c = [ch_path c, ch_pkg c, ch_name c, ch_status c]"

lemma change_less_key: "change_less a b \<longleftrightarrow> change_sort_key a < change_sort_key b"
  by (auto simp: change_less_def change_sort_key_def)

interpretation change_order: strict_weak_order change_less
  by unfold_locales (auto simp: change_less_key)

lemma go_arrange_stable: "go_arrange (stable_sort change_less)"
  by (simp add: go_arrange_def change_order.stable_sort_is_go_sort)

text \<open>The diff never dereferences a missing side, and its counts partition the symbols:
  every symbol of the project at either version is counted once, exactly the symbols not counted as
  unchanged are listed, and the list is in the documented order, whatever order Go visits the
  buckets in and however its sort places ties.\<close>

theorem diff_counts_partition:
  assumes "go_visit visit" and "go_arrange arrange"
  shows "\<exists>changes counts pairs.
    diff_candidates visit arrange cands project from to = Some (changes, counts, pairs)
    \<and> counts_total counts = symbol_count cands project from to
    \<and> length changes + n_unchanged counts = symbol_count cands project from to
    \<and> sorted_wrt (\<lambda>a b. \<not> change_less b a) changes"
  using diff_candidates_run [OF assms] by blast

theorem diff_counts_partition_witness:
  "\<exists>changes counts pairs.
    diff_candidates rev (stable_sort change_less)
      [demo_cand ''i1'' ''1'' ''h1'', demo_cand ''i2'' ''2'' ''h2''] ''gcs'' ''1'' ''2''
      = Some (changes, counts, pairs)
    \<and> counts_total counts
        = symbol_count [demo_cand ''i1'' ''1'' ''h1'', demo_cand ''i2'' ''2'' ''h2''] ''gcs'' ''1'' ''2''
    \<and> length changes + n_unchanged counts
        = symbol_count [demo_cand ''i1'' ''1'' ''h1'', demo_cand ''i2'' ''2'' ''h2''] ''gcs'' ''1'' ''2''
    \<and> sorted_wrt (\<lambda>a b. \<not> change_less b a) changes"
  by (rule diff_counts_partition [OF go_visit_rev go_arrange_stable])

text \<open>A listed status is true of the candidates: an added symbol has a candidate at \<open>to\<close> and
  none at \<open>from\<close>, a removed one the reverse, and any other listed symbol has one at each side,
  which for \<open>changed\<close> carry known body hashes of the same kind that differ.\<close>

theorem diff_status_meaning:
  assumes "go_visit visit" and "go_arrange arrange"
    and "diff_candidates visit arrange cands project from to = Some (changes, counts, pairs)"
    and "ch \<in> set changes"
  shows "\<exists>k. ch_name ch = k_name k \<and> ch_path ch = k_path k \<and> ch_type ch = k_ctype k \<and> ch_pkg ch = k_pkg k
     \<and> (case (side_pick cands project k from, side_pick cands project k to) of
          (None, Some t) \<Rightarrow> ch_status ch = ''added'' \<and> ch_to_id ch = c_id t \<and> ch_from_id ch = []
        | (Some f, None) \<Rightarrow> ch_status ch = ''removed'' \<and> ch_from_id ch = c_id f \<and> ch_to_id ch = []
        | (Some f, Some t) \<Rightarrow>
            ch_from_id ch = c_id f \<and> ch_to_id ch = c_id t
            \<and> (if c_hash f \<noteq> [] \<and> c_hash t \<noteq> [] \<and> c_hash_kind f = c_hash_kind t
               then ch_status ch = ''changed'' \<and> c_hash f \<noteq> c_hash t
               else ch_status ch = ''indeterminate'')
        | (None, None) \<Rightarrow> False)"
proof -
  have "mset changes = mset (List.map_filter bucket_change (diff_buckets cands project from to))"
    using diff_candidates_run [OF assms(1,2), of cands project "from" "to"] assms(3) by auto
  then have "ch \<in> set (List.map_filter bucket_change (diff_buckets cands project from to))"
    using assms(4) by (metis set_mset_mset)
  then obtain k a where ka: "(k, a) \<in> set (diff_buckets cands project from to)"
    "bucket_change (k, a) = Some ch"
    by (auto simp: List.map_filter_def)
  have "map_of (diff_buckets cands project from to) k = Some a"
    using ka(1) diff_buckets_wf by (simp add: gm_get_mem)
  then have a: "sa_from a = side_pick cands project k from" "sa_to a = side_pick cands project k to"
    by (auto simp: diff_buckets_lookup split: if_splits)
  show ?thesis
    by (rule exI [of _ k])
      (use ka(2) in \<open>auto simp: bucket_change_def a change_from_def classify_diff_def
         classify_change_def split: option.splits if_splits\<close>)
qed

theorem diff_status_meaning_witness:
  "(let cs = [demo_cand ''i2'' ''2'' ''h2'', demo_cand ''i1'' ''1'' ''h1''] in
    case diff_candidates (\<lambda>m. m) (stable_sort change_less) cs ''gcs'' ''1'' ''2'' of
      None \<Rightarrow> False
    | Some (changes, counts, pairs) \<Rightarrow>
        map ch_status changes = [''changed''] \<and>
        (\<exists>k. ch_name (hd changes) = k_name k \<and> ch_path (hd changes) = k_path k
           \<and> ch_type (hd changes) = k_ctype k \<and> ch_pkg (hd changes) = k_pkg k
           \<and> (case (side_pick cs ''gcs'' k ''1'', side_pick cs ''gcs'' k ''2'') of
                (None, Some t) \<Rightarrow> ch_status (hd changes) = ''added'' \<and> ch_to_id (hd changes) = c_id t
                                   \<and> ch_from_id (hd changes) = []
              | (Some f, None) \<Rightarrow> ch_status (hd changes) = ''removed'' \<and> ch_from_id (hd changes) = c_id f
                                   \<and> ch_to_id (hd changes) = []
              | (Some f, Some t) \<Rightarrow>
                  ch_from_id (hd changes) = c_id f \<and> ch_to_id (hd changes) = c_id t
                  \<and> (if c_hash f \<noteq> [] \<and> c_hash t \<noteq> [] \<and> c_hash_kind f = c_hash_kind t
                     then ch_status (hd changes) = ''changed'' \<and> c_hash f \<noteq> c_hash t
                     else ch_status (hd changes) = ''indeterminate'')
              | (None, None) \<Rightarrow> False)))"
proof -
  let ?cs = "[demo_cand ''i2'' ''2'' ''h2'', demo_cand ''i1'' ''1'' ''h1'']"
  let ?r = "diff_candidates (\<lambda>m. m) (stable_sort change_less) ?cs ''gcs'' ''1'' ''2''"
  have st: "map_option (map ch_status \<circ> fst) ?r = Some [''changed'']" by code_simp
  then obtain changes counts pairs where r: "?r = Some (changes, counts, pairs)"
    and c: "map ch_status changes = [''changed'']" by auto
  then have "hd changes \<in> set changes" by (cases changes) auto
  from diff_status_meaning [OF go_visit_id go_arrange_stable r this]
  show ?thesis unfolding Let_def r using c by simp
qed

text \<open>The order of the listed changes is not determined where two symbols share path, package,
  name and status, as a type and a function of one name do: the sort key leaves out the type, the
  sort is not stable and the buckets are a Go map, so two runs on one snapshot can list such a
  pair either way round, against the comment on \<open>diffCandidates\<close>.\<close>

lemma diff_order_not_determined:
  "(let cs = [demo_cand ''i2'' ''2'' ''h2'', (demo_cand ''i3'' ''2'' ''h3'')\<lparr>c_ctype := ''type''\<rparr>];
        run1 = diff_candidates (\<lambda>m. m) (stable_sort change_less) cs ''gcs'' ''1'' ''2'';
        run2 = diff_candidates rev (stable_sort change_less) cs ''gcs'' ''1'' ''2''
    in go_visit (\<lambda>m. m) \<and> go_visit rev \<and> go_arrange (stable_sort change_less)
       \<and> map_option (map ch_to_id \<circ> fst) run1 = Some [''i2'', ''i3'']
       \<and> map_option (map ch_to_id \<circ> fst) run2 = Some [''i3'', ''i2''])"
proof -
  let ?cs = "[demo_cand ''i2'' ''2'' ''h2'', (demo_cand ''i3'' ''2'' ''h3'')\<lparr>c_ctype := ''type''\<rparr>]"
  have "map_option (map ch_to_id \<circ> fst)
      (diff_candidates (\<lambda>m. m) (stable_sort change_less) ?cs ''gcs'' ''1'' ''2'') = Some [''i2'', ''i3'']"
    "map_option (map ch_to_id \<circ> fst)
      (diff_candidates rev (stable_sort change_less) ?cs ''gcs'' ''1'' ''2'') = Some [''i3'', ''i2'']"
    by code_simp+
  then show ?thesis
    unfolding Let_def using go_visit_id go_visit_rev go_arrange_stable by blast
qed

section \<open>Bounds of the response\<close>

definition body_bytes :: "change \<Rightarrow> int" where
  "body_bytes ch = int (length (ch_from_body ch)) + int (length (ch_to_body ch))"

lemma hydrate_one_budget:
  assumes "hydrate_one resolve c used m = (b, skipped, failed, used')" and "used \<le> m"
  shows "used' \<le> m" "used' = used + int (length b)" "skipped \<or> failed \<Longrightarrow> b = []"
  using assms by (auto simp: hydrate_one_def split: if_splits option.splits)

lemma hydrate_from_budget:
  assumes "hydrate_from resolve m side (ch, h) = (ch', h')" and "h_used h \<le> m" and "ch_from_body ch = []"
  shows "h_used h' \<le> m" "h_used h' - h_used h = body_bytes ch' - body_bytes ch"
    "ch_to_body ch' = ch_to_body ch" "change_id ch' = change_id ch"
proof -
  have "h_used h' \<le> m \<and> h_used h' - h_used h = body_bytes ch' - body_bytes ch
      \<and> ch_to_body ch' = ch_to_body ch \<and> change_id ch' = change_id ch"
  proof (cases side)
    case None
    with assms show ?thesis by (auto simp: hydrate_from_def)
  next
    case (Some c)
    obtain b sk f u where o: "hydrate_one resolve c (h_used h) m = (b, sk, f, u)"
      by (cases "hydrate_one resolve c (h_used h) m") auto
    from hydrate_one_budget [OF o assms(2)] assms(1,3) show ?thesis
      by (auto simp: hydrate_from_def Some o body_bytes_def change_id_def split: if_splits)
  qed
  then show "h_used h' \<le> m" "h_used h' - h_used h = body_bytes ch' - body_bytes ch"
    "ch_to_body ch' = ch_to_body ch" "change_id ch' = change_id ch" by auto
qed

lemma hydrate_to_budget:
  assumes "hydrate_to resolve m side (ch, h) = (ch', h')" and "h_used h \<le> m" and "ch_to_body ch = []"
  shows "h_used h' \<le> m" "h_used h' - h_used h = body_bytes ch' - body_bytes ch"
proof -
  have "h_used h' \<le> m \<and> h_used h' - h_used h = body_bytes ch' - body_bytes ch"
  proof (cases side)
    case None
    with assms show ?thesis by (auto simp: hydrate_to_def)
  next
    case (Some c)
    obtain b sk f u where o: "hydrate_one resolve c (h_used h) m = (b, sk, f, u)"
      by (cases "hydrate_one resolve c (h_used h) m") auto
    from hydrate_one_budget [OF o assms(2)] assms(1,3) show ?thesis
      by (auto simp: hydrate_to_def Some o body_bytes_def split: if_splits)
  qed
  then show "h_used h' \<le> m" "h_used h' - h_used h = body_bytes ch' - body_bytes ch" by auto
qed

definition bodyless :: "change \<Rightarrow> bool" where
  "bodyless ch \<longleftrightarrow> ch_from_body ch = [] \<and> ch_to_body ch = []"

lemma hydrate_loop_budget:
  assumes "hydrate_loop resolve m pairs chs h = (chs', h')" and "h_used h \<le> m" and "list_all bodyless chs"
  shows "h_used h' \<le> m \<and> h_used h + sum_list (map body_bytes chs') = h_used h' \<and> length chs' = length chs"
  using assms
proof (induction chs arbitrary: h chs' h')
  case (Cons ch chs)
  let ?p = "case map_of pairs (change_id ch) of None \<Rightarrow> (None, None) | Some p \<Rightarrow> p"
  obtain c1 h1 where one: "hydrate_from resolve m (fst ?p) (ch, h) = (c1, h1)"
    by (cases "hydrate_from resolve m (fst ?p) (ch, h)") auto
  obtain c2 h2 where two: "hydrate_to resolve m (snd ?p) (c1, h1) = (c2, h2)"
    by (cases "hydrate_to resolve m (snd ?p) (c1, h1)") auto
  obtain r h3 where rest: "hydrate_loop resolve m pairs chs h2 = (r, h3)"
    by (cases "hydrate_loop resolve m pairs chs h2") auto
  have out: "chs' = c2 # r" "h' = h3" using Cons.prems(1) one two rest by (auto simp: Let_def)
  have ch: "ch_from_body ch = []" "ch_to_body ch = []" using Cons.prems(3) by (auto simp: bodyless_def)
  note f = hydrate_from_budget [OF one Cons.prems(2) ch(1)]
  note t = hydrate_to_budget [OF two f(1)]
  have "ch_to_body c1 = []" using f(3) ch(2) by simp
  with t have t': "h_used h2 \<le> m" "h_used h2 - h_used h1 = body_bytes c2 - body_bytes c1" by auto
  have "body_bytes ch = 0" using ch by (simp add: body_bytes_def)
  with f(2) t'(2) Cons.IH [OF rest t'(1)] Cons.prems(3) out show ?case by auto
qed simp

lemma bucket_change_bodyless: "bucket_change b = Some ch \<Longrightarrow> bodyless ch"
  by (auto simp: bucket_change_def bodyless_def change_from_def split: option.splits if_splits)

lemma diff_candidates_bodyless:
  assumes "go_visit visit" and "go_arrange arrange"
    and "diff_candidates visit arrange cands project from to = Some (changes, counts, pairs)"
  shows "list_all bodyless changes"
proof -
  have "mset changes = mset (List.map_filter bucket_change (diff_buckets cands project from to))"
    using diff_candidates_run [OF assms(1,2), of cands project "from" "to"] assms(3) by auto
  then have "set changes = set (List.map_filter bucket_change (diff_buckets cands project from to))"
    by (metis set_mset_mset)
  then show ?thesis
    by (auto simp: list_all_iff List.map_filter_def dest: bucket_change_bodyless)
qed

lemma max_symbols_pos: "0 < max_symbols req"
  by (simp add: max_symbols_def default_max_diff_symbols_def)

lemma max_body_bytes_pos: "0 < max_body_bytes req"
  by (simp add: max_body_bytes_def default_max_body_bytes_def)

text \<open>Every answered diff keeps to the requested bounds: it lists at most \<open>maxSymbols\<close> changes,
  accounts for the others as dropped and says so, and carries at most \<open>maxBodyBytes\<close> bytes of
  bodies in total, whatever the body store returns.\<close>

theorem serve_diff_bounds:
  assumes "go_visit visit" and "go_arrange arrange"
    and "serve_diff u visit arrange started status enum resolver req = Inr resp"
  shows "int (length (rs_changes resp)) \<le> max_symbols req
       \<and> sum_list (map body_bytes (rs_changes resp)) \<le> max_body_bytes req
       \<and> length (rs_changes resp) + rs_dropped resp + n_unchanged (rs_counts resp)
         = counts_total (rs_counts resp)
       \<and> (rs_truncated resp \<longleftrightarrow> 0 < rs_dropped resp)"
proof -
  obtain es tr where enum: "enum = Some (es, tr)"
    using assms(3) by (auto simp: serve_diff_def split: if_splits option.splits)
  define cands where "cands = project_candidates es (rq_project req)"
  show ?thesis
  proof (cases "count_version cands (rq_from req) = 0 \<or> count_version cands (rq_to req) = 0")
    case True
    then have "rs_changes resp = [] \<and> rs_dropped resp = 0 \<and> \<not> rs_truncated resp \<and> rs_counts resp = zero_counts"
      using assms(3) unfolding serve_diff_def enum
      by (auto simp: cands_def [symmetric] Let_def split_def split: if_splits)
    then show ?thesis
      using max_symbols_pos [of req] max_body_bytes_pos [of req]
      by (simp add: counts_total_def zero_counts_def)
  next
    case False
    obtain changes counts pairs where d:
      "diff_candidates visit arrange cands (rq_project req) (rq_from req) (rq_to req) = Some (changes, counts, pairs)"
      "counts_total counts = symbol_count cands (rq_project req) (rq_from req) (rq_to req)"
      "length changes + n_unchanged counts = symbol_count cands (rq_project req) (rq_from req) (rq_to req)"
      using diff_candidates_run [OF assms(1,2)] by blast
    obtain listed dropped cut where cap: "cap_changes req changes = (listed, dropped, cut)"
      by (cases "cap_changes req changes") auto
    have bound: "int (length listed) \<le> max_symbols req" "length listed + dropped = length changes"
      "cut \<longleftrightarrow> 0 < dropped" "set listed \<subseteq> set changes"
      using cap max_symbols_pos [of req]
      by (auto simp: cap_changes_def split: if_splits dest: in_set_takeD)
    have bl: "list_all bodyless listed"
      using diff_candidates_bodyless [OF assms(1,2) d(1)] bound(4) by (auto simp: list_all_iff)
    have out: "rs_counts resp = counts" "rs_dropped resp = dropped" "rs_truncated resp = cut"
      "rs_changes resp = listed
        \<or> (\<exists>resolve. rs_changes resp = fst (hydrate_bodies resolve listed pairs (max_body_bytes req)))"
      using assms(3) False unfolding serve_diff_def enum
      by (auto simp: cands_def [symmetric] Let_def split_def d(1) cap
          split: if_splits option.splits prod.splits)
    have zero: "sum_list (map body_bytes listed) = 0"
      using bl by (induction listed) (auto simp: bodyless_def body_bytes_def)
    have "length (rs_changes resp) = length listed
        \<and> sum_list (map body_bytes (rs_changes resp)) \<le> max_body_bytes req"
    proof (cases "rs_changes resp = listed")
      case True
      with zero max_body_bytes_pos [of req] show ?thesis by simp
    next
      case hy: False
      with out(4) obtain resolve where
        b: "rs_changes resp = fst (hydrate_bodies resolve listed pairs (max_body_bytes req))" by blast
      obtain c h where loop: "hydrate_loop resolve (max_body_bytes req) pairs listed
          \<lparr>h_used = 0, h_omitted = 0, h_failed = 0\<rparr> = (c, h)"
        by (cases "hydrate_loop resolve (max_body_bytes req) pairs listed
          \<lparr>h_used = 0, h_omitted = 0, h_failed = 0\<rparr>") auto
      with b have "hydrate_loop resolve (max_body_bytes req) pairs listed
          \<lparr>h_used = 0, h_omitted = 0, h_failed = 0\<rparr> = (rs_changes resp, h)"
        by (simp add: hydrate_bodies_def)
      from hydrate_loop_budget [OF this _ bl] max_body_bytes_pos [of req] show ?thesis by simp
    qed
    with out(1-3) bound d(2,3) show ?thesis by auto
  qed
qed

theorem serve_diff_bounds_witness:
  "(case serve_diff ascii_tables (\<lambda>m. m) (stable_sort change_less) True (StatusRead True)
      (Some ([demo_entity ''acme.p.s.go.f.i1'' ''1'' ''h1'', demo_entity ''acme.p.s.go.f.i2'' ''2'' ''h2''], False))
      (Some (\<lambda>st k. Some ''body''))
      \<lparr>rq_project = ''gcs'', rq_from = ''1'', rq_to = ''2'', rq_want_bodies = None, rq_max_symbols = 0,
       rq_max_body_bytes = 7\<rparr> of
     Inl e \<Rightarrow> False
   | Inr resp \<Rightarrow>
       rs_counts resp = zero_counts\<lparr>n_changed := 1\<rparr>
       \<and> int (length (rs_changes resp)) \<le> 2000
       \<and> sum_list (map body_bytes (rs_changes resp)) \<le> 7
       \<and> length (rs_changes resp) + rs_dropped resp + n_unchanged (rs_counts resp)
         = counts_total (rs_counts resp)
       \<and> (rs_truncated resp \<longleftrightarrow> 0 < rs_dropped resp))"
proof -
  let ?req = "\<lparr>rq_project = ''gcs'', rq_from = ''1'', rq_to = ''2'', rq_want_bodies = None,
      rq_max_symbols = 0, rq_max_body_bytes = 7\<rparr>"
  let ?r = "serve_diff ascii_tables (\<lambda>m. m) (stable_sort change_less) True (StatusRead True)
      (Some ([demo_entity ''acme.p.s.go.f.i1'' ''1'' ''h1'', demo_entity ''acme.p.s.go.f.i2'' ''2'' ''h2''], False))
      (Some (\<lambda>st k. Some ''body'')) ?req"
  have "(case ?r of Inl e \<Rightarrow> False | Inr resp \<Rightarrow> rs_counts resp = zero_counts\<lparr>n_changed := 1\<rparr>)"
    by code_simp
  then obtain resp where r: "?r = Inr resp" "rs_counts resp = zero_counts\<lparr>n_changed := 1\<rparr>"
    by (auto split: sum.splits)
  have "max_symbols ?req = 2000" "max_body_bytes ?req = 7"
    by (simp_all add: max_symbols_def default_max_diff_symbols_def max_body_bytes_def)
  with serve_diff_bounds [OF go_visit_id go_arrange_stable r(1)] r show ?thesis by simp
qed

end
