(* ===== verification/Lifecycle.thy ===== *)
theory Lifecycle
  imports GraphModel
begin

text \<open>
  \<open>processor/supersession/lifecycle.go\<close>: the pass that keeps the staleness markers in step with
  what still exists. \<open>ref\<close> is the framework's datatype tag of entity references, \<open>visit\<close> the order
  in which Go ranges over the map of paths, \<open>now\<close> the time stamped on markers, \<open>exists\<close> the
  success of \<open>os.Stat\<close>, and \<open>mutate\<close> the outcome of the framework's mutation client.
\<close>

section \<open>Reasons, requests, markers\<close>

definition reason_source_removed :: string where "reason_source_removed = ''source_removed''"
definition reason_passage_removed :: string where "reason_passage_removed = ''passage_removed''"

record lifecycle_request =
  lr_org :: string
  lr_systems :: "string list"
  lr_root :: string
  lr_reason :: string
  lr_absent :: "string list option"

record lifecycle_response =
  lp_entities :: nat
  lp_paths :: nat
  lp_marked :: nat
  lp_cleared :: nat

definition stale_triple :: "int \<Rightarrow> string \<Rightarrow> string \<Rightarrow> triple" where
  "stale_triple now subject reason =
     \<lparr>t_subject = subject, t_predicate = lifecycle_stale, t_object = OString reason, t_datatype = [],
      t_source = ''lifecycle'', t_time = now, t_confidence = 1\<rparr>"

lemma stale_triple_sel [simp]: "t_subject (stale_triple now i r) = i"
  by (simp add: stale_triple_def)

definition is_marked_stale :: "triple list \<Rightarrow> bool" where
  "is_marked_stale ts \<longleftrightarrow> list_ex (\<lambda>t. t_predicate t = lifecycle_stale) ts"

definition lifecycle_reason :: "obj \<Rightarrow> string" where
  "lifecycle_reason ob = (case ob of OString s \<Rightarrow> s | _ \<Rightarrow> [])"

definition is_source_removed :: "triple list \<Rightarrow> bool" where
  "is_source_removed ts \<longleftrightarrow>
     list_ex (\<lambda>t. t_predicate t = lifecycle_stale \<and> lifecycle_reason (t_object t) = reason_source_removed) ts"

section \<open>Passages\<close>

definition is_passage :: "triple list \<Rightarrow> bool" where
  "is_passage ts \<longleftrightarrow> triple_int ts doc_chunk_index \<noteq> None"

definition is_vanished_passage :: "triple list \<Rightarrow> int \<Rightarrow> bool" where
  "is_vanished_passage ts live_count \<longleftrightarrow>
     (case triple_int ts doc_chunk_index of Some idx \<Rightarrow> idx \<ge> live_count | None \<Rightarrow> False)"

text \<open>The parent the typed edges agree on; \<open>None\<close> when two of them name different parents.\<close>

fun parent_scan :: "string \<Rightarrow> string \<Rightarrow> triple list \<Rightarrow> string option" where
  "parent_scan ref parent [] = Some parent"
| "parent_scan ref parent (t # ts) =
     (if t_predicate t = code_belongs \<and> t_datatype t = ref then
        (case t_object t of
           OString value \<Rightarrow>
             if parent \<noteq> [] \<and> parent \<noteq> value then None else parent_scan ref value ts
         | _ \<Rightarrow> parent_scan ref parent ts)
      else parent_scan ref parent ts)"

definition passage_parent_count ::
  "string \<Rightarrow> triple list \<Rightarrow> (string, int) gomap \<Rightarrow> int option" where
  "passage_parent_count ref ts counts =
     (case parent_scan ref [] ts of
        None \<Rightarrow> None
      | Some p \<Rightarrow> if p = [] then None else map_of counts p)"

definition parent_counts :: "entity list \<Rightarrow> (string, int) gomap" where
  "parent_counts es =
     foldl (\<lambda>m e. case triple_int (e_triples e) doc_chunk_count of
                    Some n \<Rightarrow> if n \<ge> 0 then gm_put (e_id e) n m else m
                  | None \<Rightarrow> m) [] es"

section \<open>Deciding\<close>

definition group_by_path :: "entity list \<Rightarrow> (string, entity list) gomap" where
  "group_by_path es =
     foldl (\<lambda>m e. case path_of (e_triples e) of None \<Rightarrow> m | Some p \<Rightarrow> gm_append p e m) [] es"

type_synonym actions = "triple list \<times> string list"

text \<open>One entity of a path whose artifact is present.\<close>

definition present_action ::
  "string \<Rightarrow> int \<Rightarrow> (string, int) gomap \<Rightarrow> actions \<Rightarrow> entity \<Rightarrow> actions" where
  "present_action ref now counts acts e =
     (let ts = e_triples e in
      if is_source_removed ts then acts
      else
        (let have_count = passage_parent_count ref ts counts;
             marked = is_marked_stale ts;
             vanished = (case have_count of Some n \<Rightarrow> is_vanished_passage ts n | None \<Rightarrow> False)
         in if vanished \<and> \<not> marked then
              (fst acts @ [stale_triple now (e_id e) reason_passage_removed], snd acts)
            else if \<not> vanished \<and> marked then
              (if have_count = None \<and> is_passage ts then acts else (fst acts, snd acts @ [e_id e]))
            else acts))"

definition absent_action :: "int \<Rightarrow> string \<Rightarrow> actions \<Rightarrow> entity \<Rightarrow> actions" where
  "absent_action now reason acts e =
     (if is_marked_stale (e_triples e) then acts
      else (fst acts @ [stale_triple now (e_id e) reason], snd acts))"

definition decide_lifecycle_actions ::
  "((string, entity list) gomap \<Rightarrow> (string, entity list) gomap) \<Rightarrow> string \<Rightarrow> int \<Rightarrow>
   entity list \<Rightarrow> string \<Rightarrow> (string \<Rightarrow> bool) option \<Rightarrow> actions \<times> nat" where
  "decide_lifecycle_actions visit ref now es reason stat =
     (case stat of
        None \<Rightarrow> (foldl (absent_action now reason) ([], []) es, 0)
      | Some live \<Rightarrow>
          (let counts = parent_counts es;
               by_path = group_by_path es
           in (foldl (\<lambda>acts (path, grp).
                        if \<not> live path then foldl (absent_action now reason) acts grp
                        else foldl (present_action ref now counts) acts grp)
                 ([], []) (visit by_path),
               length by_path)))"

section \<open>The pass\<close>

datatype lifecycle_error =
    SourceLifecycleUnavailable | GateRefused | ScopeRequired | ReasonRequired | LifecycleNotStarted
  | OrgMismatch | LifecycleEnumerateFailed | LifecycleTruncated | OraclesExclusive

definition liveness_oracle ::
  "(string \<Rightarrow> bool) \<Rightarrow> lifecycle_request \<Rightarrow> lifecycle_error + (string \<Rightarrow> bool) option" where
  "liveness_oracle exists_file req =
     (if lr_root req \<noteq> [] \<and> lr_absent req \<noteq> None then Inl OraclesExclusive
      else if lr_root req \<noteq> [] then Inr (Some (\<lambda>path. exists_file (path_join [lr_root req, path])))
      else case lr_absent req of
             Some ps \<Rightarrow> Inr (Some (\<lambda>path. path \<notin> set ps))
           | None \<Rightarrow> Inr None)"

datatype mutation_outcome = MutationOk | MutationNotFound | MutationFailed

text \<open>What the pass did: its counts, the entities whose mutation failed, and the lifecycle groups
  the mutation client accepted, each with the triples it now holds.\<close>

record pass_effect =
  pe_response :: lifecycle_response
  pe_failed :: "string list"
  pe_written :: "(string \<times> triple list) list"

definition mark_step ::
  "(string \<Rightarrow> triple list \<Rightarrow> mutation_outcome) \<Rightarrow> pass_effect \<Rightarrow> triple \<Rightarrow> pass_effect" where
  "mark_step mutate eff tr =
     (if mutate (t_subject tr) [tr] = MutationOk then
        eff\<lparr>pe_response := (pe_response eff)\<lparr>lp_marked := lp_marked (pe_response eff) + 1\<rparr>,
            pe_written := pe_written eff @ [(t_subject tr, [tr])]\<rparr>
      else eff\<lparr>pe_failed := pe_failed eff @ [t_subject tr]\<rparr>)"

definition clear_step ::
  "(string \<Rightarrow> triple list \<Rightarrow> mutation_outcome) \<Rightarrow> pass_effect \<Rightarrow> string \<Rightarrow> pass_effect" where
  "clear_step mutate eff eid =
     (case mutate eid [] of
        MutationFailed \<Rightarrow> eff\<lparr>pe_failed := pe_failed eff @ [eid]\<rparr>
      | MutationOk \<Rightarrow>
          eff\<lparr>pe_response := (pe_response eff)\<lparr>lp_cleared := lp_cleared (pe_response eff) + 1\<rparr>,
              pe_written := pe_written eff @ [(eid, [])]\<rparr>
      | MutationNotFound \<Rightarrow>
          eff\<lparr>pe_response := (pe_response eff)\<lparr>lp_cleared := lp_cleared (pe_response eff) + 1\<rparr>\<rparr>)"

definition entities_in_systems :: "string list \<Rightarrow> entity list \<Rightarrow> entity list" where
  "entities_in_systems systems es = filter (\<lambda>e. entity_id_system (e_id e) \<in> set systems) es"

definition run_lifecycle_pass ::
  "((string, entity list) gomap \<Rightarrow> (string, entity list) gomap) \<Rightarrow> string \<Rightarrow> int \<Rightarrow>
   (string \<Rightarrow> bool) \<Rightarrow> (string \<Rightarrow> triple list \<Rightarrow> mutation_outcome) \<Rightarrow>
   authority \<Rightarrow> bool \<Rightarrow> bool \<Rightarrow> (entity list \<times> bool) option \<Rightarrow> lifecycle_request \<Rightarrow>
   lifecycle_error + pass_effect" where
  "run_lifecycle_pass visit ref now exists_file mutate auth gate_open started enum req =
     (if lr_reason req = reason_source_removed then Inl SourceLifecycleUnavailable
      else if \<not> gate_open then Inl GateRefused
      else if lr_org req = [] \<or> lr_systems req = [] then Inl ScopeRequired
      else if lr_reason req = [] then Inl ReasonRequired
      else if \<not> started then Inl LifecycleNotStarted
      else if lr_org req \<noteq> auth_org auth then Inl OrgMismatch
      else case enum of
             None \<Rightarrow> Inl LifecycleEnumerateFailed
           | Some (entities, truncated) \<Rightarrow>
               if truncated then Inl LifecycleTruncated
               else
                 (let scoped = entities_in_systems (lr_systems req) entities
                  in case liveness_oracle exists_file req of
                       Inl e \<Rightarrow> Inl e
                     | Inr stat \<Rightarrow>
                         (case decide_lifecycle_actions visit ref now scoped (lr_reason req) stat of
                            ((to_mark, to_clear), paths) \<Rightarrow>
                              let eff0 = \<lparr>pe_response = \<lparr>lp_entities = length scoped, lp_paths = paths,
                                                          lp_marked = 0, lp_cleared = 0\<rparr>,
                                          pe_failed = [], pe_written = []\<rparr>;
                                  eff1 = foldl (mark_step mutate) eff0 to_mark
                              in Inr (foldl (clear_step mutate) eff1 to_clear))))"

section \<open>The verdict on each entity\<close>

text \<open>What the pass should do with an entity, from its own triples, the liveness of its path and
  the passage count of its parent: the specification of \<open>decideLifecycleActions\<close>.\<close>

datatype verdict = Keep | Mark string | Clear

definition verdict_of ::
  "string \<Rightarrow> (string, int) gomap \<Rightarrow> string \<Rightarrow> (string \<Rightarrow> bool) option \<Rightarrow> triple list \<Rightarrow> verdict" where
  "verdict_of ref counts reason stat ts =
     (case stat of
        None \<Rightarrow> if is_marked_stale ts then Keep else Mark reason
      | Some live \<Rightarrow>
          (case path_of ts of
             None \<Rightarrow> Keep
           | Some p \<Rightarrow>
               if \<not> live p then (if is_marked_stale ts then Keep else Mark reason)
               else if is_source_removed ts then Keep
               else
                 (case passage_parent_count ref ts counts of
                    Some n \<Rightarrow>
                      if is_vanished_passage ts n
                      then (if is_marked_stale ts then Keep else Mark reason_passage_removed)
                      else (if is_marked_stale ts then Clear else Keep)
                  | None \<Rightarrow> if is_marked_stale ts \<and> \<not> is_passage ts then Clear else Keep)))"

definition verdict_marks :: "int \<Rightarrow> (triple list \<Rightarrow> verdict) \<Rightarrow> entity list \<Rightarrow> triple list" where
  "verdict_marks now v es =
     concat (map (\<lambda>e. case v (e_triples e) of Mark r \<Rightarrow> [stale_triple now (e_id e) r] | _ \<Rightarrow> []) es)"

definition verdict_clears :: "(triple list \<Rightarrow> verdict) \<Rightarrow> entity list \<Rightarrow> string list" where
  "verdict_clears v es = concat (map (\<lambda>e. if v (e_triples e) = Clear then [e_id e] else []) es)"

lemma verdict_lists_simps [simp]:
  "verdict_marks now v [] = []"
  "verdict_marks now v (es @ fs) = verdict_marks now v es @ verdict_marks now v fs"
  "verdict_clears v [] = []"
  "verdict_clears v (es @ fs) = verdict_clears v es @ verdict_clears v fs"
  by (simp_all add: verdict_marks_def verdict_clears_def)

lemma foldl_absent:
  assumes "\<And>e. e \<in> set es \<Longrightarrow> v (e_triples e) = (if is_marked_stale (e_triples e) then Keep else Mark reason)"
  shows "foldl (absent_action now reason) (m, c) es = (m @ verdict_marks now v es, c @ verdict_clears v es)"
  using assms
  by (induction es arbitrary: m c) (auto simp: absent_action_def verdict_marks_def verdict_clears_def)

lemma foldl_present:
  assumes "\<And>e. e \<in> set es \<Longrightarrow> path_of (e_triples e) = Some p" and "live p"
  shows "foldl (present_action ref now counts) (m, c) es =
    (m @ verdict_marks now (verdict_of ref counts reason (Some live)) es,
     c @ verdict_clears (verdict_of ref counts reason (Some live)) es)"
  using assms
proof (induction es arbitrary: m c)
  case (Cons e es)
  have p: "path_of (e_triples e) = Some p" using Cons.prems by simp
  show ?case
    using Cons.IH Cons.prems
    by (auto simp: present_action_def verdict_of_def p Let_def verdict_marks_def verdict_clears_def
        split: option.split)
qed simp

text \<open>The paths partition the entities that have one.\<close>

lemma group_by_path_lookup:
  "map_of (group_by_path es) p =
     (let g = filter (\<lambda>e. path_of (e_triples e) = Some p) es in if g = [] then None else Some g)"
proof -
  have "map_of (foldl (\<lambda>m e. case path_of (e_triples e) of None \<Rightarrow> m | Some p \<Rightarrow> gm_append p e m) m es) p
      = (let g = filter (\<lambda>e. path_of (e_triples e) = Some p) es
         in if g = [] then map_of m p
            else Some ((case map_of m p of None \<Rightarrow> [] | Some h \<Rightarrow> h) @ g))" for m
    by (induction es arbitrary: m) (auto simp: gm_get_append Let_def split: option.split)
  then show ?thesis by (simp add: group_by_path_def Let_def)
qed

lemma group_by_path_wf: "gm_wf (group_by_path es)"
proof -
  have "gm_wf m \<Longrightarrow>
      gm_wf (foldl (\<lambda>m e. case path_of (e_triples e) of None \<Rightarrow> m | Some p \<Rightarrow> gm_append p e m) m es)" for m
    by (induction es arbitrary: m) (auto split: option.split)
  then show ?thesis by (simp add: group_by_path_def)
qed

lemma visited_paths:
  assumes "go_visit visit" and "(p, g) \<in> set (visit (group_by_path es))"
  shows "g = filter (\<lambda>e. path_of (e_triples e) = Some p) es"
proof -
  have same: "gm_same (visit (group_by_path es)) (group_by_path es)"
    using assms(1) group_by_path_wf by (simp add: go_visit_def)
  from gm_same_mem [OF this assms(2)] show ?thesis
    by (auto simp: group_by_path_lookup Let_def split: if_splits)
qed

lemma visited_members:
  assumes "go_visit visit"
  shows "set (concat (map snd (visit (group_by_path es)))) = {e \<in> set es. path_of (e_triples e) \<noteq> None}"
proof -
  have same: "gm_same (visit (group_by_path es)) (group_by_path es)"
    using assms(1) group_by_path_wf by (simp add: go_visit_def)
  show ?thesis
  proof (rule set_eqI, rule iffI)
    fix e assume "e \<in> set (concat (map snd (visit (group_by_path es))))"
    then show "e \<in> {e \<in> set es. path_of (e_triples e) \<noteq> None}"
      using visited_paths [OF assms(1)] by fastforce
  next
    fix e assume "e \<in> {e \<in> set es. path_of (e_triples e) \<noteq> None}"
    then obtain p where p: "e \<in> set es" "path_of (e_triples e) = Some p" by auto
    then have "e \<in> set (filter (\<lambda>e. path_of (e_triples e) = Some p) es)" by simp
    moreover have "filter (\<lambda>e. path_of (e_triples e) = Some p) es \<noteq> []"
      using calculation by (metis empty_iff list.set(1))
    then have "map_of (visit (group_by_path es)) p = Some (filter (\<lambda>e. path_of (e_triples e) = Some p) es)"
      using same by (simp add: gm_same_def group_by_path_lookup Let_def)
    ultimately show "e \<in> set (concat (map snd (visit (group_by_path es))))"
      by (force dest: map_of_SomeD)
  qed
qed

lemma decide_foldl:
  assumes "\<And>p g. (p, g) \<in> set ps \<Longrightarrow> \<forall>e \<in> set g. path_of (e_triples e) = Some p"
  shows "foldl (\<lambda>acts (path, grp).
            if \<not> live path then foldl (absent_action now reason) acts grp
            else foldl (present_action ref now counts) acts grp) (m, c) ps
    = (m @ verdict_marks now (verdict_of ref counts reason (Some live)) (concat (map snd ps)),
       c @ verdict_clears (verdict_of ref counts reason (Some live)) (concat (map snd ps)))"
  using assms
proof (induction ps arbitrary: m c)
  case (Cons x ps)
  obtain p g where x: "x = (p, g)" by (cases x) auto
  have g: "path_of (e_triples e) = Some p" if "e \<in> set g" for e using Cons.prems [of p g] x that by simp
  have ih: "foldl (\<lambda>acts (path, grp).
            if \<not> live path then foldl (absent_action now reason) acts grp
            else foldl (present_action ref now counts) acts grp) (m', c') ps
    = (m' @ verdict_marks now (verdict_of ref counts reason (Some live)) (concat (map snd ps)),
       c' @ verdict_clears (verdict_of ref counts reason (Some live)) (concat (map snd ps)))" for m' c'
    using Cons.prems by (intro Cons.IH) auto
  show ?case
  proof (cases "live p")
    case True
    from foldl_present [where es = g and p = p and live = live and reason = reason, OF g True]
    show ?thesis by (simp add: x True ih)
  next
    case False
    have "foldl (absent_action now reason) (m, c) g
        = (m @ verdict_marks now (verdict_of ref counts reason (Some live)) g,
           c @ verdict_clears (verdict_of ref counts reason (Some live)) g)"
      by (rule foldl_absent) (simp add: verdict_of_def g False)
    with False show ?thesis by (simp add: x ih)
  qed
qed simp

text \<open>The entities in the order the decision reaches them.\<close>

definition decided ::
  "((string, entity list) gomap \<Rightarrow> (string, entity list) gomap) \<Rightarrow> (string \<Rightarrow> bool) option \<Rightarrow>
   entity list \<Rightarrow> entity list" where
  "decided visit stat es = (case stat of None \<Rightarrow> es | Some _ \<Rightarrow> concat (map snd (visit (group_by_path es))))"

lemma decide_eq:
  assumes "go_visit visit"
  shows "fst (decide_lifecycle_actions visit ref now es reason stat) =
    (verdict_marks now (verdict_of ref (parent_counts es) reason stat) (decided visit stat es),
     verdict_clears (verdict_of ref (parent_counts es) reason stat) (decided visit stat es))"
proof (cases stat)
  case None
  have "foldl (absent_action now reason) ([], []) es =
    ([] @ verdict_marks now (verdict_of ref (parent_counts es) reason None) es,
     [] @ verdict_clears (verdict_of ref (parent_counts es) reason None) es)"
    by (rule foldl_absent) (simp add: verdict_of_def)
  with None show ?thesis by (simp add: decide_lifecycle_actions_def decided_def)
next
  case (Some live)
  show ?thesis
    using decide_foldl [of "visit (group_by_path es)" live now reason ref "parent_counts es" "[]" "[]"]
      visited_paths [OF assms]
    by (simp add: Some decide_lifecycle_actions_def decided_def Let_def) fastforce
qed

lemma decided_members:
  assumes "go_visit visit" and "e \<in> set es"
  shows "e \<in> set (decided visit stat es) \<or> verdict_of ref counts reason stat (e_triples e) = Keep"
  using assms visited_members [OF assms(1), of es]
  by (cases stat; cases "path_of (e_triples e)") (auto simp: decided_def verdict_of_def)

lemma decided_subset: "go_visit visit \<Longrightarrow> set (decided visit stat es) \<subseteq> set es"
  using visited_members by (cases stat) (fastforce simp: decided_def)+

lemma set_verdict_marks:
  "set (verdict_marks now v fs) = {stale_triple now (e_id e) r | e r. e \<in> set fs \<and> v (e_triples e) = Mark r}"
proof -
  have "set (case w of Mark r \<Rightarrow> [f r] | _ \<Rightarrow> []) = {f r | r. w = Mark r}" for w and f :: "string \<Rightarrow> triple"
    by (cases w) auto
  then show ?thesis unfolding verdict_marks_def by auto
qed

lemma set_verdict_clears: "set (verdict_clears v fs) = {e_id e | e. e \<in> set fs \<and> v (e_triples e) = Clear}"
  by (induction fs) (auto simp: verdict_clears_def)

lemma decide_sets:
  assumes "go_visit visit"
  shows "(case decide_lifecycle_actions visit ref now es reason stat of
            ((to_mark, to_clear), paths) \<Rightarrow>
              set to_mark = {stale_triple now (e_id e) r | e r.
                 e \<in> set es \<and> verdict_of ref (parent_counts es) reason stat (e_triples e) = Mark r}
              \<and> set to_clear = {e_id e | e.
                 e \<in> set es \<and> verdict_of ref (parent_counts es) reason stat (e_triples e) = Clear}
              \<and> paths = (case stat of None \<Rightarrow> 0
                         | Some _ \<Rightarrow> length (group_by_path es)))"
proof -
  let ?v = "verdict_of ref (parent_counts es) reason stat"
  let ?r = "decide_lifecycle_actions visit ref now es reason stat"
  have in_decided: "e \<in> set es \<and> ?v (e_triples e) = w \<longleftrightarrow> e \<in> set (decided visit stat es) \<and> ?v (e_triples e) = w"
    if "w \<noteq> Keep" for e w
    using decided_members [OF assms, of e es stat ref "parent_counts es" reason]
      decided_subset [OF assms, of stat es] that by auto
  have "set (fst (fst ?r)) = {stale_triple now (e_id e) r | e r. e \<in> set es \<and> ?v (e_triples e) = Mark r}"
    unfolding decide_eq [OF assms] fst_conv set_verdict_marks by (simp add: in_decided)
  moreover have "set (snd (fst ?r)) = {e_id e | e. e \<in> set es \<and> ?v (e_triples e) = Clear}"
    unfolding decide_eq [OF assms] snd_conv set_verdict_clears by (simp add: in_decided)
  moreover have "snd ?r = (case stat of None \<Rightarrow> 0 | Some _ \<Rightarrow> length (group_by_path es))"
    by (simp add: decide_lifecycle_actions_def Let_def split: option.split)
  ultimately show ?thesis by (simp add: split_def)
qed

text \<open>C10: The lifecycle decision does exactly what the verdict of each entity says, in whatever order
  Go visits the paths: an entity is marked, with that reason, or cleared just when its own
  triples, the liveness of its path and its parent's passage count call for it.\<close>

theorem decide_follows_verdicts:
  assumes "go_visit visit"
  shows "(case decide_lifecycle_actions visit ref now es reason stat of
            ((to_mark, to_clear), paths) \<Rightarrow>
              set to_mark = {stale_triple now (e_id e) r | e r.
                 e \<in> set es \<and> verdict_of ref (parent_counts es) reason stat (e_triples e) = Mark r}
              \<and> set to_clear = {e_id e | e.
                 e \<in> set es \<and> verdict_of ref (parent_counts es) reason stat (e_triples e) = Clear}
              \<and> paths = (case stat of None \<Rightarrow> 0
                         | Some _ \<Rightarrow> length (group_by_path es)))"
  by (rule decide_sets [OF assms])

section \<open>Convergence\<close>

text \<open>The graph after the accepted mutations: each writes the lifecycle group of one entity.\<close>

definition write_group :: "entity list \<Rightarrow> string \<times> triple list \<Rightarrow> entity list" where
  "write_group es w =
     map (\<lambda>e. if e_id e = fst w
              then e\<lparr>e_triples := filter (\<lambda>t. t_predicate t \<noteq> lifecycle_stale) (e_triples e) @ snd w\<rparr>
              else e) es"

definition apply_writes :: "(string \<times> triple list) list \<Rightarrow> entity list \<Rightarrow> entity list" where
  "apply_writes ws es = foldl write_group es ws"

text \<open>What one entity becomes when its verdict is carried out.\<close>

definition carried_out :: "int \<Rightarrow> (triple list \<Rightarrow> verdict) \<Rightarrow> entity \<Rightarrow> entity" where
  "carried_out now v e =
     (case v (e_triples e) of
        Keep \<Rightarrow> e
      | Mark r \<Rightarrow> e\<lparr>e_triples := filter (\<lambda>t. t_predicate t \<noteq> lifecycle_stale) (e_triples e)
                                @ [stale_triple now (e_id e) r]\<rparr>
      | Clear \<Rightarrow> e\<lparr>e_triples := filter (\<lambda>t. t_predicate t \<noteq> lifecycle_stale) (e_triples e)\<rparr>)"

lemma apply_writes_Cons [simp]:
  "apply_writes [] es = es" "apply_writes (w # ws) es = apply_writes ws (write_group es w)"
  by (simp_all add: apply_writes_def)

lemma apply_writes_map:
  assumes "distinct (map fst ws)"
  shows "apply_writes ws es = map (\<lambda>e. case map_of ws (e_id e) of
      None \<Rightarrow> e
    | Some ts \<Rightarrow> e\<lparr>e_triples := filter (\<lambda>t. t_predicate t \<noteq> lifecycle_stale) (e_triples e) @ ts\<rparr>) es"
  using assms
proof (induction ws arbitrary: es)
  case (Cons w ws)
  have none: "map_of ws (fst w) = None" using Cons.prems by (auto simp: map_of_eq_None_iff)
  obtain a ts where w: "w = (a, ts)" by (cases w) auto
  show ?case
    using none unfolding apply_writes_Cons Cons.IH [OF Cons.prems [simplified, THEN conjunct2]]
    by (auto simp: write_group_def w split: option.split)
qed simp

text \<open>The marker is read by no other rule, so carrying out a verdict leaves the rest in place.\<close>

lemma stale_appended:
  "p \<noteq> lifecycle_stale \<Longrightarrow> triple_string (ts @ [stale_triple now i r]) p = triple_string ts p"
  "p \<noteq> lifecycle_stale \<Longrightarrow> triple_int (ts @ [stale_triple now i r]) p = triple_int ts p"
  by (rule triple_string_append_other triple_int_append_other, simp add: stale_triple_def)+

lemma carried_out_readers:
  assumes "p \<noteq> lifecycle_stale"
  shows "triple_string (e_triples (carried_out now v e)) p = triple_string (e_triples e) p"
    and "triple_int (e_triples (carried_out now v e)) p = triple_int (e_triples e) p"
proof -
  show "triple_string (e_triples (carried_out now v e)) p = triple_string (e_triples e) p"
    using assms by (cases "v (e_triples e)")
      (simp_all add: carried_out_def stale_appended triple_string_filter)
  show "triple_int (e_triples (carried_out now v e)) p = triple_int (e_triples e) p"
    using assms by (cases "v (e_triples e)")
      (simp_all add: carried_out_def stale_appended triple_int_filter)
qed

lemma other_predicates:
  "code_path \<noteq> lifecycle_stale" "doc_file_path \<noteq> lifecycle_stale" "doc_chunk_index \<noteq> lifecycle_stale"
  "doc_chunk_count \<noteq> lifecycle_stale" "code_belongs \<noteq> lifecycle_stale"
  by (simp_all add: predicate_defs)

lemma parent_scan_other:
  "(\<And>t. t \<in> set us \<Longrightarrow> t_predicate t \<noteq> code_belongs) \<Longrightarrow> parent_scan ref p (ts @ us) = parent_scan ref p ts"
proof (induction ref p ts rule: parent_scan.induct)
  case (1 ref p)
  then show ?case by (induction us) auto
qed (auto split: obj.split)

lemma parent_scan_filter:
  "(\<And>t. t \<in> set ts \<Longrightarrow> t_predicate t = code_belongs \<Longrightarrow> P t) \<Longrightarrow>
   parent_scan ref p (filter P ts) = parent_scan ref p ts"
  by (induction ref p ts rule: parent_scan.induct) (auto split: obj.split)

lemma carried_out_facts [simp]:
  "path_of (e_triples (carried_out now v e)) = path_of (e_triples e)"
  "is_passage (e_triples (carried_out now v e)) = is_passage (e_triples e)"
  "is_vanished_passage (e_triples (carried_out now v e)) n = is_vanished_passage (e_triples e) n"
  "passage_parent_count ref (e_triples (carried_out now v e)) counts
     = passage_parent_count ref (e_triples e) counts"
  "e_id (carried_out now v e) = e_id e"
proof -
  show "path_of (e_triples (carried_out now v e)) = path_of (e_triples e)"
    by (simp add: path_of_def carried_out_readers other_predicates)
  show "is_passage (e_triples (carried_out now v e)) = is_passage (e_triples e)"
    "is_vanished_passage (e_triples (carried_out now v e)) n = is_vanished_passage (e_triples e) n"
    by (simp_all add: is_passage_def is_vanished_passage_def carried_out_readers other_predicates)
  have app: "parent_scan ref [] (ts @ [stale_triple now (e_id e) r]) = parent_scan ref [] ts" for ts r
    using other_predicates(5) by (intro parent_scan_other) (simp add: stale_triple_def)
  have "parent_scan ref [] (e_triples (carried_out now v e)) = parent_scan ref [] (e_triples e)"
    using other_predicates(5) by (cases "v (e_triples e)")
      (simp_all add: carried_out_def app parent_scan_filter)
  then show "passage_parent_count ref (e_triples (carried_out now v e)) counts
     = passage_parent_count ref (e_triples e) counts" by (simp add: passage_parent_count_def)
  show "e_id (carried_out now v e) = e_id e"
    by (cases "v (e_triples e)") (simp_all add: carried_out_def)
qed

lemma parent_counts_carried_out: "parent_counts (map (carried_out now v) es) = parent_counts es"
proof -
  have "foldl (\<lambda>m e. case triple_int (e_triples e) doc_chunk_count of
          Some n \<Rightarrow> if n \<ge> 0 then gm_put (e_id e) n m else m | None \<Rightarrow> m) m (map (carried_out now v) es)
      = foldl (\<lambda>m e. case triple_int (e_triples e) doc_chunk_count of
          Some n \<Rightarrow> if n \<ge> 0 then gm_put (e_id e) n m else m | None \<Rightarrow> m) m es" for m
    by (induction es arbitrary: m)
      (simp_all add: carried_out_readers other_predicates split: option.split)
  then show ?thesis by (simp add: parent_counts_def)
qed

lemma carried_out_markers:
  "is_marked_stale (e_triples (carried_out now v e)) =
     (case v (e_triples e) of Keep \<Rightarrow> is_marked_stale (e_triples e) | Mark r \<Rightarrow> True | Clear \<Rightarrow> False)"
  "is_source_removed (e_triples (carried_out now v e)) =
     (case v (e_triples e) of Keep \<Rightarrow> is_source_removed (e_triples e) | Mark r \<Rightarrow> r = reason_source_removed
      | Clear \<Rightarrow> False)"
  by (cases "v (e_triples e)"; force simp: carried_out_def is_marked_stale_def is_source_removed_def
      list_ex_iff stale_triple_def lifecycle_reason_def)+

lemma verdict_settles:
  "verdict_of ref counts reason stat
     (e_triples (carried_out now (verdict_of ref counts reason stat) e)) = Keep"
proof -
  let ?v = "verdict_of ref counts reason stat"
  note m = carried_out_markers [of now ?v e]
  show ?thesis
  proof (cases "?v (e_triples e)")
    case Keep
    then have "carried_out now ?v e = e" by (simp add: carried_out_def)
    with Keep show ?thesis by simp
  next
    case (Mark r)
    with m have mk: "is_marked_stale (e_triples (carried_out now ?v e))" by simp
    show ?thesis
      using Mark by (auto simp: verdict_of_def [of _ _ _ _ "e_triples (carried_out now ?v e)"] mk
          verdict_of_def [of _ _ _ _ "e_triples e"] split: option.splits if_splits)
  next
    case Clear
    with m have mk: "\<not> is_marked_stale (e_triples (carried_out now ?v e))" by simp
    show ?thesis
      using Clear by (auto simp: verdict_of_def [of _ _ _ _ "e_triples (carried_out now ?v e)"] mk
          verdict_of_def [of _ _ _ _ "e_triples e"] split: option.splits if_splits)
  qed
qed

section \<open>The pass converges\<close>

lemma foldl_marks_ok:
  assumes "\<And>eid ts. mutate eid ts = MutationOk"
  shows "foldl (mark_step mutate) eff ms =
    eff\<lparr>pe_response := (pe_response eff)\<lparr>lp_marked := lp_marked (pe_response eff) + length ms\<rparr>,
        pe_written := pe_written eff @ map (\<lambda>t. (t_subject t, [t])) ms\<rparr>"
  by (induction ms arbitrary: eff) (simp_all add: mark_step_def assms)

lemma foldl_clears_ok:
  assumes "\<And>eid ts. mutate eid ts = MutationOk"
  shows "foldl (clear_step mutate) eff cs =
    eff\<lparr>pe_response := (pe_response eff)\<lparr>lp_cleared := lp_cleared (pe_response eff) + length cs\<rparr>,
        pe_written := pe_written eff @ map (\<lambda>i. (i, [])) cs\<rparr>"
  by (induction cs arbitrary: eff) (simp_all add: clear_step_def assms)

definition stale_group :: "string \<times> triple list \<Rightarrow> bool" where
  "stale_group w \<longleftrightarrow> list_all (\<lambda>t. t_predicate t = lifecycle_stale) (snd w)"

lemma apply_writes_functional:
  assumes "\<And>w. w \<in> set ws \<Longrightarrow> stale_group w"
    and "\<And>i a b. (i, a) \<in> set ws \<Longrightarrow> (i, b) \<in> set ws \<Longrightarrow> a = b"
  shows "apply_writes ws es = map (\<lambda>e. case map_of ws (e_id e) of
      None \<Rightarrow> e
    | Some ts \<Rightarrow> e\<lparr>e_triples := filter (\<lambda>t. t_predicate t \<noteq> lifecycle_stale) (e_triples e) @ ts\<rparr>) es"
  using assms
proof (induction ws arbitrary: es)
  case (Cons w ws)
  obtain a ts where w: "w = (a, ts)" by (cases w) auto
  have st: "filter (\<lambda>t. t_predicate t \<noteq> lifecycle_stale) ts = []"
    using Cons.prems(1) [of w] w by (auto simp: stale_group_def list_all_iff filter_empty_conv)
  have eq: "us = ts" if "map_of ws a = Some us" for us
    using Cons.prems(2) [of a us ts] that w by (auto dest: map_of_SomeD)
  have ih: "apply_writes ws fs = map (\<lambda>e. case map_of ws (e_id e) of
      None \<Rightarrow> e
    | Some ts \<Rightarrow> e\<lparr>e_triples := filter (\<lambda>t. t_predicate t \<noteq> lifecycle_stale) (e_triples e) @ ts\<rparr>) fs" for fs
  proof (rule Cons.IH)
    show "stale_group w'" if "w' \<in> set ws" for w' using Cons.prems(1) that by simp
    show "a = b" if "(i, a) \<in> set ws" "(i, b) \<in> set ws" for i a b
      using Cons.prems(2) [of i a b] that by simp
  qed
  show ?case
    unfolding apply_writes_Cons ih by (auto simp: write_group_def w st eq split: option.split)
qed simp

lemma scope_apply_writes:
  "entities_in_systems sys (apply_writes ws es) = apply_writes ws (entities_in_systems sys es)"
proof (induction ws arbitrary: es)
  case (Cons w ws)
  have "entities_in_systems sys (write_group es w) = write_group (entities_in_systems sys es) w"
    unfolding entities_in_systems_def write_group_def by (induction es) auto
  then show ?case by (simp add: Cons)
qed simp

lemma apply_writes_carried_out:
  assumes "go_visit visit" and "distinct (map e_id es)"
    and v_def: "v = verdict_of ref (parent_counts es) reason stat"
  shows "apply_writes (map (\<lambda>t. (t_subject t, [t])) (verdict_marks now v (decided visit stat es))
                       @ map (\<lambda>i. (i, [])) (verdict_clears v (decided visit stat es))) es
         = map (carried_out now v) es"
proof -
  let ?ws = "map (\<lambda>t. (t_subject t, [t])) (verdict_marks now v (decided visit stat es))
                       @ map (\<lambda>i. (i, [])) (verdict_clears v (decided visit stat es))"
  have mem: "(i, ts) \<in> set ?ws \<longleftrightarrow> (\<exists>e \<in> set (decided visit stat es). e_id e = i \<and>
      ((\<exists>r. v (e_triples e) = Mark r \<and> ts = [stale_triple now i r]) \<or> (v (e_triples e) = Clear \<and> ts = [])))"
    for i ts
  proof -
    have m: "(i, ts) \<in> (\<lambda>t. (t_subject t, [t])) ` {stale_triple now (e_id e) r | e r. P e r} \<longleftrightarrow>
        (\<exists>e r. P e r \<and> e_id e = i \<and> ts = [stale_triple now i r])" for P
      by (auto simp: image_iff; metis stale_triple_sel)
    have c: "(i, ts) \<in> (\<lambda>i. (i, [])) ` {e_id e | e. P e} \<longleftrightarrow> (\<exists>e. P e \<and> e_id e = i \<and> ts = [])" for P
      by auto
    show ?thesis unfolding set_append set_map set_verdict_marks set_verdict_clears Un_iff m c by blast
  qed
  have uniq: "e = f" if "e \<in> set es" "f \<in> set es" "e_id e = e_id f" for e f
    using that assms(2) by (auto simp: distinct_map dest: inj_onD)
  note sub = decided_subset [OF assms(1), of stat es]
  have func: "a = b" if "(i, a) \<in> set ?ws" "(i, b) \<in> set ?ws" for i a b
    using that uniq sub unfolding mem by (metis subsetD verdict.inject verdict.distinct(5))
  have stale: "stale_group w" if "w \<in> set ?ws" for w
  proof -
    obtain i ts where "w = (i, ts)" by (cases w) auto
    with that show ?thesis unfolding \<open>w = (i, ts)\<close> mem
      by (auto simp: stale_group_def stale_triple_def)
  qed
  show ?thesis
  proof (subst apply_writes_functional [OF stale func], assumption, assumption, assumption, rule map_cong [OF refl])
    fix e assume e: "e \<in> set es"
    show "(case map_of ?ws (e_id e) of
        None \<Rightarrow> e
      | Some ts \<Rightarrow> e\<lparr>e_triples := filter (\<lambda>t. t_predicate t \<noteq> lifecycle_stale) (e_triples e) @ ts\<rparr>)
      = carried_out now v e"
    proof (cases "map_of ?ws (e_id e)")
      case None
      have "(e_id e, ts) \<notin> set ?ws" for ts
      proof
        assume "(e_id e, ts) \<in> set ?ws"
        then have "e_id e \<in> fst ` set ?ws" by (rule rev_image_eqI) simp
        with None [unfolded map_of_eq_None_iff] show False by contradiction
      qed
      then have "e \<in> set (decided visit stat es) \<Longrightarrow> v (e_triples e) = Keep"
        unfolding mem by (cases "v (e_triples e)") auto
      with decided_members [OF assms(1) e, of stat ref "parent_counts es" reason]
      have "v (e_triples e) = Keep" unfolding v_def by blast
      then show ?thesis unfolding None by (simp add: carried_out_def)
    next
      case (Some ts)
      then have "(e_id e, ts) \<in> set ?ws" by (rule map_of_SomeD)
      then obtain f where f: "f \<in> set (decided visit stat es)" "e_id f = e_id e"
        "(\<exists>r. v (e_triples f) = Mark r \<and> ts = [stale_triple now (e_id e) r]) \<or> (v (e_triples f) = Clear \<and> ts = [])"
        unfolding mem by blast
      have "f = e" using uniq [of f e] f sub e by auto
      with f(3) show ?thesis unfolding Some by (auto simp: carried_out_def)
    qed
  qed
qed

lemma decide_settled:
  assumes "go_visit visit" and "v = verdict_of ref (parent_counts es) reason stat"
  shows "decide_lifecycle_actions visit ref now' (map (carried_out now v) es) reason stat
         = (([], []), snd (decide_lifecycle_actions visit ref now es reason stat))"
proof -
  let ?es = "map (carried_out now v) es"
  have keep: "verdict_of ref (parent_counts ?es) reason stat (e_triples e) = Keep" if "e \<in> set ?es" for e
    using that verdict_settles unfolding parent_counts_carried_out assms(2) by auto
  have "verdict_marks now' (verdict_of ref (parent_counts ?es) reason stat) fs = []
      \<and> verdict_clears (verdict_of ref (parent_counts ?es) reason stat) fs = []" if "set fs \<subseteq> set ?es" for fs
    using that keep by (induction fs) (auto simp: verdict_marks_def verdict_clears_def)
  then have acts: "fst (decide_lifecycle_actions visit ref now' ?es reason stat) = ([], [])"
    unfolding decide_eq [OF assms(1)] using decided_subset [OF assms(1), of stat ?es] by simp
  have "group_by_path ?es = map (\<lambda>(p, g). (p, map (carried_out now v) g)) (group_by_path es)"
  proof -
    have "foldl (\<lambda>m e. case path_of (e_triples e) of None \<Rightarrow> m | Some p \<Rightarrow> gm_append p e m)
          (map (\<lambda>(p, g). (p, map (carried_out now v) g)) m) (map (carried_out now v) es)
        = map (\<lambda>(p, g). (p, map (carried_out now v) g))
            (foldl (\<lambda>m e. case path_of (e_triples e) of None \<Rightarrow> m | Some p \<Rightarrow> gm_append p e m) m es)" for m
      by (induction es arbitrary: m) (simp_all add: gm_append_map split: option.split)
    from this [of "[]"] show ?thesis by (simp add: group_by_path_def)
  qed
  then have "length (group_by_path ?es) = length (group_by_path es)" by simp
  then have "snd (decide_lifecycle_actions visit ref now' ?es reason stat)
      = snd (decide_lifecycle_actions visit ref now es reason stat)"
    by (simp add: decide_lifecycle_actions_def Let_def split: option.split)
  with acts show ?thesis by (metis prod.collapse)
qed

lemma run_lifecycle_ok:
  assumes "\<And>eid ts. mutate eid ts = MutationOk"
    and "run_lifecycle_pass visit ref now exists_file mutate auth gate_open started (Some (es, False)) req = Inr eff"
  shows "\<exists>stat. liveness_oracle exists_file req = Inr stat \<and> (\<forall>es' now' visit'.
      run_lifecycle_pass visit' ref now' exists_file mutate auth gate_open started (Some (es', False)) req =
      (case decide_lifecycle_actions visit' ref now' (entities_in_systems (lr_systems req) es') (lr_reason req) stat of
         ((ms, cs), paths) \<Rightarrow>
           Inr \<lparr>pe_response = \<lparr>lp_entities = length (entities_in_systems (lr_systems req) es'), lp_paths = paths,
                   lp_marked = length ms, lp_cleared = length cs\<rparr>,
                pe_failed = [], pe_written = map (\<lambda>t. (t_subject t, [t])) ms @ map (\<lambda>i. (i, [])) cs\<rparr>))"
proof -
  have guards: "lr_reason req \<noteq> reason_source_removed" "gate_open" "auth_org auth \<noteq> []" "lr_systems req \<noteq> []"
    "lr_reason req \<noteq> []" "started" "lr_org req = auth_org auth"
    using assms(2) by (auto simp: run_lifecycle_pass_def split: if_splits)
  obtain stat where stat: "liveness_oracle exists_file req = Inr stat"
    using assms(2) guards by (auto simp: run_lifecycle_pass_def Let_def split: sum.splits)
  show ?thesis
    by (rule exI [of _ stat])
      (simp add: run_lifecycle_pass_def guards stat Let_def foldl_marks_ok [OF assms(1)]
        foldl_clears_ok [OF assms(1)] split: prod.split)
qed

text \<open>C2: Lifecycle passes converge. When every mutation of a pass was accepted, the same request on
  the graph it left finds as many entities and paths and marks, clears and writes nothing: a
  boundary crossing is acted on once.\<close>

theorem lifecycle_pass_converges:
  assumes "go_visit visit" and "go_visit visit'" and "distinct (map e_id es)"
    and "\<And>eid ts. mutate eid ts = MutationOk"
    and "run_lifecycle_pass visit ref now exists_file mutate auth True True (Some (es, False)) req = Inr eff"
  shows "run_lifecycle_pass visit' ref now' exists_file mutate auth True True
           (Some (apply_writes (pe_written eff) es, False)) req
         = Inr \<lparr>pe_response = (pe_response eff)\<lparr>lp_marked := 0, lp_cleared := 0\<rparr>,
                pe_failed = [], pe_written = []\<rparr>"
proof -
  obtain stat where run: "\<And>es' now' visit'. run_lifecycle_pass visit' ref now' exists_file mutate auth True True (Some (es', False)) req =
      (case decide_lifecycle_actions visit' ref now' (entities_in_systems (lr_systems req) es') (lr_reason req) stat of
         ((ms, cs), paths) \<Rightarrow>
           Inr \<lparr>pe_response = \<lparr>lp_entities = length (entities_in_systems (lr_systems req) es'), lp_paths = paths,
                   lp_marked = length ms, lp_cleared = length cs\<rparr>,
                pe_failed = [], pe_written = map (\<lambda>t. (t_subject t, [t])) ms @ map (\<lambda>i. (i, [])) cs\<rparr>)"
    using run_lifecycle_ok [OF assms(4,5)] by blast
  let ?sc = "entities_in_systems (lr_systems req) es"
  define v where "v = verdict_of ref (parent_counts ?sc) (lr_reason req) stat"
  have d: "distinct (map e_id ?sc)" using assms(3) by (simp add: entities_in_systems_def distinct_map_filter)
  define paths where "paths = snd (decide_lifecycle_actions visit ref now ?sc (lr_reason req) stat)"
  have dec: "decide_lifecycle_actions visit ref now ?sc (lr_reason req) stat
      = ((verdict_marks now v (decided visit stat ?sc), verdict_clears v (decided visit stat ?sc)), paths)"
    using decide_eq [OF assms(1), of ref now ?sc "lr_reason req" stat]
    by (simp add: prod_eq_iff v_def paths_def)
  have eff: "eff = \<lparr>pe_response = \<lparr>lp_entities = length ?sc, lp_paths = paths,
        lp_marked = length (verdict_marks now v (decided visit stat ?sc)),
        lp_cleared = length (verdict_clears v (decided visit stat ?sc))\<rparr>,
      pe_failed = [], pe_written = map (\<lambda>t. (t_subject t, [t])) (verdict_marks now v (decided visit stat ?sc))
        @ map (\<lambda>i. (i, [])) (verdict_clears v (decided visit stat ?sc))\<rparr>"
    using assms(5) by (simp add: run dec)
  have sc': "entities_in_systems (lr_systems req) (apply_writes (pe_written eff) es) = map (carried_out now v) ?sc"
    unfolding scope_apply_writes eff using apply_writes_carried_out [OF assms(1) d v_def] by simp
  have settled: "decide_lifecycle_actions visit' ref now' (map (carried_out now v) ?sc) (lr_reason req) stat
      = (([], []), paths)"
  proof -
    have "paths = snd (decide_lifecycle_actions visit' ref now ?sc (lr_reason req) stat)"
      by (simp add: paths_def decide_lifecycle_actions_def Let_def split: option.split)
    with decide_settled [OF assms(2) v_def] show ?thesis by metis
  qed
  show ?thesis unfolding run sc' settled by (simp add: eff)
qed

text \<open>A document of two passages that had three, the last one still unmarked; a file that is gone;
  and a file that came back.\<close>

definition demo_triple :: "string \<Rightarrow> obj \<Rightarrow> string \<Rightarrow> triple" where
  "demo_triple p ob dt =
     \<lparr>t_subject = [], t_predicate = p, t_object = ob, t_datatype = dt, t_source = [], t_time = 0,
      t_confidence = 1\<rparr>"

definition demo_graph :: "entity list" where
  "demo_graph =
     [\<lparr>e_id = ''o.p.s.web.doc.d'', e_triples =
         [demo_triple doc_file_path (OString ''d.md'') [], demo_triple doc_chunk_count (OInt 2) []],
       e_updated = 0\<rparr>,
      \<lparr>e_id = ''o.p.s.web.chunk.d-2'', e_triples =
         [demo_triple doc_file_path (OString ''d.md'') [], demo_triple doc_chunk_index (OInt 2) [],
          demo_triple code_belongs (OString ''o.p.s.web.doc.d'') ''ref''], e_updated = 0\<rparr>,
      \<lparr>e_id = ''o.p.s.go.file.gone'', e_triples = [demo_triple code_path (OString ''gone.go'') []],
       e_updated = 0\<rparr>,
      \<lparr>e_id = ''o.p.s.go.file.back'', e_triples =
         [demo_triple code_path (OString ''back.go'') [], stale_triple 0 ''o.p.s.go.file.back'' ''path_missing''],
       e_updated = 0\<rparr>]"

definition demo_request :: lifecycle_request where
  "demo_request = \<lparr>lr_org = ''o'', lr_systems = [''s''], lr_root = [], lr_reason = ''file_deleted'',
                   lr_absent = Some [''gone.go'']\<rparr>"

theorem lifecycle_pass_converges_witness:
  "(let run = (\<lambda>es. run_lifecycle_pass rev ''ref'' 7 (\<lambda>_. True) (\<lambda>_ _. MutationOk)
                 \<lparr>auth_org = ''o'', auth_platform = ''p''\<rparr> True True (Some (es, False)) demo_request)
    in case run demo_graph of
         Inl e \<Rightarrow> False
       | Inr eff \<Rightarrow>
           pe_response eff = \<lparr>lp_entities = 4, lp_paths = 3, lp_marked = 2, lp_cleared = 1\<rparr> \<and>
           run (apply_writes (pe_written eff) demo_graph)
             = Inr \<lparr>pe_response = \<lparr>lp_entities = 4, lp_paths = 3, lp_marked = 0, lp_cleared = 0\<rparr>,
                    pe_failed = [], pe_written = []\<rparr>)"
proof -
  let ?run = "\<lambda>es. run_lifecycle_pass rev ''ref'' 7 (\<lambda>_. True) (\<lambda>_ _. MutationOk)
      \<lparr>auth_org = ''o'', auth_platform = ''p''\<rparr> True True (Some (es, False)) demo_request"
  have "(case ?run demo_graph of Inl e \<Rightarrow> False
      | Inr eff \<Rightarrow> pe_response eff = \<lparr>lp_entities = 4, lp_paths = 3, lp_marked = 2, lp_cleared = 1\<rparr>)"
    by code_simp
  then obtain eff where r: "?run demo_graph = Inr eff"
    and eff: "pe_response eff = \<lparr>lp_entities = 4, lp_paths = 3, lp_marked = 2, lp_cleared = 1\<rparr>"
    by (auto split: sum.splits)
  have d: "distinct (map e_id demo_graph)" by code_simp
  from lifecycle_pass_converges [OF go_visit_rev go_visit_rev d refl r, of 7] r eff
  show ?thesis by (simp add: Let_def)
qed

theorem decide_follows_verdicts_witness:
  "(case decide_lifecycle_actions rev ''ref'' 7 demo_graph ''file_deleted'' (Some (\<lambda>p. p \<noteq> ''gone.go'')) of
      ((to_mark, to_clear), paths) \<Rightarrow>
        set to_mark = {stale_triple 7 (e_id e) r | e r. e \<in> set demo_graph \<and>
          verdict_of ''ref'' (parent_counts demo_graph) ''file_deleted'' (Some (\<lambda>p. p \<noteq> ''gone.go'')) (e_triples e) = Mark r}
        \<and> set to_clear = {e_id e | e. e \<in> set demo_graph \<and>
          verdict_of ''ref'' (parent_counts demo_graph) ''file_deleted'' (Some (\<lambda>p. p \<noteq> ''gone.go'')) (e_triples e) = Clear}
        \<and> paths = (case Some (\<lambda>p. p \<noteq> ''gone.go'') of None \<Rightarrow> 0 | Some _ \<Rightarrow> length (group_by_path demo_graph)))"
  by (rule decide_follows_verdicts [OF go_visit_rev])

text \<open>C11: A marker is only taken away on evidence: a cleared entity has a path that is live, is not
  marked as belonging to a removed source, and if it is a passage its parent's count is known
  and covers its index.\<close>

theorem clear_needs_evidence:
  assumes "go_visit visit"
    and "decide_lifecycle_actions visit ref now es reason stat = ((to_mark, to_clear), paths)"
    and "eid \<in> set to_clear"
  shows "\<exists>e live p. e \<in> set es \<and> e_id e = eid \<and> stat = Some live \<and> path_of (e_triples e) = Some p \<and> live p
    \<and> is_marked_stale (e_triples e) \<and> \<not> is_source_removed (e_triples e)
    \<and> (case triple_int (e_triples e) doc_chunk_index of
          None \<Rightarrow> True
        | Some i \<Rightarrow> (case passage_parent_count ref (e_triples e) (parent_counts es) of
                       None \<Rightarrow> False | Some n \<Rightarrow> i < n))"
proof -
  have "to_clear = verdict_clears (verdict_of ref (parent_counts es) reason stat) (decided visit stat es)"
    using decide_eq [OF assms(1), of ref now es reason stat] assms(2) by simp
  with assms(3) obtain e where e: "e \<in> set (decided visit stat es)" "e_id e = eid"
    "verdict_of ref (parent_counts es) reason stat (e_triples e) = Clear"
    by (auto simp: set_verdict_clears)
  have "e \<in> set es" using e(1) decided_subset [OF assms(1)] by blast
  with e(2,3) show ?thesis
    by (intro exI [of _ e])
      (auto simp: verdict_of_def is_vanished_passage_def is_passage_def split: option.splits if_splits)
qed

theorem clear_needs_evidence_witness:
  "\<exists>e live p. e \<in> set demo_graph \<and> e_id e = ''o.p.s.go.file.back''
    \<and> Some (\<lambda>p. p \<noteq> ''gone.go'') = Some live \<and> path_of (e_triples e) = Some p \<and> live p
    \<and> is_marked_stale (e_triples e) \<and> \<not> is_source_removed (e_triples e)
    \<and> (case triple_int (e_triples e) doc_chunk_index of
          None \<Rightarrow> True
        | Some i \<Rightarrow> (case passage_parent_count ''ref'' (e_triples e) (parent_counts demo_graph) of
                       None \<Rightarrow> False | Some n \<Rightarrow> i < n))"
proof -
  let ?d = "decide_lifecycle_actions rev ''ref'' 7 demo_graph ''file_deleted'' (Some (\<lambda>p. p \<noteq> ''gone.go''))"
  have "''o.p.s.go.file.back'' \<in> set (snd (fst ?d))" by code_simp
  moreover have "?d = ((fst (fst ?d), snd (fst ?d)), snd ?d)" by simp
  ultimately show ?thesis by (rule clear_needs_evidence [OF go_visit_rev, rotated])
qed

end
