(* ===== verification/PrefixQuery.thy ===== *)
theory PrefixQuery
  imports GraphModel
begin

text \<open>
  \<open>processor/supersession/prefixquery.go\<close> and \<open>request_gate.go\<close>: the paged enumeration behind
  every pass, and the gate that serializes passes. The responder is a function of the request
  number, the boundary and the cursor, so it may answer the same request differently each time;
  the framework's identifier check is \<open>valid_id\<close>. As the responder can page for ever, the loop is a
  partial function, and returning is \<open>Some\<close>.
\<close>

section \<open>Pages\<close>

datatype page_reply =
    TooLarge | Unavailable | BadEnvelope | LacksEntities | BadPage | Page "entity list" string

datatype query_error =
    ErrTooLarge | ErrRequest | ErrDecodeEnvelope | ErrLacksEntities | ErrDecodePage
  | ErrInvalidEntity | ErrOutOfScope string | ErrRepeated string | ErrCyclicCursor

text \<open>The entities, whether the cap cut them off, and the error: Go returns all three.\<close>

type_synonym query_result = "entity list \<times> bool \<times> query_error option"

definition id_in_scope :: "string \<Rightarrow> string \<Rightarrow> bool" where
  "id_in_scope boundary eid \<longleftrightarrow>
     boundary = [] \<or> eid = boundary \<or> has_prefix eid (boundary @ ''.'')"

fun admit_entities ::
  "(string \<Rightarrow> bool) \<Rightarrow> string \<Rightarrow> entity list \<Rightarrow> string set \<Rightarrow> entity list \<Rightarrow>
   (query_error option \<times> string set \<times> entity list)" where
  "admit_entities valid_id boundary [] ids out = (None, ids, out)"
| "admit_entities valid_id boundary (e # es) ids out =
     (if \<not> valid_id (e_id e) then (Some ErrInvalidEntity, ids, out)
      else if boundary \<noteq> [] \<and> e_id e \<noteq> boundary \<and> \<not> has_prefix (e_id e) (boundary @ ''.'')
        then (Some (ErrOutOfScope (e_id e)), ids, out)
      else if e_id e \<in> ids then (Some (ErrRepeated (e_id e)), ids, out)
      else admit_entities valid_id boundary es (insert (e_id e) ids) (out @ [e]))"

record query_state =
  q_cursor :: string
  q_seen :: "string set"
  q_ids :: "string set"
  q_out :: "entity list"

datatype query_step_result = Stop query_result | Next query_state

definition query_step ::
  "(string \<Rightarrow> bool) \<Rightarrow> string \<Rightarrow> int \<Rightarrow> page_reply \<Rightarrow> query_state \<Rightarrow> query_step_result" where
  "query_step valid_id boundary max_entities reply st =
     (case reply of
        TooLarge \<Rightarrow> Stop (q_out st, False, Some ErrTooLarge)
      | Unavailable \<Rightarrow> Stop (q_out st, False, Some ErrRequest)
      | BadEnvelope \<Rightarrow> Stop (q_out st, False, Some ErrDecodeEnvelope)
      | LacksEntities \<Rightarrow> Stop (q_out st, False, Some ErrLacksEntities)
      | BadPage \<Rightarrow> Stop (q_out st, False, Some ErrDecodePage)
      | Page es next_cursor \<Rightarrow>
          (case admit_entities valid_id boundary es (q_ids st) (q_out st) of
             (Some err, ids, out) \<Rightarrow> Stop (out, False, Some err)
           | (None, ids, out) \<Rightarrow>
               if max_entities > 0 \<and> int (length out) \<ge> max_entities then
                 Stop (take (nat max_entities) out,
                       int (length out) > max_entities \<or> next_cursor \<noteq> [], None)
               else if next_cursor = [] then Stop (out, False, None)
               else if next_cursor \<in> q_seen st then Stop (out, False, Some ErrCyclicCursor)
               else Next \<lparr>q_cursor = next_cursor, q_seen = insert next_cursor (q_seen st),
                          q_ids = ids, q_out = out\<rparr>))"

partial_function (option) query_loop ::
  "(nat \<Rightarrow> string \<Rightarrow> string \<Rightarrow> page_reply) \<Rightarrow> (string \<Rightarrow> bool) \<Rightarrow> string \<Rightarrow> int \<Rightarrow> nat \<Rightarrow>
   query_state \<Rightarrow> query_result option" where
  "query_loop srv valid_id boundary max_entities n st =
     (case query_step valid_id boundary max_entities (srv n boundary (q_cursor st)) st of
        Stop r \<Rightarrow> Some r
      | Next st' \<Rightarrow> query_loop srv valid_id boundary max_entities (Suc n) st')"

definition query_prefix_all ::
  "(nat \<Rightarrow> string \<Rightarrow> string \<Rightarrow> page_reply) \<Rightarrow> (string \<Rightarrow> bool) \<Rightarrow> string \<Rightarrow> int \<Rightarrow> query_result option" where
  "query_prefix_all srv valid_id prefix max_entities =
     query_loop srv valid_id (trim_suffix prefix ''.'') max_entities 0
       \<lparr>q_cursor = [], q_seen = {[]}, q_ids = {}, q_out = []\<rparr>"

section \<open>What an enumeration returns\<close>

definition admitted :: "(string \<Rightarrow> bool) \<Rightarrow> string \<Rightarrow> entity list \<Rightarrow> bool" where
  "admitted valid_id boundary es \<longleftrightarrow>
     distinct (map e_id es) \<and> list_all (\<lambda>e. valid_id (e_id e) \<and> id_in_scope boundary (e_id e)) es"

lemma admit_entities_ok:
  assumes "admit_entities valid_id boundary es ids out = (err, ids', out')"
    and "ids = e_id ` set out" and "admitted valid_id boundary out"
  shows "ids' = e_id ` set out'" "admitted valid_id boundary out'" "err = None \<Longrightarrow> out' = out @ es"
  using assms
proof (induction es arbitrary: ids out)
  case (Cons e es)
  {
    case 1 then show ?case using Cons.IH(1) [of "insert (e_id e) ids" "out @ [e]"]
      by (auto simp: admitted_def id_in_scope_def split: if_splits)
  next
    case 2 then show ?case using Cons.IH(2) [of "insert (e_id e) ids" "out @ [e]"]
      by (auto simp: admitted_def id_in_scope_def split: if_splits)
  next
    case 3 then show ?case using Cons.IH(3) [of "insert (e_id e) ids" "out @ [e]"]
      by (auto simp: admitted_def id_in_scope_def split: if_splits)
  }
qed auto

definition query_inv :: "(string \<Rightarrow> bool) \<Rightarrow> string \<Rightarrow> query_state \<Rightarrow> bool" where
  "query_inv valid_id boundary st \<longleftrightarrow>
     q_ids st = e_id ` set (q_out st) \<and> admitted valid_id boundary (q_out st)"

lemma admitted_take: "admitted valid_id boundary es \<Longrightarrow> admitted valid_id boundary (take n es)"
  by (auto simp: admitted_def list_all_iff take_map [symmetric] dest: in_set_takeD)

lemma query_step_inv:
  assumes "query_inv valid_id boundary st"
  shows "query_step valid_id boundary m reply st = Next st' \<Longrightarrow> query_inv valid_id boundary st'"
    and "query_step valid_id boundary m reply st = Stop (out, tr, err) \<Longrightarrow>
      admitted valid_id boundary out \<and> (err = None \<longrightarrow> m > 0 \<longrightarrow> int (length out) \<le> m)"
proof -
  have q: "q_ids st = e_id ` set (q_out st)" "admitted valid_id boundary (q_out st)"
    using assms by (auto simp: query_inv_def)
  {
    assume n: "query_step valid_id boundary m reply st = Next st'"
    then obtain es c ids out where p: "reply = Page es c"
      "admit_entities valid_id boundary es (q_ids st) (q_out st) = (None, ids, out)"
      "st' = \<lparr>q_cursor = c, q_seen = insert c (q_seen st), q_ids = ids, q_out = out\<rparr>"
      by (auto simp: query_step_def split: page_reply.splits prod.splits option.splits if_splits)
    from admit_entities_ok(1,2) [OF p(2) q] p(3) show "query_inv valid_id boundary st'"
      by (simp add: query_inv_def)
  }
  {
    assume s: "query_step valid_id boundary m reply st = Stop (out, tr, err)"
    show "admitted valid_id boundary out \<and> (err = None \<longrightarrow> m > 0 \<longrightarrow> int (length out) \<le> m)"
    proof (cases reply)
      case (Page es c)
      obtain e ids out1 where p: "admit_entities valid_id boundary es (q_ids st) (q_out st) = (e, ids, out1)"
        by (cases "admit_entities valid_id boundary es (q_ids st) (q_out st)") auto
      from admit_entities_ok(2) [OF p q] s show ?thesis
        by (auto simp: query_step_def Page p admitted_take split: option.splits if_splits)
    qed (use s q(2) in \<open>auto simp: query_step_def\<close>)
  }
qed

lemma query_loop_induct_Some:
  assumes "query_loop srv valid_id boundary m n st = Some r"
    and "\<And>n st r. query_step valid_id boundary m (srv n boundary (q_cursor st)) st = Stop r \<Longrightarrow> P n st r"
    and "\<And>n st st' r. query_step valid_id boundary m (srv n boundary (q_cursor st)) st = Next st' \<Longrightarrow>
           P (Suc n) st' r \<Longrightarrow> P n st r"
  shows "P n st r"
proof (rule query_loop.raw_induct [OF _ assms(1), where P = "\<lambda>srv' valid' b' m' n st r.
    srv' = srv \<and> valid' = valid_id \<and> b' = boundary \<and> m' = m \<longrightarrow> P n st r", simplified, rule_format])
  fix loop srv' valid' b' m' n st r
  assume ih: "\<And>srv' valid' b' m' n st r. loop srv' valid' b' m' n st = Some r \<Longrightarrow>
      srv' = srv \<and> valid' = valid_id \<and> b' = boundary \<and> m' = m \<Longrightarrow> P n st r"
    and run: "(case query_step valid' b' m' (srv' n b' (q_cursor st)) st of Stop r \<Rightarrow> Some r
        | Next st' \<Rightarrow> loop srv' valid' b' m' (Suc n) st') = Some r"
    and eq: "srv' = srv \<and> valid' = valid_id \<and> b' = boundary \<and> m' = m"
  show "P n st r"
  proof (cases "query_step valid_id boundary m (srv n boundary (q_cursor st)) st")
    case (Stop r')
    with run eq assms(2) show ?thesis by simp
  next
    case (Next st')
    with run eq ih assms(3) show ?thesis by simp
  qed
qed

text \<open>Whatever the responder sends, an enumeration that returns holds only valid identifiers
  inside the prefix, each once; without an error it keeps to the cap.\<close>

theorem enumeration_sound:
  assumes "query_prefix_all srv valid_id prefix m = Some (out, tr, err)"
  shows "distinct (map e_id out)
    \<and> list_all (\<lambda>e. valid_id (e_id e) \<and> id_in_scope (trim_suffix prefix ''.'') (e_id e)) out
    \<and> (err = None \<longrightarrow> m > 0 \<longrightarrow> int (length out) \<le> m)"
proof -
  have loop: "query_inv valid_id (trim_suffix prefix ''.'') st \<longrightarrow>
      admitted valid_id (trim_suffix prefix ''.'') (fst r)
      \<and> (snd (snd r) = None \<longrightarrow> m > 0 \<longrightarrow> int (length (fst r)) \<le> m)"
    if "query_loop srv valid_id (trim_suffix prefix ''.'') m n st = Some r" for n st r
    using that
  proof (rule query_loop_induct_Some)
    fix n st r
    assume s: "query_step valid_id (trim_suffix prefix ''.'') m (srv n (trim_suffix prefix ''.'') (q_cursor st)) st = Stop r"
    obtain out tr err where "r = (out, tr, err)" by (cases r) auto
    with query_step_inv(2) s show "query_inv valid_id (trim_suffix prefix ''.'') st \<longrightarrow>
        admitted valid_id (trim_suffix prefix ''.'') (fst r)
        \<and> (snd (snd r) = None \<longrightarrow> m > 0 \<longrightarrow> int (length (fst r)) \<le> m)" by fastforce
  next
    fix n st st' r
    assume "query_step valid_id (trim_suffix prefix ''.'') m (srv n (trim_suffix prefix ''.'') (q_cursor st)) st = Next st'"
      and "query_inv valid_id (trim_suffix prefix ''.'') st' \<longrightarrow>
        admitted valid_id (trim_suffix prefix ''.'') (fst r)
        \<and> (snd (snd r) = None \<longrightarrow> m > 0 \<longrightarrow> int (length (fst r)) \<le> m)"
    then show "query_inv valid_id (trim_suffix prefix ''.'') st \<longrightarrow>
        admitted valid_id (trim_suffix prefix ''.'') (fst r)
        \<and> (snd (snd r) = None \<longrightarrow> m > 0 \<longrightarrow> int (length (fst r)) \<le> m)"
      using query_step_inv(1) by blast
  qed
  have "query_inv valid_id (trim_suffix prefix ''.'') \<lparr>q_cursor = [], q_seen = {[]}, q_ids = {}, q_out = []\<rparr>"
    by (simp add: query_inv_def admitted_def)
  with loop assms show ?thesis unfolding query_prefix_all_def by (auto simp: admitted_def)
qed

text \<open>The pages an enumeration has asked for, as long as the responder names a next cursor.\<close>

inductive pages_to_end ::
  "(nat \<Rightarrow> string \<Rightarrow> string \<Rightarrow> page_reply) \<Rightarrow> string \<Rightarrow> nat \<Rightarrow> string \<Rightarrow> entity list \<Rightarrow> bool" for srv boundary where
  last_page: "srv n boundary c = Page es [] \<Longrightarrow> pages_to_end srv boundary n c es"
| more_pages: "srv n boundary c = Page es c' \<Longrightarrow> c' \<noteq> [] \<Longrightarrow>
    pages_to_end srv boundary (Suc n) c' rest \<Longrightarrow> pages_to_end srv boundary n c (es @ rest)"

text \<open>C9: An enumeration that returns without an error and without reporting truncation is complete:
  it is the concatenation of all pages from the first to the one without a next cursor.\<close>

theorem enumeration_complete:
  assumes "query_prefix_all srv valid_id prefix m = Some (out, False, None)"
  shows "pages_to_end srv (trim_suffix prefix ''.'') 0 [] out"
proof -
  let ?b = "trim_suffix prefix ''.''"
  have loop: "query_inv valid_id ?b st \<and> r = (out, False, None) \<longrightarrow>
      (\<exists>rest. out = q_out st @ rest \<and> pages_to_end srv ?b n (q_cursor st) rest)"
    if "query_loop srv valid_id ?b m n st = Some r" for n st r
    using that
  proof (rule query_loop_induct_Some)
    fix n st r
    assume s: "query_step valid_id ?b m (srv n ?b (q_cursor st)) st = Stop r"
    show "query_inv valid_id ?b st \<and> r = (out, False, None) \<longrightarrow>
      (\<exists>rest. out = q_out st @ rest \<and> pages_to_end srv ?b n (q_cursor st) rest)"
    proof
      assume r: "query_inv valid_id ?b st \<and> r = (out, False, None)"
      then obtain es ids out1 where p: "srv n ?b (q_cursor st) = Page es []"
        "admit_entities valid_id ?b es (q_ids st) (q_out st) = (None, ids, out1)" "out = out1"
        using s by (auto simp: query_step_def split: page_reply.splits prod.splits option.splits if_splits)
      have "out1 = q_out st @ es"
        using admit_entities_ok(3) [OF p(2)] r by (simp add: query_inv_def)
      with p show "\<exists>rest. out = q_out st @ rest \<and> pages_to_end srv ?b n (q_cursor st) rest"
        using last_page by fastforce
    qed
  next
    fix n st st' r
    assume s: "query_step valid_id ?b m (srv n ?b (q_cursor st)) st = Next st'"
      and ih: "query_inv valid_id ?b st' \<and> r = (out, False, None) \<longrightarrow>
        (\<exists>rest. out = q_out st' @ rest \<and> pages_to_end srv ?b (Suc n) (q_cursor st') rest)"
    show "query_inv valid_id ?b st \<and> r = (out, False, None) \<longrightarrow>
      (\<exists>rest. out = q_out st @ rest \<and> pages_to_end srv ?b n (q_cursor st) rest)"
    proof
      assume r: "query_inv valid_id ?b st \<and> r = (out, False, None)"
      obtain es c ids out1 where p: "srv n ?b (q_cursor st) = Page es c" "c \<noteq> []"
        "admit_entities valid_id ?b es (q_ids st) (q_out st) = (None, ids, out1)"
        "st' = \<lparr>q_cursor = c, q_seen = insert c (q_seen st), q_ids = ids, q_out = out1\<rparr>"
        using s by (auto simp: query_step_def split: page_reply.splits prod.splits option.splits if_splits)
      have "out1 = q_out st @ es"
        using admit_entities_ok(3) [OF p(3)] r by (simp add: query_inv_def)
      moreover obtain rest where rest: "out = q_out st' @ rest"
        "pages_to_end srv ?b (Suc n) (q_cursor st') rest"
        using ih query_step_inv(1) [OF _ s] r by blast
      have "pages_to_end srv ?b n (q_cursor st) (es @ rest)"
        by (rule more_pages [where c' = c]) (use p rest(2) in simp_all)
      ultimately show "\<exists>rest. out = q_out st @ rest \<and> pages_to_end srv ?b n (q_cursor st) rest"
        using p(4) rest(1) by auto
    qed
  qed
  have "query_inv valid_id ?b \<lparr>q_cursor = [], q_seen = {[]}, q_ids = {}, q_out = []\<rparr>"
    by (simp add: query_inv_def admitted_def)
  with loop assms show ?thesis unfolding query_prefix_all_def by fastforce
qed

text \<open>The enumeration returns whenever the responder draws its cursors from a finite set: every
  round uses up a cursor it has not seen, and a repeated one is refused.\<close>

theorem enumeration_returns:
  assumes "finite C" and "\<And>n b c es c'. srv n b c = Page es c' \<Longrightarrow> c' \<in> C"
  shows "\<exists>r. query_prefix_all srv valid_id prefix m = Some r"
proof -
  have "\<exists>r. query_loop srv valid_id b m n st = Some r" for b n st
  proof (induction "card (C - q_seen st)" arbitrary: n st rule: less_induct)
    case less
    show ?case
    proof (cases "query_step valid_id b m (srv n b (q_cursor st)) st")
      case (Stop r)
      then show ?thesis by (cases r) (subst query_loop.simps, simp)
    next
      case (Next st')
      then obtain es c where p: "srv n b (q_cursor st) = Page es c" "c \<notin> q_seen st"
        "q_seen st' = insert c (q_seen st)"
        by (auto simp: query_step_def split: page_reply.splits prod.splits option.splits if_splits)
      have "C - q_seen st' \<subset> C - q_seen st" using assms(2) [OF p(1)] p(2,3) by auto
      then have "card (C - q_seen st') < card (C - q_seen st)"
        using assms(1) by (intro psubset_card_mono) auto
      from less [OF this, of "Suc n"] Next show ?thesis by (subst query_loop.simps) simp
    qed
  qed
  then show ?thesis unfolding query_prefix_all_def by blast
qed

text \<open>A responder with two pages.\<close>

definition demo_pages :: "nat \<Rightarrow> string \<Rightarrow> string \<Rightarrow> page_reply" where
  "demo_pages n b c =
     (if c = [] then Page [\<lparr>e_id = ''o.p.a'', e_triples = [], e_updated = 0\<rparr>] ''k1''
      else Page [\<lparr>e_id = ''o.p.b'', e_triples = [], e_updated = 0\<rparr>] [])"

lemma demo_run:
  "query_prefix_all demo_pages (\<lambda>_. True) ''o.p.'' 10
   = Some ([\<lparr>e_id = ''o.p.a'', e_triples = [], e_updated = 0\<rparr>, \<lparr>e_id = ''o.p.b'', e_triples = [], e_updated = 0\<rparr>],
           False, None)"
  by (simp add: query_prefix_all_def query_loop.simps query_step_def demo_pages_def trim_suffix_def
      has_suffix_def has_prefix_def)

theorem enumeration_sound_witness:
  "distinct (map e_id [\<lparr>e_id = ''o.p.a'', e_triples = [], e_updated = 0\<rparr>, \<lparr>e_id = ''o.p.b'', e_triples = [], e_updated = 0\<rparr>])"
  using enumeration_sound [OF demo_run] by blast

theorem enumeration_complete_witness:
  "pages_to_end demo_pages ''o.p'' 0 []
     [\<lparr>e_id = ''o.p.a'', e_triples = [], e_updated = 0\<rparr>, \<lparr>e_id = ''o.p.b'', e_triples = [], e_updated = 0\<rparr>]"
  using enumeration_complete [OF demo_run] by (simp add: trim_suffix_def has_suffix_def)

theorem enumeration_returns_witness:
  "\<exists>r. query_prefix_all demo_pages (\<lambda>_. True) ''o.p.'' 10 = Some r"
proof (rule enumeration_returns [of "{''k1'', []}"])
  show "c' \<in> {''k1'', []}" if "demo_pages n b c = Page es c'" for n b c es c'
    using that by (auto simp: demo_pages_def split: if_splits)
qed simp

section \<open>The request gate\<close>

text \<open>
  \<open>request_gate.go\<close> as a step relation over any number of goroutines. The gate is a channel of
  capacity one with a token in it; \<open>sync.Once\<close> fills it on the first \<open>acquire\<close>. A goroutine
  checks its context, waits on the context or the token, checks the context once more, and then
  runs until it calls its release function, whose own \<open>sync.Once\<close> makes later calls do nothing.
\<close>

datatype gate_pc = Idle | Waiting | GotToken | Running | Done | Refused

record 'p gate =
  gt_filled :: bool
  gt_tokens :: nat
  gt_pc :: "'p \<Rightarrow> gate_pc"
  gt_cancelled :: "'p \<Rightarrow> bool"

definition gate_start :: "'p gate" where
  "gate_start = \<lparr>gt_filled = False, gt_tokens = 0, gt_pc = (\<lambda>_. Idle), gt_cancelled = (\<lambda>_. False)\<rparr>"

definition set_pc :: "'p \<Rightarrow> gate_pc \<Rightarrow> 'p gate \<Rightarrow> 'p gate" where
  "set_pc p c g = g\<lparr>gt_pc := (gt_pc g)(p := c)\<rparr>"

definition fill_gate :: "'p gate \<Rightarrow> 'p gate" where
  "fill_gate g = (if gt_filled g then g else g\<lparr>gt_filled := True, gt_tokens := gt_tokens g + 1\<rparr>)"

inductive gate_step :: "'p gate \<Rightarrow> 'p gate \<Rightarrow> bool" where
  cancel: "gate_step g (g\<lparr>gt_cancelled := (gt_cancelled g)(p := True)\<rparr>)"
| enter: "gt_pc g p = Idle \<Longrightarrow> \<not> gt_cancelled g p \<Longrightarrow> gate_step g (set_pc p Waiting (fill_gate g))"
| enter_refused: "gt_pc g p = Idle \<Longrightarrow> gt_cancelled g p \<Longrightarrow> gate_step g (set_pc p Refused (fill_gate g))"
| wait_refused: "gt_pc g p = Waiting \<Longrightarrow> gt_cancelled g p \<Longrightarrow> gate_step g (set_pc p Refused g)"
| take_token: "gt_pc g p = Waiting \<Longrightarrow> 0 < gt_tokens g \<Longrightarrow>
    gate_step g (set_pc p GotToken (g\<lparr>gt_tokens := gt_tokens g - 1\<rparr>))"
| put_back: "gt_pc g p = GotToken \<Longrightarrow> gt_cancelled g p \<Longrightarrow> gt_tokens g < 1 \<Longrightarrow>
    gate_step g (set_pc p Refused (g\<lparr>gt_tokens := gt_tokens g + 1\<rparr>))"
| admitted_run: "gt_pc g p = GotToken \<Longrightarrow> \<not> gt_cancelled g p \<Longrightarrow> gate_step g (set_pc p Running g)"
| release: "gt_pc g p = Running \<Longrightarrow> gt_tokens g < 1 \<Longrightarrow>
    gate_step g (set_pc p Done (g\<lparr>gt_tokens := gt_tokens g + 1\<rparr>))"
| release_again: "gt_pc g p = Done \<Longrightarrow> gate_step g g"

inductive gate_reachable :: "'p gate \<Rightarrow> bool" where
  start: "gate_reachable gate_start"
| step: "gate_reachable g \<Longrightarrow> gate_step g g' \<Longrightarrow> gate_reachable g'"

definition holds_token :: "'p gate \<Rightarrow> 'p \<Rightarrow> bool" where
  "holds_token g p \<longleftrightarrow> gt_pc g p = GotToken \<or> gt_pc g p = Running"

definition gate_inv :: "'p gate \<Rightarrow> bool" where
  "gate_inv g \<longleftrightarrow>
     (\<forall>p q. holds_token g p \<longrightarrow> holds_token g q \<longrightarrow> p = q)
     \<and> gt_tokens g = (if gt_filled g \<and> (\<forall>p. \<not> holds_token g p) then 1 else 0)
     \<and> (\<forall>p. gt_pc g p \<noteq> Idle \<longrightarrow> gt_filled g)"

lemma holds_set_pc:
  "holds_token (set_pc p c g) q \<longleftrightarrow> (if q = p then c = GotToken \<or> c = Running else holds_token g q)"
  by (simp add: holds_token_def set_pc_def)

lemma gate_inv_same_holders:
  assumes "gate_inv g" and "holds_token g' = holds_token g"
    and "gt_tokens g' = (if gt_filled g' \<and> (\<forall>p. \<not> holds_token g p) then 1 else 0)"
    and "\<forall>p. gt_pc g' p \<noteq> Idle \<longrightarrow> gt_filled g'"
  shows "gate_inv g'"
  using assms by (simp add: gate_inv_def)

lemma gate_inv_unfilled: "gate_inv g \<Longrightarrow> \<not> gt_filled g \<Longrightarrow> \<not> holds_token g p \<and> gt_tokens g = 0"
  by (auto simp: gate_inv_def holds_token_def)

lemma gate_inv_enter:
  assumes "gate_inv g" and "gt_pc g p = Idle" and "c = Waiting \<or> c = Refused"
  shows "gate_inv (set_pc p c (fill_gate g))"
proof (rule gate_inv_same_holders [OF assms(1)])
  show h: "holds_token (set_pc p c (fill_gate g)) = holds_token g"
    using assms(2,3) by (auto simp: fun_eq_iff holds_token_def set_pc_def fill_gate_def)
  show "gt_tokens (set_pc p c (fill_gate g))
      = (if gt_filled (set_pc p c (fill_gate g)) \<and> (\<forall>p. \<not> holds_token g p) then 1 else 0)"
  proof (cases "gt_filled g")
    case True
    have "gt_tokens g = (if gt_filled g \<and> (\<forall>p. \<not> holds_token g p) then 1 else 0)"
      using assms(1) unfolding gate_inv_def by blast
    with True show ?thesis by (simp add: set_pc_def fill_gate_def)
  next
    case False
    then have "\<forall>q. \<not> holds_token g q" "gt_tokens g = 0"
      using gate_inv_unfilled [OF assms(1)] by blast+
    then show ?thesis using False by (simp only: set_pc_def fill_gate_def gate.simps if_False) simp
  qed
  show "\<forall>q. gt_pc (set_pc p c (fill_gate g)) q \<noteq> Idle \<longrightarrow> gt_filled (set_pc p c (fill_gate g))"
    by (simp add: set_pc_def fill_gate_def)
qed

lemma gate_inv_leave:
  assumes "gate_inv g" and "holds_token g p" and "c = Done \<or> c = Refused"
  shows "gate_inv (set_pc p c (g\<lparr>gt_tokens := gt_tokens g + 1\<rparr>))"
proof -
  have only: "holds_token g q \<longleftrightarrow> q = p" for q
    using assms(1,2) by (auto simp: gate_inv_def)
  have "\<not> holds_token (set_pc p c (g\<lparr>gt_tokens := gt_tokens g + 1\<rparr>)) q" for q
  proof (cases "q = p")
    case True
    with assms(3) show ?thesis by (auto simp: holds_token_def set_pc_def)
  next
    case False
    then have "\<not> holds_token g q" by (simp add: only)
    with False show ?thesis by (simp add: holds_token_def set_pc_def)
  qed
  moreover have "gt_filled g" "gt_tokens g = 0"
    using assms(1,2) by (auto simp: gate_inv_def holds_token_def split: if_splits)
  ultimately show ?thesis
    unfolding gate_inv_def by (simp add: set_pc_def)
qed

lemma gate_inv_step:
  assumes "gate_step g g'" and "gate_inv g"
  shows "gate_inv g'"
  using assms
proof (cases rule: gate_step.cases)
  case (cancel p)
  show ?thesis unfolding cancel
    by (rule gate_inv_same_holders [OF assms(2)])
      (use assms(2) in \<open>auto simp: fun_eq_iff holds_token_def gate_inv_def\<close>)
next
  case (enter p)
  with gate_inv_enter [OF assms(2)] show ?thesis by simp
next
  case (enter_refused p)
  with gate_inv_enter [OF assms(2)] show ?thesis by simp
next
  case (wait_refused p)
  show ?thesis unfolding wait_refused(1)
    by (rule gate_inv_same_holders [OF assms(2)])
      (use assms(2) wait_refused in \<open>auto simp: fun_eq_iff holds_token_def gate_inv_def set_pc_def\<close>)
next
  case (take_token p)
  with assms(2) have f: "gt_filled g" "\<And>q. \<not> holds_token g q" "gt_tokens g = 1"
    by (auto simp: gate_inv_def split: if_splits)
  have "holds_token g' q \<longleftrightarrow> q = p" for q
    using f(2) [of q] unfolding take_token(1) by (simp add: holds_token_def set_pc_def)
  with f show ?thesis
    by (simp add: gate_inv_def) (simp add: take_token(1) set_pc_def)
next
  case (put_back p)
  with gate_inv_leave [OF assms(2), of p Refused] show ?thesis by (simp add: holds_token_def)
next
  case (admitted_run p)
  have f: "gt_filled g" "gt_tokens g = 0" "holds_token g p"
    using assms(2) admitted_run(2) by (auto simp: gate_inv_def holds_token_def split: if_splits)
  have "holds_token g' = holds_token g"
    using f(3) unfolding admitted_run(1) by (simp add: fun_eq_iff holds_set_pc)
  then show ?thesis
  proof (rule gate_inv_same_holders [OF assms(2)])
    show "gt_tokens g' = (if gt_filled g' \<and> (\<forall>p. \<not> holds_token g p) then 1 else 0)"
      using f(2,3) by (auto simp: admitted_run(1) set_pc_def)
    show "\<forall>q. gt_pc g' q \<noteq> Idle \<longrightarrow> gt_filled g'"
      using f(1) by (simp add: admitted_run(1) set_pc_def)
  qed
next
  case (release p)
  with gate_inv_leave [OF assms(2), of p Done] show ?thesis by (simp add: holds_token_def)
qed simp

text \<open>The gate admits one goroutine at a time, and giving the token back never blocks: in every
  reachable state at most one goroutine is between taking and returning the token, the channel
  then has room for it, and once the gate is in use with nobody inside, the token is there for
  the next.\<close>

theorem gate_mutual_exclusion:
  assumes "gate_reachable g"
  shows "(\<forall>p q. gt_pc g p = Running \<and> gt_pc g q = Running \<longrightarrow> p = q)
    \<and> (\<forall>p. holds_token g p \<longrightarrow> gt_tokens g < 1)
    \<and> (\<forall>p. gt_pc g p = Waiting \<and> (\<forall>q. \<not> holds_token g q) \<longrightarrow> gt_tokens g = 1)"
proof -
  have "gate_inv g"
    using assms
  proof (induction rule: gate_reachable.induct)
    case start
    show ?case by (simp add: gate_inv_def gate_start_def holds_token_def)
  next
    case (step g g')
    then show ?case by (blast intro: gate_inv_step)
  qed
  then show ?thesis by (auto simp: gate_inv_def holds_token_def)
qed

theorem gate_mutual_exclusion_witness:
  "gt_pc (set_pc (1 :: nat) Waiting (fill_gate gate_start)) 1 = Waiting
    \<and> gt_tokens (set_pc (1 :: nat) Waiting (fill_gate gate_start)) = 1"
proof -
  let ?g = "set_pc (1 :: nat) Waiting (fill_gate gate_start)"
  have "gate_step gate_start ?g"
    by (rule gate_step.enter) (simp_all add: gate_start_def)
  then have r: "gate_reachable ?g" by (rule gate_reachable.step [OF gate_reachable.start])
  have "gt_pc ?g 1 = Waiting" "\<forall>q. \<not> holds_token ?g q"
    by (auto simp: holds_token_def set_pc_def fill_gate_def gate_start_def)
  with gate_mutual_exclusion [OF r] show ?thesis by blast
qed

end
