(* ===== verification/Spans.thy ===== *)
theory Spans
  imports Prelude
begin

text \<open>
  Byte spans \<open>[start, end)\<close> of a text: when a list of them is in order, when it tiles an
  interval, and what that says of the text they cut. Shared by the lemmas on the document splitter.
\<close>

type_synonym span = "nat \<times> nat"

definition slice :: "'a list \<Rightarrow> span \<Rightarrow> 'a list" where
  "slice content sp = take (snd sp - fst sp) (drop (fst sp) content)"

text \<open>\<open>in_order a xs b\<close>: non-empty spans inside \<open>[a, b)\<close>, in order, without overlap.
  \<open>tiles a xs b\<close>: they also leave no gap.\<close>

fun in_order :: "nat \<Rightarrow> span list \<Rightarrow> nat \<Rightarrow> bool" where
  "in_order a [] b \<longleftrightarrow> a \<le> b"
| "in_order a ((s, e) # r) b \<longleftrightarrow> a \<le> s \<and> s < e \<and> in_order e r b"

fun tiles :: "nat \<Rightarrow> span list \<Rightarrow> nat \<Rightarrow> bool" where
  "tiles a [] b \<longleftrightarrow> a = b"
| "tiles a ((s, e) # r) b \<longleftrightarrow> s = a \<and> s < e \<and> tiles e r b"

lemma tiles_Cons: "tiles a (sp # r) b \<longleftrightarrow> fst sp = a \<and> fst sp < snd sp \<and> tiles (snd sp) r b"
  by (cases sp) simp

definition span_total :: "span list \<Rightarrow> nat" where
  "span_total xs = sum_list (map (\<lambda>(s, e). e - s) xs)"

lemma span_total_simps [simp]:
  "span_total [] = 0"
  "span_total ((s, e) # r) = (e - s) + span_total r"
  "span_total (xs @ ys) = span_total xs + span_total ys"
  by (simp_all add: span_total_def)

lemma tiles_in_order [tiling]: "tiles a xs b \<Longrightarrow> in_order a xs b"
  by (induction a xs b rule: tiles.induct) auto

lemma in_order_le: "in_order a xs b \<Longrightarrow> a + span_total xs \<le> b"
  by (induction a xs b rule: in_order.induct) auto

lemma in_order_bounds: "in_order a xs b \<Longrightarrow> a \<le> b"
  using in_order_le by fastforce

lemma tiles_bounds: "tiles a xs b \<Longrightarrow> a \<le> b"
  by (rule in_order_bounds [OF tiles_in_order])

lemma tiles_nonempty: "tiles a xs b \<Longrightarrow> a < b \<Longrightarrow> xs \<noteq> []"
  by auto

lemma tiles_iff_total: "in_order a xs b \<Longrightarrow> tiles a xs b \<longleftrightarrow> a + span_total xs = b"
proof (induction a xs b rule: in_order.induct)
  case (2 a s e r b)
  then show ?case using in_order_le [of e r b] by auto
qed simp

lemma in_order_append: "in_order a xs m \<Longrightarrow> in_order m ys b \<Longrightarrow> in_order a (xs @ ys) b"
proof (induction a xs m rule: in_order.induct)
  case (1 a m)
  then show ?case by (cases ys) auto
qed auto

lemma in_order_mono: "in_order a xs b \<Longrightarrow> a' \<le> a \<Longrightarrow> b \<le> b' \<Longrightarrow> in_order a' xs b'"
  by (induction a xs b arbitrary: a' rule: in_order.induct) auto

lemma tiles_append: "tiles a xs m \<Longrightarrow> tiles m ys b \<Longrightarrow> tiles a (xs @ ys) b"
  by (induction a xs m rule: tiles.induct) auto

lemma tiles_append_iff:
  assumes "in_order a xs m" "in_order m ys b"
  shows "tiles a (xs @ ys) b \<longleftrightarrow> tiles a xs m \<and> tiles m ys b"
  using assms tiles_iff_total [OF assms(1)] tiles_iff_total [OF assms(2)]
    tiles_iff_total [OF in_order_append [OF assms]] in_order_le [OF assms(1)] in_order_le [OF assms(2)]
  by auto

lemma tiles_snoc [simp]: "tiles a (xs @ [(s, e)]) b \<longleftrightarrow> tiles a xs s \<and> s < e \<and> e = b"
  by (induction xs arbitrary: a) auto

lemma in_order_snoc [simp]: "in_order a (xs @ [(s, e)]) b \<longleftrightarrow> in_order a xs s \<and> s < e \<and> e \<le> b"
  by (induction xs arbitrary: a) auto

lemma tiles_singleton [simp]: "tiles a [sp] b \<longleftrightarrow> fst sp = a \<and> snd sp = b \<and> a < b"
  by (cases sp) auto

lemma in_order_hd: "in_order a xs b \<Longrightarrow> xs \<noteq> [] \<Longrightarrow> a \<le> fst (hd xs)"
  by (cases xs) auto

lemma in_order_last: "in_order a xs b \<Longrightarrow> xs \<noteq> [] \<Longrightarrow> snd (last xs) \<le> b"
  by (induction a xs b rule: in_order.induct) (auto split: if_splits dest: in_order_bounds)

lemma in_order_exact:
  assumes "in_order a xs b" "xs \<noteq> []"
  shows "in_order (fst (hd xs)) xs (snd (last xs))"
proof -
  obtain ys s e where xs: "xs = ys @ [(s, e)]" using assms(2) by (cases xs rule: rev_cases) auto
  with assms(1) have "in_order a xs e" by simp
  then show ?thesis using xs by (cases ys) auto
qed

lemma in_order_mem: "in_order a xs b \<Longrightarrow> sp \<in> set xs \<Longrightarrow> a \<le> fst sp \<and> fst sp < snd sp \<and> snd sp \<le> b"
proof (induction a xs b rule: in_order.induct)
  case (2 a s e r b)
  then show ?case using in_order_bounds [of e r b] by force
qed simp

lemma in_order_filter: "in_order a xs b \<Longrightarrow> in_order a (filter P xs) b"
proof (induction a xs b rule: in_order.induct)
  case (2 a s e r b)
  then show ?case using in_order_mono [of e "filter P r" b a b] by auto
qed simp

lemma length_slice: "snd sp \<le> length content \<Longrightarrow> length (slice content sp) = snd sp - fst sp"
  by (simp add: slice_def)

lemma length_slices:
  assumes "in_order a xs b" "b \<le> length content"
  shows "length (concat (map (slice content) xs)) = span_total xs"
  using assms
proof (induction a xs b rule: in_order.induct)
  case (2 a s e r b)
  then show ?case using in_order_bounds [of e r b] by (simp add: length_slice)
qed simp

lemma slice_join: "a \<le> m \<Longrightarrow> m \<le> b \<Longrightarrow> slice content (a, m) @ slice content (m, b) = slice content (a, b)"
  using take_add [of "m - a" "b - m" "drop a content"] by (simp add: slice_def)

lemma slices_of_tiles: "tiles a xs b \<Longrightarrow> concat (map (slice content) xs) = slice content (a, b)"
proof (induction a xs b rule: tiles.induct)
  case (2 a s e r b)
  then show ?case using tiles_bounds [of e r b] slice_join [of a e b content] by simp
qed (simp add: slice_def)

text \<open>Spans in order reproduce the text exactly when they tile it.\<close>

lemma slices_content_iff:
  assumes "in_order 0 xs (length content)"
  shows "concat (map (slice content) xs) = content \<longleftrightarrow> tiles 0 xs (length content)"
proof
  assume "concat (map (slice content) xs) = content"
  then have "span_total xs = length content" using length_slices [OF assms, of content] by simp
  then show "tiles 0 xs (length content)" using tiles_iff_total [OF assms] by simp
qed (simp add: slices_of_tiles slice_def)

section \<open>Folds over a tiling\<close>

lemma foldl_guard: "(\<And>st x. \<not> P x \<Longrightarrow> f st x = st) \<Longrightarrow> foldl f st xs = foldl f st (filter P xs)"
  by (induction xs arbitrary: st) auto

text \<open>An invariant \<open>P state processed position\<close> carried along a tiling.\<close>

lemma foldl_tiles:
  assumes "tiles a (map key xs) b" "P st [] a"
    and "\<And>st ys x. P st ys (fst (key x)) \<Longrightarrow> fst (key x) < snd (key x) \<Longrightarrow> x \<in> set xs
           \<Longrightarrow> P (f st x) (ys @ [x]) (snd (key x))"
  shows "P (foldl f st xs) xs b"
  using assms
proof (induction xs arbitrary: b rule: rev_induct)
  case (snoc x xs)
  obtain s e where k: "key x = (s, e)" by (cases "key x")
  from snoc.prems(1) k have t: "tiles a (map key xs) s" "s < e" "e = b" by auto
  have "P (foldl f st xs) xs s" by (rule snoc.IH [OF t(1) snoc.prems(2)]) (auto intro: snoc.prems(3))
  then show ?case using snoc.prems(3) [of "foldl f st xs" xs x] k t by simp
qed simp

text \<open>The cut points of a tiling: between two of them, the elements inside tile.\<close>

definition cut_points :: "nat \<Rightarrow> span list \<Rightarrow> nat set" where
  "cut_points a xs = insert a (snd ` set xs)"

lemma tiles_between:
  assumes "tiles a (map key xs) b" "u \<in> cut_points a (map key xs)" "v \<in> cut_points a (map key xs)" "u \<le> v"
  shows "tiles u (map key (filter (\<lambda>x. \<not> (fst (key x) < u \<or> snd (key x) > v)) xs)) v"
  using assms
proof (induction xs arbitrary: a u)
  case Nil
  then show ?case by (simp add: cut_points_def)
next
  case (Cons x xs)
  obtain s e where k: "key x = (s, e)" by (cases "key x")
  with Cons.prems have t: "s = a" "a < e" "tiles e (map key xs) b" by auto
  have later: "e \<le> fst (key y) \<and> e < snd (key y)" if "y \<in> set xs" for y
    using in_order_mem [OF tiles_in_order [OF t(3)], of "key y"] that by auto
  have pts: "w = a \<or> w \<in> cut_points e (map key xs)" if "w \<in> cut_points a (map key (x # xs))" for w
    using that k by (auto simp: cut_points_def)
  have ge: "e \<le> w" if "w \<in> cut_points e (map key xs)" for w
    using that later by (fastforce simp: cut_points_def)
  show ?case
  proof (cases "u = a")
    case True
    show ?thesis
    proof (cases "v = a")
      case True
      have "filter (\<lambda>y. \<not> (fst (key y) < u \<or> snd (key y) > v)) xs = []"
        using later t True \<open>u = a\<close> by (force simp: filter_empty_conv)
      then show ?thesis using True \<open>u = a\<close> k t by simp
    next
      case False
      then have v: "v \<in> cut_points e (map key xs)" "e \<le> v" using pts [OF Cons.prems(3)] ge by auto
      have "tiles e (map key (filter (\<lambda>y. \<not> (fst (key y) < e \<or> snd (key y) > v)) xs)) v"
        by (rule Cons.IH [OF t(3) _ v]) (simp add: cut_points_def)
      moreover have "filter (\<lambda>y. \<not> (fst (key y) < e \<or> snd (key y) > v)) xs
          = filter (\<lambda>y. \<not> (fst (key y) < a \<or> snd (key y) > v)) xs"
        using later t by (intro filter_cong) force+
      ultimately show ?thesis using \<open>u = a\<close> k t v by simp
    qed
  next
    case False
    then have u: "u \<in> cut_points e (map key xs)" "e \<le> u" using pts [OF Cons.prems(2)] ge by auto
    then have v: "v \<in> cut_points e (map key xs)"
      using pts [OF Cons.prems(3)] Cons.prems(4) t by auto
    show ?thesis using Cons.IH [OF t(3) u(1) v Cons.prems(4)] u t k by simp
  qed
qed

lemma tiles_nth:
  "tiles a xs b \<Longrightarrow> i < length xs \<Longrightarrow> a \<le> fst (xs ! i) \<and> fst (xs ! i) < b \<and> fst (xs ! i) \<in> cut_points a xs"
proof (induction a xs b arbitrary: i rule: tiles.induct)
  case (2 a s e r b)
  show ?case
  proof (cases i)
    case 0
    then show ?thesis using 2 tiles_bounds [of e r b] by (auto simp: cut_points_def)
  next
    case (Suc k)
    then have "e \<le> fst (r ! k) \<and> fst (r ! k) < b \<and> fst (r ! k) \<in> cut_points e r" using 2 by simp
    moreover have "cut_points e r \<subseteq> cut_points a ((s, e) # r)" by (auto simp: cut_points_def)
    ultimately show ?thesis using 2(2) Suc by (auto intro: less_imp_le le_trans)
  qed
qed simp

lemma tiles_nth_less: "tiles a xs b \<Longrightarrow> i < j \<Longrightarrow> j < length xs \<Longrightarrow> fst (xs ! i) < fst (xs ! j)"
proof (induction a xs b arbitrary: i j rule: tiles.induct)
  case (2 a s e r b)
  obtain k where j: "j = Suc k" using 2 by (cases j) auto
  show ?case
  proof (cases i)
    case 0
    then show ?thesis using 2 j tiles_nth [of e r b k] by simp
  next
    case (Suc h)
    then show ?thesis using 2 j by simp
  qed
qed simp

end
