(* ===== verification/DocSplitter.thy ===== *)
theory DocSplitter
  imports GoStrings Spans
begin

text \<open>
  The document splitter (\<open>src/handler/doc/splitter.go\<close>): a document is cut into headed
  sections, small sections are merged, and every section is subdivided into byte spans by key/value
  groups, by fenced blocks, or by size. Offsets are \<open>nat\<close>: the code's differences are only
  compared from above with bounds that are not negative. The loop that cuts an over-long stretch at
  rune boundaries need not end, so the size path lives in the option type and \<open>None\<close> is a
  call that never returns. \<open>ut\<close> holds the tables of the package \<open>unicode\<close>.
\<close>

section \<open>Data\<close>

record passage_bounds =
  ceiling_b :: nat
  floor_b :: nat
  hard_max :: nat

definition default_bounds :: passage_bounds where
  "default_bounds = \<lparr> ceiling_b = 2000, floor_b = 400, hard_max = 6000 \<rparr>"

record passage =
  p_ordinal :: nat
  p_heading :: string
  p_path :: "string list"
  p_start :: nat
  p_end :: nat
  p_body :: string

record doc_line =
  l_start :: nat
  l_end :: nat
  l_text :: string
  l_protected :: bool

record doc_section =
  s_heading :: string
  s_path :: "string list"
  s_start :: nat
  s_end :: nat

record mark =
  m_line :: nat
  m_level :: nat
  m_heading :: string

datatype doc_format = FormatMarkdown | FormatASCIIDoc

definition heading_path :: "passage \<Rightarrow> string list" where
  "heading_path p =
     (if p_path p \<noteq> [] then p_path p
      else if p_heading p \<noteq> [] then [p_heading p]
      else [])"

section \<open>Lines\<close>

text \<open>The first loop of \<open>scanLines\<close>: the physical lines with their newline.\<close>

fun line_break :: "string \<Rightarrow> nat" where
  "line_break [] = 0"
| "line_break (c # s) = (if c = CHR 0x0A then 1 else Suc (line_break s))"

lemma line_break_pos: "s \<noteq> [] \<Longrightarrow> 0 < line_break s"
  by (cases s) auto

lemma line_break_le: "line_break s \<le> length s"
  by (induction s) auto

definition trim_eol :: "string \<Rightarrow> string" where
  "trim_eol s = trim_right_bytes (\<lambda>c. c = CHR 0x0D \<or> c = CHR 0x0A) s"

function raw_lines :: "nat \<Rightarrow> string \<Rightarrow> doc_line list" where
  "raw_lines off s =
     (if s = [] then []
      else \<lparr> l_start = off, l_end = off + line_break s, l_text = trim_eol (take (line_break s) s),
              l_protected = False \<rparr>
           # raw_lines (off + line_break s) (drop (line_break s) s))"
  by pat_completeness auto
termination
  by (relation "measure (\<lambda>(off, s). length s)") (auto simp: line_break_pos)

declare raw_lines.simps [simp del]

definition is_fence_delimiter :: "string \<Rightarrow> bool" where
  "is_fence_delimiter t \<longleftrightarrow> has_prefix t ''```'' \<or> has_prefix t ''~~~''"

text \<open>The second loop: \<open>i\<close> counts the lines, the flags are \<open>inFence\<close> and
  \<open>inFrontMatter\<close>.\<close>

fun protect_lines :: "nat \<Rightarrow> bool \<Rightarrow> bool \<Rightarrow> doc_line list \<Rightarrow> doc_line list" where
  "protect_lines i in_fence in_front [] = []"
| "protect_lines i in_fence in_front (ln # rest) =
     (let trimmed = trim_space (l_text ln)
      in if in_front then
           ln\<lparr>l_protected := True\<rparr>
           # protect_lines (Suc i) in_fence (\<not> (0 < i \<and> trimmed = ''---'')) rest
         else if is_fence_delimiter trimmed then
           ln\<lparr>l_protected := True\<rparr> # protect_lines (Suc i) (\<not> in_fence) in_front rest
         else ln\<lparr>l_protected := in_fence\<rparr> # protect_lines (Suc i) in_fence in_front rest)"

definition scan_lines :: "string \<Rightarrow> doc_line list" where
  "scan_lines content =
     (let lines = raw_lines 0 content
      in protect_lines 0 False
           (case lines of [] \<Rightarrow> False | ln # _ \<Rightarrow> trim_space (l_text ln) = ''---'') lines)"

section \<open>Headings\<close>

definition count_leading :: "char \<Rightarrow> string \<Rightarrow> nat" where
  "count_leading c t = length (takeWhile (\<lambda>x. x = c) t)"

definition adoc_heading :: "doc_line \<Rightarrow> (string \<times> nat) option" where
  "adoc_heading ln =
     (if l_protected ln then None
      else let t = trim_space (l_text ln); equals = count_leading CHR ''='' t; rest = drop equals t
           in if equals = 0 \<or> equals > 6 then None
              else if \<not> has_prefix rest '' '' then None
              else Some (trim_space rest, equals))"

definition atx_heading :: "doc_line \<Rightarrow> (string \<times> nat) option" where
  "atx_heading ln =
     (if l_protected ln then None
      else let t = trim_space (l_text ln); hashes = count_leading CHR ''#'' t; rest = drop hashes t
           in if hashes = 0 \<or> hashes > 6 then None
              else if rest \<noteq> [] \<and> \<not> has_prefix rest '' '' then None
              else Some (trim_space (trim_right_bytes (\<lambda>c. c = CHR ''#'') rest), hashes))"

definition setext_heading :: "doc_line \<Rightarrow> doc_line option \<Rightarrow> (string \<times> nat) option" where
  "setext_heading ln next_ln =
     (case next_ln of
        None \<Rightarrow> None
      | Some nx \<Rightarrow>
          if l_protected ln \<or> l_protected nx then None
          else let text = trim_space (l_text ln); uline = trim_space (l_text nx)
               in if text = [] \<or> has_prefix text ''#'' then None
                  else if hd text \<in> set ''-*+>|='' then None
                  else if length uline < 2 then None
                  else if hd uline \<noteq> CHR ''='' \<and> hd uline \<noteq> CHR ''-'' then None
                  else if trim_bytes (\<lambda>c. c = hd uline) uline \<noteq> [] then None
                  else Some (text, if hd uline = CHR ''-'' then 2 else 1))"

definition heading_at :: "doc_format \<Rightarrow> doc_line list \<Rightarrow> nat \<Rightarrow> (string \<times> nat) option" where
  "heading_at f lines i =
     (case f of
        FormatASCIIDoc \<Rightarrow> adoc_heading (lines ! i)
      | FormatMarkdown \<Rightarrow>
          (case atx_heading (lines ! i) of
             Some h \<Rightarrow> Some h
           | None \<Rightarrow> setext_heading (lines ! i)
                       (if Suc i < length lines then Some (lines ! Suc i) else None)))"

section \<open>Sections\<close>

definition marks_of :: "doc_format \<Rightarrow> doc_line list \<Rightarrow> mark list" where
  "marks_of f lines =
     List.map_filter
       (\<lambda>i. map_option (\<lambda>(text, level). \<lparr> m_line = i, m_level = level, m_heading = text \<rparr>)
              (heading_at f lines i))
       [0..<length lines]"

text \<open>\<open>pathOf\<close> with its captured stack \<open>ancestors\<close> passed explicitly, top last.\<close>

definition pop_marks :: "nat \<Rightarrow> mark list \<Rightarrow> mark list" where
  "pop_marks level anc = rev (dropWhile (\<lambda>a. level \<le> m_level a) (rev anc))"

definition path_of_mark :: "mark list \<Rightarrow> mark \<Rightarrow> string list \<times> mark list" where
  "path_of_mark anc m =
     (let anc' = pop_marks (m_level m) anc in (map m_heading anc' @ [m_heading m], anc' @ [m]))"

fun mark_sections :: "doc_line list \<Rightarrow> nat \<Rightarrow> mark list \<Rightarrow> mark list \<Rightarrow> doc_section list" where
  "mark_sections lines total_len anc [] = []"
| "mark_sections lines total_len anc (m # rest) =
     (let (path, anc') = path_of_mark anc m;
          e = (case rest of [] \<Rightarrow> total_len | m' # _ \<Rightarrow> l_start (lines ! m_line m'))
      in \<lparr> s_heading = m_heading m, s_path = path, s_start = l_start (lines ! m_line m), s_end = e \<rparr>
         # mark_sections lines total_len anc' rest)"

definition sections_of :: "doc_line list \<Rightarrow> nat \<Rightarrow> doc_format \<Rightarrow> doc_section list" where
  "sections_of lines total_len f =
     (case marks_of f lines of
        [] \<Rightarrow> [\<lparr> s_heading = [], s_path = [], s_start = 0, s_end = total_len \<rparr>]
      | m # rest \<Rightarrow>
          (if 0 < m_line m
           then [\<lparr> s_heading = [], s_path = [], s_start = 0, s_end = l_start (lines ! m_line m) \<rparr>]
           else [])
          @ mark_sections lines total_len [] (m # rest))"

text \<open>The loop of \<open>mergeSmallSections\<close> with \<open>prev\<close>, the last section of the output,
  apart.\<close>

fun merge_loop :: "passage_bounds \<Rightarrow> doc_section \<Rightarrow> doc_section list \<Rightarrow> doc_section list" where
  "merge_loop b prev [] = [prev]"
| "merge_loop b prev (s # rest) =
     (if s_end prev - s_start prev < floor_b b \<and> s_end s - s_start prev \<le> ceiling_b b
      then merge_loop b (prev\<lparr>s_end := s_end s\<rparr>) rest
      else prev # merge_loop b s rest)"

definition merge_small_sections :: "passage_bounds \<Rightarrow> doc_section list \<Rightarrow> doc_section list" where
  "merge_small_sections b ss = (case ss of [] \<Rightarrow> [] | s # rest \<Rightarrow> merge_loop b s rest)"

section \<open>Blocks\<close>

definition in_span :: "span \<Rightarrow> doc_line \<Rightarrow> bool" where
  "in_span sp ln \<longleftrightarrow> \<not> (l_start ln < fst sp \<or> l_end ln > snd sp)"

definition set_end :: "nat \<Rightarrow> span list \<Rightarrow> span list" where
  "set_end e xs = (if xs = [] then [] else butlast xs @ [(fst (last xs), e)])"

definition set_start :: "nat \<Rightarrow> span list \<Rightarrow> span list" where
  "set_start a xs = (case xs of [] \<Rightarrow> [] | (_, e) # r \<Rightarrow> (a, e) # r)"

definition is_blank :: "doc_line \<Rightarrow> bool" where
  "is_blank ln \<longleftrightarrow> trim_space (l_text ln) = [] \<and> \<not> l_protected ln"

text \<open>The body of the loop of \<open>blocksOf\<close>; \<open>cur\<close> is \<open>None\<close> for the code's
  \<open>{-1, -1}\<close>.\<close>

definition block_step :: "span \<Rightarrow> span list \<times> span option \<Rightarrow> doc_line \<Rightarrow> span list \<times> span option" where
  "block_step s st ln =
     (if \<not> in_span s ln then st
      else if is_blank ln then
        (case snd st of
           Some c \<Rightarrow> (fst st @ [(fst c, l_end ln)], None)
         | None \<Rightarrow> (set_end (l_end ln) (fst st), None))
      else
        (case snd st of
           None \<Rightarrow> (fst st, Some (l_start ln, l_end ln))
         | Some c \<Rightarrow> (fst st, Some (fst c, l_end ln))))"

definition blocks_of :: "doc_line list \<Rightarrow> span \<Rightarrow> span list" where
  "blocks_of lines s =
     (let st = foldl (block_step s) ([], None) lines;
          out = (case snd st of Some c \<Rightarrow> fst st @ [c] | None \<Rightarrow> fst st)
      in if out = [] then [s] else set_end (snd s) (set_start (fst s) out))"

definition block_is_fenced :: "doc_line list \<Rightarrow> span \<Rightarrow> bool" where
  "block_is_fenced lines blk \<longleftrightarrow>
     list_ex (\<lambda>ln. l_start ln \<ge> fst blk \<and> l_end ln \<le> snd blk \<and> l_protected ln) lines"

section \<open>Cutting an oversized block\<close>

definition line_cut_step :: "span \<Rightarrow> passage_bounds \<Rightarrow> span list \<times> span \<Rightarrow> doc_line \<Rightarrow> span list \<times> span" where
  "line_cut_step blk b st ln =
     (if \<not> in_span blk ln then st
      else if snd (snd st) > fst (snd st) \<and> l_end ln - fst (snd st) > hard_max b
      then (fst st @ [snd st], (l_start ln, l_end ln))
      else (fst st, (fst (snd st), l_end ln)))"

definition cut_on_lines :: "doc_line list \<Rightarrow> span \<Rightarrow> passage_bounds \<Rightarrow> span list" where
  "cut_on_lines lines blk b =
     (let st = foldl (line_cut_step blk b) ([], (fst blk, fst blk)) lines
      in if snd (snd st) > fst (snd st) then fst st @ [snd st] else fst st)"

definition sentence_end_at :: "string \<Rightarrow> nat \<Rightarrow> nat \<Rightarrow> nat option" where
  "sentence_end_at content stop i =
     (if content ! i \<in> set ''.!?'' then
        let j = (if i + 1 < stop \<and> content ! (i + 1) \<in> {CHR 0x22, CHR 0x27, CHR 0x29}
                 then i + 2 else i + 1)
        in if j \<ge> stop \<or> is_space (byte (content ! j)) then Some j else None
      else None)"

definition sentence_ends :: "string \<Rightarrow> span \<Rightarrow> nat list" where
  "sentence_ends content blk =
     List.map_filter (sentence_end_at content (snd blk)) [fst blk..<snd blk]"

primrec rune_back :: "string \<Rightarrow> nat \<Rightarrow> nat" where
  "rune_back content 0 = 0"
| "rune_back content (Suc i) =
     (if rune_start (content ! Suc i) then Suc i else rune_back content i)"

definition rune_boundary :: "string \<Rightarrow> nat \<Rightarrow> nat" where
  "rune_boundary content i = (if i \<ge> length content then length content else rune_back content i)"

text \<open>The inner loop of \<open>cutOnSentences\<close>: hard cuts while the stretch up to \<open>stop\<close> is
  longer than the hard maximum, on the state \<open>(out, start)\<close>.\<close>

partial_function (option) hard_cut :: "string \<Rightarrow> nat \<Rightarrow> nat \<Rightarrow> span list \<Rightarrow> nat \<Rightarrow> (span list \<times> nat) option" where
  "hard_cut content hm stop out start =
     (if stop - start > hm then
        hard_cut content hm stop (out @ [(start, rune_boundary content (start + hm))])
          (rune_boundary content (start + hm))
      else Some (out, start))"

declare hard_cut.simps [code]

text \<open>One iteration over \<open>sentenceEnds\<close>, on the state \<open>(out, start, last)\<close>.\<close>

definition sentence_step :: "string \<Rightarrow> passage_bounds \<Rightarrow> span list \<times> nat \<times> nat \<Rightarrow> nat
    \<Rightarrow> (span list \<times> nat \<times> nat) option" where
  "sentence_step content b st e =
     (case st of (out, start, lst) \<Rightarrow>
        let (out, start) = (if e - start > ceiling_b b \<and> lst > start
                            then (out @ [(start, lst)], lst) else (out, start))
        in (case hard_cut content (hard_max b) e out start of
              None \<Rightarrow> None
            | Some (out, start) \<Rightarrow> Some (out, start, e)))"

fun sentence_loop :: "string \<Rightarrow> passage_bounds \<Rightarrow> span list \<times> nat \<times> nat \<Rightarrow> nat list
    \<Rightarrow> (span list \<times> nat \<times> nat) option" where
  "sentence_loop content b st [] = Some st"
| "sentence_loop content b st (e # es) =
     (case sentence_step content b st e of None \<Rightarrow> None | Some st' \<Rightarrow> sentence_loop content b st' es)"

definition cut_on_sentences :: "string \<Rightarrow> span \<Rightarrow> passage_bounds \<Rightarrow> span list option" where
  "cut_on_sentences content blk b =
     (case sentence_loop content b ([], fst blk, fst blk) (sentence_ends content blk) of
        None \<Rightarrow> None
      | Some (out, start, lst) \<Rightarrow>
          if snd blk > start then
            (case hard_cut content (hard_max b) (snd blk) out start of
               None \<Rightarrow> None
             | Some (out, start) \<Rightarrow> Some (out @ [(start, snd blk)]))
          else Some out)"

definition split_oversized :: "string \<Rightarrow> doc_line list \<Rightarrow> span \<Rightarrow> passage_bounds \<Rightarrow> span list option" where
  "split_oversized content lines blk b =
     (if block_is_fenced lines blk then
        if snd blk - fst blk \<le> hard_max b then Some [blk]
        else Some (cut_on_lines lines blk b)
      else cut_on_sentences content blk b)"

section \<open>Key/value groups and fenced blocks\<close>

definition min_key_groups :: nat where
  "min_key_groups = 3"

text \<open>\<open>assignmentPrefix\<close>: the key runs to the first equals sign, of letters, digits and
  underscores, no digit first; the group token ends at the first underscore that is not in front.\<close>

definition key_rune_ok :: "unicode_tables \<Rightarrow> nat \<Rightarrow> bool" where
  "key_rune_ok ut r \<longleftrightarrow> r = byte CHR ''_'' \<or> uni_is_digit ut r \<or> uni_is_letter ut r"

definition assignment_prefix :: "unicode_tables \<Rightarrow> string \<Rightarrow> string option" where
  "assignment_prefix ut trimmed =
     (case index_byte trimmed CHR ''='' of
        None \<Rightarrow> None
      | Some eq \<Rightarrow>
          if eq = 0 then None
          else let key = take eq trimmed
               in if \<not> list_all (key_rune_ok ut) (runes key) \<or> uni_is_digit ut (hd (runes key))
                  then None
                  else case index_byte key CHR ''_'' of
                         Some uline \<Rightarrow> Some (if uline > 0 then take uline key else key)
                       | None \<Rightarrow> Some key)"

record kv_state =
  kv_content :: nat
  kv_assignments :: nat
  kv_groups :: "span list"
  kv_prefix :: string

definition kv_step :: "unicode_tables \<Rightarrow> span \<Rightarrow> kv_state \<Rightarrow> doc_line \<Rightarrow> kv_state" where
  "kv_step ut blk st ln =
     (if \<not> in_span blk ln then st
      else let trimmed = trim_space (l_text ln)
           in if trimmed = [] \<or> is_fence_delimiter trimmed then st
              else let st = st\<lparr>kv_content := Suc (kv_content st)\<rparr>
                   in case assignment_prefix ut trimmed of
                        None \<Rightarrow> st\<lparr>kv_prefix := []\<rparr>
                      | Some key \<Rightarrow>
                          let st = st\<lparr>kv_assignments := Suc (kv_assignments st)\<rparr>
                          in if key = kv_prefix st \<and> kv_groups st \<noteq> []
                             then st\<lparr>kv_groups := set_end (l_end ln) (kv_groups st)\<rparr>
                             else st\<lparr>kv_groups := kv_groups st @ [(l_start ln, l_end ln)],
                                     kv_prefix := key\<rparr>)"

definition kv_scan :: "unicode_tables \<Rightarrow> doc_line list \<Rightarrow> span \<Rightarrow> kv_state" where
  "kv_scan ut lines blk =
     foldl (kv_step ut blk)
       \<lparr> kv_content = 0, kv_assignments = 0, kv_groups = [], kv_prefix = [] \<rparr> lines"

text \<open>The share test \<open>assignments / content < 0.6\<close> in floating point is the exact
  comparison of \<open>5 * assignments\<close> with \<open>3 * content\<close> for counts below \<open>2 ^ 50\<close>: the
  quotient nearest 3/5 is the double the constant denotes, and rounding is monotone.\<close>

definition key_value_groups :: "unicode_tables \<Rightarrow> doc_line list \<Rightarrow> span \<Rightarrow> span list option" where
  "key_value_groups ut lines blk =
     (if \<not> block_is_fenced lines blk then None
      else let st = kv_scan ut lines blk
           in if kv_content st = 0 \<or> length (kv_groups st) < min_key_groups then None
              else if 5 * kv_assignments st < 3 * kv_content st then None
              else Some (kv_groups st))"

text \<open>The loop of \<open>splitHomogeneousBlocks\<close>, on the state \<open>(out, cursor, found)\<close>.\<close>

definition homogeneous_step :: "unicode_tables \<Rightarrow> doc_line list \<Rightarrow> span list \<times> nat \<times> bool \<Rightarrow> span
    \<Rightarrow> span list \<times> nat \<times> bool" where
  "homogeneous_step ut lines st blk =
     (case key_value_groups ut lines blk of
        None \<Rightarrow> st
      | Some groups \<Rightarrow>
          (case st of (out, cursor, found) \<Rightarrow>
             ((if fst (hd groups) > cursor then out @ [(cursor, fst (hd groups))] else out) @ groups,
              snd (last groups), True)))"

definition split_homogeneous_blocks :: "unicode_tables \<Rightarrow> doc_line list \<Rightarrow> span \<Rightarrow> span list option" where
  "split_homogeneous_blocks ut lines s =
     (case foldl (homogeneous_step ut lines) ([], fst s, False) (blocks_of lines s) of
        (out, cursor, found) \<Rightarrow>
          if \<not> found then None
          else Some (if cursor < snd s then out @ [(cursor, snd s)] else out))"

definition isolate_step :: "span list \<times> nat \<Rightarrow> span \<Rightarrow> span list \<times> nat" where
  "isolate_step st f =
     ((if fst f > snd st then fst st @ [(snd st, fst f)] else fst st) @ [f], snd f)"

definition isolate_fenced_blocks :: "doc_line list \<Rightarrow> span \<Rightarrow> passage_bounds \<Rightarrow> span list option" where
  "isolate_fenced_blocks lines s b =
     (let fenced = filter (block_is_fenced lines) (blocks_of lines s)
      in if fenced = [] then None
         else if (snd s - fst s) - sum_list (map (\<lambda>f. snd f - fst f) fenced) < floor_b b then None
         else let st = foldl isolate_step ([], fst s) fenced
              in Some (if snd st < snd s then fst st @ [(snd st, snd s)] else fst st))"

section \<open>Subdividing a section\<close>

definition flush_span :: "span list \<Rightarrow> span \<Rightarrow> span list" where
  "flush_span out cur = (if snd cur > fst cur then out @ [cur] else out)"

definition size_step :: "string \<Rightarrow> doc_line list \<Rightarrow> passage_bounds \<Rightarrow> span list \<times> span \<Rightarrow> span
    \<Rightarrow> (span list \<times> span) option" where
  "size_step content lines b st blk =
     (case st of (out, cur) \<Rightarrow>
        let size = snd blk - fst blk;
            (out, cur) = (if snd cur > fst cur \<and> (snd cur - fst cur) + size > ceiling_b b
                          then (flush_span out cur, (fst blk, fst blk)) else (out, cur))
        in if size > ceiling_b b then
             (case split_oversized content lines blk b of
                None \<Rightarrow> None
              | Some pieces \<Rightarrow> Some (flush_span out cur @ pieces, (snd blk, snd blk)))
           else Some (out, (fst cur, snd blk)))"

fun size_loop :: "string \<Rightarrow> doc_line list \<Rightarrow> passage_bounds \<Rightarrow> span list \<times> span \<Rightarrow> span list
    \<Rightarrow> (span list \<times> span) option" where
  "size_loop content lines b st [] = Some st"
| "size_loop content lines b st (blk # blks) =
     (case size_step content lines b st blk of
        None \<Rightarrow> None
      | Some st' \<Rightarrow> size_loop content lines b st' blks)"

definition subdivide :: "unicode_tables \<Rightarrow> string \<Rightarrow> doc_line list \<Rightarrow> span \<Rightarrow> passage_bounds \<Rightarrow> span list option" where
  "subdivide ut content lines s b =
     (case split_homogeneous_blocks ut lines s of
        Some spans \<Rightarrow> Some spans
      | None \<Rightarrow>
         (case isolate_fenced_blocks lines s b of
            Some spans \<Rightarrow> Some spans
          | None \<Rightarrow>
              if snd s - fst s \<le> ceiling_b b then Some [s]
              else (case size_loop content lines b ([], (fst s, fst s)) (blocks_of lines s) of
                      None \<Rightarrow> None
                    | Some (out, cur) \<Rightarrow>
                        let out = flush_span out cur
                        in Some (if out = [] then [s] else out))))"

section \<open>The splitter\<close>

definition section_span :: "doc_section \<Rightarrow> span" where
  "section_span s = (s_start s, s_end s)"

definition passage_of :: "string \<Rightarrow> doc_section \<Rightarrow> nat \<Rightarrow> span \<Rightarrow> passage" where
  "passage_of content s n sp =
     \<lparr> p_ordinal = n, p_heading = s_heading s, p_path = s_path s, p_start = fst sp, p_end = snd sp,
       p_body = slice content sp \<rparr>"

text \<open>The two nested loops of \<open>splitPassagesBounded\<close> over the sections and their spans.\<close>

fun passage_loop :: "unicode_tables \<Rightarrow> string \<Rightarrow> doc_line list \<Rightarrow> passage_bounds \<Rightarrow> passage list
    \<Rightarrow> doc_section list \<Rightarrow> passage list option" where
  "passage_loop ut content lines b out [] = Some out"
| "passage_loop ut content lines b out (s # ss) =
     (case subdivide ut content lines (section_span s) b of
        None \<Rightarrow> None
      | Some spans \<Rightarrow>
          passage_loop ut content lines b
            (foldl (\<lambda>out sp. out @ [passage_of content s (length out) sp]) out spans) ss)"

definition document_sections :: "string \<Rightarrow> passage_bounds \<Rightarrow> doc_format \<Rightarrow> doc_section list" where
  "document_sections content b f =
     merge_small_sections b (sections_of (scan_lines content) (length content) f)"

definition split_passages_bounded :: "unicode_tables \<Rightarrow> string \<Rightarrow> passage_bounds \<Rightarrow> doc_format
    \<Rightarrow> passage list option" where
  "split_passages_bounded ut content b f =
     (if content = [] then Some []
      else passage_loop ut content (scan_lines content) b [] (document_sections content b f))"

definition split_passages :: "unicode_tables \<Rightarrow> string \<Rightarrow> doc_format \<Rightarrow> passage list option" where
  "split_passages ut content f = split_passages_bounded ut content default_bounds f"

section \<open>Blocks tile their section\<close>

definition line_span :: "doc_line \<Rightarrow> span" where
  "line_span ln = (l_start ln, l_end ln)"

lemma line_span_simp: "line_span \<lparr> l_start = a, l_end = e, l_text = t, l_protected = p \<rparr> = (a, e)"
  by (simp add: line_span_def)

text \<open>A span that starts and ends at line boundaries.\<close>

definition on_lines :: "doc_line list \<Rightarrow> span \<Rightarrow> bool" where
  "on_lines lines sp \<longleftrightarrow> fst sp < snd sp \<and> {fst sp, snd sp} \<subseteq> cut_points 0 (map line_span lines)"

text \<open>Whether the key/value groups of a block follow each other without a gap.\<close>

definition groups_abut :: "unicode_tables \<Rightarrow> doc_line list \<Rightarrow> span \<Rightarrow> bool" where
  "groups_abut ut lines blk =
     (case key_value_groups ut lines blk of
        None \<Rightarrow> True
      | Some g \<Rightarrow> tiles (fst (hd g)) g (snd (last g)))"

lemma set_end_snoc [simp]: "set_end e (xs @ [sp]) = xs @ [(fst sp, e)]"
  by (simp add: set_end_def)

lemma set_end_Nil [simp]: "set_end e [] = []"
  by (simp add: set_end_def)

lemma set_end_nonempty [simp]: "set_end e xs = [] \<longleftrightarrow> xs = []"
  by (simp add: set_end_def)

lemma tiles_set_end: "tiles a xs m \<Longrightarrow> xs \<noteq> [] \<Longrightarrow> m \<le> e \<Longrightarrow> tiles a (set_end e xs) e"
  by (cases xs rule: rev_cases) auto

lemma in_order_set_end: "in_order a xs m \<Longrightarrow> xs \<noteq> [] \<Longrightarrow> m \<le> e \<Longrightarrow> in_order a (set_end e xs) e"
  by (cases xs rule: rev_cases) (auto intro: in_order_mono)

text \<open>What the loop of \<open>blocksOf\<close> keeps: the finished blocks and the open one tile from the
  first line that is not blank up to the current line.\<close>

definition all_blocks :: "span list \<times> span option \<Rightarrow> span list" where
  "all_blocks st = (case snd st of Some c \<Rightarrow> fst st @ [c] | None \<Rightarrow> fst st)"

definition blocks_inv :: "nat set \<Rightarrow> nat \<Rightarrow> span list \<Rightarrow> nat \<Rightarrow> bool" where
  "blocks_inv C u bs w \<longleftrightarrow>
     u \<le> w \<and> w \<in> C \<and> (\<forall>sp \<in> set bs. fst sp \<in> C \<and> snd sp \<in> C)
     \<and> (bs = [] \<or> (u \<le> fst (hd bs) \<and> tiles (fst (hd bs)) bs w))"

lemma blocks_inv_extend:
  "blocks_inv C u (bs @ [sp]) w \<Longrightarrow> w < e \<Longrightarrow> e \<in> C \<Longrightarrow> blocks_inv C u (bs @ [(fst sp, e)]) e"
  by (cases sp; cases bs) (auto simp: blocks_inv_def)

lemma blocks_inv_new:
  "blocks_inv C u bs w \<Longrightarrow> w < e \<Longrightarrow> e \<in> C \<Longrightarrow> blocks_inv C u (bs @ [(w, e)]) e"
  by (cases bs) (auto simp: blocks_inv_def)

lemma blocks_inv_step:
  assumes inv: "blocks_inv C u (all_blocks st) w"
    and ln: "in_span s ln" "l_start ln = w" "w < l_end ln" "l_end ln \<in> C"
  shows "blocks_inv C u (all_blocks (block_step s st ln)) (l_end ln)"
proof -
  obtain out cur where st: "st = (out, cur)" by (cases st)
  show ?thesis
  proof (cases cur)
    case None
    show ?thesis
    proof (cases "is_blank ln")
      case True
      show ?thesis
      proof (cases out rule: rev_cases)
        case Nil
        then show ?thesis using inv ln st None True
          by (simp add: block_step_def all_blocks_def blocks_inv_def)
      next
        case (snoc ys y)
        then show ?thesis using blocks_inv_extend [of C u ys y w "l_end ln"] inv ln st None True
          by (simp add: block_step_def all_blocks_def)
      qed
    next
      case False
      then show ?thesis using blocks_inv_new [of C u out w "l_end ln"] inv ln st None
        by (simp add: block_step_def all_blocks_def)
    qed
  next
    case (Some c)
    then show ?thesis using blocks_inv_extend [of C u out c w "l_end ln"] inv ln st
      by (simp add: block_step_def all_blocks_def)
  qed
qed

locale line_tiling =
  fixes lines :: "doc_line list" and n :: nat
  assumes lines_tile: "tiles 0 (map line_span lines) n"
begin

lemma lines_inside:
  assumes "on_lines lines sp"
  shows "tiles (fst sp) (map line_span (filter (in_span sp) lines)) (snd sp)"
  using assms tiles_between [OF lines_tile, of "fst sp" "snd sp"]
  by (simp add: on_lines_def in_span_def [abs_def] line_span_def)

lemma line_cut: "ln \<in> set lines \<Longrightarrow> l_end ln \<in> cut_points 0 (map line_span lines)"
  by (force simp: cut_points_def line_span_def)

lemma cut_le:
  assumes "c \<in> cut_points 0 (map line_span lines)"
  shows "c \<le> n"
proof -
  have "snd sp \<le> n" if "sp \<in> set (map line_span lines)" for sp
    using in_order_mem [OF tiles_in_order [OF lines_tile] that] by simp
  then show ?thesis using assms by (auto simp: cut_points_def)
qed

lemma blocks_scan:
  assumes "on_lines lines sp"
  shows "blocks_inv (cut_points 0 (map line_span lines)) (fst sp)
           (all_blocks (foldl (block_step sp) ([], None) lines)) (snd sp)"
proof -
  let ?C = "cut_points 0 (map line_span lines)"
  have "blocks_inv ?C (fst sp)
          (all_blocks (foldl (block_step sp) ([], None) (filter (in_span sp) lines))) (snd sp)"
  proof (rule foldl_tiles [where P = "\<lambda>st _ w. blocks_inv ?C (fst sp) (all_blocks st) w",
        OF lines_inside [OF assms]])
    show "blocks_inv ?C (fst sp) (all_blocks ([], None)) (fst sp)"
      using assms by (simp add: blocks_inv_def all_blocks_def on_lines_def)
  next
    fix st and ys :: "doc_line list" and ln
    assume "blocks_inv ?C (fst sp) (all_blocks st) (fst (line_span ln))"
      "fst (line_span ln) < snd (line_span ln)" "ln \<in> set (filter (in_span sp) lines)"
    then show "blocks_inv ?C (fst sp) (all_blocks (block_step sp st ln)) (snd (line_span ln))"
      using blocks_inv_step [of ?C "fst sp" st "l_start ln" sp ln] line_cut [of ln]
      by (simp add: line_span_def)
  qed
  moreover have "foldl (block_step sp) ([], None) lines
      = foldl (block_step sp) ([], None) (filter (in_span sp) lines)"
    by (rule foldl_guard) (simp add: block_step_def)
  ultimately show ?thesis by simp
qed

lemma blocks_of_tiles:
  assumes "on_lines lines sp"
  shows "tiles (fst sp) (blocks_of lines sp) (snd sp)"
    and "blk \<in> set (blocks_of lines sp) \<Longrightarrow> on_lines lines blk"
proof -
  let ?C = "cut_points 0 (map line_span lines)"
  let ?bs = "all_blocks (foldl (block_step sp) ([], None) lines)"
  have sp: "fst sp < snd sp" "fst sp \<in> ?C" "snd sp \<in> ?C" using assms by (auto simp: on_lines_def)
  have inv: "blocks_inv ?C (fst sp) ?bs (snd sp)" by (rule blocks_scan [OF assms])
  have eq: "blocks_of lines sp = (if ?bs = [] then [sp] else set_end (snd sp) (set_start (fst sp) ?bs))"
    by (simp add: blocks_of_def all_blocks_def Let_def)
  have all: "tiles (fst sp) (blocks_of lines sp) (snd sp)
      \<and> (\<forall>blk \<in> set (blocks_of lines sp). fst blk \<in> ?C \<and> snd blk \<in> ?C)"
  proof (cases ?bs)
    case Nil
    with eq sp show ?thesis by simp
  next
    case (Cons b bs)
    obtain s e where b: "b = (s, e)" by (cases b)
    from inv Cons b have t: "fst sp \<le> s" "s < e" "tiles e bs (snd sp)" "e \<in> ?C"
        "\<forall>blk \<in> set bs. fst blk \<in> ?C \<and> snd blk \<in> ?C"
      by (auto simp: blocks_inv_def)
    have t': "tiles (fst sp) ((fst sp, e) # bs) (snd sp)" using t by simp
    have "set_end (snd sp) ((fst sp, e) # bs) = (fst sp, e) # bs"
      using t' by (cases bs rule: rev_cases) (auto simp: set_end_def)
    then have "blocks_of lines sp = (fst sp, e) # bs" using eq Cons b by (simp add: set_start_def)
    with t' t sp show ?thesis by simp
  qed
  show "tiles (fst sp) (blocks_of lines sp) (snd sp)" using all by blast
  assume m: "blk \<in> set (blocks_of lines sp)"
  with all have "fst blk < snd blk" using in_order_mem [OF tiles_in_order] by blast
  with m all show "on_lines lines blk" by (simp add: on_lines_def)
qed

lemma kv_groups_scan:
  assumes "on_lines lines blk"
  shows "in_order (fst blk) (kv_groups (kv_scan ut lines blk)) (snd blk)"
proof -
  let ?st0 = "\<lparr> kv_content = 0, kv_assignments = 0, kv_groups = [], kv_prefix = [] \<rparr>"
  have step: "in_order u (kv_groups (kv_step ut blk st ln)) (l_end ln)"
    if "in_order u (kv_groups st) (l_start ln)" "l_start ln < l_end ln" for u st ln
  proof -
    have keep: "in_order u (kv_groups st) (l_end ln)" using that by (auto intro: in_order_mono)
    have "in_order u (kv_groups st @ [(l_start ln, l_end ln)]) (l_end ln)" using that by simp
    moreover have "in_order u (set_end (l_end ln) (kv_groups st)) (l_end ln)" if "kv_groups st \<noteq> []"
      using in_order_set_end [OF keep that] by simp
    ultimately show ?thesis using keep by (simp add: kv_step_def Let_def split: option.split)
  qed
  have "in_order (fst blk) (kv_groups (foldl (kv_step ut blk) ?st0 (filter (in_span blk) lines))) (snd blk)"
    by (rule foldl_tiles [where P = "\<lambda>st _ w. in_order (fst blk) (kv_groups st) w",
          OF lines_inside [OF assms]]) (simp_all add: step line_span_def)
  moreover have "foldl (kv_step ut blk) ?st0 lines
      = foldl (kv_step ut blk) ?st0 (filter (in_span blk) lines)"
    by (rule foldl_guard) (simp add: kv_step_def)
  ultimately show ?thesis by (simp add: kv_scan_def)
qed

lemma key_value_groups_in_order:
  assumes "on_lines lines blk" "key_value_groups ut lines blk = Some g"
  shows "in_order (fst blk) g (snd blk)" "g \<noteq> []"
  using kv_groups_scan [OF assms(1), of ut] assms(2)
  by (auto simp: key_value_groups_def Let_def min_key_groups_def split: if_splits)

text \<open>The state of \<open>splitHomogeneousBlocks\<close> after the blocks \<open>bs\<close>, which end at
  \<open>w\<close>.\<close>

definition homogeneous_inv :: "unicode_tables \<Rightarrow> nat \<Rightarrow> span list \<times> nat \<times> bool \<Rightarrow> span list \<Rightarrow> nat \<Rightarrow> bool" where
  "homogeneous_inv ut u st bs w \<longleftrightarrow>
     (case st of (out, cursor, found) \<Rightarrow>
        in_order u out cursor \<and> cursor \<le> w \<and> (\<not> found \<longrightarrow> cursor = u \<and> out = [])
        \<and> (tiles u out cursor \<longleftrightarrow> list_all (groups_abut ut lines) bs)
        \<and> (found \<longleftrightarrow> list_ex (\<lambda>b. key_value_groups ut lines b \<noteq> None) bs))"

lemma homogeneous_inv_step:
  assumes inv: "homogeneous_inv ut u st bs (fst blk)" and blk: "on_lines lines blk"
  shows "homogeneous_inv ut u (homogeneous_step ut lines st blk) (bs @ [blk]) (snd blk)"
proof -
  obtain out cursor found where st: "st = (out, cursor, found)" by (cases st)
  have lt: "fst blk < snd blk" using blk by (simp add: on_lines_def)
  show ?thesis
  proof (cases "key_value_groups ut lines blk")
    case None
    then show ?thesis using inv st lt
      by (auto simp: homogeneous_inv_def homogeneous_step_def groups_abut_def)
  next
    case (Some g)
    have g: "in_order (fst blk) g (snd blk)" "g \<noteq> []"
      by (rule key_value_groups_in_order [OF blk Some])+
    let ?h = "fst (hd g)" and ?l = "snd (last g)"
    let ?pre = "if ?h > cursor then out @ [(cursor, ?h)] else out"
    have g': "in_order ?h g ?l" "fst blk \<le> ?h" "?l \<le> snd blk"
      using in_order_exact [OF g] in_order_hd [OF g] in_order_last [OF g] by auto
    have out: "in_order u out cursor" "cursor \<le> fst blk" using inv st by (auto simp: homogeneous_inv_def)
    have pre: "in_order u ?pre ?h" "tiles u ?pre ?h \<longleftrightarrow> tiles u out cursor"
      using out g' by (cases "?h > cursor"; cases "?h = cursor"; simp)+
    have "in_order u (?pre @ g) ?l" by (rule in_order_append [OF pre(1) g'(1)])
    moreover have "tiles u (?pre @ g) ?l \<longleftrightarrow> tiles u out cursor \<and> tiles ?h g ?l"
      using tiles_append_iff [OF pre(1) g'(1)] pre(2) by simp
    moreover have "homogeneous_step ut lines st blk = (?pre @ g, ?l, True)"
      using Some st by (simp add: homogeneous_step_def)
    ultimately show ?thesis using inv st Some g'
      by (auto simp: homogeneous_inv_def groups_abut_def)
  qed
qed

lemma homogeneous_spans:
  assumes "on_lines lines sp"
  shows "split_homogeneous_blocks ut lines sp = Some spans \<Longrightarrow> in_order (fst sp) spans (snd sp)"
    and "split_homogeneous_blocks ut lines sp = Some spans
      \<Longrightarrow> tiles (fst sp) spans (snd sp) \<longleftrightarrow> list_all (groups_abut ut lines) (blocks_of lines sp)"
    and "split_homogeneous_blocks ut lines sp = None
      \<Longrightarrow> list_all (\<lambda>b. key_value_groups ut lines b = None) (blocks_of lines sp)"
proof -
  let ?bs = "blocks_of lines sp"
  obtain out cursor found where st: "foldl (homogeneous_step ut lines) ([], fst sp, False) ?bs = (out, cursor, found)"
    by (metis prod_cases3)
  have "homogeneous_inv ut (fst sp) (foldl (homogeneous_step ut lines) ([], fst sp, False) ?bs) ?bs (snd sp)"
  proof (rule foldl_tiles [where key = "\<lambda>b. b"])
    show "tiles (fst sp) (map (\<lambda>b. b) ?bs) (snd sp)" using blocks_of_tiles(1) [OF assms] by simp
  qed (auto simp: homogeneous_inv_def [of _ _ _ "[]"] intro!: homogeneous_inv_step
        dest: blocks_of_tiles(2) [OF assms])
  with st have inv: "in_order (fst sp) out cursor" "cursor \<le> snd sp"
      "tiles (fst sp) out cursor \<longleftrightarrow> list_all (groups_abut ut lines) ?bs"
      "found \<longleftrightarrow> list_ex (\<lambda>b. key_value_groups ut lines b \<noteq> None) ?bs"
    by (auto simp: homogeneous_inv_def)
  show "in_order (fst sp) spans (snd sp)" if "split_homogeneous_blocks ut lines sp = Some spans"
    using that st inv by (auto simp: split_homogeneous_blocks_def split: if_splits)
  show "tiles (fst sp) spans (snd sp) \<longleftrightarrow> list_all (groups_abut ut lines) ?bs"
    if "split_homogeneous_blocks ut lines sp = Some spans"
    using that st inv by (auto simp: split_homogeneous_blocks_def split: if_splits)
  show "list_all (\<lambda>b. key_value_groups ut lines b = None) ?bs"
    if "split_homogeneous_blocks ut lines sp = None"
    using that st inv by (auto simp: split_homogeneous_blocks_def list_all_iff list_ex_iff split: if_splits)
qed

lemma isolate_spans:
  assumes "on_lines lines sp" "isolate_fenced_blocks lines sp b = Some spans"
  shows "tiles (fst sp) spans (snd sp)"
proof -
  let ?fb = "block_is_fenced lines" and ?st = "\<lambda>bs. foldl isolate_step ([], fst sp) (filter (block_is_fenced lines) bs)"
  have "tiles (fst sp) (fst (?st (blocks_of lines sp))) (snd (?st (blocks_of lines sp)))
      \<and> snd (?st (blocks_of lines sp)) \<le> snd sp"
  proof -
    have "in_order (fst sp) (filter ?fb (blocks_of lines sp)) (snd sp)"
      using in_order_filter tiles_in_order [OF blocks_of_tiles(1) [OF assms(1)]] by blast
    moreover have "tiles u (fst (foldl isolate_step (out, c) fs)) (snd (foldl isolate_step (out, c) fs))
        \<and> snd (foldl isolate_step (out, c) fs) \<le> w"
      if "tiles u out c" "in_order c fs w" for u out c fs w
      using that
    proof (induction fs arbitrary: out c)
      case (Cons f fs)
      have "tiles u (fst (isolate_step (out, c) f)) (snd f)"
        using Cons.prems by (cases f) (auto simp: isolate_step_def intro: tiles_append)
      then show ?case using Cons by (cases f) (auto simp: isolate_step_def)
    qed (auto dest: in_order_bounds)
    ultimately show ?thesis by simp
  qed
  then show ?thesis using assms(2)
    by (auto simp: isolate_fenced_blocks_def Let_def split: if_splits)
qed

lemma cut_on_lines_tiles:
  assumes "on_lines lines blk"
  shows "tiles (fst blk) (cut_on_lines lines blk b) (snd blk)"
proof -
  let ?st = "foldl (line_cut_step blk b) ([], (fst blk, fst blk)) lines"
  let ?inv = "\<lambda>st w. tiles (fst blk) (fst st) (fst (snd st)) \<and> fst (snd st) \<le> snd (snd st) \<and> snd (snd st) = w"
  have step: "?inv (line_cut_step blk b st ln) (l_end ln)"
    if "?inv st (l_start ln)" "l_start ln < l_end ln" "in_span blk ln" for st ln
    using that by (cases st) (auto simp: line_cut_step_def)
  have "?inv (foldl (line_cut_step blk b) ([], (fst blk, fst blk)) (filter (in_span blk) lines)) (snd blk)"
  proof (rule foldl_tiles [where P = "\<lambda>st _ w. ?inv st w", OF lines_inside [OF assms]])
    fix st and ys :: "doc_line list" and ln
    assume "?inv st (fst (line_span ln))" "fst (line_span ln) < snd (line_span ln)"
      "ln \<in> set (filter (in_span blk) lines)"
    then show "?inv (line_cut_step blk b st ln) (snd (line_span ln))"
      using step [of st ln] by (simp add: line_span_def)
  qed simp
  moreover have "?st = foldl (line_cut_step blk b) ([], (fst blk, fst blk)) (filter (in_span blk) lines)"
    by (rule foldl_guard) (simp add: line_cut_step_def)
  ultimately have "?inv ?st (snd blk)" by simp
  then show ?thesis by (cases ?st) (auto simp: cut_on_lines_def Let_def)
qed

end

section \<open>Hard cuts\<close>

lemma rune_back_le: "rune_back content i \<le> i"
  by (induction i) auto

lemma rune_boundary_le: "rune_boundary content i \<le> i"
  using rune_back_le by (simp add: rune_boundary_def)

lemma rune_back_again: "rune_back content i \<le> j \<Longrightarrow> j \<le> i \<Longrightarrow> rune_back content j = rune_back content i"
  by (induction i) (auto simp: le_Suc_eq split: if_splits)

lemma rune_back_reaches: "k \<le> i \<Longrightarrow> rune_start (content ! k) \<Longrightarrow> k \<le> rune_back content i"
  by (induction i) (auto simp: le_Suc_eq)

text \<open>A stretch on which the rune boundary backs off to the start or before.\<close>

definition stuck :: "string \<Rightarrow> nat \<Rightarrow> nat \<Rightarrow> nat \<Rightarrow> bool" where
  "stuck content hm stop start \<longleftrightarrow> hm < stop - start \<and> rune_boundary content (start + hm) \<le> start"

lemma stuck_again:
  assumes "stuck content hm stop start" "stop \<le> length content"
  shows "stuck content hm stop (rune_boundary content (start + hm))"
proof -
  let ?c = "rune_boundary content (start + hm)"
  have c: "?c \<le> start" "start + hm < length content" "?c = rune_back content (start + hm)"
    using assms by (auto simp: stuck_def rune_boundary_def)
  then have "rune_back content (?c + hm) = ?c"
    using rune_back_again [of content "start + hm" "?c + hm"] by simp
  then show ?thesis using c assms by (simp add: stuck_def rune_boundary_def)
qed

lemma hard_cut_returns_tiles:
  assumes "hard_cut content hm stop out start = Some (out', start')" "stop \<le> length content"
    "tiles u out start" "start \<le> stop"
  shows "tiles u out' start' \<and> start \<le> start' \<and> stop - start' \<le> hm
    \<and> (start < stop \<longrightarrow> start' < stop) \<and> start' \<le> stop"
proof -
  have "stop \<le> length content \<longrightarrow> \<not> stuck content hm stop start
      \<and> (tiles u out start \<longrightarrow> start \<le> stop \<longrightarrow>
           tiles u (fst r) (snd r) \<and> start \<le> snd r \<and> stop - snd r \<le> hm
           \<and> (start < stop \<longrightarrow> snd r < stop) \<and> snd r \<le> stop)"
    if "hard_cut content hm stop out start = Some r" for r
  proof (rule hard_cut.raw_induct [OF _ that])
    fix rec :: "string \<Rightarrow> nat \<Rightarrow> nat \<Rightarrow> span list \<Rightarrow> nat \<Rightarrow> (span list \<times> nat) option"
    fix content hm stop out start r
    let ?c = "rune_boundary content (start + hm)"
    let ?Q = "\<lambda>content hm stop out start r. stop \<le> length content \<longrightarrow> \<not> stuck content hm stop start
      \<and> (tiles u out start \<longrightarrow> start \<le> stop \<longrightarrow>
           tiles u (fst r) (snd r) \<and> start \<le> snd r \<and> stop - snd r \<le> hm
           \<and> (start < stop \<longrightarrow> snd r < stop) \<and> snd r \<le> stop)"
    assume IH: "\<And>content hm stop out start r. rec content hm stop out start = Some r
        \<Longrightarrow> ?Q content hm stop out start r"
      and run: "(if hm < stop - start then rec content hm stop (out @ [(start, ?c)]) ?c
                 else Some (out, start)) = Some r"
    show "?Q content hm stop out start r"
    proof (cases "hm < stop - start")
      case False
      with run show ?thesis by (auto simp: stuck_def)
    next
      case True
      with run have rec: "rec content hm stop (out @ [(start, ?c)]) ?c = Some r" by simp
      show ?thesis
      proof
        assume len: "stop \<le> length content"
        with IH [OF rec] have ns: "\<not> stuck content hm stop ?c" by blast
        then have s: "\<not> stuck content hm stop start" using stuck_again len by blast
        then have lt: "start < ?c" using True by (simp add: stuck_def)
        have "?c < stop" using rune_boundary_le [of content "start + hm"] True by simp
        with IH [OF rec] len lt s
        show "\<not> stuck content hm stop start
          \<and> (tiles u out start \<longrightarrow> start \<le> stop \<longrightarrow>
             tiles u (fst r) (snd r) \<and> start \<le> snd r \<and> stop - snd r \<le> hm
             \<and> (start < stop \<longrightarrow> snd r < stop) \<and> snd r \<le> stop)"
          by auto
      qed
    qed
  qed
  from this [OF assms(1)] show ?thesis using assms(2-) by simp
qed

definition within :: "nat \<Rightarrow> span \<Rightarrow> bool" where
  "within k sp \<longleftrightarrow> snd sp - fst sp \<le> k"

lemma within_pair: "within k (a, e) \<longleftrightarrow> e - a \<le> k"
  by (simp add: within_def)

lemma hard_cut_within:
  assumes "hard_cut content hm stop out start = Some (out', start')" "list_all (within hm) out"
  shows "list_all (within hm) out'"
proof -
  have "list_all (within hm) out \<longrightarrow> list_all (within hm) (fst r)"
    if "hard_cut content hm stop out start = Some r" for r
  proof (rule hard_cut.raw_induct [OF _ that])
    fix rec :: "string \<Rightarrow> nat \<Rightarrow> nat \<Rightarrow> span list \<Rightarrow> nat \<Rightarrow> (span list \<times> nat) option"
    fix content hm stop out start r
    let ?c = "rune_boundary content (start + hm)"
    assume IH: "\<And>content hm stop out start r. rec content hm stop out start = Some r
        \<Longrightarrow> list_all (within hm) out \<longrightarrow> list_all (within hm) (fst r)"
      and run: "(if hm < stop - start then rec content hm stop (out @ [(start, ?c)]) ?c
                 else Some (out, start)) = Some r"
    have "within hm (start, ?c)" using rune_boundary_le [of content "start + hm"] by (simp add: within_def)
    with IH run show "list_all (within hm) out \<longrightarrow> list_all (within hm) (fst r)"
      by (fastforce split: if_splits)
  qed
  from this [OF assms(1)] show ?thesis using assms(2) by simp
qed

text \<open>A stuck stretch is never cut: the loop does not return.\<close>

lemma hard_cut_stuck:
  assumes "stuck content hm stop start" "stop \<le> length content"
  shows "hard_cut content hm stop out start = None"
proof (rule ccontr)
  assume "hard_cut content hm stop out start \<noteq> None"
  then obtain r where r: "hard_cut content hm stop out start = Some r" by blast
  have "stop \<le> length content \<longrightarrow> \<not> stuck content hm stop start"
  proof (rule hard_cut.raw_induct [OF _ r])
    fix rec :: "string \<Rightarrow> nat \<Rightarrow> nat \<Rightarrow> span list \<Rightarrow> nat \<Rightarrow> (span list \<times> nat) option"
    fix content hm stop out start r
    let ?c = "rune_boundary content (start + hm)"
    assume IH: "\<And>content hm stop out start r. rec content hm stop out start = Some r
        \<Longrightarrow> stop \<le> length content \<longrightarrow> \<not> stuck content hm stop start"
      and run: "(if hm < stop - start then rec content hm stop (out @ [(start, ?c)]) ?c
                 else Some (out, start)) = Some r"
    show "stop \<le> length content \<longrightarrow> \<not> stuck content hm stop start"
    proof (cases "hm < stop - start")
      case True
      with run have "rec content hm stop (out @ [(start, ?c)]) ?c = Some r" by simp
      from IH [OF this] show ?thesis using stuck_again by blast
    qed (simp add: stuck_def)
  qed
  with assms show False by blast
qed

text \<open>Every window of \<open>k\<close> bytes holds the start of a rune; UTF-8 has it for 4.\<close>

definition rune_dense :: "nat \<Rightarrow> string \<Rightarrow> bool" where
  "rune_dense k content \<longleftrightarrow>
     list_all (\<lambda>i. list_ex rune_start (take k (drop i content))) [0..<Suc (length content) - k]"

lemma rune_dense_window:
  assumes "rune_dense k content" "i + k \<le> length content"
  obtains j where "i \<le> j" "j < i + k" "rune_start (content ! j)"
proof -
  have "list_ex rune_start (take k (drop i content))"
    using assms by (auto simp: rune_dense_def list_all_iff)
  then obtain m where "m < length (take k (drop i content))" "rune_start (take k (drop i content) ! m)"
    by (metis list_ex_length)
  then show thesis using that [of "i + m"] assms(2) by simp
qed

lemma hard_cut_returns:
  assumes "rune_dense hm content" "stop \<le> length content"
  shows "hard_cut content hm stop out start \<noteq> None"
proof (induction "stop - start" arbitrary: out start rule: less_induct)
  case less
  show ?case
  proof (cases "hm < stop - start")
    case True
    then have inside: "Suc start + hm \<le> length content" using assms(2) by simp
    obtain j where j: "Suc start \<le> j" "j < Suc start + hm" "rune_start (content ! j)"
      by (rule rune_dense_window [OF assms(1) inside])
    then have "j \<le> rune_back content (start + hm)" by (intro rune_back_reaches) simp_all
    then have lt: "start < rune_boundary content (start + hm)"
      using inside j by (simp add: rune_boundary_def)
    then have "stop - rune_boundary content (start + hm) < stop - start" using True by simp
    from less [OF this] show ?thesis using True by (subst hard_cut.simps) simp
  qed (subst hard_cut.simps, simp)
qed

section \<open>Cutting prose\<close>

lemma sentence_end_at_range: "sentence_end_at content stop i = Some j \<Longrightarrow> i < stop \<Longrightarrow> i < j \<and> j \<le> stop"
  by (auto simp: sentence_end_at_def Let_def split: if_splits)

lemma mem_map_filter: "y \<in> set (List.map_filter f xs) \<longleftrightarrow> (\<exists>x \<in> set xs. f x = Some y)"
  by (induction xs) (auto simp: List.map_filter_simps split: option.split)

lemma sentence_ends_range: "e \<in> set (sentence_ends content blk) \<Longrightarrow> fst blk < e \<and> e \<le> snd blk"
  by (auto simp: sentence_ends_def mem_map_filter dest!: sentence_end_at_range)

text \<open>A closing quote after a terminator is no terminator, so the ends are in order.\<close>

lemma sentence_end_at_mono:
  assumes "sentence_end_at content stop i = Some j" "sentence_end_at content stop i' = Some j'" "i < i'"
    "i' < stop"
  shows "j < j'"
proof (cases "i' = i + 1")
  case True
  then have "content ! (i + 1) \<in> set ''.!?''" using assms(2) by (auto simp: sentence_end_at_def split: if_splits)
  then have "content ! (i + 1) \<notin> {CHR 0x22, CHR 0x27, CHR 0x29}" by auto
  then have "j = i + 1" using assms(1) by (auto simp: sentence_end_at_def Let_def split: if_splits)
  then show ?thesis using sentence_end_at_range [OF assms(2,4)] True by simp
next
  case False
  have "j \<le> i + 2" using assms(1) by (auto simp: sentence_end_at_def Let_def split: if_splits)
  then show ?thesis using sentence_end_at_range [OF assms(2,4)] False assms(3) by simp
qed

lemma sentence_ends_sorted: "sorted (sentence_ends content blk)"
proof -
  have "sorted (List.map_filter (sentence_end_at content stop) is)"
    if "sorted_wrt (<) is" "\<forall>i \<in> set is. i < stop" for "is" stop
    using that
  proof (induction "is")
    case (Cons i "is")
    have "j \<le> j'" if j: "sentence_end_at content stop i = Some j"
        "j' \<in> set (List.map_filter (sentence_end_at content stop) is)" for j j'
      using Cons.prems j sentence_end_at_mono [OF j(1)]
      by (fastforce simp: mem_map_filter intro: less_imp_le)
    with Cons show ?case by (auto simp: List.map_filter_simps split: option.split)
  qed (simp add: List.map_filter_simps)
  then show ?thesis by (simp add: sentence_ends_def)
qed

lemma sentence_loop_tiles:
  assumes "sentence_loop content b (out, start, lst) ends = Some (out', start', lst')"
    "tiles u out start" "start \<le> lst" "lst - start \<le> hard_max b" "sorted (lst # ends)"
    "\<forall>e \<in> set ends. e \<le> length content" "lst \<le> length content" "list_all (within (hard_max b)) out"
  shows "tiles u out' start' \<and> start' \<le> lst' \<and> lst' \<in> set (lst # ends)
    \<and> list_all (within (hard_max b)) out'"
  using assms
proof (induction ends arbitrary: out start lst)
  case (Cons e ends)
  let ?break = "e - start > ceiling_b b \<and> lst > start"
  let ?out = "if ?break then out @ [(start, lst)] else out" and ?start = "if ?break then lst else start"
  obtain out1 start1 where cut: "hard_cut content (hard_max b) e ?out ?start = Some (out1, start1)"
      and rest: "sentence_loop content b (out1, start1, e) ends = Some (out', start', lst')"
    using Cons.prems(1) by (auto simp: sentence_step_def Let_def split: option.splits if_splits)
  have e: "e \<le> length content" "lst \<le> e" using Cons.prems by auto
  have t: "tiles u ?out ?start" "?start \<le> e" using Cons.prems e by auto
  have "within (hard_max b) (start, lst)" using Cons.prems by (simp add: within_def)
  then have w: "list_all (within (hard_max b)) ?out" using Cons.prems by simp
  from hard_cut_returns_tiles [OF cut e(1) t] hard_cut_within [OF cut w]
  have "tiles u out1 start1" "start1 \<le> e" "e - start1 \<le> hard_max b" "list_all (within (hard_max b)) out1"
    by auto
  from Cons.IH [OF rest this(1-3) _ _ _ this(4)] Cons.prems e show ?case by auto
qed simp

lemma cut_on_sentences_tiles:
  assumes "cut_on_sentences content blk b = Some spans" "fst blk < snd blk" "snd blk \<le> length content"
  shows "tiles (fst blk) spans (snd blk)" "list_all (within (hard_max b)) spans"
proof -
  obtain out start lst where loop:
      "sentence_loop content b ([], fst blk, fst blk) (sentence_ends content blk) = Some (out, start, lst)"
    using assms(1) by (auto simp: cut_on_sentences_def split: option.splits)
  have range: "fst blk \<le> e" "e \<le> snd blk" "e \<le> length content" if "e \<in> set (sentence_ends content blk)" for e
    using sentence_ends_range [OF that] assms(3) by simp_all
  have ends: "\<forall>e \<in> set (sentence_ends content blk). e \<le> length content"
      "sorted (fst blk # sentence_ends content blk)"
    using range sentence_ends_sorted by simp_all
  have inv: "tiles (fst blk) out start" "start \<le> lst" "lst \<in> set (fst blk # sentence_ends content blk)"
      "list_all (within (hard_max b)) out"
    using sentence_loop_tiles [OF loop, of "fst blk"] ends assms by auto
  then have "start \<le> snd blk" using range(2) assms(2) by fastforce
  show "tiles (fst blk) spans (snd blk)"
  proof (cases "snd blk > start")
    case True
    then obtain out' start' where cut: "hard_cut content (hard_max b) (snd blk) out start = Some (out', start')"
        and spans: "spans = out' @ [(start', snd blk)]"
      using assms(1) loop by (auto simp: cut_on_sentences_def split: option.splits)
    from hard_cut_returns_tiles [OF cut assms(3) inv(1)] True show ?thesis by (simp add: spans)
  next
    case False
    then show ?thesis using assms(1) loop inv \<open>start \<le> snd blk\<close>
      by (auto simp: cut_on_sentences_def split: option.splits)
  qed
  show "list_all (within (hard_max b)) spans"
  proof (cases "snd blk > start")
    case True
    then obtain out' start' where cut: "hard_cut content (hard_max b) (snd blk) out start = Some (out', start')"
        and spans: "spans = out' @ [(start', snd blk)]"
      using assms(1) loop by (auto simp: cut_on_sentences_def split: option.splits)
    from hard_cut_returns_tiles [OF cut assms(3) inv(1)] hard_cut_within [OF cut inv(4)] True
    show ?thesis by (simp add: spans within_def)
  next
    case False
    then show ?thesis using assms(1) loop inv
      by (auto simp: cut_on_sentences_def split: option.splits)
  qed
qed

lemma sentence_loop_returns:
  assumes "rune_dense (hard_max b) content" "\<forall>e \<in> set ends. e \<le> length content"
  shows "sentence_loop content b st ends \<noteq> None"
  using assms(2)
proof (induction ends arbitrary: st)
  case (Cons e ends)
  obtain out start lst where "st = (out, start, lst)" by (cases st)
  moreover have "hard_cut content (hard_max b) e out' start' \<noteq> None" for out' start'
    using hard_cut_returns [OF assms(1)] Cons.prems by simp
  ultimately have "sentence_step content b st e \<noteq> None"
    by (auto simp: sentence_step_def Let_def simp del: not_None_eq split: option.split)
  then show ?case using Cons by auto
qed simp

lemma cut_on_sentences_returns:
  assumes "rune_dense (hard_max b) content" "snd blk \<le> length content"
  shows "cut_on_sentences content blk b \<noteq> None"
proof -
  have "\<forall>e \<in> set (sentence_ends content blk). e \<le> length content"
    using sentence_ends_range assms(2) by (meson le_trans)
  from sentence_loop_returns [OF assms(1) this] show ?thesis
    using hard_cut_returns [OF assms] by (auto simp: cut_on_sentences_def simp del: not_None_eq split: option.split)
qed

section \<open>Sections are subdivided into spans in order\<close>

context line_tiling
begin

lemma split_oversized_tiles:
  assumes "on_lines lines blk" "n = length content" "split_oversized content lines blk b = Some spans"
  shows "tiles (fst blk) spans (snd blk)"
proof -
  have "fst blk < snd blk" "snd blk \<le> length content"
    using assms(1,2) cut_le by (auto simp: on_lines_def)
  then show ?thesis using assms(3) cut_on_lines_tiles [OF assms(1)] cut_on_sentences_tiles(1)
    by (auto simp: split_oversized_def split: if_splits)
qed

lemma size_loop_tiles:
  assumes "size_loop content lines b (out, cur) blks = Some (out', cur')" "n = length content"
    "tiles u out (fst cur)" "fst cur \<le> snd cur" "tiles (snd cur) blks v"
    "\<forall>blk \<in> set blks. on_lines lines blk"
  shows "tiles u (flush_span out' cur') v"
  using assms
proof (induction blks arbitrary: out cur)
  case Nil
  then show ?case by (cases cur) (auto simp: flush_span_def)
next
  case (Cons blk blks)
  obtain c0 c1 where cur: "cur = (c0, c1)" by (cases cur)
  obtain b0 b1 where blk: "blk = (b0, b1)" by (cases blk)
  from Cons.prems cur blk have t: "tiles u out c0" "c0 \<le> c1" "b0 = c1" "b0 < b1" "tiles b1 blks v"
      "on_lines lines blk"
    by auto
  have fl: "tiles u (flush_span out (c0, c1)) c1" using t by (auto simp: flush_span_def)
  obtain out1 cur1 where step: "size_step content lines b (out, cur) blk = Some (out1, cur1)"
      and rest: "size_loop content lines b (out1, cur1) blks = Some (out', cur')"
    using Cons.prems(1) by (auto split: option.splits)
  have "tiles u out1 (fst cur1) \<and> fst cur1 \<le> snd cur1 \<and> snd cur1 = b1"
  proof (cases "b1 - b0 > ceiling_b b")
    case True
    then obtain pieces where p: "split_oversized content lines blk b = Some pieces"
        and r: "out1 = flush_span out (c0, c1) @ pieces" "cur1 = (b1, b1)"
      using step cur blk t
      by (auto simp: size_step_def Let_def flush_span_def split: option.splits if_splits)
    from split_oversized_tiles [OF t(6) Cons.prems(2) p] blk t have "tiles c1 pieces b1" by simp
    with fl r show ?thesis by (simp add: tiles_append)
  next
    case False
    then have "(out1 = flush_span out (c0, c1) \<and> cur1 = (b0, b1)) \<or> (out1 = out \<and> cur1 = (c0, b1))"
      using step cur blk by (auto simp: size_step_def Let_def split: if_splits)
    with fl t show ?thesis by auto
  qed
  with Cons.IH [OF rest Cons.prems(2)] t Cons.prems(6) show ?case by simp
qed

lemma size_path_tiles:
  assumes "on_lines lines sp" "n = length content"
    "size_loop content lines b ([], (fst sp, fst sp)) (blocks_of lines sp) = Some (out, cur)"
  shows "tiles (fst sp) (flush_span out cur) (snd sp)" "flush_span out cur \<noteq> []"
proof -
  show t: "tiles (fst sp) (flush_span out cur) (snd sp)"
    by (rule size_loop_tiles [OF assms(3,2)]) (simp_all add: blocks_of_tiles [OF assms(1)])
  show "flush_span out cur \<noteq> []" using tiles_nonempty [OF t] assms(1) by (simp add: on_lines_def)
qed

text \<open>\<open>subdivide\<close> yields spans in order, and they tile the section exactly when the
  key/value groups of its blocks abut.\<close>

lemma subdivide_spans:
  assumes sp: "on_lines lines sp" and n: "n = length content" and r: "subdivide ut content lines sp b = Some spans"
  shows "in_order (fst sp) spans (snd sp)"
    and "tiles (fst sp) spans (snd sp) \<longleftrightarrow> list_all (groups_abut ut lines) (blocks_of lines sp)"
proof -
  have "in_order (fst sp) spans (snd sp)
    \<and> (tiles (fst sp) spans (snd sp) \<longleftrightarrow> list_all (groups_abut ut lines) (blocks_of lines sp))"
  proof (cases "split_homogeneous_blocks ut lines sp")
    case (Some hs)
    then show ?thesis using homogeneous_spans(1,2) [OF sp Some] r by (simp add: subdivide_def)
  next
    case None
    have "list_all (groups_abut ut lines) (blocks_of lines sp)"
      using homogeneous_spans(3) [OF sp None] by (auto simp: list_all_iff groups_abut_def)
    moreover have "tiles (fst sp) spans (snd sp)"
    proof (cases "isolate_fenced_blocks lines sp b")
      case (Some fs)
      then show ?thesis using isolate_spans [OF sp Some] None r by (simp add: subdivide_def)
    next
      case iso: None
      have "fst sp < snd sp" using sp by (simp add: on_lines_def)
      with None iso r show ?thesis using size_path_tiles [OF sp n]
        by (auto simp: subdivide_def Let_def split: if_splits option.splits)
    qed
    ultimately show ?thesis using tiles_in_order by blast
  qed
  then show "in_order (fst sp) spans (snd sp)"
    and "tiles (fst sp) spans (snd sp) \<longleftrightarrow> list_all (groups_abut ut lines) (blocks_of lines sp)"
    by blast+
qed

end

section \<open>The lines and sections of a document\<close>

lemma section_span_sel [simp]: "fst (section_span s) = s_start s" "snd (section_span s) = s_end s"
  by (simp_all add: section_span_def)

lemma raw_lines_tile: "tiles off (map line_span (raw_lines off s)) (off + length s)"
proof (induction off s rule: raw_lines.induct)
  case (1 off s)
  show ?case
  proof (cases "s = []")
    case False
    let ?k = "line_break s"
    have k: "0 < ?k" "?k \<le> length s" using line_break_pos [OF False] line_break_le by simp_all
    then have "tiles (off + ?k) (map line_span (raw_lines (off + ?k) (drop ?k s))) (off + length s)"
      using 1 [OF False] by simp
    then have "tiles off ((off, off + ?k) # map line_span (raw_lines (off + ?k) (drop ?k s))) (off + length s)"
      using k by simp
    then show ?thesis using False by (subst raw_lines.simps) (simp add: line_span_simp)
  qed (simp add: raw_lines.simps)
qed

lemma protect_lines_span: "map line_span (protect_lines i fence front lns) = map line_span lns"
  by (induction i fence front lns rule: protect_lines.induct) (simp_all add: Let_def line_span_def)

lemma scan_lines_tile: "tiles 0 (map line_span (scan_lines content)) (length content)"
  using raw_lines_tile [of 0 content] by (simp add: scan_lines_def Let_def protect_lines_span)

interpretation scanned: line_tiling "scan_lines content" "length content" for content
  by unfold_locales (rule scan_lines_tile)

lemma map_filter_index:
  "(\<And>i m. g i = Some m \<Longrightarrow> k m = i) \<Longrightarrow> map k (List.map_filter g is) = filter (\<lambda>i. g i \<noteq> None) is"
  by (induction "is") (auto simp: List.map_filter_simps split: option.split)

lemma mark_indices:
  "sorted_wrt (<) (map m_line (marks_of f lns))" "m \<in> set (marks_of f lns) \<Longrightarrow> m_line m < length lns"
proof -
  have eq: "map m_line (marks_of f lns) = filter (\<lambda>i. heading_at f lns i \<noteq> None) [0..<length lns]"
    unfolding marks_of_def by (subst map_filter_index) auto
  show "sorted_wrt (<) (map m_line (marks_of f lns))" unfolding eq by (intro sorted_wrt_filter) simp
  assume "m \<in> set (marks_of f lns)"
  then have "m_line m \<in> set (map m_line (marks_of f lns))" by simp
  then show "m_line m < length lns" unfolding eq by simp
qed

context line_tiling
begin

lemma line_start:
  assumes "i < length lines"
  shows "l_start (lines ! i) < n" "l_start (lines ! i) \<in> cut_points 0 (map line_span lines)"
  using tiles_nth [OF lines_tile, of i] assms by (simp_all add: line_span_def)

lemma line_start_less: "i < j \<Longrightarrow> j < length lines \<Longrightarrow> l_start (lines ! i) < l_start (lines ! j)"
  using tiles_nth_less [OF lines_tile, of i j] by (simp add: line_span_def)

lemma line_start_first: "lines \<noteq> [] \<Longrightarrow> l_start (lines ! 0) = 0"
  using lines_tile by (cases lines) (auto simp: line_span_def)

lemma document_end: "lines \<noteq> [] \<Longrightarrow> n \<in> cut_points 0 (map line_span lines)"
  using lines_tile by (cases lines rule: rev_cases) (auto simp: line_span_def cut_points_def)

lemma mark_sections_tile:
  assumes "sorted_wrt (<) (map m_line (m # ms))" "\<forall>x \<in> set (m # ms). m_line x < length lines"
  shows "tiles (l_start (lines ! m_line m)) (map section_span (mark_sections lines n anc (m # ms))) n
    \<and> (\<forall>s \<in> set (mark_sections lines n anc (m # ms)). on_lines lines (section_span s))"
  using assms
proof (induction ms arbitrary: m anc)
  case Nil
  then have "m_line m < length lines" by simp
  moreover from this have "lines \<noteq> []" by auto
  ultimately show ?case using line_start document_end
    by (auto simp: on_lines_def tiles_Cons split: prod.split)
next
  case (Cons m' ms)
  let ?anc = "snd (path_of_mark anc m)"
  have i: "m_line m < m_line m'" "m_line m' < length lines" using Cons.prems by auto
  have "tiles (l_start (lines ! m_line m')) (map section_span (mark_sections lines n ?anc (m' # ms))) n
    \<and> (\<forall>s \<in> set (mark_sections lines n ?anc (m' # ms)). on_lines lines (section_span s))"
    by (rule Cons.IH) (use Cons.prems in auto)
  moreover have "l_start (lines ! m_line m) < l_start (lines ! m_line m')" using line_start_less i by simp
  ultimately show ?case using line_start(2) i
    by (auto simp: on_lines_def tiles_Cons split: prod.split simp del: mark_sections.simps(2)
          simp: mark_sections.simps(2) [of lines n anc m])
qed

lemma sections_tile:
  assumes "lines \<noteq> []"
  shows "tiles 0 (map section_span (sections_of lines n f)) n"
    and "\<forall>s \<in> set (sections_of lines n f). on_lines lines (section_span s)"
proof -
  have "tiles 0 (map section_span (sections_of lines n f)) n
    \<and> (\<forall>s \<in> set (sections_of lines n f). on_lines lines (section_span s))"
  proof (cases "marks_of f lines")
    case Nil
    have "0 < n" using lines_tile assms tiles_bounds by (cases lines) (fastforce simp: line_span_def)+
    with Nil show ?thesis using document_end [OF assms]
      by (simp add: sections_of_def tiles_Cons on_lines_def cut_points_def)
  next
    case (Cons m ms)
    have sec: "tiles (l_start (lines ! m_line m)) (map section_span (mark_sections lines n [] (m # ms))) n
      \<and> (\<forall>s \<in> set (mark_sections lines n [] (m # ms)). on_lines lines (section_span s))"
      using mark_indices(1) [of f lines] mark_indices(2) [of _ f lines] Cons
      by (intro mark_sections_tile) simp_all
    have m: "m_line m < length lines" using mark_indices(2) [of m f lines] Cons by simp
    show ?thesis
    proof (cases "m_line m = 0")
      case True
      with sec Cons line_start_first [OF assms] show ?thesis
        by (simp add: sections_of_def del: mark_sections.simps)
    next
      case False
      then have "0 < l_start (lines ! m_line m)"
        using line_start_less [of 0 "m_line m"] m line_start_first [OF assms] by simp
      with sec Cons False line_start(2) [OF m] show ?thesis
        by (simp add: sections_of_def tiles_Cons on_lines_def cut_points_def del: mark_sections.simps)
    qed
  qed
  then show "tiles 0 (map section_span (sections_of lines n f)) n"
    and "\<forall>s \<in> set (sections_of lines n f). on_lines lines (section_span s)" by blast+
qed

lemma merge_loop_tile:
  assumes "tiles a (map section_span (prev # ss)) n"
    "\<forall>s \<in> set (prev # ss). on_lines lines (section_span s)"
  shows "tiles a (map section_span (merge_loop b prev ss)) n
    \<and> (\<forall>s \<in> set (merge_loop b prev ss). on_lines lines (section_span s))"
  using assms
proof (induction ss arbitrary: a prev)
  case (Cons s ss)
  show ?case
  proof (cases "s_end prev - s_start prev < floor_b b \<and> s_end s - s_start prev \<le> ceiling_b b")
    case True
    have "tiles a (map section_span (prev\<lparr>s_end := s_end s\<rparr> # ss)) n"
      "on_lines lines (section_span (prev\<lparr>s_end := s_end s\<rparr>))"
      using Cons.prems by (auto simp: tiles_Cons on_lines_def)
    with Cons.IH [of a "prev\<lparr>s_end := s_end s\<rparr>"] Cons.prems True show ?thesis by simp
  next
    case False
    with Cons.IH [of "s_end prev" s] Cons.prems show ?thesis by (auto simp: tiles_Cons)
  qed
qed simp

end

section \<open>The passages of a document\<close>

definition passage_span :: "passage \<Rightarrow> span" where
  "passage_span p = (p_start p, p_end p)"

definition numbered :: "string \<Rightarrow> passage list \<Rightarrow> bool" where
  "numbered content ps \<longleftrightarrow>
     map p_ordinal ps = [0..<length ps] \<and> map p_body ps = map (slice content) (map passage_span ps)"

definition emit :: "string \<Rightarrow> doc_section \<Rightarrow> passage list \<Rightarrow> span list \<Rightarrow> passage list" where
  "emit content s out spans = foldl (\<lambda>out sp. out @ [passage_of content s (length out) sp]) out spans"

lemma emit_spans: "map passage_span (emit content s out spans) = map passage_span out @ spans"
  by (induction spans arbitrary: out) (simp_all add: emit_def passage_of_def passage_span_def)

lemma emit_numbered: "numbered content out \<Longrightarrow> numbered content (emit content s out spans)"
proof (induction spans arbitrary: out)
  case (Cons sp spans)
  have "numbered content (out @ [passage_of content s (length out) sp])"
    using Cons.prems by (simp add: numbered_def passage_of_def passage_span_def)
  from Cons.IH [OF this] show ?case by (simp add: emit_def)
qed (simp add: emit_def)

context line_tiling
begin

lemma passage_loop_spans:
  assumes "passage_loop ut content lines b out ss = Some ps" "n = length content"
    "in_order 0 (map passage_span out) a" "tiles a (map section_span ss) n"
    "\<forall>s \<in> set ss. on_lines lines (section_span s)" "numbered content out"
  shows "in_order 0 (map passage_span ps) n" "numbered content ps"
    "tiles 0 (map passage_span ps) n \<longleftrightarrow> tiles 0 (map passage_span out) a
       \<and> list_all (\<lambda>s. list_all (groups_abut ut lines) (blocks_of lines (section_span s))) ss"
proof -
  have "in_order 0 (map passage_span ps) n \<and> numbered content ps
    \<and> (tiles 0 (map passage_span ps) n \<longleftrightarrow> tiles 0 (map passage_span out) a
       \<and> list_all (\<lambda>s. list_all (groups_abut ut lines) (blocks_of lines (section_span s))) ss)"
    using assms
  proof (induction ss arbitrary: out a)
    case (Cons s ss)
    obtain spans where sub: "subdivide ut content lines (section_span s) b = Some spans"
        and rest: "passage_loop ut content lines b (emit content s out spans) ss = Some ps"
      using Cons.prems(1) by (auto simp: emit_def split: option.splits)
    have sp: "on_lines lines (section_span s)" "s_start s = a" "tiles (s_end s) (map section_span ss) n"
      using Cons.prems by (auto simp: tiles_Cons)
    have o: "in_order a spans (s_end s)"
      using subdivide_spans(1) [OF sp(1) Cons.prems(2) sub] sp(2) by simp
    have t: "tiles a spans (s_end s) \<longleftrightarrow> list_all (groups_abut ut lines) (blocks_of lines (section_span s))"
      using subdivide_spans(2) [OF sp(1) Cons.prems(2) sub] sp(2) by simp
    have out: "in_order 0 (map passage_span (emit content s out spans)) (s_end s)"
      using in_order_append [OF Cons.prems(3) o] by (simp add: emit_spans)
    note ih = Cons.IH [OF rest Cons.prems(2) out sp(3) _ emit_numbered [OF Cons.prems(6)]]
    show ?case using ih Cons.prems(5) tiles_append_iff [OF Cons.prems(3) o] t
      by (auto simp: emit_spans)
  qed auto
  then show "in_order 0 (map passage_span ps) n" "numbered content ps"
    "tiles 0 (map passage_span ps) n \<longleftrightarrow> tiles 0 (map passage_span out) a
       \<and> list_all (\<lambda>s. list_all (groups_abut ut lines) (blocks_of lines (section_span s))) ss"
    by blast+
qed

end

lemma scan_lines_nonempty: "content \<noteq> [] \<Longrightarrow> scan_lines content \<noteq> []"
  using scan_lines_tile [of content] by auto

lemma document_sections_tile:
  assumes "content \<noteq> []"
  shows "tiles 0 (map section_span (document_sections content b f)) (length content)"
    "\<forall>s \<in> set (document_sections content b f). on_lines (scan_lines content) (section_span s)"
proof -
  note sec = scanned.sections_tile [OF scan_lines_nonempty [OF assms], of f]
  have "tiles 0 (map section_span (document_sections content b f)) (length content)
    \<and> (\<forall>s \<in> set (document_sections content b f). on_lines (scan_lines content) (section_span s))"
  proof (cases "sections_of (scan_lines content) (length content) f")
    case Nil
    with sec assms show ?thesis by simp
  next
    case (Cons s ss)
    with sec have "tiles 0 (map section_span (s # ss)) (length content)"
      "\<forall>s \<in> set (s # ss). on_lines (scan_lines content) (section_span s)" by simp_all
    from scanned.merge_loop_tile [OF this, of b] Cons show ?thesis
      by (simp add: document_sections_def merge_small_sections_def)
  qed
  then show "tiles 0 (map section_span (document_sections content b f)) (length content)"
    "\<forall>s \<in> set (document_sections content b f). on_lines (scan_lines content) (section_span s)" by blast+
qed

lemma split_passages_spans:
  assumes "split_passages_bounded ut content b f = Some ps"
  shows "in_order 0 (map passage_span ps) (length content)" "numbered content ps"
    "tiles 0 (map passage_span ps) (length content) \<longleftrightarrow>
       content = [] \<or> list_all (\<lambda>s. list_all (groups_abut ut (scan_lines content))
         (blocks_of (scan_lines content) (section_span s))) (document_sections content b f)"
proof -
  have nil: "numbered content []" by (simp add: numbered_def)
  have "in_order 0 (map passage_span ps) (length content) \<and> numbered content ps
    \<and> (tiles 0 (map passage_span ps) (length content) \<longleftrightarrow>
       content = [] \<or> list_all (\<lambda>s. list_all (groups_abut ut (scan_lines content))
         (blocks_of (scan_lines content) (section_span s))) (document_sections content b f))"
  proof (cases "content = []")
    case True
    then show ?thesis using assms nil by (simp add: split_passages_bounded_def)
  next
    case False
    then have run: "passage_loop ut content (scan_lines content) b [] (document_sections content b f) = Some ps"
      using assms by (simp add: split_passages_bounded_def)
    from scanned.passage_loop_spans [OF run refl _ document_sections_tile [OF False] nil] False
    show ?thesis by simp
  qed
  then show "in_order 0 (map passage_span ps) (length content)" "numbered content ps"
    "tiles 0 (map passage_span ps) (length content) \<longleftrightarrow>
       content = [] \<or> list_all (\<lambda>s. list_all (groups_abut ut (scan_lines content))
         (blocks_of (scan_lines content) (section_span s))) (document_sections content b f)"
    by blast+
qed

section \<open>When the splitter returns\<close>

context line_tiling
begin

lemma subdivide_returns:
  assumes sp: "on_lines lines sp" and n: "n = length content" and dense: "rune_dense (hard_max b) content"
  shows "subdivide ut content lines sp b \<noteq> None"
proof -
  have "size_loop content lines b st blks \<noteq> None" if "\<forall>blk \<in> set blks. on_lines lines blk" for st blks
    using that
  proof (induction blks arbitrary: st)
    case (Cons blk blks)
    then have "snd blk \<le> length content" using cut_le [of "snd blk"] n by (auto simp: on_lines_def)
    then have "split_oversized content lines blk b \<noteq> None"
      using cut_on_sentences_returns [OF dense] by (auto simp: split_oversized_def simp del: not_None_eq)
    then have "size_step content lines b st blk \<noteq> None"
      by (auto simp: size_step_def Let_def simp del: not_None_eq split: option.split prod.split)
    with Cons show ?case by auto
  qed simp
  then have "size_loop content lines b ([], (fst sp, fst sp)) (blocks_of lines sp) \<noteq> None"
    using blocks_of_tiles(2) [OF sp] by blast
  then show ?thesis
    by (auto simp: subdivide_def Let_def simp del: not_None_eq split: option.split)
qed

lemma passage_loop_returns:
  assumes "\<forall>s \<in> set ss. on_lines lines (section_span s)" "n = length content" "rune_dense (hard_max b) content"
  shows "passage_loop ut content lines b out ss \<noteq> None"
  using assms(1)
proof (induction ss arbitrary: out)
  case (Cons s ss)
  then have "subdivide ut content lines (section_span s) b \<noteq> None"
    using subdivide_returns [OF _ assms(2,3)] by simp
  with Cons show ?case by auto
qed simp

end

lemma split_passages_bounded_returns:
  assumes "rune_dense (hard_max b) content"
  shows "split_passages_bounded ut content b f \<noteq> None"
proof (cases "content = []")
  case False
  from scanned.passage_loop_returns [OF document_sections_tile(2) [OF False] refl assms]
  show ?thesis using False by (simp add: split_passages_bounded_def del: not_None_eq)
qed (simp add: split_passages_bounded_def)

text \<open>\<open>utf8.Valid\<close>\<close>

function utf8_valid :: "string \<Rightarrow> bool" where
  "utf8_valid s \<longleftrightarrow>
     (if s = [] then True
      else decode_rune s \<noteq> (rune_error, 1) \<and> utf8_valid (drop (snd (decode_rune s)) s))"
  by pat_completeness auto
termination
proof (relation "measure length")
  fix s :: string
  assume "s \<noteq> []"
  with decode_rune_width [of s] show "(drop (snd (decode_rune s)) s, s) \<in> measure length" by auto
qed simp

declare utf8_valid.simps [simp del]

lemma decode_rune_valid:
  assumes "s \<noteq> []" "decode_rune s \<noteq> (rune_error, 1)"
  shows "rune_start (hd s)" "snd (decode_rune s) \<le> 4"
  using assms by (cases s; auto simp: decode_rune_def decode_bytes_def rune_start_def is_cont_def
      split: list.splits if_splits)+

lemma utf8_window:
  "utf8_valid s \<Longrightarrow> i + 4 \<le> length s \<Longrightarrow> \<exists>j < 4. rune_start (s ! (i + j))"
proof (induction s arbitrary: i rule: utf8_valid.induct)
  case (1 s)
  let ?w = "snd (decode_rune s)"
  have ne: "s \<noteq> []" using 1 by auto
  then have ok: "decode_rune s \<noteq> (rune_error, 1)" "utf8_valid (drop ?w s)"
    using 1 by (auto simp: utf8_valid.simps [of s])
  have w: "1 \<le> ?w" "?w \<le> 4" using decode_rune_width [OF ne] decode_rune_valid [OF ne ok(1)] by auto
  consider "i = 0" | "0 < i" "i < ?w" | "?w \<le> i" by linarith
  then show ?case
  proof cases
    case 1
    then show ?thesis using decode_rune_valid(1) [OF ne ok(1)] ne by (auto simp: hd_conv_nth intro!: exI [of _ 0])
  next
    case 2
    then have ne': "drop ?w s \<noteq> []" using \<open>i + 4 \<le> length s\<close> w by simp
    with ok(2) have "decode_rune (drop ?w s) \<noteq> (rune_error, 1)" by (auto simp: utf8_valid.simps [of "drop ?w s"])
    from decode_rune_valid(1) [OF ne' this] ne' have "rune_start (s ! ?w)" by (simp add: hd_drop_conv_nth)
    then show ?thesis using 2 w by (intro exI [of _ "?w - i"]) auto
  next
    case 3
    have "\<exists>j < 4. rune_start (drop ?w s ! (i - ?w + j))"
      using "1.IH" [OF ne ok(2), of "i - ?w"] 3 "1.prems"(2) by simp
    then show ?thesis using 3 "1.prems"(2) by (auto simp: add.assoc)
  qed
qed

lemma utf8_rune_dense:
  assumes "utf8_valid content" "4 \<le> k"
  shows "rune_dense k content"
proof -
  have "list_ex rune_start (take k (drop i content))" if "i + k \<le> length content" for i
  proof -
    have "i + 4 \<le> length content" using that assms(2) by simp
    then obtain j where "j < 4" "rune_start (content ! (i + j))"
      using utf8_window [OF assms(1)] by blast
    then show ?thesis using that assms(2) by (auto simp: list_ex_length intro!: exI [of _ j])
  qed
  then show ?thesis by (auto simp: rune_dense_def list_all_iff)
qed

section \<open>Heading paths\<close>

text \<open>The headings still open after a list of marks: those all later marks are deeper than.\<close>

fun open_headings :: "mark list \<Rightarrow> mark list" where
  "open_headings [] = []"
| "open_headings (m # ms) =
     (if list_all (\<lambda>x. m_level m < m_level x) ms then m # open_headings ms else open_headings ms)"

lemma set_open_headings: "set (open_headings ms) \<subseteq> set ms"
  by (induction ms) auto

lemma open_headings_increasing: "sorted_wrt (\<lambda>a b. m_level a < m_level b) (open_headings ms)"
proof (induction ms)
  case (Cons m ms)
  then show ?case using set_open_headings [of ms] by (auto simp: list_all_iff)
qed simp

lemma open_headings_snoc:
  "open_headings (ms @ [m]) = filter (\<lambda>a. m_level a < m_level m) (open_headings ms) @ [m]"
  by (induction ms) auto

lemma pop_marks_filter:
  assumes "sorted_wrt (\<lambda>a b. m_level a < m_level b) st"
  shows "pop_marks l st = filter (\<lambda>a. m_level a < l) st"
  using assms
proof (induction st rule: rev_induct)
  case (snoc x xs)
  show ?case
  proof (cases "l \<le> m_level x")
    case True
    then show ?thesis using snoc by (simp add: pop_marks_def sorted_wrt_append)
  next
    case False
    then have "\<forall>a \<in> set xs. m_level a < l" using snoc.prems by (auto simp: sorted_wrt_append)
    then show ?thesis using False by (simp add: pop_marks_def)
  qed
qed (simp add: pop_marks_def)

lemma path_of_mark_open:
  "path_of_mark (open_headings ms) m = (map m_heading (open_headings (ms @ [m])), open_headings (ms @ [m]))"
  by (simp add: path_of_mark_def pop_marks_filter [OF open_headings_increasing] open_headings_snoc Let_def)

lemma mark_sections_paths:
  "map s_path (mark_sections lines total_len (open_headings pre) ms)
     = map (\<lambda>i. map m_heading (open_headings (pre @ take (Suc i) ms))) [0..<length ms]"
proof (induction ms arbitrary: pre)
  case (Cons m ms)
  have "map (\<lambda>i. map m_heading (open_headings (pre @ take (Suc i) (m # ms)))) [0..<length (m # ms)]
    = map m_heading (open_headings (pre @ [m]))
      # map (\<lambda>i. map m_heading (open_headings ((pre @ [m]) @ take (Suc i) ms))) [0..<length ms]"
    by (simp add: upt_rec [of 0] map_Suc_upt [symmetric] del: upt_Suc)
  then show ?case using Cons [of "pre @ [m]"] by (simp add: path_of_mark_open del: upt_Suc)
qed simp

section \<open>Sizes\<close>

lemma unfenced_blocks: "list_all (\<lambda>ln. \<not> l_protected ln) lines \<Longrightarrow> \<not> block_is_fenced lines blk"
  by (auto simp: block_is_fenced_def list_all_iff list_ex_iff)

context line_tiling
begin

lemma size_loop_within:
  assumes "size_loop content lines b (out, cur) blks = Some (out', cur')" "n = length content"
    "list_all (\<lambda>ln. \<not> l_protected ln) lines" "ceiling_b b \<le> hard_max b"
    "list_all (within (hard_max b)) out" "fst cur \<le> snd cur" "snd cur - fst cur \<le> ceiling_b b"
    "tiles (snd cur) blks v" "\<forall>blk \<in> set blks. on_lines lines blk"
  shows "list_all (within (hard_max b)) (flush_span out' cur')"
  using assms
proof (induction blks arbitrary: out cur)
  case Nil
  then show ?case by (simp add: flush_span_def within_def)
next
  case (Cons blk blks)
  obtain c0 c1 where cur: "cur = (c0, c1)" by (cases cur)
  obtain b0 b1 where blk: "blk = (b0, b1)" by (cases blk)
  from Cons.prems cur blk have t: "c0 \<le> c1" "c1 - c0 \<le> ceiling_b b" "b0 = c1" "b0 < b1" "tiles b1 blks v"
      "on_lines lines blk"
    by auto
  have fl: "list_all (within (hard_max b)) (flush_span out (c0, c1))"
    using Cons.prems(4,5) t by (simp add: flush_span_def within_pair)
  obtain out1 cur1 where step: "size_step content lines b (out, cur) blk = Some (out1, cur1)"
      and rest: "size_loop content lines b (out1, cur1) blks = Some (out', cur')"
    using Cons.prems(1) by (auto split: option.splits)
  have "list_all (within (hard_max b)) out1 \<and> fst cur1 \<le> snd cur1 \<and> snd cur1 = b1
      \<and> snd cur1 - fst cur1 \<le> ceiling_b b"
  proof (cases "b1 - b0 > ceiling_b b")
    case True
    then obtain pieces where p: "cut_on_sentences content blk b = Some pieces"
        and r: "out1 = flush_span out (c0, c1) @ pieces" "cur1 = (b1, b1)"
      using step cur blk t unfenced_blocks [OF Cons.prems(3)]
      by (auto simp: size_step_def split_oversized_def Let_def flush_span_def split: option.splits if_splits)
    have "snd blk \<le> length content" using t(6) cut_le Cons.prems(2) by (auto simp: on_lines_def)
    then have "list_all (within (hard_max b)) pieces"
      using cut_on_sentences_tiles(2) [OF p] blk t by simp
    with fl r show ?thesis by simp
  next
    case False
    then have "(out1 = flush_span out (c0, c1) \<and> cur1 = (b0, b1)) \<or>
        (out1 = out \<and> cur1 = (c0, b1) \<and> (c0 = c1 \<or> (c1 - c0) + (b1 - b0) \<le> ceiling_b b))"
      using step cur blk t by (auto simp: size_step_def Let_def split: if_splits)
    with fl t False Cons.prems(5) show ?thesis by auto
  qed
  then have o1: "list_all (within (hard_max b)) out1" and c1: "fst cur1 \<le> snd cur1"
      and w1: "snd cur1 = b1" and l1: "snd cur1 - fst cur1 \<le> ceiling_b b"
    by blast+
  from Cons.IH [OF rest Cons.prems(2-4) o1 c1 l1] w1 t Cons.prems(9) show ?case by simp
qed

lemma subdivide_within:
  assumes sp: "on_lines lines sp" and n: "n = length content" and r: "subdivide ut content lines sp b = Some spans"
    and plain: "list_all (\<lambda>ln. \<not> l_protected ln) lines" and b: "ceiling_b b \<le> hard_max b"
  shows "list_all (within (hard_max b)) spans"
proof -
  note unf = unfenced_blocks [OF plain]
  have "list_all (\<lambda>blk. key_value_groups ut lines blk = None) (blocks_of lines sp)"
    using unf by (simp add: key_value_groups_def list_all_iff)
  then have hom: "split_homogeneous_blocks ut lines sp = None"
  proof -
    have "foldl (homogeneous_step ut lines) st bs = st"
      if "list_all (\<lambda>blk. key_value_groups ut lines blk = None) bs" for st bs
      using that by (induction bs) (simp_all add: homogeneous_step_def)
    then show ?thesis using \<open>list_all _ (blocks_of lines sp)\<close> by (simp add: split_homogeneous_blocks_def)
  qed
  have iso: "isolate_fenced_blocks lines sp b = None" using unf by (simp add: isolate_fenced_blocks_def)
  show ?thesis
  proof (cases "snd sp - fst sp \<le> ceiling_b b")
    case True
    then show ?thesis using r hom iso b by (auto simp: subdivide_def within_def)
  next
    case False
    then obtain out cur where run: "size_loop content lines b ([], (fst sp, fst sp)) (blocks_of lines sp) = Some (out, cur)"
        and spans: "spans = flush_span out cur"
      using r hom iso size_path_tiles(2) [OF sp n] by (auto simp: subdivide_def Let_def split: option.splits)
    show ?thesis unfolding spans
      by (rule size_loop_within [OF run n plain b, where v = "snd sp"]) (simp_all add: blocks_of_tiles [OF sp])
  qed
qed

lemma passage_loop_within:
  assumes "passage_loop ut content lines b out ss = Some ps" "n = length content"
    "\<forall>s \<in> set ss. on_lines lines (section_span s)" "list_all (\<lambda>p. within (hard_max b) (passage_span p)) out"
    "list_all (\<lambda>ln. \<not> l_protected ln) lines" "ceiling_b b \<le> hard_max b"
  shows "list_all (\<lambda>p. within (hard_max b) (passage_span p)) ps"
  using assms
proof (induction ss arbitrary: out)
  case (Cons s ss)
  obtain spans where sub: "subdivide ut content lines (section_span s) b = Some spans"
      and rest: "passage_loop ut content lines b (emit content s out spans) ss = Some ps"
    using Cons.prems(1) by (auto simp: emit_def split: option.splits)
  have "list_all (within (hard_max b)) spans"
    using subdivide_within [OF _ Cons.prems(2) sub Cons.prems(5,6)] Cons.prems(3) by simp
  moreover have "list_all (within (hard_max b)) (map passage_span out)"
    using Cons.prems(4) by (simp add: list.pred_map comp_def)
  ultimately have "list_all (within (hard_max b)) (map passage_span (emit content s out spans))"
    by (simp add: emit_spans)
  then have "list_all (\<lambda>p. within (hard_max b) (passage_span p)) (emit content s out spans)"
    by (simp add: list.pred_map comp_def)
  with Cons.IH [OF rest Cons.prems(2)] Cons.prems(3,5,6) show ?case by simp
qed simp

end

section \<open>Properties\<close>

definition newline :: string where
  "newline = [CHR 0x0A]"

text \<open>Small bounds and documents for the witnesses.\<close>

definition demo_bounds :: passage_bounds where
  "demo_bounds = \<lparr> ceiling_b = 8, floor_b = 4, hard_max = 12 \<rparr>"

definition demo_prose :: string where
  "demo_prose = ''# A'' @ newline @ ''One. Two two two.'' @ newline"

definition demo_keys :: string where
  "demo_keys = ''```'' @ newline @ ''A_X=1'' @ newline @ ''# c'' @ newline @ ''B=2'' @ newline @ ''C=3''
     @ newline @ ''```'' @ newline"

text \<open>C7: Whatever the splitter returns, the passages are non-empty byte spans of the document in
  order and without overlap, numbered from zero, and each body is exactly the bytes of its
  span.\<close>

theorem passages_in_order:
  assumes "split_passages_bounded ut content b f = Some ps"
  shows "in_order 0 (map passage_span ps) (length content) \<and> map p_ordinal ps = [0..<length ps]
    \<and> map p_body ps = map (slice content) (map passage_span ps)"
  using split_passages_spans(1,2) [OF assms] by (simp add: numbered_def)

text \<open>C8: Concatenating the passage bodies gives back the document exactly when, in every block of
  every section, the key/value groups follow each other without a gap; a comment or blank line between
  two groups of a key/value block is in no passage.\<close>

theorem passages_tile_iff:
  assumes "split_passages_bounded ut content b f = Some ps"
  shows "concat (map p_body ps) = content \<longleftrightarrow>
    content = [] \<or> list_all (\<lambda>s. list_all (groups_abut ut (scan_lines content))
      (blocks_of (scan_lines content) (section_span s))) (document_sections content b f)"
proof -
  have "map p_body ps = map (slice content) (map passage_span ps)"
    using split_passages_spans(2) [OF assms] by (simp add: numbered_def)
  then show ?thesis
    using slices_content_iff [OF split_passages_spans(1) [OF assms]] split_passages_spans(3) [OF assms]
    by metis
qed

text \<open>C16: On a document in valid UTF-8 the splitter returns, in either format and for any bounds
  whose hard maximum is at least four bytes, the shipped ones among them.\<close>

theorem splitter_returns:
  assumes "utf8_valid content" "4 \<le> hard_max b"
  shows "split_passages_bounded ut content b f \<noteq> None \<and> split_passages ut content f \<noteq> None"
  unfolding split_passages_def
  by (intro conjI split_passages_bounded_returns utf8_rune_dense [OF assms(1)])
    (simp_all add: assms(2) default_bounds_def)

text \<open>In a document with no fenced or front-matter line every passage is at most the hard
  maximum long.\<close>

theorem prose_passages_bounded:
  assumes "split_passages_bounded ut content b f = Some ps"
    and "list_all (\<lambda>ln. \<not> l_protected ln) (scan_lines content)" "ceiling_b b \<le> hard_max b"
  shows "list_all (\<lambda>p. length (p_body p) \<le> hard_max b) ps"
proof (cases "content = []")
  case False
  have run: "passage_loop ut content (scan_lines content) b [] (document_sections content b f) = Some ps"
    using assms(1) False by (simp add: split_passages_bounded_def)
  have w: "list_all (\<lambda>p. within (hard_max b) (passage_span p)) ps"
    using scanned.passage_loop_within [OF run refl document_sections_tile(2) [OF False] _ assms(2,3)] by simp
  show ?thesis
  proof (unfold list_all_iff, rule ballI)
    fix p
    assume p: "p \<in> set ps"
    then have "p_body p = slice content (passage_span p)"
      using split_passages_spans(2) [OF assms(1)] by (auto simp: numbered_def)
    then show "length (p_body p) \<le> hard_max b"
      using w p by (auto simp: list_all_iff within_def slice_def)
  qed
qed (use assms(1) in \<open>simp add: split_passages_bounded_def\<close>)

text \<open>The heading path of every section is the list of the headings still open at it: those
  every later heading up to it, itself included, is strictly deeper than. Text before the first heading
  has the empty path.\<close>

theorem section_paths_open_headings:
  "map s_path (sections_of lines total_len f) =
     (if marks_of f lines = [] \<or> 0 < m_line (hd (marks_of f lines)) then [[]] else [])
     @ map (\<lambda>i. map m_heading (open_headings (take (Suc i) (marks_of f lines))))
         [0..<length (marks_of f lines)]"
proof (cases "marks_of f lines")
  case (Cons m ms)
  then show ?thesis using mark_sections_paths [of lines total_len "[]" "m # ms"]
    by (simp add: sections_of_def del: mark_sections.simps upt_Suc)
qed (simp add: sections_of_def)

section \<open>Witnesses and edge cases\<close>

lemma demo_prose_split:
  "map_option length (split_passages_bounded ascii_tables demo_prose demo_bounds FormatMarkdown) = Some 3"
  by code_simp

lemma demo_keys_split:
  "map_option (concat \<circ> map p_body) (split_passages ascii_tables demo_keys FormatMarkdown)
     = Some (''```'' @ newline @ ''A_X=1'' @ newline @ ''B=2'' @ newline @ ''C=3'' @ newline
             @ ''```'' @ newline)"
  by code_simp

lemma utf8_valid_ascii: "is_ascii s \<Longrightarrow> utf8_valid s"
proof (induction s)
  case (Cons c s)
  then have "byte c < 128" "is_ascii s" by simp_all
  then show ?case using Cons.IH
    by (subst utf8_valid.simps) (simp add: decode_rune_ascii rune_error_def)
qed (simp add: utf8_valid.simps)

theorem passages_in_order_witness:
  "\<exists>ps. split_passages_bounded ascii_tables demo_prose demo_bounds FormatMarkdown = Some ps
     \<and> length ps = 3 \<and> in_order 0 (map passage_span ps) (length demo_prose)
     \<and> map p_ordinal ps = [0..<length ps]
     \<and> map p_body ps = map (slice demo_prose) (map passage_span ps)"
proof -
  obtain ps where ps: "split_passages_bounded ascii_tables demo_prose demo_bounds FormatMarkdown = Some ps"
    "length ps = 3"
    using demo_prose_split by auto
  then show ?thesis using passages_in_order [OF ps(1)] by simp
qed

text \<open>The comment line between two groups of the demo document is in no passage.\<close>

theorem passages_tile_iff_witness:
  "\<not> list_all (\<lambda>s. list_all (groups_abut ascii_tables (scan_lines demo_keys))
      (blocks_of (scan_lines demo_keys) (section_span s)))
      (document_sections demo_keys default_bounds FormatMarkdown)"
proof -
  obtain ps where ps: "split_passages_bounded ascii_tables demo_keys default_bounds FormatMarkdown = Some ps"
    "concat (map p_body ps) \<noteq> demo_keys"
    using demo_keys_split by (auto simp: split_passages_def demo_keys_def newline_def)
  then show ?thesis using passages_tile_iff [OF ps(1)] by simp
qed

theorem splitter_returns_witness:
  "split_passages_bounded ascii_tables demo_prose demo_bounds FormatASCIIDoc \<noteq> None
     \<and> split_passages ascii_tables demo_prose FormatASCIIDoc \<noteq> None"
proof (rule splitter_returns)
  show "utf8_valid demo_prose" by (rule utf8_valid_ascii) code_simp
  show "4 \<le> hard_max demo_bounds" by (simp add: demo_bounds_def)
qed

theorem prose_passages_bounded_witness:
  "\<exists>ps. split_passages_bounded ascii_tables demo_prose demo_bounds FormatMarkdown = Some ps
     \<and> length ps = 3 \<and> list_all (\<lambda>p. length (p_body p) \<le> 12) ps"
proof -
  obtain ps where ps: "split_passages_bounded ascii_tables demo_prose demo_bounds FormatMarkdown = Some ps"
    "length ps = 3"
    using demo_prose_split by auto
  have "list_all (\<lambda>ln. \<not> l_protected ln) (scan_lines demo_prose)" by code_simp
  then show ?thesis using ps prose_passages_bounded [OF ps(1)] by (simp add: demo_bounds_def)
qed

text \<open>A fenced block beside enough prose is isolated whole, however long it is, so its passage
  passes the hard maximum.\<close>

lemma fenced_passage_exceeds_hard_max:
  "map_option (map (\<lambda>p. length (p_body p) \<le> hard_max demo_bounds))
     (split_passages_bounded ascii_tables
        (''some text'' @ newline @ newline @ ''```'' @ newline @ ''one long line'' @ newline @ ''```'')
        demo_bounds FormatMarkdown) = Some [True, False]"
  by code_simp

text \<open>6001 stray continuation bytes: every cut falls back to the start of the document and the loop
  never returns.\<close>

definition stray :: "nat \<Rightarrow> string" where
  "stray k = replicate k (CHR 0x80)"

lemma stray_decode: "decode_rune (stray (Suc k)) = (rune_error, 1)"
  by (simp add: stray_def decode_rune_def decode_bytes_def)


lemma stray_drop: "drop i (stray k) = stray (k - i)"
  by (simp add: stray_def)

lemma stray_nth: "i < k \<Longrightarrow> stray k ! i = CHR 0x80"
  by (simp add: stray_def)

lemma stray_facts [simp]: "length (stray k) = k" "stray k = [] \<longleftrightarrow> k = 0" "set (stray k) \<subseteq> {CHR 0x80}"
  by (auto simp: stray_def)

lemma stray_decode_last: "decode_last_rune (stray (Suc k)) = (rune_error, 1)"
proof -
  let ?s = "stray (Suc k)"
  let ?start = "if length ?s < 5 then 0 else length ?s - 5"
  have none: "find (\<lambda>i. rune_start (?s ! i)) (rev [length ?s - 4..<length ?s]) = None"
    by (auto simp: find_None_iff stray_nth rune_start_def is_cont_def simp del: upt_Suc)
  obtain j where "drop ?start ?s = stray (Suc j)"
  proof (cases "length ?s < 5")
    case False
    then have "drop ?start ?s = stray (Suc 4)" by (simp add: stray_drop)
    with that show thesis by blast
  qed (use that [of k] in simp)
  then have dec: "decode_rune (drop ?start ?s) = (rune_error, 1)" by (simp only: stray_decode)
  show ?thesis unfolding decode_last_rune_def Let_def none option.case dec by simp
qed

lemma rune_error_no_space: "\<not> is_space rune_error"
  by (simp add: is_space_def rune_error_def)

lemma stray_trim_space: "trim_space (stray (Suc k)) = stray (Suc k)"
  by (simp add: trim_space_def trim_left_runes.simps [of _ "stray (Suc k)"] stray_decode rune_error_no_space
      trim_right_runes.simps [of _ "stray (Suc k)"] stray_decode_last)

lemma line_break_none: "CHR 0x0A \<notin> set s \<Longrightarrow> line_break s = length s"
  by (induction s) auto

lemma stray_hd: "hd (stray (Suc k)) = CHR 0x80" "stray (Suc k) = CHR 0x80 # stray k"
  by (simp_all add: stray_def)

lemma stray_eol: "trim_eol (stray (Suc k)) = stray (Suc k)"
proof -
  have "rev (stray (Suc k)) = stray (Suc k)" by (simp add: stray_def replicate_append_same)
  then show ?thesis by (simp add: trim_eol_def trim_right_bytes_def stray_hd(2))
qed

lemma stray_lines:
  "scan_lines (stray (Suc k)) =
     [\<lparr> l_start = 0, l_end = Suc k, l_text = stray (Suc k), l_protected = False \<rparr>]"
proof -
  have "CHR 0x0A \<notin> set (stray (Suc k))" by (auto simp: stray_def)
  then have "raw_lines 0 (stray (Suc k)) =
      [\<lparr> l_start = 0, l_end = Suc k, l_text = stray (Suc k), l_protected = False \<rparr>]"
    by (subst raw_lines.simps) (simp add: line_break_none stray_eol raw_lines.simps)
  moreover have "stray (Suc k) \<noteq> ''---''" "\<not> is_fence_delimiter (stray (Suc k))"
    by (simp_all add: stray_hd is_fence_delimiter_def has_prefix_def)
  ultimately show ?thesis by (simp add: scan_lines_def stray_trim_space)
qed

lemma stray_no_heading: "heading_at f (scan_lines (stray (Suc k))) 0 = None"
proof -
  let ?ln = "\<lparr> l_start = 0, l_end = Suc k, l_text = stray (Suc k), l_protected = False \<rparr>"
  have c: "count_leading c (stray (Suc k)) = 0" if "c \<noteq> CHR 0x80" for c
    using that by (simp add: count_leading_def stray_hd(2))
  have "adoc_heading ?ln = None" "atx_heading ?ln = None"
    by (simp_all add: adoc_heading_def atx_heading_def stray_trim_space c del: stray_hd)
  then show ?thesis by (simp add: heading_at_def stray_lines setext_heading_def split: doc_format.split)
qed

lemma stray_cut:
  "hm \<le> k \<Longrightarrow> hard_cut (stray (Suc k)) hm (Suc k) out 0 = None"
proof (rule hard_cut_stuck)
  assume hm: "hm \<le> k"
  have "rune_back (stray (Suc k)) i = 0" if "i \<le> k" for i
    using that by (induction i) (simp_all add: stray_nth rune_start_def is_cont_def)
  then show "stuck (stray (Suc k)) hm (Suc k) 0"
    using hm by (simp add: stuck_def rune_boundary_def)
qed simp

lemma stray_never_split:
  assumes "ceiling_b b \<le> k" "hard_max b \<le> k"
  shows "split_passages_bounded ut (stray (Suc k)) b f = None"
proof -
  let ?s = "stray (Suc k)" and ?ls = "scan_lines (stray (Suc k))"
  have "marks_of f ?ls = []"
    using stray_no_heading [of f k] by (simp add: marks_of_def stray_lines List.map_filter_simps)
  then have sec: "document_sections ?s b f = [\<lparr> s_heading = [], s_path = [], s_start = 0, s_end = Suc k \<rparr>]"
    by (simp add: document_sections_def sections_of_def merge_small_sections_def)
  have "list_all (\<lambda>ln. \<not> l_protected ln) ?ls" by (simp add: stray_lines)
  note unf = unfenced_blocks [OF this]
  have blk: "blocks_of ?ls (0, Suc k) = [(0, Suc k)]"
    by (simp add: blocks_of_def stray_lines block_step_def in_span_def is_blank_def stray_trim_space
        set_start_def set_end_def)
  have "sentence_ends ?s (0, Suc k) = []"
  proof -
    have "sentence_end_at ?s (Suc k) i = None" if "i \<in> set [0..<Suc k]" for i
    proof -
      have "stray (Suc k) ! i = CHR 0x80" using that by (intro stray_nth) auto
      then show ?thesis by (simp add: sentence_end_at_def)
    qed
    then have "set (List.map_filter (sentence_end_at ?s (Suc k)) [0..<Suc k]) = {}"
      unfolding set_eq_iff mem_map_filter by fastforce
    then show ?thesis by (simp add: sentence_ends_def)
  qed
  then have cut: "cut_on_sentences ?s (0, Suc k) b = None"
    using stray_cut [OF assms(2)] by (simp add: cut_on_sentences_def)
  have "subdivide ut ?s ?ls (0, Suc k) b = None"
    using cut assms by (simp add: subdivide_def split_homogeneous_blocks_def blk homogeneous_step_def
        key_value_groups_def unf isolate_fenced_blocks_def size_step_def split_oversized_def Let_def)
  then show ?thesis by (simp add: split_passages_bounded_def sec section_span_def)
qed

lemma stray_bytes_never_split: "split_passages ut (stray 6001) f = None"
  using stray_never_split [of default_bounds 6000 ut f]
  by (simp add: split_passages_def default_bounds_def)

end
