(* ===== verification/SourceStatus.thy ===== *)
theory SourceStatus
  imports GoStrings
begin

text \<open>
  Ingestion status (\<open>src/processor/source-manifest/status.go\<close>, the status half of
  \<open>component.go\<close>, \<open>src/internal/sourcestatus\<close>, \<open>seedloss\<close> and
  \<open>degraded\<close>): the aggregator of the sources' reports, the phase it derives, the handlers
  that update, time out, drop and publish it, and the health document. Reports arrive decoded, with
  \<open>None\<close> for one the strict decoder rejects. Counts are \<open>int\<close>; the iteration order of
  the report map is the argument \<open>visit\<close> and the clock the argument \<open>now\<close>.
\<close>

section \<open>Constants\<close>

definition phase_seeding :: string where "phase_seeding = ''seeding''"
definition phase_ready :: string where "phase_ready = ''ready''"
definition phase_degraded :: string where "phase_degraded = ''degraded''"

definition source_ingesting :: string where "source_ingesting = ''ingesting''"
definition source_watching :: string where "source_watching = ''watching''"
definition source_idle :: string where "source_idle = ''idle''"
definition source_errored :: string where "source_errored = ''errored''"

lemmas phase_defs =
  phase_seeding_def phase_ready_def phase_degraded_def source_ingesting_def source_watching_def
  source_idle_def source_errored_def

section \<open>Reports\<close>

record seed_error =
  se_code :: string
  se_message :: string
  se_time :: int

record submodule_status =
  sm_path :: string
  sm_sha :: string
  sm_state :: string

record report =
  r_instance :: string
  r_source_type :: string
  r_phase :: string
  r_entities :: int
  r_offered :: int
  r_delivered :: int
  r_lost :: int
  r_seed_lost :: int
  r_files :: int
  r_bodies :: int
  r_boundaries :: int
  r_errors :: int
  r_types :: "(string, int) gomap"
  r_backpressure :: bool
  r_submodules :: "submodule_status list"
  r_skipped :: "(string, int) gomap"
  r_last_error :: "seed_error option"
  r_time :: int

text \<open>The published form of a report; it has no field for the skipped objects.\<close>

record source_status =
  ss_instance :: string
  ss_source_type :: string
  ss_phase :: string
  ss_entities :: int
  ss_offered :: int
  ss_delivered :: int
  ss_lost :: int
  ss_seed_lost :: int
  ss_files :: int
  ss_bodies :: int
  ss_boundaries :: int
  ss_errors :: int
  ss_types :: "(string, int) gomap"
  ss_backpressure :: bool
  ss_submodules :: "submodule_status list"
  ss_last_error :: "seed_error option"

record status_payload =
  sp_namespace :: string
  sp_phase :: string
  sp_sources :: "source_status list"
  sp_total :: int
  sp_time :: int

definition to_source_error :: "seed_error option \<Rightarrow> seed_error option" where
  "to_source_error e =
     (case e of
        None \<Rightarrow> None
      | Some x \<Rightarrow> Some \<lparr> se_code = se_code x, se_message = se_message x, se_time = se_time x \<rparr>)"

definition source_status_of :: "report \<Rightarrow> source_status" where
  "source_status_of r =
     \<lparr> ss_instance = r_instance r, ss_source_type = r_source_type r, ss_phase = r_phase r,
       ss_entities = r_entities r, ss_offered = r_offered r, ss_delivered = r_delivered r,
       ss_lost = r_lost r, ss_seed_lost = r_seed_lost r, ss_files = r_files r, ss_bodies = r_bodies r,
       ss_boundaries = r_boundaries r, ss_errors = r_errors r, ss_types = r_types r,
       ss_backpressure = r_backpressure r, ss_submodules = r_submodules r,
       ss_last_error = to_source_error (r_last_error r) \<rparr>"

section \<open>The aggregator\<close>

type_synonym report_map = "(string, report) gomap"

record aggregator =
  ag_reports :: report_map
  ag_expected :: int
  ag_degraded :: bool

definition new_status_aggregator :: "int \<Rightarrow> aggregator" where
  "new_status_aggregator expected = \<lparr> ag_reports = [], ag_expected = expected, ag_degraded = False \<rparr>"

definition agg_update :: "report \<Rightarrow> aggregator \<Rightarrow> aggregator" where
  "agg_update r a = a\<lparr>ag_reports := gm_put (r_instance r) r (ag_reports a)\<rparr>"

definition all_reported :: "aggregator \<Rightarrow> bool" where
  "all_reported a =
     (if ag_expected a \<le> 0 then length (ag_reports a) > 0
      else int (length (ag_reports a)) \<ge> ag_expected a)"

definition all_seeded :: "aggregator \<Rightarrow> bool" where
  "all_seeded a \<longleftrightarrow>
     all_reported a
     \<and> list_all (\<lambda>r. \<not> (r_phase r \<noteq> source_watching \<and> r_phase r \<noteq> source_idle)) (map snd (ag_reports a))"

definition any_errored :: "aggregator \<Rightarrow> bool" where
  "any_errored a \<longleftrightarrow> list_ex (\<lambda>r. r_phase r = source_errored) (map snd (ag_reports a))"

definition any_seed_loss :: "aggregator \<Rightarrow> bool" where
  "any_seed_loss a \<longleftrightarrow> list_ex (\<lambda>r. r_seed_lost r > 0) (map snd (ag_reports a))"

text \<open>\<open>buildStatus\<close> reads the reports and writes the \<open>degraded\<close> flag.\<close>

definition build_status :: "(report_map \<Rightarrow> report_map) \<Rightarrow> int \<Rightarrow> string \<Rightarrow> aggregator \<Rightarrow> status_payload \<times> aggregator" where
  "build_status visit now ns a =
     (let rs = map snd (visit (ag_reports a));
          sources = map source_status_of rs;
          total_entities = foldl (\<lambda>t r. t + r_entities r) 0 rs;
          a1 = (if any_seed_loss a then a\<lparr>ag_degraded := True\<rparr> else a);
          (phase, a2) =
            (if all_seeded a1 \<and> \<not> any_errored a1 \<and> \<not> any_seed_loss a1
             then (phase_ready, a1\<lparr>ag_degraded := False\<rparr>)
             else if ag_degraded a1 \<or> any_errored a1 then (phase_degraded, a1)
             else (phase_seeding, a1))
      in (\<lparr> sp_namespace = ns, sp_phase = phase, sp_sources = sources, sp_total = total_entities,
            sp_time = now \<rparr>, a2))"

definition mark_degraded :: "(report_map \<Rightarrow> report_map) \<Rightarrow> int \<Rightarrow> string \<Rightarrow> aggregator \<Rightarrow> status_payload \<times> aggregator" where
  "mark_degraded visit now ns a = build_status visit now ns (a\<lparr>ag_degraded := True\<rparr>)"

definition agg_remove :: "string \<Rightarrow> aggregator \<Rightarrow> bool \<times> aggregator" where
  "agg_remove inst a =
     (if \<not> gm_has (ag_reports a) inst then (False, a)
      else (True, a\<lparr>ag_reports := gm_del inst (ag_reports a),
                    ag_expected := (if ag_expected a > 0 then ag_expected a - 1 else ag_expected a)\<rparr>))"

section \<open>Loss since the current pass, and edge-triggered conditions\<close>

text \<open>\<open>seedloss.Tracker\<close> is its baseline; \<open>degraded.Condition\<close> its flag, whose two
  operations also say whether a line is logged.\<close>

definition loss_begin :: "int \<Rightarrow> int \<Rightarrow> int" where
  "loss_begin cumulative baseline = cumulative"

definition lost_since :: "int \<Rightarrow> int \<Rightarrow> int" where
  "lost_since cumulative baseline =
     (let delta = cumulative - baseline in if delta < 0 then 0 else delta)"

definition condition_enter :: "bool \<Rightarrow> bool \<times> bool" where
  "condition_enter active = (if active then (True, False) else (True, True))"

definition condition_clear :: "bool \<Rightarrow> bool \<times> bool" where
  "condition_clear active = (if \<not> active then (False, False) else (False, True))"

section \<open>The component\<close>

text \<open>The status half of \<open>Component\<close>. \<open>st_served\<close> is \<open>statusData\<close>, what a query
  or an HTTP request reads; \<open>st_published\<close> lists what was handed to \<open>publishPayload\<close>,
  oldest first, with the announcement it was logged under.\<close>

datatype announcement = InitialStatus | Recovered | SeedComplete | Heartbeat | SeedTimedOut | SourceDropped

record status_state =
  st_agg :: aggregator
  st_seed_complete :: bool
  st_removed :: "string list"
  st_served :: "status_payload option"
  st_published :: "(announcement \<times> status_payload) list"
  st_heartbeat_failing :: bool

definition publish :: "announcement \<Rightarrow> status_payload \<Rightarrow> status_state \<Rightarrow> status_state" where
  "publish an p st = st\<lparr>st_published := st_published st @ [(an, p)]\<rparr>"

definition handle_status_report :: "(report_map \<Rightarrow> report_map) \<Rightarrow> int \<Rightarrow> string \<Rightarrow> report option
    \<Rightarrow> status_state \<Rightarrow> status_state" where
  "handle_status_report visit now ns decoded st =
     (case decoded of
        None \<Rightarrow> st
      | Some r \<Rightarrow>
          if r_instance r \<in> set (st_removed st) then st
          else let was_complete = st_seed_complete st;
                   was_degraded = ag_degraded (st_agg st);
                   a = agg_update r (st_agg st);
                   now_complete = (all_seeded a \<and> \<not> any_errored a);
                   st = (if now_complete then st\<lparr>st_seed_complete := True\<rparr> else st);
                   a = (if now_complete then a\<lparr>ag_degraded := False\<rparr> else a);
                   (p, a) = build_status visit now ns a;
                   st = st\<lparr>st_agg := a, st_served := Some p\<rparr>
               in if now_complete \<and> was_degraded then publish Recovered p st
                  else if now_complete \<and> \<not> was_complete then publish SeedComplete p st
                  else st)"

text \<open>One tick of \<open>startHeartbeat\<close>; \<open>ok\<close> is whether the publication succeeded.\<close>

definition heartbeat_tick :: "(report_map \<Rightarrow> report_map) \<Rightarrow> int \<Rightarrow> string \<Rightarrow> bool \<Rightarrow> status_state \<Rightarrow> status_state" where
  "heartbeat_tick visit now ns ok st =
     (let (p, a) = build_status visit now ns (st_agg st);
          st = publish Heartbeat p (st\<lparr>st_agg := a, st_served := Some p\<rparr>)
      in if ok then st\<lparr>st_heartbeat_failing := fst (condition_clear (st_heartbeat_failing st))\<rparr>
         else st\<lparr>st_heartbeat_failing := fst (condition_enter (st_heartbeat_failing st))\<rparr>)"

definition seed_timeout_fires :: "(report_map \<Rightarrow> report_map) \<Rightarrow> int \<Rightarrow> string \<Rightarrow> status_state \<Rightarrow> status_state" where
  "seed_timeout_fires visit now ns st =
     (if st_seed_complete st then st
      else let (p, a) = mark_degraded visit now ns (st_agg st)
           in publish SeedTimedOut p (st\<lparr>st_agg := a, st_served := Some p\<rparr>))"

definition drop_source_status :: "(report_map \<Rightarrow> report_map) \<Rightarrow> int \<Rightarrow> string \<Rightarrow> string \<Rightarrow> status_state \<Rightarrow> status_state" where
  "drop_source_status visit now ns inst st =
     (let st = st\<lparr>st_removed := List.insert inst (st_removed st)\<rparr>;
          (ok, a) = agg_remove inst (st_agg st)
      in if \<not> ok then st
         else let (p, a) = build_status visit now ns a
              in publish SourceDropped p (st\<lparr>st_agg := a, st_served := Some p\<rparr>))"

definition start_status_aggregation :: "(report_map \<Rightarrow> report_map) \<Rightarrow> int \<Rightarrow> string \<Rightarrow> int \<Rightarrow> status_state" where
  "start_status_aggregation visit now ns expected =
     (let (p, a) = build_status visit now ns (new_status_aggregator expected)
      in \<lparr> st_agg = a, st_seed_complete = False, st_removed = [], st_served = Some p,
           st_published = [(InitialStatus, p)], st_heartbeat_failing = False \<rparr>)"

section \<open>Health\<close>

record health_sub_status =
  hs_component :: string
  hs_healthy :: bool
  hs_message :: string

record health_payload =
  hp_component :: string
  hp_healthy :: bool
  hp_status :: string
  hp_message :: string
  hp_namespace :: string
  hp_phase :: string
  hp_total :: int
  hp_subs :: "health_sub_status list"

definition source_has_error :: "source_status \<Rightarrow> bool" where
  "source_has_error s \<longleftrightarrow>
     ss_phase s = source_errored \<or> ss_errors s > 0 \<or> ss_last_error s \<noteq> None"

definition build_health_payload :: "bool \<Rightarrow> status_payload option \<Rightarrow> health_payload" where
  "build_health_payload running current =
     (let p = \<lparr> hp_component = ''semsource'', hp_healthy = running, hp_status = ''healthy'',
                hp_message = ''SemSource source manifest is reachable'', hp_namespace = [],
                hp_phase = [], hp_total = 0, hp_subs = [] \<rparr>
      in if \<not> running then
           p\<lparr>hp_status := ''error'', hp_message := ''SemSource source manifest is not started''\<rparr>
         else case current of
           None \<Rightarrow> p\<lparr>hp_status := ''starting'', hp_message := ''SemSource source manifest is starting''\<rparr>
         | Some s \<Rightarrow>
             let sources_row = \<lparr> hs_component = ''Sources'', hs_healthy = True,
                   hs_message = show_nat (length (sp_sources s)) @ '' sources reporting'' \<rparr>;
                 ingestion_row = \<lparr> hs_component = ''Ingestion'',
                   hs_healthy = (sp_phase s \<noteq> phase_degraded),
                   hs_message = ''phase='' @ sp_phase s @ '' total_entities='' @ show_int (sp_total s) \<rparr>;
                 p = p\<lparr>hp_namespace := sp_namespace s, hp_phase := sp_phase s, hp_total := sp_total s,
                       hp_message := ''SemSource ingestion phase: '' @ sp_phase s,
                       hp_subs := [ingestion_row, sources_row]\<rparr>;
                 p = (if sp_phase s = phase_degraded
                      then p\<lparr>hp_healthy := False, hp_status := ''degraded'',
                             hp_message := ''SemSource ingestion is degraded''\<rparr>
                      else p)
             in if list_ex source_has_error (sp_sources s) then
                  p\<lparr>hp_healthy := False, hp_status := ''degraded'',
                    hp_message := ''SemSource source errors are present'',
                    hp_subs := [ingestion_row,
                      sources_row\<lparr>hs_healthy := False,
                                  hs_message := ''one or more sources reported errors''\<rparr>]\<rparr>
                else p)"

text \<open>\<open>handleHealth\<close>: the HTTP status and the document, for a GET.\<close>

definition handle_health :: "string \<Rightarrow> bool \<Rightarrow> status_payload option \<Rightarrow> nat \<times> health_payload option" where
  "handle_health verb running current =
     (if verb \<noteq> ''GET'' then (405, None)
      else let p = build_health_payload running current
           in (if \<not> hp_healthy p \<and> \<not> running then 503 else 200, Some p))"

section \<open>The phase\<close>

definition seeded_clean :: "report \<Rightarrow> bool" where
  "seeded_clean r \<longleftrightarrow> (r_phase r = source_watching \<or> r_phase r = source_idle) \<and> r_seed_lost r \<le> 0"

definition troubled :: "report \<Rightarrow> bool" where
  "troubled r \<longleftrightarrow> r_phase r = source_errored \<or> r_seed_lost r > 0"

definition is_ready :: "aggregator \<Rightarrow> bool" where
  "is_ready a \<longleftrightarrow> all_reported a \<and> list_all seeded_clean (map snd (ag_reports a))"

definition phase_of :: "aggregator \<Rightarrow> string" where
  "phase_of a =
     (if is_ready a then phase_ready
      else if ag_degraded a \<or> list_ex troubled (map snd (ag_reports a)) then phase_degraded
      else phase_seeding)"

definition settle :: "aggregator \<Rightarrow> aggregator" where
  "settle a =
     a\<lparr>ag_degraded := \<not> is_ready a \<and> (ag_degraded a \<or> any_seed_loss a)\<rparr>"

lemma all_reported_flag [simp]: "all_reported (a\<lparr>ag_degraded := d\<rparr>) = all_reported a"
  by (simp add: all_reported_def)

lemma is_ready_flag [simp]: "is_ready (a\<lparr>ag_degraded := d\<rparr>) = is_ready a"
  by (simp add: is_ready_def)

lemma seed_loss_flag [simp]: "any_seed_loss (a\<lparr>ag_degraded := d\<rparr>) = any_seed_loss a"
  by (simp add: any_seed_loss_def)

lemma errored_flag [simp]: "any_errored (a\<lparr>ag_degraded := d\<rparr>) = any_errored a"
  by (simp add: any_errored_def)

lemma seeded_flag [simp]: "all_seeded (a\<lparr>ag_degraded := d\<rparr>) = all_seeded a"
  by (simp add: all_seeded_def)

lemma is_ready_iff: "is_ready a \<longleftrightarrow> all_seeded a \<and> \<not> any_errored a \<and> \<not> any_seed_loss a"
  by (auto simp: is_ready_def all_seeded_def any_errored_def any_seed_loss_def seeded_clean_def
      list_all_iff list_ex_iff phase_defs not_less)

lemma seeded_not_errored: "all_seeded a \<Longrightarrow> \<not> any_errored a"
  by (auto simp: all_seeded_def any_errored_def list_all_iff list_ex_iff phase_defs)

lemma troubled_iff: "list_ex troubled (map snd (ag_reports a)) \<longleftrightarrow> any_errored a \<or> any_seed_loss a"
  by (auto simp: troubled_def any_errored_def any_seed_loss_def list_ex_iff)

lemma foldl_sum: "foldl (\<lambda>t r. t + f r) (t0 :: int) rs = t0 + sum_list (map f rs)"
  by (induction rs arbitrary: t0) (simp_all add: add.assoc)

lemma build_status_settle: "snd (build_status visit now ns a) = settle a"
  by (auto simp: build_status_def Let_def settle_def is_ready_iff)

lemma build_status_phase: "sp_phase (fst (build_status visit now ns a)) = phase_of a"
  by (simp add: build_status_def Let_def phase_of_def is_ready_iff troubled_iff)

lemma build_status_sources:
  "sp_sources (fst (build_status visit now ns a)) = map source_status_of (map snd (visit (ag_reports a)))"
  "sp_total (fst (build_status visit now ns a)) = sum_list (map r_entities (map snd (visit (ag_reports a))))"
  "sp_namespace (fst (build_status visit now ns a)) = ns"
  by (simp_all add: build_status_def Let_def foldl_sum split: prod.split)

lemma settle_sel [simp]: "ag_reports (settle a) = ag_reports a" "ag_expected (settle a) = ag_expected a"
  by (simp_all add: settle_def)

lemma settle_settle [simp]: "settle (settle a) = settle a"
  by (rule aggregator.equality) (auto simp: settle_def)

lemma settle_ready: "is_ready a \<Longrightarrow> \<not> ag_degraded (settle a)"
  by (simp add: settle_def)

lemma phase_of_settle [simp]: "phase_of (settle a) = phase_of a"
  by (auto simp: phase_of_def settle_def troubled_iff)

text \<open>C17: The aggregate phase is ready exactly when the expected number of sources has reported and
  every reported source is past its seed without loss; otherwise it is degraded exactly when the sticky
  flag is set, a source is in error or a source lost entities of its last pass, and else seeding. The
  total is the sum of the entity counts and every report is in the payload once.\<close>

theorem build_status_spec:
  assumes "go_visit visit" "gm_wf (ag_reports a)"
  shows "sp_phase (fst (build_status visit now ns a)) =
      (if all_reported a \<and> list_all seeded_clean (map snd (ag_reports a)) then phase_ready
       else if ag_degraded a \<or> list_ex troubled (map snd (ag_reports a)) then phase_degraded
       else phase_seeding)
    \<and> sp_total (fst (build_status visit now ns a)) = sum_list (map r_entities (map snd (ag_reports a)))
    \<and> mset (sp_sources (fst (build_status visit now ns a)))
        = mset (map source_status_of (map snd (ag_reports a)))
    \<and> ag_reports (snd (build_status visit now ns a)) = ag_reports a"
proof -
  have m: "mset (visit (ag_reports a)) = mset (ag_reports a)"
    using assms by (auto simp: go_visit_def dest: gm_same_mset)
  then have "sum_list (map r_entities (map snd (visit (ag_reports a))))
      = sum_list (map r_entities (map snd (ag_reports a)))"
    by (metis mset_map sum_mset_sum_list)
  with m show ?thesis
    by (simp add: build_status_phase build_status_sources build_status_settle phase_of_def is_ready_def)
qed

section \<open>Events and what every reachable state satisfies\<close>

datatype status_event =
  ReportArrives "report option"
| HeartbeatTick bool
| TimeoutFires
| SourceRemoved string

fun status_event_step :: "(report_map \<Rightarrow> report_map) \<Rightarrow> int \<Rightarrow> string \<Rightarrow> status_event \<Rightarrow> status_state \<Rightarrow> status_state" where
  "status_event_step visit now ns (ReportArrives d) st = handle_status_report visit now ns d st"
| "status_event_step visit now ns (HeartbeatTick ok) st = heartbeat_tick visit now ns ok st"
| "status_event_step visit now ns TimeoutFires st = seed_timeout_fires visit now ns st"
| "status_event_step visit now ns (SourceRemoved inst) st = drop_source_status visit now ns inst st"

text \<open>Any sequence of events, each at its own time and with its own map order.\<close>

inductive status_reachable :: "string \<Rightarrow> int \<Rightarrow> status_state \<Rightarrow> bool" for ns expected where
  status_start: "go_visit visit \<Longrightarrow>
    status_reachable ns expected (start_status_aggregation visit now ns expected)"
| status_more: "status_reachable ns expected st \<Longrightarrow> go_visit visit \<Longrightarrow>
    status_reachable ns expected (status_event_step visit now ns ev st)"

definition reports_keyed :: "report_map \<Rightarrow> bool" where
  "reports_keyed m \<longleftrightarrow> gm_wf m \<and> list_all (\<lambda>(k, r). r_instance r = k) m"

definition serves :: "status_state \<Rightarrow> bool" where
  "serves st \<longleftrightarrow>
     (case st_served st of
        None \<Rightarrow> False
      | Some p \<Rightarrow>
          sp_phase p = phase_of (st_agg st)
          \<and> mset (sp_sources p) = mset (map source_status_of (map snd (ag_reports (st_agg st))))
          \<and> sp_total p = sum_list (map r_entities (map snd (ag_reports (st_agg st)))))"

definition status_inv :: "status_state \<Rightarrow> bool" where
  "status_inv st \<longleftrightarrow>
     reports_keyed (ag_reports (st_agg st))
     \<and> list_all (\<lambda>i. \<not> gm_has (ag_reports (st_agg st)) i) (st_removed st)
     \<and> serves st"

lemma reports_keyed_iff:
  "reports_keyed m \<longleftrightarrow> gm_wf m \<and> (\<forall>k r. map_of m k = Some r \<longrightarrow> r_instance r = k)"
  using gm_get_mem [of m] by (auto simp: reports_keyed_def list_all_iff)

lemma reports_keyed_put: "reports_keyed m \<Longrightarrow> reports_keyed (gm_put (r_instance r) r m)"
  by (auto simp: reports_keyed_iff gm_get_put split: if_splits)

lemma reports_keyed_del: "reports_keyed m \<Longrightarrow> reports_keyed (gm_del k m)"
  by (auto simp: reports_keyed_iff gm_get_del split: if_splits)

lemma gm_has_put: "gm_has (gm_put k v m) j \<longleftrightarrow> j = k \<or> gm_has m j"
  by (auto simp: gm_has_def gm_get_put)

lemma gm_has_del: "gm_has (gm_del k m) j \<longleftrightarrow> j \<noteq> k \<and> gm_has m j"
  by (auto simp: gm_has_def gm_get_del)

text \<open>Building the status of an aggregator and serving it establishes the invariant.\<close>

lemma serves_built:
  assumes "go_visit visit" "reports_keyed (ag_reports a)" "build_status visit now ns a = (p, a')"
  shows "serves (st\<lparr>st_agg := a', st_served := Some p\<rparr>)" "ag_reports a' = ag_reports a"
proof -
  have m: "mset (visit (ag_reports a)) = mset (ag_reports a)"
    using assms(1,2) by (auto simp: go_visit_def reports_keyed_def dest: gm_same_mset)
  then have "sum_list (map r_entities (map snd (visit (ag_reports a))))
      = sum_list (map r_entities (map snd (ag_reports a)))"
    by (metis mset_map sum_mset_sum_list)
  with m show "serves (st\<lparr>st_agg := a', st_served := Some p\<rparr>)" "ag_reports a' = ag_reports a"
    using build_status_phase [of visit now ns a] build_status_sources [of visit now ns a]
      build_status_settle [of visit now ns a] assms(3)
    by (auto simp: serves_def)
qed

lemma serves_cong: "st_agg st' = st_agg st \<Longrightarrow> st_served st' = st_served st \<Longrightarrow> serves st' = serves st"
  by (simp add: serves_def split: option.split)

lemma status_inv_built:
  assumes "go_visit visit" "build_status visit now ns a = (p, a')"
    and "reports_keyed (ag_reports a)" "list_all (\<lambda>i. \<not> gm_has (ag_reports a) i) (st_removed st')"
    and "st_agg st' = a'" "st_served st' = Some p"
  shows "status_inv st'"
proof -
  have "serves st' = serves (st'\<lparr>st_agg := a', st_served := Some p\<rparr>)"
    by (rule serves_cong) (simp_all add: assms)
  then show ?thesis using serves_built [OF assms(1,3,2)] assms by (simp add: status_inv_def)
qed

lemma publish_sel [simp]:
  "st_agg (publish an p st) = st_agg st" "st_served (publish an p st) = st_served st"
  "st_removed (publish an p st) = st_removed st" "st_seed_complete (publish an p st) = st_seed_complete st"
  by (simp_all add: publish_def)

lemma status_inv_report:
  assumes v: "go_visit visit" and inv: "status_inv st"
  shows "status_inv (handle_status_report visit now ns d st)"
proof (cases d)
  case None
  then show ?thesis using inv by (simp add: handle_status_report_def)
next
  case (Some r)
  show ?thesis
  proof (cases "r_instance r \<in> set (st_removed st)")
    case True
    then show ?thesis using inv Some by (simp add: handle_status_report_def)
  next
    case False
    let ?a = "agg_update r (st_agg st)"
    let ?b = "if all_seeded ?a \<and> \<not> any_errored ?a then ?a\<lparr>ag_degraded := False\<rparr> else ?a"
    obtain p a' where bs: "build_status visit now ns ?b = (p, a')" by (cases "build_status visit now ns ?b")
    have keyed: "reports_keyed (ag_reports ?b)"
      using inv by (simp add: status_inv_def agg_update_def reports_keyed_put)
    have rem: "list_all (\<lambda>i. \<not> gm_has (ag_reports ?b) i) (st_removed st)"
      using inv False by (auto simp: status_inv_def agg_update_def gm_has_put list_all_iff)
    let ?st' = "handle_status_report visit now ns d st"
    have "st_agg ?st' = a'" "st_served ?st' = Some p" "st_removed ?st' = st_removed st"
      using Some False bs by (auto simp: handle_status_report_def Let_def split: if_splits)
    then show ?thesis using status_inv_built [OF v bs keyed, of ?st'] rem by simp
  qed
qed

lemma status_inv_step:
  assumes v: "go_visit visit" and inv: "status_inv st"
  shows "status_inv (status_event_step visit now ns ev st)"
proof (cases ev)
  case (ReportArrives d)
  then show ?thesis using status_inv_report [OF assms] by simp
next
  case (HeartbeatTick ok)
  obtain p a' where bs: "build_status visit now ns (st_agg st) = (p, a')"
    by (cases "build_status visit now ns (st_agg st)")
  let ?st' = "heartbeat_tick visit now ns ok st"
  have "st_agg ?st' = a'" "st_served ?st' = Some p" "st_removed ?st' = st_removed st"
    using bs by (auto simp: heartbeat_tick_def Let_def)
  then show ?thesis using status_inv_built [OF v bs, of ?st'] inv HeartbeatTick
    by (simp add: status_inv_def)
next
  case TimeoutFires
  let ?a = "(st_agg st)\<lparr>ag_degraded := True\<rparr>"
  obtain p a' where bs: "build_status visit now ns ?a = (p, a')" by (cases "build_status visit now ns ?a")
  let ?st' = "seed_timeout_fires visit now ns st"
  show ?thesis
  proof (cases "st_seed_complete st")
    case True
    then show ?thesis using inv TimeoutFires by (simp add: seed_timeout_fires_def)
  next
    case False
    then have "st_agg ?st' = a'" "st_served ?st' = Some p" "st_removed ?st' = st_removed st"
      using bs by (auto simp: seed_timeout_fires_def mark_degraded_def Let_def)
    then show ?thesis using status_inv_built [OF v bs, of ?st'] inv TimeoutFires
      by (simp add: status_inv_def)
  qed
next
  case (SourceRemoved inst)
  let ?a = "snd (agg_remove inst (st_agg st))"
  obtain p a' where bs: "build_status visit now ns ?a = (p, a')" by (cases "build_status visit now ns ?a")
  let ?st' = "drop_source_status visit now ns inst st"
  show ?thesis
  proof (cases "gm_has (ag_reports (st_agg st)) inst")
    case True
    then have "st_agg ?st' = a'" "st_served ?st' = Some p" "st_removed ?st' = List.insert inst (st_removed st)"
      using bs by (auto simp: drop_source_status_def agg_remove_def Let_def)
    moreover have "reports_keyed (ag_reports ?a)" "list_all (\<lambda>i. \<not> gm_has (ag_reports ?a) i) (List.insert inst (st_removed st))"
      using inv True by (auto simp: agg_remove_def status_inv_def reports_keyed_del gm_has_del list_all_iff)
    ultimately show ?thesis using status_inv_built [OF v bs, of ?st'] SourceRemoved by simp
  next
    case False
    then have "?st' = st\<lparr>st_removed := List.insert inst (st_removed st)\<rparr>"
      by (simp add: drop_source_status_def agg_remove_def Let_def)
    moreover from this have "serves ?st' = serves st" by (intro serves_cong) simp_all
    ultimately show ?thesis using inv False SourceRemoved by (auto simp: status_inv_def list_all_iff)
  qed
qed

lemma status_inv_start: "go_visit visit \<Longrightarrow> status_inv (start_status_aggregation visit now ns expected)"
proof -
  assume v: "go_visit visit"
  let ?a = "new_status_aggregator expected"
  obtain p a' where bs: "build_status visit now ns ?a = (p, a')" by (cases "build_status visit now ns ?a")
  have "start_status_aggregation visit now ns expected =
      \<lparr> st_agg = a', st_seed_complete = False, st_removed = [], st_served = Some p,
        st_published = [(InitialStatus, p)], st_heartbeat_failing = False \<rparr>"
    by (simp add: start_status_aggregation_def bs)
  then show ?thesis
    by (intro status_inv_built [OF v bs]) (simp_all add: new_status_aggregator_def reports_keyed_def)
qed


section \<open>Recovery\<close>

definition feed :: "(report_map \<Rightarrow> report_map) \<Rightarrow> int \<Rightarrow> string \<Rightarrow> report list \<Rightarrow> status_state \<Rightarrow> status_state" where
  "feed visit now ns rs st = foldl (\<lambda>st r. handle_status_report visit now ns (Some r) st) st rs"

lemma report_effect:
  assumes "r_instance r \<notin> set (st_removed st)"
  shows "ag_reports (st_agg (handle_status_report visit now ns (Some r) st))
      = gm_put (r_instance r) r (ag_reports (st_agg st))"
    and "ag_expected (st_agg (handle_status_report visit now ns (Some r) st)) = ag_expected (st_agg st)"
    and "st_removed (handle_status_report visit now ns (Some r) st) = st_removed st"
    and "\<exists>b. st_agg (handle_status_report visit now ns (Some r) st) = settle b"
proof -
  let ?a = "agg_update r (st_agg st)"
  let ?b = "if all_seeded ?a \<and> \<not> any_errored ?a then ?a\<lparr>ag_degraded := False\<rparr> else ?a"
  obtain p a' where bs: "build_status visit now ns ?b = (p, a')" by (cases "build_status visit now ns ?b")
  then have a': "a' = settle ?b" using build_status_settle [of visit now ns ?b] by simp
  let ?st' = "handle_status_report visit now ns (Some r) st"
  have "st_agg ?st' = a'" "st_removed ?st' = st_removed st"
    using assms bs by (auto simp: handle_status_report_def Let_def split: if_splits)
  then show "ag_reports (st_agg ?st') = gm_put (r_instance r) r (ag_reports (st_agg st))"
    "ag_expected (st_agg ?st') = ag_expected (st_agg st)" "st_removed ?st' = st_removed st"
    "\<exists>b. st_agg ?st' = settle b"
    by (auto simp: a' agg_update_def)
qed

lemma reports_keyed_puts:
  "reports_keyed m \<Longrightarrow> reports_keyed (foldl (\<lambda>m r. gm_put (r_instance r) r m) m rs)"
  by (induction rs arbitrary: m) (simp_all add: reports_keyed_put)

lemma feed_reports:
  assumes "list_all (\<lambda>r. r_instance r \<notin> set (st_removed st)) rs"
  shows "ag_reports (st_agg (feed visit now ns rs st)) =
      foldl (\<lambda>m r. gm_put (r_instance r) r m) (ag_reports (st_agg st)) rs
    \<and> ag_expected (st_agg (feed visit now ns rs st)) = ag_expected (st_agg st)
    \<and> st_removed (feed visit now ns rs st) = st_removed st"
  using assms
proof (induction rs arbitrary: st)
  case (Cons r rs)
  have step: "feed visit now ns (r # rs) st = feed visit now ns rs (handle_status_report visit now ns (Some r) st)"
    by (simp add: feed_def)
  show ?case using Cons.IH [of "handle_status_report visit now ns (Some r) st"] Cons.prems
      report_effect [of r st visit now ns] by (simp add: step)
qed (simp add: feed_def)

lemma find_in: "find P xs = Some x \<Longrightarrow> x \<in> set xs \<and> P x"
  by (induction xs) (auto split: if_splits)

lemma lookup_after_puts:
  "map_of (foldl (\<lambda>m r. gm_put (r_instance r) r m) m rs) k =
     (case find (\<lambda>r. r_instance r = k) (rev rs) of Some r \<Rightarrow> Some r | None \<Rightarrow> map_of m k)"
proof (induction rs arbitrary: m rule: rev_induct)
  case (snoc r rs)
  then show ?case by (auto simp: gm_get_put)
qed simp


text \<open>After a lossy seed every further report that leaves all sources seeded is announced as a
  recovery from degradation, although the status published with that announcement is itself
  degraded.\<close>

theorem recovery_announced_while_degraded:
  assumes "r_instance r \<notin> set (st_removed st)" "ag_degraded (st_agg st)"
    and "all_seeded (agg_update r (st_agg st))" "any_seed_loss (agg_update r (st_agg st))"
  shows "map_option (\<lambda>(an, p). (an, sp_phase p))
      (case rev (st_published (handle_status_report visit now ns (Some r) st)) of [] \<Rightarrow> None | x # _ \<Rightarrow> Some x)
    = Some (Recovered, phase_degraded)"
proof -
  let ?b = "(agg_update r (st_agg st))\<lparr>ag_degraded := False\<rparr>"
  obtain p a' where bs: "build_status visit now ns ?b = (p, a')" by (cases "build_status visit now ns ?b")
  have "\<not> is_ready ?b" using assms(4) by (simp add: is_ready_iff)
  moreover have "list_ex troubled (map snd (ag_reports ?b))"
    using assms(4) unfolding troubled_iff by simp
  ultimately have "sp_phase p = phase_degraded"
    using bs build_status_phase [of visit now ns ?b] by (simp add: phase_of_def)
  moreover have "st_published (handle_status_report visit now ns (Some r) st)
      = st_published st @ [(Recovered, p)]"
    using assms seeded_not_errored bs by (simp add: handle_status_report_def Let_def publish_def)
  ultimately show ?thesis by simp
qed

section \<open>Witnesses\<close>

definition demo_report :: "string \<Rightarrow> string \<Rightarrow> int \<Rightarrow> report" where
  "demo_report inst phase lost =
     \<lparr> r_instance = inst, r_source_type = ''docs'', r_phase = phase, r_entities = 3, r_offered = 3,
       r_delivered = 3 - lost, r_lost = lost, r_seed_lost = lost, r_files = 1, r_bodies = 0,
       r_boundaries = 0, r_errors = 0, r_types = [], r_backpressure = False, r_submodules = [],
       r_skipped = [(''unsupported_format'', 2)], r_last_error = None, r_time = 0 \<rparr>"

definition demo_status :: status_state where
  "demo_status = seed_timeout_fires (\<lambda>m. m) 1 ''acme'' (handle_status_report (\<lambda>m. m) 1 ''acme''
     (Some (demo_report ''doc-a'' ''watching'' 2)) (start_status_aggregation (\<lambda>m. m) 0 ''acme'' 2))"

lemma demo_status_reachable: "status_reachable ''acme'' 2 demo_status"
  using status_more [OF status_more [OF status_start [OF go_visit_id] go_visit_id,
      where ev = "ReportArrives (Some (demo_report ''doc-a'' ''watching'' 2))"] go_visit_id,
      where ev = TimeoutFires]
  by (simp add: demo_status_def)

theorem build_status_spec_witness:
  "sp_phase (fst (build_status rev 0 ''acme'' (agg_update (demo_report ''doc-a'' ''idle'' 0)
     (new_status_aggregator 1)))) = phase_ready"
proof -
  let ?a = "agg_update (demo_report ''doc-a'' ''idle'' 0) (new_status_aggregator 1)"
  have "gm_wf (ag_reports ?a)" by (simp add: agg_update_def new_status_aggregator_def)
  moreover have "all_reported ?a" "list_all seeded_clean (map snd (ag_reports ?a))" by code_simp+
  ultimately show ?thesis using build_status_spec [OF go_visit_rev, of ?a 0 "''acme''"] by simp
qed



theorem recovery_announced_while_degraded_witness:
  "map_option (\<lambda>(an, p). (an, sp_phase p))
     (case rev (st_published (handle_status_report (\<lambda>m. m) 2 ''acme''
        (Some (demo_report ''doc-b'' ''idle'' 0)) demo_status)) of [] \<Rightarrow> None | x # _ \<Rightarrow> Some x)
   = Some (Recovered, phase_degraded)"
  by (rule recovery_announced_while_degraded) code_simp+

end
