(* ===== verification/Workbench.thy ===== *)
theory Workbench
  imports SourceStatus
begin

text \<open>
  What the source-manifest component derives from the status for its consumers
  (\<open>src/processor/source-manifest/workbench_capabilities.go\<close>, \<open>readiness.go\<close>, the
  predicate schema of \<open>status.go\<close> and the summary of \<open>component.go\<close>). JSON decoding of a
  readiness envelope is the parameter \<open>decode\<close>, the framework's predicate registry the
  parameters \<open>registered\<close> and \<open>metadata\<close>. A summary sorts with the parameters
  \<open>sort_types\<close> and \<open>sort_domains\<close>, as \<open>sort.Slice\<close> leaves ties open.
\<close>

section \<open>Readiness of an index\<close>

record capability_reason =
  cr_code :: string
  cr_message :: string
  cr_retryable :: bool

record index_wire =
  iw_ready :: bool
  iw_state :: string
  iw_indexed :: "nat option"
  iw_target :: "nat option"
  iw_lag :: "nat option"
  iw_revision :: string
  iw_synced :: string

record index_readiness =
  ix_available :: bool
  ix_ready :: bool
  ix_state :: string
  ix_indexed :: "nat option"
  ix_target :: "nat option"
  ix_lag :: "nat option"
  ix_revision :: string
  ix_synced :: string
  ix_reason :: "capability_reason option"

definition readiness_unknown :: string where
  "readiness_unknown = ''unknown''"

definition unavailable_readiness :: "string \<Rightarrow> index_readiness" where
  "unavailable_readiness msg =
     \<lparr> ix_available = False, ix_ready = False, ix_state = readiness_unknown, ix_indexed = None,
       ix_target = None, ix_lag = None, ix_revision = [], ix_synced = [],
       ix_reason = Some \<lparr> cr_code = ''status_unavailable'', cr_message = msg, cr_retryable = True \<rparr> \<rparr>"

text \<open>\<open>indexReadinessFrom\<close>; \<open>raw\<close> is \<open>None\<close> when fetching failed.\<close>

definition index_readiness_from :: "(string \<Rightarrow> index_wire option) \<Rightarrow> string option \<Rightarrow> string \<Rightarrow> index_readiness" where
  "index_readiness_from decode raw label =
     (let failed = unavailable_readiness (label @ '' readiness is unavailable'')
      in case raw of
           None \<Rightarrow> failed
         | Some data \<Rightarrow>
             if data = [] then failed
             else case decode data of
                    None \<Rightarrow> failed
                  | Some w \<Rightarrow>
                      \<lparr> ix_available = True, ix_ready = iw_ready w,
                        ix_state = (if iw_state w = [] then readiness_unknown else iw_state w),
                        ix_indexed = iw_indexed w, ix_target = iw_target w, ix_lag = iw_lag w,
                        ix_revision = iw_revision w, ix_synced = iw_synced w, ix_reason = None \<rparr>)"

text \<open>\<open>collectIndexReadiness\<close>: the probes that answered before the deadline, in order of
  arrival; at most two are received.\<close>

datatype probe = StructuralProbe | SemanticProbe

definition collect_index_readiness :: "(probe \<times> index_readiness) list \<Rightarrow> index_readiness \<times> index_readiness" where
  "collect_index_readiness arrived =
     foldl (\<lambda>(structural, semantic) (name, signal).
              case name of StructuralProbe \<Rightarrow> (signal, semantic) | SemanticProbe \<Rightarrow> (structural, signal))
       (unavailable_readiness ''Structural index readiness is unavailable'',
        unavailable_readiness ''Semantic index readiness is unavailable'')
       (take 2 arrived)"

section \<open>Readiness of the sources\<close>

record source_readiness =
  sr_available :: bool
  sr_ready :: bool
  sr_state :: string
  sr_source_count :: "nat option"
  sr_total :: "int option"
  sr_time :: "int option"
  sr_reason :: "capability_reason option"

text \<open>The loop of \<open>sourceReadiness\<close> over the sources, on \<open>(ready, state, reason)\<close>.\<close>

definition readiness_step :: "bool \<times> string \<times> capability_reason option \<Rightarrow> source_status
    \<Rightarrow> bool \<times> string \<times> capability_reason option" where
  "readiness_step st s =
     (case st of (ready, state, reason) \<Rightarrow>
        if ss_phase s = source_errored \<or> ss_errors s > 0 \<or> ss_last_error s \<noteq> None then
          (False, phase_degraded,
           Some \<lparr> cr_code = ''source_errors_present'', cr_message = ''One or more sources reported errors'',
                  cr_retryable = True \<rparr>)
        else if ss_phase s = source_ingesting \<and> state \<noteq> phase_degraded then
          (False, phase_seeding,
           (case reason of
              None \<Rightarrow> Some \<lparr> cr_code = ''source_not_ready'',
                            cr_message = ''Source ingestion is still in progress'', cr_retryable = True \<rparr>
            | Some x \<Rightarrow> Some x))
        else st)"

definition source_readiness_of :: "status_payload option \<Rightarrow> source_readiness" where
  "source_readiness_of current =
     (case current of
        None \<Rightarrow>
          \<lparr> sr_available = False, sr_ready = False, sr_state = readiness_unknown, sr_source_count = None,
            sr_total = None, sr_time = None,
            sr_reason = Some \<lparr> cr_code = ''status_unavailable'',
              cr_message = ''Source readiness is unavailable'', cr_retryable = True \<rparr> \<rparr>
      | Some p \<Rightarrow>
          let reason0 = (if sp_phase p = phase_degraded
                         then Some \<lparr> cr_code = ''source_degraded'',
                                cr_message = ''Source ingestion is degraded'', cr_retryable = True \<rparr>
                         else None);
              (ready, state, reason) =
                foldl readiness_step (sp_phase p = phase_ready, sp_phase p, reason0) (sp_sources p)
          in \<lparr> sr_available = True, sr_ready = ready, sr_state = state,
               sr_source_count = Some (length (sp_sources p)), sr_total = Some (sp_total p),
               sr_time = Some (sp_time p), sr_reason = reason \<rparr>)"

section \<open>The capability document\<close>

record capability =
  cp_availability :: string
  cp_method :: string
  cp_href :: string
  cp_readiness :: "string list"
  cp_reason :: "capability_reason option"

definition capability_for_signal :: "string \<Rightarrow> string \<Rightarrow> string \<Rightarrow> bool \<Rightarrow> capability_reason option \<Rightarrow> capability" where
  "capability_for_signal verb href readiness ready reason =
     (let c = \<lparr> cp_availability = ''ready'', cp_method = verb, cp_href = href,
                cp_readiness = [readiness], cp_reason = None \<rparr>
      in if ready then c
         else let c = c\<lparr>cp_availability := ''not_ready''\<rparr>
              in case reason of
                   Some r \<Rightarrow> c\<lparr>cp_reason := Some r\<rparr>
                 | None \<Rightarrow> c\<lparr>cp_reason := Some \<lparr> cr_code = ''dependency_not_ready'',
                     cr_message = ''The required readiness dependency is not ready'',
                     cr_retryable = True \<rparr>\<rparr>)"

definition ingest_capability :: "bool \<Rightarrow> string \<Rightarrow> string \<Rightarrow> capability" where
  "ingest_capability ready verb href =
     (if ready
      then \<lparr> cp_availability = ''ready'', cp_method = verb, cp_href = href, cp_readiness = [],
             cp_reason = None \<rparr>
      else \<lparr> cp_availability = ''not_ready'', cp_method = verb, cp_href = href, cp_readiness = [],
             cp_reason = Some \<lparr> cr_code = ''ingest_not_ready'',
               cr_message = ''Source management is not ready'', cr_retryable = True \<rparr> \<rparr>)"

definition unsupported_capability :: "string \<Rightarrow> string \<Rightarrow> capability" where
  "unsupported_capability code msg =
     \<lparr> cp_availability = ''unsupported'', cp_method = [], cp_href = [], cp_readiness = [],
       cp_reason = Some \<lparr> cr_code = code, cr_message = msg, cr_retryable = False \<rparr> \<rparr>"

record capabilities =
  wc_version :: nat
  wc_product :: "string \<times> string"
  wc_project :: "string \<times> string"
  wc_overall :: string
  wc_source :: source_readiness
  wc_structural :: index_readiness
  wc_semantic :: index_readiness
  wc_queries :: "(string, capability) gomap"
  wc_actions :: "(string, capability) gomap"
  wc_views :: capability
  wc_contracts :: "(string, string) gomap"

definition build_workbench_capabilities :: "string \<Rightarrow> bool \<Rightarrow> status_payload option
    \<Rightarrow> index_readiness \<Rightarrow> index_readiness \<Rightarrow> capabilities" where
  "build_workbench_capabilities ns ingest_ready current structural semantic =
     (let src = source_readiness_of current;
          from_source = (\<lambda>href. capability_for_signal ''GET'' href ''source'' (sr_ready src) (sr_reason src));
          from_index = (\<lambda>href. capability_for_signal ''POST'' href ''structural_index''
                                 (ix_ready structural) (ix_reason structural))
      in \<lparr> wc_version = 1, wc_product = (''semsource'', ''SemSource''),
           wc_project = (ns, ''deployment_namespace''),
           wc_overall = (if sr_ready src \<and> ix_ready structural then ''ready'' else ''partial''),
           wc_source = src, wc_structural = structural, wc_semantic = semantic,
           wc_queries =
             [(''source_inventory'', from_source ''/source-manifest/sources''),
              (''source_status'', from_source ''/source-manifest/status''),
              (''project_summary'', from_source ''/source-manifest/summary''),
              (''predicate_schema'', from_source ''/source-manifest/predicates''),
              (''code_context'', from_index ''/code-context/context''),
              (''code_impact'', from_index ''/code-context/impact''),
              (''code_search'', capability_for_signal ''POST'' ''/code-context/search'' ''semantic_index''
                                  (ix_ready semantic) (ix_reason semantic)),
              (''doc_context'', from_index ''/doc-context/context''),
              (''graph_projection'', from_index ''/code-context/context'')],
           wc_actions =
             [(''source_add'', ingest_capability ingest_ready ''POST'' ''/source-manifest/sources''),
              (''source_remove'', ingest_capability ingest_ready ''DELETE'' ''/source-manifest/sources/{id}''),
              (''okf_import'', unsupported_capability ''not_implemented'' ''OKF import is not available''),
              (''okf_export'', unsupported_capability ''not_implemented'' ''OKF export is not available'')],
           wc_views = unsupported_capability ''not_implemented'' ''Project views are not available'',
           wc_contracts = [(''fusion_http_error'', ''1''), (''fusion_graph_projection'', ''1'')] \<rparr>)"

datatype http_reply = NoReply | HttpError nat string | HttpDoc capabilities

text \<open>\<open>handleWorkbenchCapabilities\<close>; the two flags say whether the request was cancelled before
  and after the probes.\<close>

definition handle_workbench_capabilities :: "string \<Rightarrow> bool \<Rightarrow> bool \<Rightarrow> bool \<Rightarrow> string \<Rightarrow> bool
    \<Rightarrow> status_payload option \<Rightarrow> (probe \<times> index_readiness) list \<Rightarrow> http_reply" where
  "handle_workbench_capabilities verb gone_before gone_after running ns ingest_ready current arrived =
     (if verb \<noteq> ''GET'' then HttpError 405 ''method not allowed''
      else if gone_before then NoReply
      else if \<not> running then HttpError 503 ''component not started''
      else let (structural, semantic) = collect_index_readiness arrived
           in if gone_after then NoReply
              else HttpDoc (build_workbench_capabilities ns ingest_ready current structural semantic))"

section \<open>The predicate schema\<close>

definition explicit_roles :: "(string, string) gomap" where
  "explicit_roles =
     map (\<lambda>p. (p, ''location''))
       [''code.artifact.path'', ''source.doc.file-path'', ''source.config.file-path'',
        ''source.media.file-path'', ''source.web.url'', ''code.metric.start-line'', ''code.metric.end-line'']
     @ map (\<lambda>p. (p, ''identity''))
       [''dc.terms.title'', ''code.artifact.type'', ''code.artifact.package'', ''code.artifact.visibility'',
        ''code.artifact.language'', ''code.artifact.framework'', ''source.doc.type'', ''source.web.type'',
        ''source.repo.type'', ''source.media.type'', ''source.git.commit-sha'', ''source.git.author-name'',
        ''source.git.author-email'', ''source.git.branch-name'', ''source.git.commit-subject'',
        ''source.config.module-path'', ''source.config.package-name'']
     @ map (\<lambda>p. (p, ''content''))
       [''source.doc.content'', ''code.doc.comment'', ''source.media.vision-description'',
        ''source.media.vision-text'']
     @ map (\<lambda>p. (p, ''relationship''))
       [''source.config.requires'', ''source.config.depends'', ''source.config.contains'',
        ''source.git.commit-authored-by'', ''source.git.commit-touches'', ''source.media.keyframe-of'']"

definition category_role :: "string \<Rightarrow> string option" where
  "category_role c =
     (if c \<in> {''relationship'', ''structure'', ''dependency''} then Some ''relationship''
      else if c = ''metric'' then Some ''metric''
      else None)"

definition pattern_role :: "string \<Rightarrow> string" where
  "pattern_role name =
     (let parts = str_split name CHR ''.''
      in if length parts < 3 then ''metadata''
         else case category_role (parts ! (length parts - 2)) of
                Some r \<Rightarrow> r
              | None \<Rightarrow> (case category_role (parts ! 1) of Some r \<Rightarrow> r | None \<Rightarrow> ''metadata''))"

definition predicate_role :: "string \<Rightarrow> string" where
  "predicate_role name =
     (case map_of explicit_roles name of Some role \<Rightarrow> role | None \<Rightarrow> pattern_role name)"

definition matches_prefixes :: "string \<Rightarrow> string list \<Rightarrow> bool" where
  "matches_prefixes name prefixes \<longleftrightarrow> list_ex (has_prefix name) prefixes"

definition source_predicate_prefixes :: "(string, string list) gomap" where
  "source_predicate_prefixes =
     [(''ast'', [''code.'', ''dc.'', ''agentic.'']), (''git'', [''source.git.'']),
      (''docs'', [''source.doc.'']), (''config'', [''source.config.'']), (''url'', [''source.web.'']),
      (''image'', [''source.media.'']), (''video'', [''source.media.'']), (''audio'', [''source.media.''])]"

record predicate_descriptor =
  pd_name :: string
  pd_description :: string
  pd_data_type :: string
  pd_role :: string

text \<open>\<open>metadata\<close> yields the description and the data type of a predicate, if registered.\<close>

definition describe_predicate :: "(string \<Rightarrow> (string \<times> string) option) \<Rightarrow> string \<Rightarrow> predicate_descriptor" where
  "describe_predicate metadata name =
     (let (desc, dtype) =
            (case metadata name of
               None \<Rightarrow> ([], ''string'')
             | Some (d, t) \<Rightarrow> (d, if t \<noteq> [] then t else ''string''))
      in \<lparr> pd_name = name, pd_description = desc, pd_data_type = dtype, pd_role = predicate_role name \<rparr>)"

definition build_predicate_schema :: "string list \<Rightarrow> (string \<Rightarrow> (string \<times> string) option) \<Rightarrow> string list
    \<Rightarrow> (string \<times> predicate_descriptor list) list" where
  "build_predicate_schema registered metadata types =
     List.map_filter
       (\<lambda>ty. case map_of source_predicate_prefixes ty of
               None \<Rightarrow> None
             | Some prefixes \<Rightarrow>
                 if prefixes = [] then None
                 else Some (ty, map (describe_predicate metadata)
                                  (filter (\<lambda>n. matches_prefixes n prefixes) registered)))
       types"

definition configured_source_types :: "string list \<Rightarrow> string list" where
  "configured_source_types types = foldl (\<lambda>seen t. if t \<in> set seen then seen else seen @ [t]) [] types"

section \<open>The summary\<close>

record domain_summary =
  ds_domain :: string
  ds_count :: int
  ds_types :: "(string \<times> int) list"
  ds_sources :: "string list"

fun add_type_count :: "string \<Rightarrow> int \<Rightarrow> (string \<times> int) list \<Rightarrow> (string \<times> int) list" where
  "add_type_count ty n [] = [(ty, n)]"
| "add_type_count ty n ((t, k) # rest) =
     (if t = ty then (t, k + n) # rest else (t, k) # add_type_count ty n rest)"

definition add_source :: "string \<Rightarrow> string list \<Rightarrow> string list" where
  "add_source inst ss = (if inst \<in> set ss then ss else ss @ [inst])"

definition count_entry :: "string \<Rightarrow> (string, domain_summary) gomap \<Rightarrow> string \<times> int \<Rightarrow> (string, domain_summary) gomap" where
  "count_entry inst m kv =
     (case str_split_n 2 (fst kv) CHR ''.'' of
        [domain, ty] \<Rightarrow>
          let ds = (case map_of m domain of
                      Some ds \<Rightarrow> ds
                    | None \<Rightarrow> \<lparr> ds_domain = domain, ds_count = 0, ds_types = [], ds_sources = [] \<rparr>)
          in gm_put domain
               (ds\<lparr>ds_count := ds_count ds + snd kv, ds_types := add_type_count ty (snd kv) (ds_types ds),
                   ds_sources := add_source inst (ds_sources ds)\<rparr>) m
      | _ \<Rightarrow> m)"

definition domain_map :: "((string, int) gomap \<Rightarrow> (string, int) gomap) \<Rightarrow> source_status list
    \<Rightarrow> (string, domain_summary) gomap" where
  "domain_map visit_types sources =
     foldl (\<lambda>m src. foldl (count_entry (ss_instance src)) m (visit_types (ss_types src))) [] sources"

record summary_payload =
  su_namespace :: string
  su_phase :: string
  su_format :: string
  su_total :: int
  su_domains :: "domain_summary list"
  su_predicates :: "(string \<times> predicate_descriptor list) list"
  su_time :: int

definition more_types :: "string \<times> int \<Rightarrow> string \<times> int \<Rightarrow> bool" where
  "more_types a b \<longleftrightarrow> snd a > snd b"

definition more_entities :: "domain_summary \<Rightarrow> domain_summary \<Rightarrow> bool" where
  "more_entities a b \<longleftrightarrow> ds_count a > ds_count b"

text \<open>\<open>buildSummary\<close> on the status just built; \<open>visit_domains\<close> is the order of the domain
  map.\<close>

definition build_summary :: "((string, int) gomap \<Rightarrow> (string, int) gomap)
    \<Rightarrow> ((string, domain_summary) gomap \<Rightarrow> (string, domain_summary) gomap)
    \<Rightarrow> ((string \<times> int) list \<Rightarrow> (string \<times> int) list) \<Rightarrow> (domain_summary list \<Rightarrow> domain_summary list)
    \<Rightarrow> string list \<Rightarrow> (string \<Rightarrow> (string \<times> string) option) \<Rightarrow> string list \<Rightarrow> int \<Rightarrow> status_payload
    \<Rightarrow> summary_payload" where
  "build_summary visit_types visit_domains sort_types sort_domains registered metadata types now status =
     \<lparr> su_namespace = sp_namespace status, su_phase = sp_phase status,
       su_format = ''{org}.{platform}.{system}.{domain}.{type}.{instance}'',
       su_total = sp_total status,
       su_domains = sort_domains
         (map (\<lambda>(d, ds). ds\<lparr>ds_types := sort_types (ds_types ds)\<rparr>)
            (visit_domains (domain_map visit_types (sp_sources status)))),
       su_predicates = build_predicate_schema registered metadata (configured_source_types types),
       su_time = now \<rparr>"

section \<open>The verdict on the sources\<close>

definition is_ingesting :: "source_status \<Rightarrow> bool" where
  "is_ingesting s \<longleftrightarrow> ss_phase s = source_ingesting"

lemma readiness_fold:
  assumes "state = phase_degraded \<longrightarrow> \<not> ready"
  shows "(let (ready', state', reason') = foldl readiness_step (ready, state, reason) ss
     in ready' = (ready \<and> \<not> list_ex source_has_error ss \<and> \<not> list_ex is_ingesting ss)
        \<and> state' = (if list_ex source_has_error ss then phase_degraded
                    else if list_ex is_ingesting ss \<and> state \<noteq> phase_degraded then phase_seeding
                    else state)
        \<and> ((\<not> list_ex source_has_error ss \<and> \<not> list_ex is_ingesting ss) \<longrightarrow> reason' = reason)
        \<and> ((list_ex source_has_error ss \<or> list_ex is_ingesting ss \<and> state \<noteq> phase_degraded) \<longrightarrow> reason' \<noteq> None)
        \<and> (reason \<noteq> None \<longrightarrow> reason' \<noteq> None))"
  using assms
proof (induction ss arbitrary: ready state reason)
  case (Cons s ss)
  let ?R = "Some \<lparr> cr_code = ''source_errors_present'', cr_message = ''One or more sources reported errors'',
                  cr_retryable = True \<rparr>"
  consider (err) "source_has_error s"
    | (ing) "\<not> source_has_error s" "is_ingesting s" "state \<noteq> phase_degraded"
    | (other) "\<not> source_has_error s" "\<not> (is_ingesting s \<and> state \<noteq> phase_degraded)"
    by blast
  then show ?case
  proof cases
    case err
    then have "readiness_step (ready, state, reason) s = (False, phase_degraded, ?R)"
      by (simp add: readiness_step_def source_has_error_def)
    then show ?thesis using Cons.IH [of phase_degraded False ?R] err by (auto simp: Let_def split: prod.splits)
  next
    case ing
    then obtain x where "readiness_step (ready, state, reason) s = (False, phase_seeding, Some x)"
      by (cases reason) (auto simp: readiness_step_def source_has_error_def is_ingesting_def)
    then show ?thesis using Cons.IH [of phase_seeding False "Some x"] ing
      by (auto simp: Let_def phase_defs split: prod.splits if_splits)
  next
    case other
    then have "readiness_step (ready, state, reason) s = (ready, state, reason)"
      by (auto simp: readiness_step_def source_has_error_def is_ingesting_def)
    then show ?thesis using Cons.IH [OF Cons.prems, of reason] other Cons.prems
      by (auto simp: Let_def split: prod.splits if_splits)
  qed
qed simp

text \<open>The source readiness of the capability document is ready exactly when the aggregate phase
  is ready and no source carries an error or is still ingesting; its state is degraded as soon as one
  source carries an error, be it a single parse failure counted while the aggregate phase is ready, and
  the order of the sources does not matter.\<close>

theorem source_readiness_verdict:
  "sr_ready (source_readiness_of (Some p)) =
      (sp_phase p = phase_ready \<and> \<not> list_ex source_has_error (sp_sources p)
       \<and> \<not> list_ex is_ingesting (sp_sources p))
   \<and> sr_state (source_readiness_of (Some p)) =
      (if list_ex source_has_error (sp_sources p) then phase_degraded
       else if list_ex is_ingesting (sp_sources p) \<and> sp_phase p \<noteq> phase_degraded then phase_seeding
       else sp_phase p)"
proof -
  have "sp_phase p = phase_degraded \<longrightarrow> \<not> (sp_phase p = phase_ready)" by (simp add: phase_defs)
  define reason0 where "reason0 = (if sp_phase p = phase_degraded
      then Some \<lparr> cr_code = ''source_degraded'', cr_message = ''Source ingestion is degraded'', cr_retryable = True \<rparr>
      else None)"
  obtain ready state reason where fold:
      "foldl readiness_step (sp_phase p = phase_ready, sp_phase p, reason0) (sp_sources p) = (ready, state, reason)"
    by (metis prod_cases3)
  have "sr_ready (source_readiness_of (Some p)) = ready" "sr_state (source_readiness_of (Some p)) = state"
    using fold by (simp_all add: source_readiness_of_def reason0_def Let_def)
  moreover note readiness_fold [of "sp_phase p" "sp_phase p = phase_ready" reason0 "sp_sources p"]
  ultimately show ?thesis using fold \<open>sp_phase p = phase_degraded \<longrightarrow> \<not> (sp_phase p = phase_ready)\<close>
    by simp
qed

text \<open>One source with one unparseable file: the aggregate phase is ready, the capability document
  and the health document both say degraded.\<close>

lemma parse_failure_degrades:
  "let a = agg_update ((demo_report ''ast-a'' ''watching'' 0)\<lparr>r_errors := 1\<rparr>) (new_status_aggregator 1);
       p = fst (build_status (\<lambda>m. m) 0 ''acme'' a)
   in sp_phase p = phase_ready \<and> sr_state (source_readiness_of (Some p)) = phase_degraded
      \<and> hp_status (build_health_payload True (Some p)) = ''degraded''"
  by code_simp

section \<open>The summary accounts for every counted entity\<close>

definition dotted :: "string \<Rightarrow> bool" where
  "dotted key \<longleftrightarrow> length (str_split_n 2 key CHR ''.'') = 2"

definition domain_ok :: "domain_summary \<Rightarrow> bool" where
  "domain_ok ds \<longleftrightarrow>
     ds_count ds = sum_list (map snd (ds_types ds)) \<and> distinct (map fst (ds_types ds))
     \<and> distinct (ds_sources ds)"

definition domains_ok :: "(string, domain_summary) gomap \<Rightarrow> bool" where
  "domains_ok m \<longleftrightarrow> gm_wf m \<and> list_all (\<lambda>(k, ds). ds_domain ds = k \<and> domain_ok ds) m"

definition domains_total :: "(string, domain_summary) gomap \<Rightarrow> int" where
  "domains_total m = sum_list (map (\<lambda>(k, ds). ds_count ds) m)"

lemma add_type_count_sum: "sum_list (map snd (add_type_count ty n ts)) = sum_list (map snd ts) + n"
  by (induction ty n ts rule: add_type_count.induct) simp_all

lemma add_type_count_keys: "set (map fst (add_type_count ty n ts)) = insert ty (set (map fst ts))"
  by (induction ty n ts rule: add_type_count.induct) auto

lemma add_type_count_distinct: "distinct (map fst ts) \<Longrightarrow> distinct (map fst (add_type_count ty n ts))"
proof (induction ty n ts rule: add_type_count.induct)
  case (2 ty n t k rest)
  then show ?case using add_type_count_keys [of ty n rest] by auto
qed simp

lemma add_source_distinct: "distinct ss \<Longrightarrow> distinct (add_source i ss)"
  by (simp add: add_source_def)

lemma domains_ok_iff: "domains_ok m \<longleftrightarrow> gm_wf m \<and> (\<forall>k ds. map_of m k = Some ds \<longrightarrow> ds_domain ds = k \<and> domain_ok ds)"
  using gm_get_mem [of m] by (auto simp: domains_ok_def list_all_iff)

lemma domains_total_put:
  "domains_total (gm_put k v m) =
     domains_total m + ds_count v - (case map_of m k of Some ds \<Rightarrow> ds_count ds | None \<Rightarrow> 0)"
  by (induction m) (auto simp: domains_total_def gm_put_def)

lemma count_entry_ok:
  assumes "domains_ok m"
  shows "domains_ok (count_entry inst m kv)"
    and "domains_total (count_entry inst m kv) = domains_total m + (if dotted (fst kv) then snd kv else 0)"
proof -
  have "domains_ok (count_entry inst m kv)
    \<and> domains_total (count_entry inst m kv) = domains_total m + (if dotted (fst kv) then snd kv else 0)"
  proof (cases "dotted (fst kv)")
    case True
    then obtain domain ty where sp: "str_split_n 2 (fst kv) CHR ''.'' = [domain, ty]"
      by (auto simp: dotted_def length_Suc_conv eval_nat_numeral)
    let ?ds = "case map_of m domain of Some ds \<Rightarrow> ds
      | None \<Rightarrow> \<lparr> ds_domain = domain, ds_count = 0, ds_types = [], ds_sources = [] \<rparr>"
    have ok: "domain_ok ?ds" "ds_domain ?ds = domain"
      "ds_count ?ds = (case map_of m domain of Some ds \<Rightarrow> ds_count ds | None \<Rightarrow> 0)"
      using assms by (auto simp: domains_ok_iff domain_ok_def split: option.split)
    let ?new = "?ds\<lparr>ds_count := ds_count ?ds + snd kv, ds_types := add_type_count ty (snd kv) (ds_types ?ds),
                   ds_sources := add_source inst (ds_sources ?ds)\<rparr>"
    have eq: "count_entry inst m kv = gm_put domain ?new m" by (simp add: count_entry_def sp Let_def)
    have "domain_ok ?new" "ds_domain ?new = domain" "ds_count ?new = ds_count ?ds + snd kv"
      using ok(1,2) by (simp_all add: domain_ok_def add_type_count_sum add_type_count_distinct
          add_source_distinct del: map_map)
    then show ?thesis using assms True ok(3) unfolding eq
      by (auto simp: domains_ok_iff gm_get_put domains_total_put)
  next
    case False
    then have "count_entry inst m kv = m"
      by (auto simp: dotted_def count_entry_def split: list.splits)
    with False assms show ?thesis by simp
  qed
  then show "domains_ok (count_entry inst m kv)"
    and "domains_total (count_entry inst m kv) = domains_total m + (if dotted (fst kv) then snd kv else 0)"
    by blast+
qed

definition dotted_total :: "(string, int) gomap \<Rightarrow> int" where
  "dotted_total types = sum_list (map snd (filter (dotted \<circ> fst) types))"

lemma count_entries_ok:
  assumes "domains_ok m"
  shows "domains_ok (foldl (count_entry inst) m kvs)
    \<and> domains_total (foldl (count_entry inst) m kvs) = domains_total m + dotted_total kvs"
  using assms
proof (induction kvs arbitrary: m)
  case (Cons kv kvs)
  from Cons.IH [OF count_entry_ok(1) [OF Cons.prems, of inst kv]] count_entry_ok(2) [OF Cons.prems, of inst kv]
  show ?case by (auto simp: dotted_total_def)
qed (simp add: dotted_total_def)

lemma domain_map_ok:
  "domains_ok (domain_map visit_types sources)
    \<and> domains_total (domain_map visit_types sources)
        = sum_list (map (\<lambda>s. dotted_total (visit_types (ss_types s))) sources)"
proof -
  have "domains_ok (foldl (\<lambda>m src. foldl (count_entry (ss_instance src)) m (visit_types (ss_types src))) m sources)
    \<and> domains_total (foldl (\<lambda>m src. foldl (count_entry (ss_instance src)) m (visit_types (ss_types src))) m sources)
        = domains_total m + sum_list (map (\<lambda>s. dotted_total (visit_types (ss_types s))) sources)"
    if "domains_ok m" for m
    using that
  proof (induction sources arbitrary: m)
    case (Cons s sources)
    from count_entries_ok [OF Cons.prems, of "ss_instance s" "visit_types (ss_types s)"] Cons.IH
    show ?case by auto
  qed simp
  from this [of "[]"] show ?thesis
    by (simp add: domain_map_def domains_ok_def domains_total_def)
qed

definition any_sort :: "('a list \<Rightarrow> 'a list) \<Rightarrow> bool" where
  "any_sort srt \<longleftrightarrow> (\<forall>xs. mset (srt xs) = mset xs)"

lemma dotted_total_visit:
  assumes "go_visit visit" "gm_wf m"
  shows "dotted_total (visit m) = dotted_total m"
proof -
  have "mset (visit m) = mset m" using assms by (auto simp: go_visit_def dest: gm_same_mset)
  then have "mset (map snd (filter (dotted \<circ> fst) (visit m))) = mset (map snd (filter (dotted \<circ> fst) m))"
    by simp
  then show ?thesis unfolding dotted_total_def by (metis sum_mset_sum_list)
qed

text \<open>The summary lists every domain once; each domain's entity count is the sum of the counts of
  its types, each type and each contributing source listed once; and the domains together account for
  exactly the entities counted under a domain-qualified type, whatever the map orders and the ties of
  the sorts.\<close>

theorem summary_accounts:
  assumes "go_visit visit_types" "go_visit visit_domains" "any_sort sort_types" "any_sort sort_domains"
    and "list_all (\<lambda>s. gm_wf (ss_types s)) (sp_sources status)"
  shows "list_all domain_ok
        (su_domains (build_summary visit_types visit_domains sort_types sort_domains registered metadata types now status))
    \<and> distinct (map ds_domain
        (su_domains (build_summary visit_types visit_domains sort_types sort_domains registered metadata types now status)))
    \<and> sum_list (map ds_count
        (su_domains (build_summary visit_types visit_domains sort_types sort_domains registered metadata types now status)))
       = sum_list (map (\<lambda>s. dotted_total (ss_types s)) (sp_sources status))"
proof -
  let ?m = "domain_map visit_types (sp_sources status)"
  let ?f = "\<lambda>(d, ds). ds\<lparr>ds_types := sort_types (ds_types ds)\<rparr>"
  let ?ds = "su_domains (build_summary visit_types visit_domains sort_types sort_domains registered metadata types now status)"
  have ok: "domains_ok ?m" and tot: "domains_total ?m = sum_list (map (\<lambda>s. dotted_total (ss_types s)) (sp_sources status))"
    using domain_map_ok [of visit_types "sp_sources status"] assms(1,5)
    by (auto simp: list_all_iff dotted_total_visit intro!: arg_cong [where f = sum_list] map_cong)
  have "mset (visit_domains ?m) = mset ?m"
    using assms(2) ok by (auto simp: go_visit_def domains_ok_def dest: gm_same_mset)
  then have ms: "mset ?ds = mset (map ?f ?m)"
    using assms(4) by (simp add: build_summary_def any_sort_def)
  have sorted_ok: "domain_ok (?f (k, ds))" if "domain_ok ds" for k ds
  proof -
    have "mset (map snd (sort_types (ds_types ds))) = mset (map snd (ds_types ds))"
      "mset (map fst (sort_types (ds_types ds))) = mset (map fst (ds_types ds))"
      using assms(3) by (simp_all add: any_sort_def)
    then have "sum_list (map snd (sort_types (ds_types ds))) = sum_list (map snd (ds_types ds))"
      "distinct (map fst (sort_types (ds_types ds))) = distinct (map fst (ds_types ds))"
      by (metis sum_mset_sum_list, metis mset_eq_imp_distinct_iff)
    then show ?thesis using that by (simp add: domain_ok_def)
  qed
  have "list_all domain_ok (map ?f ?m)"
    using ok sorted_ok by (auto simp: domains_ok_def list_all_iff)
  moreover have "distinct (map ds_domain (map ?f ?m))"
  proof -
    have eq: "map ds_domain (map ?f ?m) = map fst ?m"
      using ok by (auto simp: domains_ok_def list_all_iff)
    show ?thesis using ok unfolding eq by (simp add: domains_ok_def gm_wf_def)
  qed
  moreover have "sum_list (map ds_count (map ?f ?m)) = domains_total ?m"
    unfolding domains_total_def by (intro arg_cong [where f = sum_list]) (simp add: case_prod_unfold)
  moreover have "set ?ds = set (map ?f ?m)" by (rule mset_eq_setD [OF ms])
  moreover have "distinct (map ds_domain ?ds) = distinct (map ds_domain (map ?f ?m))"
    using ms by (intro mset_eq_imp_distinct_iff) (simp only: mset_map)
  moreover have "sum_list (map ds_count ?ds) = sum_list (map ds_count (map ?f ?m))"
    by (rule sum_list_mset_eq [OF ms])
  ultimately show ?thesis using tot by (simp add: list_all_iff del: map_map)
qed

definition demo_counts :: status_payload where
  "demo_counts =
     \<lparr> sp_namespace = ''acme'', sp_phase = phase_ready,
       sp_sources =
         [(source_status_of (demo_report ''a'' ''idle'' 0))\<lparr>ss_types := [(''golang.function'', 4), (''golang.struct'', 2)]\<rparr>,
          (source_status_of (demo_report ''b'' ''idle'' 0))\<lparr>ss_types := [(''golang.function'', 1), (''plain'', 9)]\<rparr>],
       sp_total = 16, sp_time = 0 \<rparr>"

theorem summary_accounts_witness:
  "sum_list (map ds_count (su_domains (build_summary rev rev (stable_sort more_types)
      (stable_sort more_entities) [] (\<lambda>n. None) [] 0 demo_counts))) = 7"
proof -
  have "any_sort (stable_sort more_types)" "any_sort (stable_sort more_entities)"
    by (simp_all add: any_sort_def)
  moreover have "list_all (\<lambda>s. gm_wf (ss_types s)) (sp_sources demo_counts)"
    by (simp add: demo_counts_def gm_wf_def)
  moreover have "sum_list (map (\<lambda>s. dotted_total (ss_types s)) (sp_sources demo_counts)) = 7"
    by code_simp
  ultimately show ?thesis
    using summary_accounts [OF go_visit_rev go_visit_rev, of "stable_sort more_types" "stable_sort more_entities"
        demo_counts "[]" "\<lambda>n. None" "[]" 0] by simp
qed

end
