(* ===== verification/GoMatch.thy ===== *)
theory GoMatch
  imports GoPath
begin

text \<open>
  \<open>filepath.Match\<close> on Unix: the pattern is cut into chunks at its unescaped stars, and a chunk is
  matched at the first position that lets it. The lemmas give the two uses the program documents:
  a pattern without special characters, and a pattern that ends in a star.
\<close>

datatype 'a match_result = Matched 'a | NoMatch | BadPattern

definition get_esc :: "string \<Rightarrow> (nat \<times> string) option" where
  "get_esc chunk =
     (if chunk = [] \<or> hd chunk = CHR ''-'' \<or> hd chunk = CHR '']'' then None
      else
        (let c = (if hd chunk = CHR 0x5C then tl chunk else chunk)
         in if c = [] then None
            else (case decode_rune c of
                    (r, n) \<Rightarrow> if (r = rune_error \<and> n = 1) \<or> drop n c = [] then None
                              else Some (r, drop n c))))"

lemma get_esc_shorter: "get_esc chunk = Some (r, rest) \<Longrightarrow> length rest < length chunk"
proof -
  assume g: "get_esc chunk = Some (r, rest)"
  then have ne: "chunk \<noteq> []" by (auto simp: get_esc_def split: if_splits)
  define c where "c = (if hd chunk = CHR 0x5C then tl chunk else chunk)"
  from g have c: "c \<noteq> []" and rest: "rest = drop (snd (decode_rune c)) c"
    by (auto simp: get_esc_def c_def Let_def split: if_splits prod.splits)
  have "length c \<le> length chunk" by (simp add: c_def)
  moreover have "length rest < length c"
    using rest c decode_rune_width [OF c] by (cases c) auto
  ultimately show ?thesis by simp
qed

text \<open>The ranges of a character class: whether one of them holds the rune, and the rest of the
  chunk behind the closing bracket. \<open>first\<close> says that no range has been read yet.\<close>

function match_class :: "bool \<Rightarrow> nat \<Rightarrow> bool \<Rightarrow> string \<Rightarrow> (bool \<times> string) option" where
  "match_class first r m chunk =
     (if chunk \<noteq> [] \<and> hd chunk = CHR '']'' \<and> \<not> first then Some (m, tl chunk)
      else case get_esc chunk of
        None \<Rightarrow> None
      | Some (lo, c1) \<Rightarrow>
          if hd c1 = CHR ''-'' then
            (case get_esc (tl c1) of
               None \<Rightarrow> None
             | Some (hi, c2) \<Rightarrow> match_class False r (m \<or> (lo \<le> r \<and> r \<le> hi)) c2)
          else match_class False r (m \<or> (lo \<le> r \<and> r \<le> lo)) c1)"
  by pat_completeness auto
termination
proof (relation "measure (\<lambda>(first, r, m, chunk). length chunk)", goal_cases)
  case (2 first r m chunk a lo c1 a' hi c2)
  then show ?case using get_esc_shorter [of chunk lo c1] get_esc_shorter [of "tl c1" hi c2] by simp
next
  case (3 first r m chunk a lo c1)
  then show ?case using get_esc_shorter [of chunk lo c1] by simp
qed simp

declare match_class.simps [simp del]

lemma match_class_shorter: "match_class first r m chunk = Some (x, rest) \<Longrightarrow> length rest < length chunk"
proof (induction first r m chunk rule: match_class.induct)
  case (1 first r m chunk)
  show ?case
  proof (cases "chunk \<noteq> [] \<and> hd chunk = CHR '']'' \<and> \<not> first")
    case True
    with 1(3) show ?thesis by (subst (asm) match_class.simps) auto
  next
    case False
    with 1(3) obtain lo c1 where lo: "get_esc chunk = Some (lo, c1)"
      by (subst (asm) match_class.simps) (auto split: option.splits if_splits)
    note short = get_esc_shorter [OF lo]
    show ?thesis
    proof (cases "hd c1 = CHR ''-''")
      case True
      with False 1(3) lo obtain hi c2 where hi: "get_esc (tl c1) = Some (hi, c2)"
        by (subst (asm) match_class.simps) (auto split: option.splits if_splits)
      have "match_class False r (m \<or> (lo \<le> r \<and> r \<le> hi)) c2 = Some (x, rest)"
        using 1(3) False lo True hi by (subst (asm) match_class.simps) simp
      from 1(1) [OF False lo refl True hi refl this] get_esc_shorter [OF hi] short show ?thesis by simp
    next
      case ne: False
      have "match_class False r (m \<or> (lo \<le> r \<and> r \<le> lo)) c1 = Some (x, rest)"
        using 1(3) False lo ne by (subst (asm) match_class.simps) simp
      from 1(2) [OF False lo refl ne this] short show ?thesis by simp
    qed
  qed
qed

text \<open>After the match has failed the chunk is still read, to report a bad pattern.\<close>

function match_chunk :: "bool \<Rightarrow> string \<Rightarrow> string \<Rightarrow> string match_result" where
  "match_chunk failed0 chunk s =
     (if chunk = [] then (if failed0 then NoMatch else Matched s)
      else
        (let failed = (failed0 \<or> s = []);
             c = hd chunk
         in if c = CHR ''['' then
              (let (r, n) = (if failed then (0, 0) else decode_rune s);
                   negated = (tl chunk \<noteq> [] \<and> hd (tl chunk) = CHR ''^'');
                   body = (if negated then tl (tl chunk) else tl chunk)
               in case match_class True r False body of
                    None \<Rightarrow> BadPattern
                  | Some (m, rest) \<Rightarrow>
                      match_chunk (failed \<or> m = negated) rest (if failed then s else drop n s))
            else if c = CHR ''?'' then
              match_chunk (failed \<or> hd s = CHR ''/'') (tl chunk)
                (if failed then s else drop (snd (decode_rune s)) s)
            else
              (let lit = (if c = CHR 0x5C then tl chunk else chunk)
               in if lit = [] then BadPattern
                  else match_chunk (failed \<or> hd lit \<noteq> hd s) (tl lit) (if failed then s else tl s))))"
  by pat_completeness auto
termination
proof (relation "measure (\<lambda>(f, chunk, s). length chunk)", goal_cases)
  case (2 failed0 chunk s failed c rn r n negated body mr m rest)
  have "length body \<le> length chunk - 1" using 2 by (simp add: diff_le_mono2)
  with 2 match_class_shorter [of True r False body m rest] show ?case by (cases chunk) auto
next
  case (3 failed0 chunk s failed c)
  then show ?case by (cases chunk) auto
next
  case (4 failed0 chunk s failed c lit)
  then show ?case by (cases chunk) auto
qed simp

declare match_chunk.simps [simp del]

fun scan_len :: "bool \<Rightarrow> string \<Rightarrow> nat" where
  "scan_len inrange [] = 0"
| "scan_len inrange (c # p) =
     (if c = CHR 0x5C then (case p of [] \<Rightarrow> 1 | d # q \<Rightarrow> Suc (Suc (scan_len inrange q)))
      else if c = CHR ''['' then Suc (scan_len True p)
      else if c = CHR '']'' then Suc (scan_len False p)
      else if c = CHR ''*'' \<and> \<not> inrange then 0
      else Suc (scan_len inrange p))"

definition scan_chunk :: "string \<Rightarrow> bool \<times> string \<times> string" where
  "scan_chunk p =
     (let q = dropWhile (\<lambda>c. c = CHR ''*'') p;
          n = scan_len False q
      in (p \<noteq> [] \<and> hd p = CHR ''*'', take n q, drop n q))"

text \<open>The loop that skips bytes for a star; \<open>fin\<close> says that no pattern is left.\<close>

fun match_skip :: "bool \<Rightarrow> string \<Rightarrow> string \<Rightarrow> string match_result" where
  "match_skip fin chunk [] = NoMatch"
| "match_skip fin chunk (c # s) =
     (if c = CHR ''/'' then NoMatch
      else case match_chunk False chunk s of
        Matched t \<Rightarrow> if fin \<and> t \<noteq> [] then match_skip fin chunk s else Matched t
      | NoMatch \<Rightarrow> match_skip fin chunk s
      | BadPattern \<Rightarrow> BadPattern)"

lemma scan_len_pos: "q \<noteq> [] \<Longrightarrow> hd q \<noteq> CHR ''*'' \<Longrightarrow> 0 < scan_len False q"
  by (cases q) (auto split: list.split)

lemma scan_chunk_shorter:
  assumes "p \<noteq> []"
  shows "length (snd (snd (scan_chunk p))) < length p"
proof -
  let ?q = "dropWhile (\<lambda>c. c = CHR ''*'') p"
  have le: "length ?q \<le> length p" by (rule length_dropWhile_le)
  show ?thesis
  proof (cases "hd p = CHR ''*''")
    case True
    with assms have "length ?q < length p"
      by (cases p) (auto simp: le_imp_less_Suc length_dropWhile_le)
    then show ?thesis by (simp add: scan_chunk_def Let_def)
  next
    case False
    with assms have "?q = p" by (cases p) auto
    with scan_len_pos [OF assms False] assms show ?thesis by (simp add: scan_chunk_def Let_def)
  qed
qed

function path_match :: "string \<Rightarrow> string \<Rightarrow> bool option" where
  "path_match pat name =
     (if pat = [] then Some (name = [])
      else
        (let sc = scan_chunk pat; star = fst sc; chunk = fst (snd sc); rest = snd (snd sc)
         in if star \<and> chunk = [] then Some (CHR ''/'' \<notin> set name)
            else
              (case match_chunk False chunk name of
                 BadPattern \<Rightarrow> None
               | r \<Rightarrow>
                   (case (case r of Matched t \<Rightarrow> if t = [] \<or> rest \<noteq> [] then Matched t
                                                 else if star then match_skip (rest = []) chunk name else NoMatch
                          | _ \<Rightarrow> if star then match_skip (rest = []) chunk name else NoMatch) of
                      Matched t \<Rightarrow> path_match rest t
                    | NoMatch \<Rightarrow> Some False
                    | BadPattern \<Rightarrow> None))))"
  by pat_completeness auto
termination
  by (relation "measure (\<lambda>(p, n). length p)") (use scan_chunk_shorter in auto)

declare path_match.simps [simp del]

section \<open>Literal patterns and a trailing star\<close>

definition literal_char :: "char \<Rightarrow> bool" where
  "literal_char c \<longleftrightarrow> c \<notin> {CHR ''*'', CHR ''?'', CHR ''['', CHR '']'', CHR 0x5C}"

lemma scan_len_literal: "list_all literal_char p \<Longrightarrow> scan_len False (p @ q) = length p + scan_len False q"
  by (induction p) (auto simp: literal_char_def)

lemma match_chunk_failed_literal: "list_all literal_char chunk \<Longrightarrow> match_chunk True chunk s = NoMatch"
proof (induction chunk arbitrary: s)
  case Nil
  show ?case by (simp add: match_chunk.simps)
next
  case (Cons c chunk)
  then show ?case by (subst match_chunk.simps) (simp add: literal_char_def)
qed

lemma match_chunk_literal:
  "list_all literal_char chunk \<Longrightarrow>
   match_chunk False chunk s = (if has_prefix s chunk then Matched (drop (length chunk) s) else NoMatch)"
proof (induction chunk arbitrary: s)
  case Nil
  show ?case by (simp add: match_chunk.simps has_prefix_def)
next
  case (Cons c chunk)
  then have c: "literal_char c" and l: "list_all literal_char chunk" by auto
  have step: "match_chunk False (c # chunk) s
      = match_chunk (s = [] \<or> c \<noteq> hd s) chunk (if s = [] then s else tl s)"
    using c by (subst match_chunk.simps) (simp add: literal_char_def)
  show ?case
  proof (cases s)
    case Nil
    with step l show ?thesis by (simp add: match_chunk_failed_literal has_prefix_def)
  next
    case (Cons d t)
    with step l Cons.IH [of t] show ?thesis
      by (cases "c = d") (simp_all add: match_chunk_failed_literal has_prefix_def)
  qed
qed

lemma dropWhile_literal: "list_all literal_char p \<Longrightarrow> p \<noteq> [] \<Longrightarrow> dropWhile (\<lambda>c. c = CHR ''*'') (p @ q) = p @ q"
  by (cases p) (auto simp: literal_char_def)

lemma path_match_literal:
  assumes "list_all literal_char p"
  shows "path_match p name = Some (name = p)"
proof (cases "p = []")
  case True
  then show ?thesis by (simp add: path_match.simps)
next
  case False
  then have hd: "hd p \<noteq> CHR ''*''" using assms by (cases p) (auto simp: literal_char_def)
  have sc: "scan_chunk p = (False, p, [])"
    using dropWhile_literal [OF assms False, of "[]"] scan_len_literal [OF assms, of "[]"] hd
    by (simp add: scan_chunk_def)
  show ?thesis
    using False by (subst path_match.simps)
      (auto simp: sc match_chunk_literal [OF assms] has_prefix_def path_match.simps)
qed

text \<open>A literal and a star: the rest of the name is free, but it stays within one element.\<close>

lemma path_match_star:
  assumes "list_all literal_char p"
  shows "path_match (p @ ''*'') name = Some (\<exists>t. name = p @ t \<and> CHR ''/'' \<notin> set t)"
proof -
  have star: "path_match ''*'' t = Some (CHR ''/'' \<notin> set t)" for t
    by (subst path_match.simps) (simp add: scan_chunk_def)
  show ?thesis
  proof (cases "p = []")
    case True
    with star show ?thesis by simp
  next
    case False
    then have hd: "hd p \<noteq> CHR ''*''" using assms by (cases p) (auto simp: literal_char_def)
    have sc: "scan_chunk (p @ ''*'') = (False, p, ''*'')"
      using dropWhile_literal [OF assms False, of "''*''"] scan_len_literal [OF assms, of "''*''"] hd False
      by (simp add: scan_chunk_def)
    have "path_match (p @ ''*'') name =
        (if has_prefix name p then path_match ''*'' (drop (length p) name) else Some False)"
      using False by (subst path_match.simps) (simp add: sc match_chunk_literal [OF assms])
    also have "\<dots> = Some (\<exists>t. name = p @ t \<and> CHR ''/'' \<notin> set t)"
      unfolding star by (auto simp: has_prefix_def) (metis append_take_drop_id)
    finally show ?thesis .
  qed
qed

end
