(* ===== verification/Workspace.thy ===== *)
theory Workspace
  imports EntityId GoMatch
begin

text \<open>
  The working copies of git repositories (\<open>workspace/workspace.go\<close>, \<open>workspace/submodules.go\<close>):
  slugs, readiness of a checkout, the commands that clone and update a repository, the parsers of
  git's output, worktrees, and the inventory of submodules. Running git and reading the file
  system are arguments of the definitions; what is modelled is every decision between the calls.
\<close>

section \<open>Slugs\<close>

definition slugify :: "unicode_tables \<Rightarrow> string \<Rightarrow> string" where
  "slugify u s =
     trim_bytes (\<lambda>c. c = CHR ''-'')
       (collapse_dashes
         (concat (map (\<lambda>r. if ascii_lower r \<or> ascii_digit r \<or> r = 45 then encode_rune r else ''-'')
           (runes (to_lower u s)))))"

definition replace_first :: "char \<Rightarrow> char \<Rightarrow> string \<Rightarrow> string" where
  "replace_first a b s =
     (case index_byte s a of None \<Rightarrow> s | Some i \<Rightarrow> s[i := b])"

definition url_to_slug :: "unicode_tables \<Rightarrow> string \<Rightarrow> string" where
  "url_to_slug u raw0 =
     (let raw1 = (if has_prefix raw0 ''git@''
                  then replace_first (CHR '':'') (CHR ''/'') (trim_prefix raw0 ''git@'') else raw0);
          raw = trim_suffix raw1 ''.git''
      in case url_parse raw of
           None \<Rightarrow> slugify u raw
         | Some p \<Rightarrow> if u_host p = [] then slugify u raw else slugify u (u_host p @ u_path p))"

definition branch_slug :: "unicode_tables \<Rightarrow> string \<Rightarrow> string" where
  "branch_slug u branch = slugify u branch"

section \<open>Readiness of a checkout\<close>

datatype file_kind = RegularFile | Directory

record file_system =
  fs_stat :: "string \<Rightarrow> file_kind option"
  fs_read_dir :: "string \<Rightarrow> string list option"

datatype not_ready =
  NotAvailable | NotADirectory | HeadMissing | TreeUnreadable | TreeEmpty

definition is_repo_ready :: "file_system \<Rightarrow> string \<Rightarrow> not_ready option" where
  "is_repo_ready fs path =
     (case fs_stat fs path of
        None \<Rightarrow> Some NotAvailable
      | Some RegularFile \<Rightarrow> Some NotADirectory
      | Some Directory \<Rightarrow>
          (let git_dir = path_join [path, ''.git'']
           in case fs_stat fs git_dir of
                None \<Rightarrow> None
              | Some k \<Rightarrow>
                  if k = Directory \<and> fs_stat fs (path_join [git_dir, ''HEAD'']) = None
                  then Some HeadMissing
                  else (case fs_read_dir fs path of
                          None \<Rightarrow> Some TreeUnreadable
                        | Some es \<Rightarrow> if list_ex (\<lambda>e. e \<noteq> ''.git'') es then None else Some TreeEmpty)))"

definition is_path_ready :: "file_system \<Rightarrow> string \<Rightarrow> not_ready option" where
  "is_path_ready fs path =
     (case fs_stat fs path of
        None \<Rightarrow> Some NotAvailable
      | Some Directory \<Rightarrow> is_repo_ready fs path
      | Some RegularFile \<Rightarrow> None)"

definition dir_has_content :: "file_system \<Rightarrow> string \<Rightarrow> bool" where
  "dir_has_content fs dir = (case fs_read_dir fs dir of None \<Rightarrow> False | Some es \<Rightarrow> es \<noteq> [])"

section \<open>The commands\<close>

text \<open>
  A command is its directory, its arguments and the variables added to its environment; \<open>run\<close>
  executes it on the world and says whether it succeeded.
\<close>

record git_cmd =
  gc_dir :: string
  gc_args :: "string list"
  gc_env :: "string list"

type_synonym 'w runner = "git_cmd \<Rightarrow> 'w \<Rightarrow> 'w \<times> bool"

definition auth_key :: "string \<Rightarrow> string" where
  "auth_key repo_url =
     (case url_parse repo_url of
        None \<Rightarrow> ''http.extraheader''
      | Some u \<Rightarrow>
          if (u_scheme u = ''http'' \<or> u_scheme u = ''https'') \<and> u_host u \<noteq> []
          then ''http.'' @ u_scheme u @ ''://'' @ u_host u @ ''/.extraheader''
          else ''http.extraheader'')"

definition apply_auth :: "string \<Rightarrow> string \<Rightarrow> git_cmd \<Rightarrow> git_cmd" where
  "apply_auth token repo_url c =
     (if token = [] then c
      else c\<lparr>gc_env := [''GIT_CONFIG_COUNT=1'', ''GIT_CONFIG_KEY_0='' @ auth_key repo_url,
                       ''GIT_CONFIG_VALUE_0=Authorization: bearer '' @ token, ''GIT_TERMINAL_PROMPT=0'']\<rparr>)"

definition git_in :: "string \<Rightarrow> string list \<Rightarrow> git_cmd" where
  "git_in dir args = \<lparr>gc_dir = dir, gc_args = args, gc_env = []\<rparr>"

definition valid_branch_name :: "string \<Rightarrow> bool" where
  "valid_branch_name branch \<longleftrightarrow> \<not> has_prefix branch ''-''"

datatype workspace_error =
  UrlRequired | BaseRequired | MkdirFailed | InvalidBranch | CloneFailed | FetchFailed
  | CheckoutFailed | PullFailed | SubmoduleUpdateFailed

definition git_clone ::
  "'w runner \<Rightarrow> bool \<Rightarrow> string \<Rightarrow> string \<Rightarrow> string \<Rightarrow> string \<Rightarrow> 'w \<Rightarrow> 'w \<times> workspace_error option" where
  "git_clone run mkdir_ok repo_url branch dest token w =
     (if \<not> mkdir_ok then (w, Some MkdirFailed)
      else if branch \<noteq> [] \<and> \<not> valid_branch_name branch then (w, Some InvalidBranch)
      else
        (let args = [''clone'', ''--depth'', ''1''] @ (if branch \<noteq> [] then [''--branch'', branch] else [])
                    @ [repo_url, dest];
             (w', ok) = run (apply_auth token repo_url (git_in [] args)) w
         in (w', if ok then None else Some CloneFailed)))"

definition git_pull ::
  "'w runner \<Rightarrow> string \<Rightarrow> string \<Rightarrow> string \<Rightarrow> string \<Rightarrow> 'w \<Rightarrow> 'w \<times> workspace_error option" where
  "git_pull run repo_path branch repo_url token w =
     (let (w1, fetched) = run (apply_auth token repo_url (git_in repo_path [''fetch'', ''origin''])) w
      in if \<not> fetched then (w1, Some FetchFailed)
         else if branch \<noteq> [] \<and> \<not> valid_branch_name branch then (w1, Some InvalidBranch)
         else
           (let (w2, checked) = (if branch \<noteq> [] then run (git_in repo_path [''checkout'', branch]) w1
                                 else (w1, True))
            in if \<not> checked then (w2, Some CheckoutFailed)
               else
                 (let (w3, pulled) = run (apply_auth token repo_url
                                       (git_in repo_path [''pull'', ''--ff-only''])) w2
                  in (w3, if pulled then None else Some PullFailed))))"

definition ensure_submodules ::
  "'w runner \<Rightarrow> file_system \<Rightarrow> string \<Rightarrow> string \<Rightarrow> string \<Rightarrow> 'w \<Rightarrow> 'w \<times> workspace_error option" where
  "ensure_submodules run fs repo_path repo_url token w =
     (if fs_stat fs (path_join [repo_path, ''.gitmodules'']) = None then (w, None)
      else
        (let update = [''submodule'', ''update'', ''--init'', ''--recursive''];
             (w1, shallow) = run (apply_auth token repo_url (git_in repo_path (update @ [''--depth'', ''1'']))) w
         in if shallow then (w1, None)
            else (let (w2, ok) = run (apply_auth token repo_url (git_in repo_path update)) w1
                  in (w2, if ok then None else Some SubmoduleUpdateFailed))))"

text \<open>\<open>fs\<close> and \<open>fs'\<close> are the file system before and after the clone or the pull.\<close>

definition ensure_repo ::
  "unicode_tables \<Rightarrow> 'w runner \<Rightarrow> file_system \<Rightarrow> file_system \<Rightarrow> bool \<Rightarrow> string \<Rightarrow> string \<Rightarrow> string \<Rightarrow> string
   \<Rightarrow> bool \<Rightarrow> 'w \<Rightarrow> 'w \<times> string \<times> workspace_error option" where
  "ensure_repo u run fs fs' mkdir_ok repo_url branch base token skip_submodules w =
     (if repo_url = [] then (w, [], Some UrlRequired)
      else if base = [] then (w, [], Some BaseRequired)
      else
        (let local_path = path_join [base, url_to_slug u repo_url];
             (w1, err) = (if fs_stat fs (path_join [local_path, ''.git'']) \<noteq> None
                          then git_pull run local_path branch repo_url token w
                          else git_clone run mkdir_ok repo_url branch local_path token w)
         in case err of
              Some e \<Rightarrow> (w1, local_path, Some e)
            | None \<Rightarrow>
                if skip_submodules then (w1, local_path, None)
                else (let (w2, err2) = ensure_submodules run fs' local_path repo_url token w1
                      in (w2, local_path, err2))))"

section \<open>Parsing git's output\<close>

function field_len :: "string \<Rightarrow> nat" where
  "field_len s =
     (if s = [] \<or> is_space (fst (decode_rune s)) then 0
      else snd (decode_rune s) + field_len (drop (snd (decode_rune s)) s))"
  by pat_completeness auto
termination
proof (relation "measure length", goal_cases)
  case (2 s)
  with decode_rune_width [of s] show ?case by (cases s) auto
qed simp

declare field_len.simps [simp del]

text \<open>\<open>strings.Fields (s)[0]\<close>, which panics when there is no field.\<close>

definition first_field :: "string \<Rightarrow> string option" where
  "first_field s =
     (let t = trim_left_runes is_space s in if t = [] then None else Some (take (field_len t) t))"

function str_fields :: "string \<Rightarrow> string list" where
  "str_fields s =
     (let t = trim_left_runes is_space s
      in if t = [] \<or> field_len t = 0 then []
         else take (field_len t) t # str_fields (drop (field_len t) t))"
  by pat_completeness auto
termination
proof (relation "measure length", goal_cases)
  case (2 s t)
  have "length t \<le> length s" unfolding 2(1)
  proof (induction "is_space" s rule: trim_left_runes.induct)
    case (1 s)
    then show ?case by (subst trim_left_runes.simps) (auto intro: order_trans [OF _ diff_le_self])
  qed
  moreover have "0 < length t" "0 < field_len t" using 2 by simp_all
  ultimately have "length t - field_len t < length s" by linarith
  with 2(1) show ?case by simp
qed simp

declare str_fields.simps [simp del]

definition lines_of :: "string \<Rightarrow> string list" where
  "lines_of s = str_split s (CHR 0x0A)"

datatype symref_result = SymBranch string | SymUnusual string | SymMissing | SymPanic

fun parse_symref_lines :: "string list \<Rightarrow> symref_result" where
  "parse_symref_lines [] = SymMissing"
| "parse_symref_lines (l # ls) =
     (let line = trim_space l
      in if \<not> has_prefix line ''ref: '' then parse_symref_lines ls
         else (case first_field (hd (str_split_n 2 (trim_prefix line ''ref: '') (CHR 0x09))) of
                 None \<Rightarrow> SymPanic
               | Some ref \<Rightarrow>
                   if has_prefix ref ''refs/heads/'' then SymBranch (trim_prefix ref ''refs/heads/'')
                   else SymUnusual ref))"

definition parse_symref_head :: "string \<Rightarrow> symref_result" where
  "parse_symref_head out = parse_symref_lines (lines_of out)"

definition resolve_default_branch ::
  "(git_cmd \<Rightarrow> string option) \<Rightarrow> string \<Rightarrow> string \<Rightarrow> symref_result option" where
  "resolve_default_branch output repo_url token =
     (if repo_url = [] then None
      else map_option parse_symref_head
             (output (apply_auth token repo_url (git_in [] [''ls-remote'', ''--symref'', repo_url, ''HEAD'']))))"

definition parse_branches :: "string \<Rightarrow> string list" where
  "parse_branches out = filter (\<lambda>l. l \<noteq> []) (lines_of (trim_space out))"

record worktree_info =
  wt_path :: string
  wt_branch :: string

definition no_worktree :: worktree_info where
  "no_worktree = \<lparr>wt_path = [], wt_branch = []\<rparr>"

definition worktree_line ::
  "worktree_info list \<times> worktree_info \<Rightarrow> string \<Rightarrow> worktree_info list \<times> worktree_info" where
  "worktree_line st line =
     (case st of (done_, current) \<Rightarrow>
        if has_prefix line ''worktree '' then
          (done_, \<lparr>wt_path = trim_prefix line ''worktree '', wt_branch = []\<rparr>)
        else if has_prefix line ''branch '' then
          (done_, current\<lparr>wt_branch := trim_prefix (trim_prefix line ''branch '') ''refs/heads/''\<rparr>)
        else if line = [] \<and> wt_path current \<noteq> [] then (done_ @ [current], no_worktree)
        else (done_, current))"

definition parse_worktrees :: "string \<Rightarrow> worktree_info list" where
  "parse_worktrees out =
     (case foldl worktree_line ([], no_worktree) (lines_of out) of
        (done_, current) \<Rightarrow> if wt_path current \<noteq> [] then done_ @ [current] else done_)"

definition match_branches :: "string list \<Rightarrow> string list \<Rightarrow> string list" where
  "match_branches branches patterns =
     filter (\<lambda>b. list_ex (\<lambda>p. path_match p b = Some True) patterns) branches"

section \<open>What the parsers promise\<close>

text \<open>A field of a string that is not blank is never empty, so the index of the program's
  \<open>strings.Fields (ref)[0]\<close> is out of range exactly when the target of the reference is blank.\<close>

lemma parse_symref_panics:
  "parse_symref_head (''ref: '' @ [CHR 0x09] @ ''HEAD'') = SymPanic"
  by code_simp

lemma parse_symref_ok:
  "parse_symref_head (''warning: x'' @ [CHR 0x0A] @ ''ref: refs/heads/master'' @ [CHR 0x09] @ ''HEAD'' @ [CHR 0x0A])
     = SymBranch ''master''"
  by code_simp

lemma match_branches_cases:
  "b \<in> set (match_branches bs ps) \<longleftrightarrow> b \<in> set bs \<and> (\<exists>p \<in> set ps. path_match p b = Some True)"
  by (simp add: match_branches_def list_ex_iff)

text \<open>The documented patterns: a branch name, and a prefix with a star.\<close>

lemma match_branches_literal:
  "list_all literal_char p \<Longrightarrow> match_branches bs [p] = filter (\<lambda>b. b = p) bs"
  by (simp add: match_branches_def path_match_literal)

text \<open>A star stays within one element of the name: it does not match \<open>scenario/auth\<close>.\<close>

lemma match_branches_star:
  "match_branches bs [''*''] = filter (\<lambda>b. CHR ''/'' \<notin> set b) bs"
  using path_match_star [of "[]"] by (simp add: match_branches_def)

section \<open>Slugs of branches and repositories\<close>

definition slug_char :: "char \<Rightarrow> bool" where
  "slug_char c \<longleftrightarrow> ascii_lower (byte c) \<or> ascii_digit (byte c) \<or> c = CHR ''-''"

lemma both_ends_trim_bytes: "trim_bytes p s = both_ends p s"
  by (simp add: trim_bytes_def trim_right_bytes_def trim_left_bytes_def both_ends_def)

lemma slug_rune_char:
  assumes "ascii_lower r \<or> ascii_digit r \<or> r = 45"
  shows "list_all slug_char (encode_rune r)"
proof -
  have "r < 128" using assms by (auto simp: ascii_lower_def ascii_digit_def)
  then have "encode_rune r = [char_of r]" "byte (char_of r) = r"
    by (simp_all add: encode_rune_def)
  moreover have "slug_char (char_of r)"
    using assms calculation(2) byte_dash [of "char_of r"] by (auto simp: slug_char_def)
  ultimately show ?thesis by simp
qed

lemma slugify_shape:
  "list_all slug_char (slugify u s) \<and> \<not> has_double_dash (slugify u s)
   \<and> (slugify u s = [] \<or> hd (slugify u s) \<noteq> CHR ''-'' \<and> last (slugify u s) \<noteq> CHR ''-'')"
proof -
  define raw where "raw = concat (map (\<lambda>r. if ascii_lower r \<or> ascii_digit r \<or> r = 45 then encode_rune r else ''-'')
           (runes (to_lower u s)))"
  have slug: "slugify u s = both_ends (\<lambda>c. c = CHR ''-'') (squash raw)"
    by (simp add: slugify_def raw_def both_ends_trim_bytes collapse_dashes_eq)
  have "list_all slug_char raw"
    unfolding raw_def list_all_iff
    using slug_rune_char by (auto simp: list_all_iff slug_char_def split: if_splits)
  then have "list_all slug_char (squash raw)"
    using set_squash [of raw] by (auto simp: list_all_iff)
  then have "list_all slug_char (slugify u s)"
    unfolding slug list_all_iff using set_both_ends by blast
  moreover obtain a b where "squash raw = a @ slugify u s @ b"
    using both_ends_split unfolding slug by blast
  with squash_no_double [of raw] have "\<not> has_double_dash (slugify u s)"
    by (metis has_double_dash_append)
  ultimately show ?thesis
    unfolding slug using both_ends_hd both_ends_last by blast
qed

text \<open>Distinct branches of one repository can share a slug.\<close>

lemma branch_slug_collision:
  "branch_slug ascii_tables ''fix/a'' = branch_slug ascii_tables ''fix-a''"
  by code_simp

section \<open>The commands of one update\<close>

text \<open>A runner that records the commands; \<open>ok\<close> says which of them succeed.\<close>

definition recorder :: "(git_cmd list \<Rightarrow> git_cmd \<Rightarrow> bool) \<Rightarrow> git_cmd list runner" where
  "recorder ok c w = (w @ [c], ok w c)"

definition git_flags :: "string list" where
  "git_flags = [''--depth'', ''--branch'', ''--ff-only'', ''--init'', ''--recursive'']"

definition plain_args :: "git_cmd \<Rightarrow> bool" where
  "plain_args c \<longleftrightarrow> list_all (\<lambda>a. \<not> has_prefix a ''-'' \<or> a \<in> set git_flags) (gc_args c)"

definition scoped_token :: "string \<Rightarrow> string \<Rightarrow> git_cmd \<Rightarrow> bool" where
  "scoped_token token repo_url c \<longleftrightarrow>
     gc_env c = [] \<or> (token \<noteq> [] \<and> gc_env c = gc_env (apply_auth token repo_url c))"

lemma apply_auth_sel [simp]: "gc_args (apply_auth token url c) = gc_args c"
  by (simp add: apply_auth_def)

lemma scoped_apply_auth [simp]: "scoped_token token url (apply_auth token url (git_in dir args))"
  by (simp add: scoped_token_def apply_auth_def git_in_def)

lemma scoped_git_in [simp]: "scoped_token token url (git_in dir args)"
  by (simp add: scoped_token_def git_in_def)

lemma plain_git_in:
  "plain_args (apply_auth token url (git_in dir args))
     = list_all (\<lambda>a. \<not> has_prefix a ''-'' \<or> a \<in> set git_flags) args"
  "plain_args (git_in dir args) = list_all (\<lambda>a. \<not> has_prefix a ''-'' \<or> a \<in> set git_flags) args"
  by (simp_all add: plain_args_def git_in_def)

lemma git_clone_commands:
  assumes "\<not> has_prefix url ''-''" and "\<not> has_prefix dest ''-''" and "list_all P w"
    and "\<And>dir args. list_all (\<lambda>a. \<not> has_prefix a ''-'' \<or> a \<in> set git_flags) args \<Longrightarrow>
           P (apply_auth token url (git_in dir args))"
  shows "list_all P (fst (git_clone (recorder ok) mk url branch dest token w))"
  using assms by (auto simp: git_clone_def Let_def recorder_def valid_branch_name_def git_flags_def has_prefix_def)

lemma git_pull_commands:
  assumes "list_all P w"
    and "\<And>dir args. list_all (\<lambda>a. \<not> has_prefix a ''-'' \<or> a \<in> set git_flags) args \<Longrightarrow>
           P (apply_auth token url (git_in dir args)) \<and> P (git_in dir args)"
  shows "list_all P (fst (git_pull (recorder ok) path branch url token w))"
  using assms by (auto simp: git_pull_def Let_def recorder_def valid_branch_name_def git_flags_def has_prefix_def)

lemma ensure_submodules_commands:
  assumes "list_all P w"
    and "\<And>dir args. list_all (\<lambda>a. \<not> has_prefix a ''-'' \<or> a \<in> set git_flags) args \<Longrightarrow>
           P (apply_auth token url (git_in dir args))"
  shows "list_all P (fst (ensure_submodules (recorder ok) fs path url token w))"
  using assms by (auto simp: ensure_submodules_def Let_def recorder_def git_flags_def has_prefix_def)

lemma path_join_abs: "is_abs a \<Longrightarrow> is_abs (path_join (a # es))"
proof -
  assume a: "is_abs a"
  then obtain r where r: "a = CHR ''/'' # r" by (cases a) (auto simp: is_abs_def has_prefix_def)
  then have "is_abs (str_join (a # es) ''/'')" by (cases es) (auto simp: is_abs_def has_prefix_def)
  with r show ?thesis
    by (simp add: path_join_def clean_def render_path_def) (simp add: is_abs_def has_prefix_def)
qed

lemma abs_no_dash: "is_abs p \<Longrightarrow> \<not> has_prefix p ''-''"
  by (cases p) (auto simp: is_abs_def has_prefix_def)

text \<open>A repository URL that does not begin with a hyphen, cloned below an absolute base: for
  every outcome of the commands, all arguments that git gets are the program's own options or do not
  look like options, whatever the branch is called; the token is only ever passed in the
  environment, under the key of the repository's own origin; and an option-like branch is an
  error, never a success.\<close>

theorem ensure_repo_commands:
  assumes "is_abs base" and "\<not> has_prefix url ''-''"
    and "ensure_repo u (recorder ok) fs fs' mk url branch base token skip [] = (cs, path, err)"
  shows "list_all (\<lambda>c. plain_args c \<and> scoped_token token url c) cs
    \<and> (has_prefix branch ''-'' \<longrightarrow> err \<noteq> None)"
proof -
  let ?P = "\<lambda>c. plain_args c \<and> scoped_token token url c"
  let ?dest = "path_join [base, url_to_slug u url]"
  have dest: "\<not> has_prefix ?dest ''-''" using assms(1) by (simp add: path_join_abs abs_no_dash)
  have P: "?P (apply_auth token url (git_in dir args))" "?P (git_in dir args)"
    if "list_all (\<lambda>a. \<not> has_prefix a ''-'' \<or> a \<in> set git_flags) args" for dir args
    using that by (simp_all add: plain_git_in)
  define first where "first = (if fs_stat fs (path_join [?dest, ''.git'']) \<noteq> None
      then git_pull (recorder ok) ?dest branch url token []
      else git_clone (recorder ok) mk url branch ?dest token [])"
  have "list_all ?P (fst first)"
    using git_clone_commands [OF assms(2) dest, of ?P "[]"] git_pull_commands [of ?P "[]" token url] P
    by (auto simp: first_def simp del: not_None_eq)
  moreover have "has_prefix branch ''-'' \<Longrightarrow> snd first \<noteq> None"
    by (auto simp: first_def git_pull_def git_clone_def valid_branch_name_def has_prefix_def Let_def
        split: prod.splits if_splits)
  moreover have "list_all ?P w \<Longrightarrow>
      list_all ?P (fst (ensure_submodules (recorder ok) fs' ?dest url token w))" for w
    using ensure_submodules_commands [of ?P w token url] P by blast
  moreover have "ensure_repo u (recorder ok) fs fs' mk url branch base token skip [] =
      (if url = [] then ([], [], Some UrlRequired)
       else if base = [] then ([], [], Some BaseRequired)
       else case snd first of
              Some e \<Rightarrow> (fst first, ?dest, Some e)
            | None \<Rightarrow> if skip then (fst first, ?dest, None)
                else (fst (ensure_submodules (recorder ok) fs' ?dest url token (fst first)), ?dest,
                      snd (ensure_submodules (recorder ok) fs' ?dest url token (fst first))))"
    unfolding ensure_repo_def first_def Let_def case_prod_beta by (simp cong: if_cong split del: if_split)
  ultimately show ?thesis using assms(3) by (auto split: if_splits option.splits)
qed

theorem ensure_repo_commands_witness:
  "case ensure_repo ascii_tables (recorder (\<lambda>_ _. True)) \<lparr>fs_stat = \<lambda>_. None, fs_read_dir = \<lambda>_. None\<rparr>
          \<lparr>fs_stat = \<lambda>_. None, fs_read_dir = \<lambda>_. None\<rparr> True ''https://h/r.git'' ''-main'' ''/w'' ''t'' True [] of
     (cs, path, err) \<Rightarrow> list_all (\<lambda>c. plain_args c \<and> scoped_token ''t'' ''https://h/r.git'' c) cs \<and> err \<noteq> None"
  (is "case ?r of (cs, path, err) \<Rightarrow> _")
proof -
  obtain cs path err where r: "?r = (cs, path, err)" by (cases ?r)
  have "is_abs ''/w''" "\<not> has_prefix ''https://h/r.git'' ''-''" "has_prefix ''-main'' ''-''"
    by (simp_all add: is_abs_def has_prefix_def)
  with ensure_repo_commands [OF _ _ r] r show ?thesis by simp
qed

text \<open>The URL itself is not checked: one that begins with a hyphen reaches git as an option.\<close>

lemma option_like_url_reaches_git:
  "map gc_args (fst (ensure_repo ascii_tables (recorder (\<lambda>_ _. True))
      \<lparr>fs_stat = \<lambda>_. None, fs_read_dir = \<lambda>_. None\<rparr> \<lparr>fs_stat = \<lambda>_. None, fs_read_dir = \<lambda>_. None\<rparr>
      True ''--upload-pack=x'' [] ''/w'' [] True []))
   = [[''clone'', ''--depth'', ''1'', ''--upload-pack=x'', ''/w/upload-pack-x'']]"
  by code_simp

text \<open>For a URL of another transport the key names no origin, and the header goes with every
  request of the command, also to the hosts of the submodules.\<close>

lemma ssh_parent_unscoped:
  "gc_env (apply_auth ''t'' ''git@h:o/r.git'' (git_in [] [''submodule'', ''update'']))
     ! 1 = ''GIT_CONFIG_KEY_0=http.extraheader''"
  by code_simp

end
