(* ===== verification/Submodules.thy ===== *)
theory Submodules
  imports Workspace
begin

text \<open>
  The inventory of a repository's submodules (\<open>workspace/submodules.go\<close>): the parsers of
  \<open>.gitmodules\<close> and of the index, the resolution of relative URLs, and the bounded recursion into
  the materialized trees. What git and the file system answer for a directory is the record
  \<open>repo_env\<close>. The inventory is then compared with the tree of declarations, an inductive
  relation that knows nothing of the traversal.
\<close>

section \<open>Parsing\<close>

record declared_submodule =
  ds_path :: string
  ds_url :: string

datatype config_output = ConfigOk string | ConfigEmpty | ConfigFailed

record repo_env =
  re_has_gitmodules :: "string \<Rightarrow> bool"
  re_config :: "string \<Rightarrow> config_output"
  re_ls_files :: "string \<Rightarrow> string list \<Rightarrow> string option"
  re_origin :: "string \<Rightarrow> string option"
  re_has_content :: "string \<Rightarrow> bool"

definition max_submodule_depth :: nat where
  "max_submodule_depth = 10"

definition trim_newlines :: "string \<Rightarrow> string" where
  "trim_newlines s = trim_right_bytes (\<lambda>c. c = CHR 0x0A) s"

definition set_field :: "string \<Rightarrow> string \<Rightarrow> declared_submodule \<Rightarrow> declared_submodule" where
  "set_field field v e =
     (if field = ''path'' then e\<lparr>ds_path := v\<rparr>
      else if field = ''url'' then e\<lparr>ds_url := v\<rparr> else e)"

text \<open>One line \<open>submodule.<name>.<field> <value>\<close>; the name may contain dots. The map keeps the
  order in which the names appear.\<close>

definition config_line ::
  "(string, declared_submodule) gomap \<Rightarrow> string \<Rightarrow> (string, declared_submodule) gomap" where
  "config_line m line =
     (case str_cut line '' '' of (key, v, ok) \<Rightarrow>
        if \<not> ok then m
        else case last_index_byte key (CHR ''.'') of
          None \<Rightarrow> m
        | Some last_dot \<Rightarrow>
            if last_dot \<le> length ''submodule.'' then m
            else
              (let name = take (last_dot - length ''submodule.'') (drop (length ''submodule.'') key);
                   field = drop (last_dot + 1) key;
                   e = (case map_of m name of
                          None \<Rightarrow> \<lparr>ds_path = [], ds_url = []\<rparr> | Some e \<Rightarrow> e)
               in gm_put name (set_field field v e) m))"

definition parse_declared :: "string \<Rightarrow> declared_submodule list" where
  "parse_declared out =
     filter (\<lambda>e. ds_path e \<noteq> []) (map snd (foldl config_line [] (lines_of (trim_newlines out))))"

definition declared_submodules :: "repo_env \<Rightarrow> string \<Rightarrow> declared_submodule list option" where
  "declared_submodules env dir =
     (if \<not> re_has_gitmodules env dir then Some []
      else case re_config env dir of
        ConfigOk out \<Rightarrow> Some (parse_declared out)
      | ConfigEmpty \<Rightarrow> Some []
      | ConfigFailed \<Rightarrow> None)"

definition gitlink_line :: "(string, string) gomap \<Rightarrow> string \<Rightarrow> (string, string) gomap" where
  "gitlink_line m line =
     (case str_cut line [CHR 0x09] of (meta, p, ok) \<Rightarrow>
        if ok \<and> length (str_fields meta) = 3 \<and> str_fields meta ! 0 = ''160000''
        then gm_put p (str_fields meta ! 1) m else m)"

definition parse_gitlinks :: "string \<Rightarrow> (string, string) gomap" where
  "parse_gitlinks out = foldl gitlink_line [] (lines_of (trim_newlines out))"

definition gitlink_shas :: "repo_env \<Rightarrow> string \<Rightarrow> declared_submodule list \<Rightarrow> (string, string) gomap option" where
  "gitlink_shas env dir declared = map_option parse_gitlinks (re_ls_files env dir (map ds_path declared))"

definition origin_url :: "repo_env \<Rightarrow> string \<Rightarrow> string" where
  "origin_url env dir = (case re_origin env dir of None \<Rightarrow> [] | Some out \<Rightarrow> trim_space out)"

section \<open>Relative URLs\<close>

text \<open>The base is split into a part that is kept and a path that is joined.\<close>

definition url_base :: "string \<Rightarrow> (string \<times> string) option" where
  "url_base base =
     (case str_index base ''://'' of
        Some i \<Rightarrow>
          (let rest = drop (i + 3) base
           in case index_byte rest (CHR ''/'') of
                None \<Rightarrow> None
              | Some slash \<Rightarrow> Some (take (i + 3) base @ take slash rest, drop slash rest))
      | None \<Rightarrow>
          if has_prefix base ''git@'' \<and> str_contains base '':'' then
            (case index_byte base (CHR '':'') of
               None \<Rightarrow> None
             | Some i \<Rightarrow> Some (take (i + 1) base, drop (i + 1) base))
          else Some ([], base))"

definition resolve_submodule_url :: "string \<Rightarrow> string \<Rightarrow> string" where
  "resolve_submodule_url base raw =
     (if \<not> has_prefix raw ''./'' \<and> \<not> has_prefix raw ''../'' then raw
      else if base = [] then raw
      else case url_base base of
        None \<Rightarrow> raw
      | Some (pre, base_path) \<Rightarrow> pre @ path_join [base_path, raw])"

section \<open>The inventory\<close>

record submodule_info =
  sm_path :: string
  sm_url :: string
  sm_resolved :: string
  sm_sha :: string
  sm_materialized :: bool
  sm_depth :: nat

record inventory =
  inv_submodules :: "submodule_info list"
  inv_beyond :: "string list"

definition submodule_dir :: "string \<Rightarrow> declared_submodule \<Rightarrow> string" where
  "submodule_dir dir d = path_join [dir, ds_path d]"

definition info_of ::
  "repo_env \<Rightarrow> string \<Rightarrow> string \<Rightarrow> string \<Rightarrow> nat \<Rightarrow> (string, string) gomap \<Rightarrow> declared_submodule \<Rightarrow> submodule_info" where
  "info_of env dir pre parent_url depth shas d =
     \<lparr>sm_path = path_join [pre, ds_path d], sm_url = ds_url d,
      sm_resolved = resolve_submodule_url parent_url (ds_url d),
      sm_sha = (case map_of shas (ds_path d) of None \<Rightarrow> [] | Some h \<Rightarrow> h),
      sm_materialized = re_has_content env (submodule_dir dir d), sm_depth = depth\<rparr>"

text \<open>\<open>k\<close> is the number of levels left, \<open>maxDepth + 1 - depth\<close>; at 0 the entries are only noted.\<close>

primrec list_submodules_into ::
  "nat \<Rightarrow> repo_env \<Rightarrow> string \<Rightarrow> string \<Rightarrow> string \<Rightarrow> nat \<Rightarrow> inventory \<Rightarrow> inventory option" where
  "list_submodules_into 0 env dir pre parent_url depth iv =
     (case declared_submodules env dir of
        None \<Rightarrow> None
      | Some ds \<Rightarrow>
          if ds = [] then Some iv
          else (case gitlink_shas env dir ds of
                  None \<Rightarrow> None
                | Some shas \<Rightarrow>
                    Some (foldl (\<lambda>iv d. iv\<lparr>inv_beyond := inv_beyond iv @ [path_join [pre, ds_path d]]\<rparr>) iv ds)))"
| "list_submodules_into (Suc k) env dir pre parent_url depth iv =
     (case declared_submodules env dir of
        None \<Rightarrow> None
      | Some ds \<Rightarrow>
          if ds = [] then Some iv
          else (case gitlink_shas env dir ds of
                  None \<Rightarrow> None
                | Some shas \<Rightarrow>
                    foldl (\<lambda>acc d.
                        (case acc of
                           None \<Rightarrow> None
                         | Some iv \<Rightarrow>
                             (let info = info_of env dir pre parent_url depth shas d;
                                  iv' = iv\<lparr>inv_submodules := inv_submodules iv @ [info]\<rparr>
                              in if sm_materialized info
                                 then list_submodules_into k env (submodule_dir dir d) (sm_path info)
                                        (sm_resolved info) (Suc depth) iv'
                                 else Some iv')))
                      (Some iv) ds))"

definition list_submodules_to :: "nat \<Rightarrow> repo_env \<Rightarrow> string \<Rightarrow> inventory option" where
  "list_submodules_to max_depth env repo_path =
     (if repo_path = [] then None
      else list_submodules_into max_depth env repo_path [] (origin_url env repo_path) 1
             \<lparr>inv_submodules = [], inv_beyond = []\<rparr>)"

definition list_submodules :: "repo_env \<Rightarrow> string \<Rightarrow> inventory option" where
  "list_submodules env repo_path = list_submodules_to max_submodule_depth env repo_path"

section \<open>The tree of declarations\<close>

text \<open>
  \<open>tree_dir env root dir pre url n\<close>: the checkout \<open>dir\<close>, at the path \<open>pre\<close> below the root, is
  \<open>n\<close> materialized submodules deep; its relative URLs resolve against \<open>url\<close>.
\<close>

inductive tree_dir :: "repo_env \<Rightarrow> string \<Rightarrow> string \<Rightarrow> string \<Rightarrow> nat \<Rightarrow> string \<Rightarrow> string \<Rightarrow> string \<Rightarrow> nat \<Rightarrow> bool"
  for env :: repo_env and dir0 pre0 url0 :: string and depth0 :: nat where
  root: "tree_dir env dir0 pre0 url0 depth0 dir0 pre0 url0 depth0"
| sub: "tree_dir env dir0 pre0 url0 depth0 dir pre url n \<Longrightarrow> declared_submodules env dir = Some ds \<Longrightarrow>
        d \<in> set ds \<Longrightarrow> re_has_content env (submodule_dir dir d) \<Longrightarrow>
        tree_dir env dir0 pre0 url0 depth0 (submodule_dir dir d) (path_join [pre, ds_path d])
          (resolve_submodule_url url (ds_url d)) (Suc n)"

definition tree_infos :: "repo_env \<Rightarrow> string \<Rightarrow> string \<Rightarrow> string \<Rightarrow> nat \<Rightarrow> nat \<Rightarrow> submodule_info set" where
  "tree_infos env dir0 pre0 url0 depth0 k =
     {info. \<exists>dir pre url n ds shas d. tree_dir env dir0 pre0 url0 depth0 dir pre url n \<and> n < depth0 + k
        \<and> declared_submodules env dir = Some ds \<and> d \<in> set ds
        \<and> gitlink_shas env dir ds = Some shas \<and> info = info_of env dir pre url n shas d}"

definition tree_beyond :: "repo_env \<Rightarrow> string \<Rightarrow> string \<Rightarrow> string \<Rightarrow> nat \<Rightarrow> nat \<Rightarrow> string set" where
  "tree_beyond env dir0 pre0 url0 depth0 k =
     {p. \<exists>dir pre url ds d. tree_dir env dir0 pre0 url0 depth0 dir pre url (depth0 + k)
        \<and> declared_submodules env dir = Some ds \<and> d \<in> set ds \<and> p = path_join [pre, ds_path d]}"

lemma tree_dir_depth: "tree_dir env d0 p0 u0 n0 d p u n \<Longrightarrow> n0 \<le> n"
  by (induction rule: tree_dir.induct) auto

text \<open>A checkout of the tree is the root, or lies in the tree of one of the root's submodules.\<close>

lemma tree_dir_head:
  "tree_dir env d0 p0 u0 n0 dir pre url n \<longleftrightarrow>
     (dir = d0 \<and> pre = p0 \<and> url = u0 \<and> n = n0)
     \<or> (\<exists>ds d. declared_submodules env d0 = Some ds \<and> d \<in> set ds \<and> re_has_content env (submodule_dir d0 d)
          \<and> tree_dir env (submodule_dir d0 d) (path_join [p0, ds_path d])
               (resolve_submodule_url u0 (ds_url d)) (Suc n0) dir pre url n)"
  (is "?l \<longleftrightarrow> ?r dir pre url n")
proof
  show "?l \<Longrightarrow> ?r dir pre url n"
  proof (induction rule: tree_dir.induct)
    case root
    show ?case by simp
  next
    case (sub dir pre url n ds d)
    then show ?case by (metis tree_dir.root tree_dir.sub)
  qed
  have "tree_dir env d1 p1 u1 n1 dir pre url n \<Longrightarrow> tree_dir env d0 p0 u0 n0 d1 p1 u1 n1 \<Longrightarrow>
      tree_dir env d0 p0 u0 n0 dir pre url n" for d1 p1 u1 n1
    by (induction rule: tree_dir.induct) (auto intro: tree_dir.sub)
  then show "?r dir pre url n \<Longrightarrow> ?l" by (metis tree_dir.root tree_dir.sub)
qed

lemma tree_dir_ex:
  "(\<exists>dir pre url n. tree_dir env d0 p0 u0 n0 dir pre url n \<and> P dir pre url n) \<longleftrightarrow>
     P d0 p0 u0 n0
     \<or> (\<exists>ds d. declared_submodules env d0 = Some ds \<and> d \<in> set ds \<and> re_has_content env (submodule_dir d0 d)
          \<and> (\<exists>dir pre url n. tree_dir env (submodule_dir d0 d) (path_join [p0, ds_path d])
               (resolve_submodule_url u0 (ds_url d)) (Suc n0) dir pre url n \<and> P dir pre url n))"
  by (subst tree_dir_head) blast

definition infos_at :: "repo_env \<Rightarrow> submodule_info \<Rightarrow> nat \<Rightarrow> string \<Rightarrow> string \<Rightarrow> string \<Rightarrow> nat \<Rightarrow> bool" where
  "infos_at env info m dir pre url n \<longleftrightarrow>
     n < m \<and> (\<exists>ds shas d. declared_submodules env dir = Some ds \<and> d \<in> set ds
        \<and> gitlink_shas env dir ds = Some shas \<and> info = info_of env dir pre url n shas d)"

lemma tree_infos_iff:
  "info \<in> tree_infos env d0 p0 u0 n0 k \<longleftrightarrow>
     (\<exists>dir pre url n. tree_dir env d0 p0 u0 n0 dir pre url n \<and> infos_at env info (n0 + k) dir pre url n)"
  unfolding tree_infos_def infos_at_def by blast

definition beyond_at :: "repo_env \<Rightarrow> string \<Rightarrow> nat \<Rightarrow> string \<Rightarrow> string \<Rightarrow> string \<Rightarrow> nat \<Rightarrow> bool" where
  "beyond_at env p m dir pre url n \<longleftrightarrow>
     n = m \<and> (\<exists>ds d. declared_submodules env dir = Some ds \<and> d \<in> set ds \<and> p = path_join [pre, ds_path d])"

lemma tree_beyond_iff:
  "p \<in> tree_beyond env d0 p0 u0 n0 k \<longleftrightarrow>
     (\<exists>dir pre url n. tree_dir env d0 p0 u0 n0 dir pre url n \<and> beyond_at env p (n0 + k) dir pre url n)"
  unfolding tree_beyond_def beyond_at_def by blast

lemma tree_infos_0: "tree_infos env d0 p0 u0 n0 0 = {}"
  by (auto simp: tree_infos_def dest: tree_dir_depth)

lemma tree_infos_Suc:
  "info \<in> tree_infos env d0 p0 u0 n0 (Suc k) \<longleftrightarrow>
     infos_at env info (n0 + Suc k) d0 p0 u0 n0
     \<or> (\<exists>ds d. declared_submodules env d0 = Some ds \<and> d \<in> set ds
        \<and> re_has_content env (submodule_dir d0 d)
        \<and> info \<in> tree_infos env (submodule_dir d0 d) (path_join [p0, ds_path d])
             (resolve_submodule_url u0 (ds_url d)) (Suc n0) k)"
  unfolding tree_infos_iff add_Suc add_Suc_right by (rule tree_dir_ex)

lemma tree_beyond_0:
  "p \<in> tree_beyond env d0 p0 u0 n0 0 \<longleftrightarrow>
     (\<exists>ds d. declared_submodules env d0 = Some ds \<and> d \<in> set ds \<and> p = path_join [p0, ds_path d])"
  unfolding tree_beyond_iff by (subst tree_dir_ex) (auto simp: beyond_at_def dest: tree_dir_depth)

lemma tree_beyond_Suc:
  "p \<in> tree_beyond env d0 p0 u0 n0 (Suc k) \<longleftrightarrow>
     (\<exists>ds d. declared_submodules env d0 = Some ds \<and> d \<in> set ds
        \<and> re_has_content env (submodule_dir d0 d)
        \<and> p \<in> tree_beyond env (submodule_dir d0 d) (path_join [p0, ds_path d])
             (resolve_submodule_url u0 (ds_url d)) (Suc n0) k)"
  unfolding tree_beyond_iff add_Suc add_Suc_right by (subst tree_dir_ex) (simp add: beyond_at_def)

definition extends :: "inventory \<Rightarrow> submodule_info set \<Rightarrow> string set \<Rightarrow> inventory \<Rightarrow> bool" where
  "extends iv infos beyond iv' \<longleftrightarrow>
     (\<exists>new past. inv_submodules iv' = inv_submodules iv @ new \<and> set new = infos
        \<and> inv_beyond iv' = inv_beyond iv @ past \<and> set past = beyond)"

lemma extends_refl: "extends iv {} {} iv"
  by (simp add: extends_def)

lemma extends_trans:
  "extends iv a b iv' \<Longrightarrow> extends iv' a' b' iv'' \<Longrightarrow> extends iv (a \<union> a') (b \<union> b') iv''"
  unfolding extends_def by (metis append.assoc set_append)

lemma extends_info: "extends iv {info} {} (iv\<lparr>inv_submodules := inv_submodules iv @ [info]\<rparr>)"
  by (simp add: extends_def)

lemma extends_beyond:
  "extends iv {} (f ` set ds) (foldl (\<lambda>iv d. iv\<lparr>inv_beyond := inv_beyond iv @ [f d]\<rparr>) iv ds)"
proof (induction ds arbitrary: iv)
  case (Cons d ds)
  have "extends iv {} {f d} (iv\<lparr>inv_beyond := inv_beyond iv @ [f d]\<rparr>)" by (simp add: extends_def)
  from extends_trans [OF this Cons] show ?case by simp
qed (simp add: extends_refl)

lemma extends_loop:
  assumes "\<And>d iv iv'. d \<in> set ds \<Longrightarrow> step d iv = Some iv' \<Longrightarrow> extends iv (a d) (b d) iv'"
    and "foldl (\<lambda>acc d. case acc of None \<Rightarrow> None | Some iv \<Rightarrow> step d iv) (Some iv) ds = Some iv'"
  shows "extends iv (\<Union> (a ` set ds)) (\<Union> (b ` set ds)) iv'"
  using assms
proof (induction ds arbitrary: iv)
  case Nil
  then show ?case by (simp add: extends_refl)
next
  case (Cons d ds)
  have none: "foldl (\<lambda>acc d. case acc of None \<Rightarrow> None | Some iv \<Rightarrow> step d iv) None ds = None" for ds
    by (induction ds) auto
  then obtain iv1 where s: "step d iv = Some iv1"
    using Cons.prems(2) by (cases "step d iv") auto
  have "extends iv1 (\<Union> (a ` set ds)) (\<Union> (b ` set ds)) iv'"
    using Cons.IH [OF Cons.prems(1)] Cons.prems(2) s by simp
  from extends_trans [OF Cons.prems(1) [OF _ s] this] show ?case by simp
qed

lemma list_submodules_into_tree:
  "list_submodules_into k env dir pre url depth iv = Some iv' \<Longrightarrow>
   extends iv (tree_infos env dir pre url depth k) (tree_beyond env dir pre url depth k) iv'"
proof (induction k arbitrary: dir pre url depth iv iv')
  case 0
  obtain ds where ds: "declared_submodules env dir = Some ds"
    using 0 by (auto split: option.splits)
  show ?case
  proof (cases "ds = []")
    case True
    then have "tree_beyond env dir pre url depth 0 = {}" using ds by (auto simp: tree_beyond_0)
    with True 0 ds show ?thesis by (simp add: tree_infos_0 extends_refl)
  next
    case False
    with 0 ds have "iv' = foldl (\<lambda>iv d. iv\<lparr>inv_beyond := inv_beyond iv @ [path_join [pre, ds_path d]]\<rparr>) iv ds"
      by (auto split: option.splits)
    moreover have "tree_beyond env dir pre url depth 0 = (\<lambda>d. path_join [pre, ds_path d]) ` set ds"
      using ds by (auto simp: tree_beyond_0)
    ultimately show ?thesis by (simp add: tree_infos_0 extends_beyond)
  qed
next
  case (Suc k)
  obtain ds where ds: "declared_submodules env dir = Some ds"
    using Suc.prems by (auto split: option.splits)
  show ?case
  proof (cases "ds = []")
    case True
    then have "tree_infos env dir pre url depth (Suc k) = {}" "tree_beyond env dir pre url depth (Suc k) = {}"
      using ds by (auto simp: tree_infos_Suc tree_beyond_Suc infos_at_def)
    with True Suc.prems ds show ?thesis by (simp add: extends_refl)
  next
    case False
    then obtain shas where shas: "gitlink_shas env dir ds = Some shas"
      using Suc.prems ds by (auto split: option.splits)
    define step where "step d iv =
       (let info = info_of env dir pre url depth shas d;
            iv' = iv\<lparr>inv_submodules := inv_submodules iv @ [info]\<rparr>
        in if sm_materialized info
           then list_submodules_into k env (submodule_dir dir d) (sm_path info) (sm_resolved info) (Suc depth) iv'
           else Some iv')" for d iv
    define a where "a d = insert (info_of env dir pre url depth shas d)
       (if re_has_content env (submodule_dir dir d)
        then tree_infos env (submodule_dir dir d) (path_join [pre, ds_path d])
               (resolve_submodule_url url (ds_url d)) (Suc depth) k else {})" for d
    define b where "b d = (if re_has_content env (submodule_dir dir d)
        then tree_beyond env (submodule_dir dir d) (path_join [pre, ds_path d])
               (resolve_submodule_url url (ds_url d)) (Suc depth) k else {})" for d
    have loop: "foldl (\<lambda>acc d. case acc of None \<Rightarrow> None | Some iv \<Rightarrow> step d iv) (Some iv) ds = Some iv'"
      unfolding step_def using Suc.prems ds shas False by simp
    have "extends iv1 (a d) (b d) iv2" if "step d iv1 = Some iv2" for d iv1 iv2
    proof -
      let ?info = "info_of env dir pre url depth shas d"
      let ?iv = "iv1\<lparr>inv_submodules := inv_submodules iv1 @ [?info]\<rparr>"
      have sel: "sm_path ?info = path_join [pre, ds_path d]"
          "sm_resolved ?info = resolve_submodule_url url (ds_url d)"
          "sm_materialized ?info = re_has_content env (submodule_dir dir d)"
        by (simp_all add: info_of_def)
      show ?thesis
      proof (cases "re_has_content env (submodule_dir dir d)")
        case True
        with that sel have "list_submodules_into k env (submodule_dir dir d) (path_join [pre, ds_path d])
            (resolve_submodule_url url (ds_url d)) (Suc depth) ?iv = Some iv2"
          by (simp add: step_def Let_def)
        from extends_trans [OF extends_info Suc.IH [OF this]] True show ?thesis
          by (simp add: a_def b_def)
      next
        case False
        with that sel extends_info [of iv1 ?info] show ?thesis by (simp add: step_def Let_def a_def b_def)
      qed
    qed
    then have "extends iv (\<Union> (a ` set ds)) (\<Union> (b ` set ds)) iv'"
      using extends_loop [OF _ loop] by blast
    moreover have "\<Union> (a ` set ds) = tree_infos env dir pre url depth (Suc k)"
      using ds shas by (auto simp: a_def tree_infos_Suc infos_at_def split: if_splits)
    moreover have "\<Union> (b ` set ds) = tree_beyond env dir pre url depth (Suc k)"
      using ds by (auto simp: b_def tree_beyond_Suc split: if_splits)
    ultimately show ?thesis by simp
  qed
qed

text \<open>C6: The inventory is complete: it lists exactly the submodules declared in the checkouts that
  are at most \<open>max_submodule_depth\<close> levels deep, each with its own depth, URL and pinned commit,
  and what it reports as beyond the cap is exactly what is declared one level below.\<close>

theorem inventory_is_the_tree:
  assumes "list_submodules env root = Some iv"
  shows "set (inv_submodules iv) = tree_infos env root [] (origin_url env root) 1 max_submodule_depth
    \<and> set (inv_beyond iv) = tree_beyond env root [] (origin_url env root) 1 max_submodule_depth"
proof -
  have "list_submodules_into max_submodule_depth env root [] (origin_url env root) 1
          \<lparr>inv_submodules = [], inv_beyond = []\<rparr> = Some iv"
    using assms by (simp add: list_submodules_def list_submodules_to_def split: if_splits)
  from list_submodules_into_tree [OF this] show ?thesis by (auto simp: extends_def)
qed

text \<open>A repository with one materialized submodule that declares another, not materialized.\<close>

definition demo_env :: repo_env where
  "demo_env =
     \<lparr>re_has_gitmodules = \<lambda>d. d = ''/r'' \<or> d = ''/r/lib'',
      re_config = \<lambda>d. if d = ''/r''
        then ConfigOk (''submodule.a.b.path lib'' @ [CHR 0x0A] @ ''submodule.a.b.url ../lib'' @ [CHR 0x0A])
        else ConfigOk (''submodule.dep.path dep'' @ [CHR 0x0A] @ ''submodule.dep.url https://k/dep'' @ [CHR 0x0A]),
      re_ls_files = \<lambda>d ps. if d = ''/r'' then Some (''160000 c0ffee 0'' @ [CHR 0x09] @ ''lib'' @ [CHR 0x0A])
        else Some (''160000 beef 0'' @ [CHR 0x09] @ ''dep'' @ [CHR 0x0A]),
      re_origin = \<lambda>_. Some (''https://h/o/r'' @ [CHR 0x0A]),
      re_has_content = \<lambda>d. d = ''/r/lib''\<rparr>"

lemma demo_inventory:
  "list_submodules demo_env ''/r'' =
     Some \<lparr>inv_submodules =
        [\<lparr>sm_path = ''lib'', sm_url = ''../lib'', sm_resolved = ''https://h/o/lib'', sm_sha = ''c0ffee'',
          sm_materialized = True, sm_depth = 1\<rparr>,
         \<lparr>sm_path = ''lib/dep'', sm_url = ''https://k/dep'', sm_resolved = ''https://k/dep'', sm_sha = ''beef'',
          sm_materialized = False, sm_depth = 2\<rparr>],
       inv_beyond = []\<rparr>"
  by code_simp

theorem inventory_is_the_tree_witness:
  "sm_path ` tree_infos demo_env ''/r'' [] (origin_url demo_env ''/r'') 1 max_submodule_depth
     = {''lib'', ''lib/dep''}
   \<and> tree_beyond demo_env ''/r'' [] (origin_url demo_env ''/r'') 1 max_submodule_depth = {}"
proof -
  note t = inventory_is_the_tree [OF demo_inventory]
  show ?thesis unfolding t [THEN conjunct1, symmetric] t [THEN conjunct2, symmetric] by simp
qed

section \<open>Resolution stays on the host\<close>

text \<open>The URL of an absolute base is resolved within its scheme and host.\<close>

lemma resolve_keeps_host:
  assumes "url_base base = Some (pre, bp)" and "has_prefix raw ''./'' \<or> has_prefix raw ''../''" and "base \<noteq> []"
  shows "resolve_submodule_url base raw = pre @ path_join [bp, raw]"
  using assms by (auto simp: resolve_submodule_url_def)

lemma url_base_abs:
  assumes "str_index base ''://'' = Some i" and "url_base base = Some (pre, bp)"
  shows "is_abs bp"
proof -
  obtain k where k: "index_byte (drop (i + 3) base) (CHR ''/'') = Some k" "bp = drop k (drop (i + 3) base)"
    using assms by (auto simp: url_base_def Let_def split: option.splits)
  have "index_byte s c = Some k \<Longrightarrow> k < length s \<and> s ! k = c" for s c
  proof (induction s c arbitrary: k rule: index_byte.induct)
    case (2 x s c)
    then show ?case by (cases k) (auto split: if_splits option.splits)
  qed simp
  from this [OF k(1)] have "bp = CHR ''/'' # drop (Suc k) (drop (i + 3) base)"
    using k(2) by (metis Cons_nth_drop_Suc)
  then show ?thesis by (simp add: is_abs_def has_prefix_def)
qed

lemma resolve_absolute_base:
  assumes "str_index base ''://'' = Some i" and "url_base base = Some (pre, bp)"
    and "has_prefix raw ''./'' \<or> has_prefix raw ''../''"
  shows "\<exists>p. resolve_submodule_url base raw = pre @ p \<and> is_abs p"
proof -
  have "base \<noteq> []" using assms(1) by (auto simp: str_index.simps has_prefix_def)
  from resolve_keeps_host [OF assms(2,3) this] path_join_abs [OF url_base_abs [OF assms(1,2)], of "[raw]"]
  show ?thesis by blast
qed

end
