(* ===== verification/BranchWatch.thy ===== *)
theory BranchWatch
  imports Workspace
begin

text \<open>
  Discovery of branches (\<open>workspace/branchwatcher.go\<close>, and \<open>EnsureWorktree\<close> of \<open>workspace.go\<close>):
  the watcher's state is the map of the branches it knows, \<open>Discover\<close> is one transition of it.
  git is a record of operations on the world. The two loops of the code over Go maps take the
  order of the visit as an argument.
\<close>

record branch_state =
  bs_branch :: string
  bs_slug :: string
  bs_path :: string

record watcher =
  bw_repo :: string
  bw_patterns :: "string list"
  bw_base :: string
  bw_max :: int
  bw_known :: "(string, branch_state) gomap"

definition new_branch_watcher :: "string \<Rightarrow> string list \<Rightarrow> string \<Rightarrow> int \<Rightarrow> watcher" where
  "new_branch_watcher repo patterns base max_branches =
     \<lparr>bw_repo = repo, bw_patterns = patterns, bw_base = base,
      bw_max = (if max_branches \<le> 0 then 50 else max_branches), bw_known = []\<rparr>"

record 'w git_ops =
  go_branches :: "string \<Rightarrow> 'w \<Rightarrow> string option"
  go_worktrees :: "string \<Rightarrow> 'w \<Rightarrow> string option"
  go_add_worktree :: "string \<Rightarrow> string \<Rightarrow> string \<Rightarrow> 'w \<Rightarrow> 'w \<times> bool"

definition list_branches :: "'w git_ops \<Rightarrow> string \<Rightarrow> 'w \<Rightarrow> string list option" where
  "list_branches ops repo w = map_option parse_branches (go_branches ops repo w)"

definition list_worktrees :: "'w git_ops \<Rightarrow> string \<Rightarrow> 'w \<Rightarrow> worktree_info list option" where
  "list_worktrees ops repo w = map_option parse_worktrees (go_worktrees ops repo w)"

definition ensure_worktree ::
  "unicode_tables \<Rightarrow> 'w git_ops \<Rightarrow> string \<Rightarrow> string \<Rightarrow> string \<Rightarrow> 'w \<Rightarrow> 'w \<times> string option" where
  "ensure_worktree u ops repo branch base w =
     (if \<not> valid_branch_name branch then (w, None)
      else case list_worktrees ops repo w of
        None \<Rightarrow> (w, None)
      | Some wts \<Rightarrow>
          (case find (\<lambda>t. wt_branch t = branch) wts of
             Some t \<Rightarrow> (w, Some (wt_path t))
           | None \<Rightarrow>
               (let dest = path_join [base, branch_slug u branch];
                    (w', ok) = go_add_worktree ops repo dest branch w
                in (w', if ok then Some dest else None))))"

definition worktree_map :: "worktree_info list \<Rightarrow> (string, string) gomap" where
  "worktree_map wts =
     foldl (\<lambda>m t. if wt_branch t \<noteq> [] then gm_put (wt_branch t) (wt_path t) m else m) [] wts"

definition matched_branches ::
  "((string, string) gomap \<Rightarrow> (string, string) gomap) \<Rightarrow> string list \<Rightarrow> (string, string) gomap
   \<Rightarrow> string list \<Rightarrow> string list" where
  "matched_branches visit branches wts patterns =
     foldl (\<lambda>m b. if match_branches [b] patterns \<noteq> [] \<and> b \<notin> set m then m @ [b] else m)
       (match_branches branches patterns) (map fst (visit wts))"

text \<open>One turn of the loop that detects added branches.\<close>

definition add_branch ::
  "unicode_tables \<Rightarrow> 'w git_ops \<Rightarrow> watcher \<Rightarrow> (string, string) gomap
   \<Rightarrow> 'w \<times> (string, branch_state) gomap \<times> branch_state list \<Rightarrow> string
   \<Rightarrow> 'w \<times> (string, branch_state) gomap \<times> branch_state list" where
  "add_branch u ops bw wts st branch =
     (case st of (w, known, added) \<Rightarrow>
        if gm_has known branch then st
        else if bw_max bw \<le> int (length known) then st
        else
          (let (w', path) = (case map_of wts branch of
                               Some p \<Rightarrow> (w, Some p)
                             | None \<Rightarrow> ensure_worktree u ops (bw_repo bw) branch (bw_base bw) w)
           in case path of
                None \<Rightarrow> (w', known, added)
              | Some p \<Rightarrow>
                  (let s = \<lparr>bs_branch = branch, bs_slug = branch_slug u branch, bs_path = p\<rparr>
                   in (w', gm_put branch s known, added @ [s]))))"

definition discover ::
  "unicode_tables \<Rightarrow> 'w git_ops \<Rightarrow> ((string, string) gomap \<Rightarrow> (string, string) gomap)
   \<Rightarrow> ((string, branch_state) gomap \<Rightarrow> (string, branch_state) gomap) \<Rightarrow> 'w \<Rightarrow> watcher
   \<Rightarrow> ('w \<times> watcher \<times> branch_state list \<times> string list) option" where
  "discover u ops visit visit' w bw =
     (case list_branches ops (bw_repo bw) w of
        None \<Rightarrow> None
      | Some branches \<Rightarrow>
          (let wts = (case list_worktrees ops (bw_repo bw) w of None \<Rightarrow> [] | Some t \<Rightarrow> worktree_map t);
               matched = matched_branches visit branches wts (bw_patterns bw);
               (w', known, added) = foldl (add_branch u ops bw wts) (w, bw_known bw, []) matched;
               removed = filter (\<lambda>b. b \<notin> set matched) (map fst (visit' known))
           in Some (w', bw\<lparr>bw_known := foldl (\<lambda>m b. gm_del b m) known removed\<rparr>, added, removed)))"

definition known_branches :: "watcher \<Rightarrow> branch_state list" where
  "known_branches bw = map snd (bw_known bw)"

section \<open>The deltas account for the state\<close>

text \<open>What the fold has done so far: the known branches have grown by the added ones, in order.\<close>

definition grown ::
  "unicode_tables \<Rightarrow> watcher \<Rightarrow> string list \<Rightarrow> (string, branch_state) gomap \<Rightarrow> branch_state list \<Rightarrow> bool" where
  "grown u bw matched known added \<longleftrightarrow>
     gm_wf known \<and> known = bw_known bw @ map (\<lambda>s. (bs_branch s, s)) added
     \<and> (added \<noteq> [] \<longrightarrow> int (length known) \<le> bw_max bw)
     \<and> (\<forall>s \<in> set added. bs_slug s = branch_slug u (bs_branch s) \<and> bs_branch s \<in> set matched)"

lemma gm_put_new: "\<not> gm_has m k \<Longrightarrow> gm_put k v m = m @ [(k, v)]"
  unfolding gm_put_def by (induction m) (auto simp: gm_has_def split: if_splits)

lemma grown_start: "gm_wf (bw_known bw) \<Longrightarrow> grown u bw matched (bw_known bw) []"
  by (simp add: grown_def)

lemma grown_snoc:
  assumes "grown u bw matched known added" and "\<not> gm_has known b" and "b \<in> set matched"
    and "int (length known) < bw_max bw"
  shows "grown u bw matched (gm_put b \<lparr>bs_branch = b, bs_slug = branch_slug u b, bs_path = p\<rparr> known)
           (added @ [\<lparr>bs_branch = b, bs_slug = branch_slug u b, bs_path = p\<rparr>])"
  using assms gm_wf_put [of known b] by (auto simp: grown_def gm_put_new)

lemma grown_step:
  assumes "grown u bw matched known added" and "b \<in> set matched"
    and "add_branch u ops bw wts (w, known, added) b = (w', known', added')"
  shows "grown u bw matched known' added'"
proof (cases "gm_has known b \<or> bw_max bw \<le> int (length known)")
  case True
  with assms show ?thesis by (simp add: add_branch_def split: if_splits)
next
  case False
  with assms(3) grown_snoc [OF assms(1) _ assms(2)] assms(1) show ?thesis
    by (auto simp: add_branch_def Let_def split: prod.splits option.splits)
qed

lemma grown_fold:
  "grown u bw matched known added \<Longrightarrow> set bs \<subseteq> set matched \<Longrightarrow>
   foldl (add_branch u ops bw wts) (w, known, added) bs = (w', known', added') \<Longrightarrow>
   grown u bw matched known' added'"
proof (induction bs arbitrary: w known added)
  case (Cons b bs)
  obtain w1 k1 a1 where s: "add_branch u ops bw wts (w, known, added) b = (w1, k1, a1)"
    by (cases "add_branch u ops bw wts (w, known, added) b")
  show ?case
    by (rule Cons.IH [OF grown_step [OF Cons.prems(1) _ s]]) (use Cons.prems s in simp_all)
qed simp

lemma gm_del_fold: "map_of (foldl (\<lambda>m b. gm_del b m) m bs) k = (if k \<in> set bs then None else map_of m k)"
  by (induction bs arbitrary: m) (auto simp: gm_get_del)

lemma gm_del_fold_wf: "gm_wf m \<Longrightarrow> gm_wf (foldl (\<lambda>m b. gm_del b m) m bs)"
  by (induction bs arbitrary: m) auto

lemma gm_del_fold_length: "length (foldl (\<lambda>m b. gm_del b m) m bs) \<le> length m"
proof (induction bs arbitrary: m)
  case (Cons b bs)
  have "length (gm_del b m) \<le> length m" by (simp add: gm_del_def AList.delete_eq)
  with Cons [of "gm_del b m"] show ?case by simp
qed simp

definition seen_branches ::
  "'w git_ops \<Rightarrow> ((string, string) gomap \<Rightarrow> (string, string) gomap) \<Rightarrow> 'w \<Rightarrow> watcher \<Rightarrow> string list" where
  "seen_branches ops visit w bw =
     matched_branches visit (the (list_branches ops (bw_repo bw) w))
       (case list_worktrees ops (bw_repo bw) w of None \<Rightarrow> [] | Some t \<Rightarrow> worktree_map t) (bw_patterns bw)"

lemma discover_grown:
  assumes "discover u ops visit visit' w bw = Some (w', bw', added, removed)" and "gm_wf (bw_known bw)"
  obtains known where "grown u bw (seen_branches ops visit w bw) known added"
    and "removed = filter (\<lambda>b. b \<notin> set (seen_branches ops visit w bw)) (map fst (visit' known))"
    and "bw' = bw\<lparr>bw_known := foldl (\<lambda>m b. gm_del b m) known removed\<rparr>"
proof -
  obtain branches where br: "list_branches ops (bw_repo bw) w = Some branches"
    using assms(1) by (auto simp: discover_def split: option.splits)
  define wts where "wts = (case list_worktrees ops (bw_repo bw) w of None \<Rightarrow> [] | Some t \<Rightarrow> worktree_map t)"
  have seen: "seen_branches ops visit w bw = matched_branches visit branches wts (bw_patterns bw)"
    by (simp add: seen_branches_def br wts_def)
  obtain w1 known a1 where f:
    "foldl (add_branch u ops bw wts) (w, bw_known bw, []) (seen_branches ops visit w bw) = (w1, known, a1)"
    by (cases "foldl (add_branch u ops bw wts) (w, bw_known bw, []) (seen_branches ops visit w bw)")
  have "added = a1" "removed = filter (\<lambda>b. b \<notin> set (seen_branches ops visit w bw)) (map fst (visit' known))"
      "bw' = bw\<lparr>bw_known := foldl (\<lambda>m b. gm_del b m) known removed\<rparr>"
    using assms(1) f by (auto simp: discover_def br wts_def [symmetric] seen [symmetric] Let_def)
  moreover have "grown u bw (seen_branches ops visit w bw) known a1"
    by (rule grown_fold [OF grown_start [OF assms(2)] order_refl f])
  ultimately show ?thesis using that by blast
qed

text \<open>One discovery changes the known branches by exactly its two deltas: every added branch is
  new, matches, and carries its own slug; every removed one was known and is no longer seen; all
  other branches keep their state; and the cap on the number of branches holds afterwards.\<close>

theorem discover_deltas:
  assumes "go_visit visit'" and "gm_wf (bw_known bw)" and "int (length (bw_known bw)) \<le> bw_max bw"
    and "discover u ops visit visit' w bw = Some (w', bw', added, removed)"
  shows "gm_wf (bw_known bw') \<and> int (length (bw_known bw')) \<le> bw_max bw' \<and> bw_max bw' = bw_max bw
    \<and> distinct (map bs_branch added)
    \<and> list_all (\<lambda>s. \<not> gm_has (bw_known bw) (bs_branch s) \<and> bs_slug s = branch_slug u (bs_branch s)
                   \<and> bs_branch s \<in> set (seen_branches ops visit w bw)) added
    \<and> set removed = fst ` set (bw_known bw) - set (seen_branches ops visit w bw)
    \<and> map_of (bw_known bw') = (\<lambda>b. if b \<in> set removed then None
          else case map_of (bw_known bw) b of Some s \<Rightarrow> Some s | None \<Rightarrow> find (\<lambda>s. bs_branch s = b) added)"
proof -
  let ?seen = "seen_branches ops visit w bw"
  obtain known where g: "grown u bw ?seen known added"
    and rem: "removed = filter (\<lambda>b. b \<notin> set ?seen) (map fst (visit' known))"
    and bw': "bw' = bw\<lparr>bw_known := foldl (\<lambda>m b. gm_del b m) known removed\<rparr>"
    using discover_grown [OF assms(4,2)] by blast
  have wf: "gm_wf known" and known: "known = bw_known bw @ map (\<lambda>s. (bs_branch s, s)) added"
    and cap: "added \<noteq> [] \<longrightarrow> int (length known) \<le> bw_max bw"
    and add: "\<forall>s \<in> set added. bs_slug s = branch_slug u (bs_branch s) \<and> bs_branch s \<in> set ?seen"
    using g by (auto simp: grown_def)
  have same: "gm_same (visit' known) known" using assms(1) wf by (simp add: go_visit_def)
  have keys: "fst ` set (visit' known) = fst ` set known"
    using gm_same_mset [OF same] by (metis set_mset_mset)
  have rem_set: "set removed = fst ` set (bw_known bw) - set ?seen"
  proof -
    have "set removed = fst ` set known - set ?seen" by (auto simp: rem keys)
    also have "fst ` set known = fst ` set (bw_known bw) \<union> bs_branch ` set added"
      by (simp add: known image_Un image_image)
    finally show ?thesis using add by auto
  qed
  have new: "distinct (map bs_branch added)" "\<forall>s \<in> set added. bs_branch s \<notin> fst ` set (bw_known bw)"
    using wf by (auto simp: gm_wf_def known comp_def)
  have find: "map_of (map (\<lambda>s. (bs_branch s, s)) added) b = find (\<lambda>s. bs_branch s = b) added" for b
    by (induction added) auto
  have "map_of (bw_known bw') = (\<lambda>b. if b \<in> set removed then None
          else case map_of (bw_known bw) b of Some s \<Rightarrow> Some s | None \<Rightarrow> find (\<lambda>s. bs_branch s = b) added)"
    by (auto simp: bw' gm_del_fold known find map_add_def split: option.split)
  moreover have "int (length (bw_known bw')) \<le> bw_max bw"
    using gm_del_fold_length [of known removed] cap assms(3) known by (cases "added = []") (auto simp: bw')
  ultimately show ?thesis
    using new add rem_set gm_del_fold_wf [OF wf] by (auto simp: bw' list_all_iff gm_has_iff)
qed

text \<open>The state of a watcher that has only been moved by \<open>Discover\<close>.\<close>

inductive watcher_reachable :: "unicode_tables \<Rightarrow> 'w git_ops \<Rightarrow> watcher \<Rightarrow> bool"
  for u :: unicode_tables and ops :: "'w git_ops" where
  start: "watcher_reachable u ops (new_branch_watcher repo patterns base max_branches)"
| poll: "watcher_reachable u ops bw \<Longrightarrow> go_visit visit' \<Longrightarrow>
         discover u ops visit visit' w bw = Some (w', bw', added, removed) \<Longrightarrow>
         watcher_reachable u ops bw'"

definition watcher_inv :: "unicode_tables \<Rightarrow> watcher \<Rightarrow> bool" where
  "watcher_inv u bw \<longleftrightarrow>
     gm_wf (bw_known bw) \<and> int (length (bw_known bw)) \<le> bw_max bw
     \<and> (\<forall>b s. map_of (bw_known bw) b = Some s \<longrightarrow> bs_branch s = b \<and> bs_slug s = branch_slug u b)"

lemma watcher_inv_discover:
  assumes "watcher_inv u bw" and "go_visit visit'"
    and "discover u ops visit visit' w bw = Some (w', bw', added, removed)"
  shows "watcher_inv u bw'"
proof -
  from assms(1) have inv: "gm_wf (bw_known bw)" "int (length (bw_known bw)) \<le> bw_max bw"
      "\<And>b s. map_of (bw_known bw) b = Some s \<Longrightarrow> bs_branch s = b \<and> bs_slug s = branch_slug u b"
    by (simp_all add: watcher_inv_def)
  from discover_grown [OF assms(3) inv(1)] obtain known
    where g: "grown u bw (seen_branches ops visit w bw) known added"
    and bw': "bw' = bw\<lparr>bw_known := foldl (\<lambda>m b. gm_del b m) known removed\<rparr>" by metis
  have "bs_branch s = b \<and> bs_slug s = branch_slug u b" if "map_of known b = Some s" for b s
  proof -
    have "(b, s) \<in> set known" using that by (rule map_of_SomeD)
    then consider "(b, s) \<in> set (bw_known bw)" | "s \<in> set added" "b = bs_branch s"
      using g by (auto simp: grown_def)
    then show ?thesis
    proof cases
      case 1
      then show ?thesis using inv(1,3) gm_get_mem by metis
    next
      case 2
      then show ?thesis using g by (auto simp: grown_def)
    qed
  qed
  moreover have "int (length (bw_known bw')) \<le> bw_max bw'"
    using gm_del_fold_length [of known removed] g inv(2) by (cases "added = []") (auto simp: grown_def bw')
  ultimately show ?thesis
    using g by (auto simp: watcher_inv_def bw' gm_del_fold grown_def gm_del_fold_wf split: if_splits)
qed


text \<open>A repository with three branches, one of them checked out elsewhere, and a cap of two.\<close>

definition demo_git :: "unit git_ops" where
  "demo_git =
     \<lparr>go_branches = \<lambda>_ _. Some (''main'' @ [CHR 0x0A] @ ''fix/a'' @ [CHR 0x0A] @ ''dev'' @ [CHR 0x0A]),
      go_worktrees = \<lambda>_ _. Some (''worktree /x'' @ [CHR 0x0A] @ ''branch refs/heads/main'' @ [CHR 0x0A]),
      go_add_worktree = \<lambda>_ _ _ w. (w, True)\<rparr>"

definition demo_watcher :: watcher where
  "demo_watcher = new_branch_watcher ''/r'' [''main'', ''fix/a'', ''dev''] ''/t'' 3"

lemma demo_discover:
  "discover ascii_tables demo_git id rev () demo_watcher =
     Some ((), demo_watcher\<lparr>bw_known := map (\<lambda>s. (bs_branch s, s))
        [\<lparr>bs_branch = ''main'', bs_slug = ''main'', bs_path = ''/x''\<rparr>,
         \<lparr>bs_branch = ''fix/a'', bs_slug = ''fix-a'', bs_path = ''/t/fix-a''\<rparr>,
         \<lparr>bs_branch = ''dev'', bs_slug = ''dev'', bs_path = ''/t/dev''\<rparr>]\<rparr>,
      [\<lparr>bs_branch = ''main'', bs_slug = ''main'', bs_path = ''/x''\<rparr>,
         \<lparr>bs_branch = ''fix/a'', bs_slug = ''fix-a'', bs_path = ''/t/fix-a''\<rparr>,
         \<lparr>bs_branch = ''dev'', bs_slug = ''dev'', bs_path = ''/t/dev''\<rparr>], [])"
  by code_simp

theorem discover_deltas_witness:
  "case discover ascii_tables demo_git id rev () demo_watcher of
     Some (w', bw', added, removed) \<Rightarrow>
       int (length (bw_known bw')) \<le> bw_max bw' \<and> distinct (map bs_branch added)
   | None \<Rightarrow> False"
proof -
  have "gm_wf (bw_known demo_watcher)" "int (length (bw_known demo_watcher)) \<le> bw_max demo_watcher"
    by (simp_all add: demo_watcher_def new_branch_watcher_def)
  with discover_deltas [OF go_visit_rev _ _ demo_discover] show ?thesis
    unfolding demo_discover option.case prod.case by blast
qed


end
