(* ===== verification/SourceConfig.thy ===== *)
theory SourceConfig
  imports BranchWatch GoTime "HOL-Library.Sublist"
begin

text \<open>
  The source entries of a configuration: their validation (\<open>config/source.go\<close>, with the endpoint
  check of \<open>storage/s3store/config.go\<close>), the expansion of \<open>repo\<close> entries (\<open>config/expand.go\<close>), and
  the allowlist of file system roots (\<open>internal/sourceallow\<close>).
\<close>

section \<open>Entries\<close>

text \<open>A finite \<open>float64\<close> is a mantissa and a binary exponent.\<close>

datatype float64 = Finite int int | Infinite bool | NaN

definition float_negative :: "float64 \<Rightarrow> bool" where
  "float_negative x = (case x of Finite m e \<Rightarrow> m < 0 | Infinite neg \<Rightarrow> neg | NaN \<Rightarrow> False)"

definition float_above_one :: "float64 \<Rightarrow> bool" where
  "float_above_one x =
     (case x of
        Finite m e \<Rightarrow> if 0 \<le> e then m * 2 ^ nat e > 1 else m > 2 ^ nat (- e)
      | Infinite neg \<Rightarrow> \<not> neg
      | NaN \<Rightarrow> False)"

record source_entry =
  se_type :: string
  se_url :: string
  se_branch :: string
  se_path :: string
  se_paths :: "string list"
  se_language :: string
  se_languages :: "string list"
  se_version :: string
  se_project :: string
  se_urls :: "string list"
  se_bucket :: string
  se_prefix :: string
  se_endpoint :: string
  se_region :: string
  se_path_style :: bool
  se_poll_interval :: string
  se_index_interval :: string
  se_branches :: "string list"
  se_branch_poll_interval :: string
  se_max_branches :: int
  se_branch_slug :: string
  se_instance_suffix :: string
  se_watch :: bool
  se_submodules :: "bool option"
  se_extensions :: "string list"
  se_max_file_size :: string
  se_generate_thumbnails :: "bool option"
  se_thumbnail_max_dim :: int
  se_keyframe_mode :: string
  se_keyframe_interval :: string
  se_scene_threshold :: float64

definition empty_entry :: source_entry where
  "empty_entry =
     \<lparr>se_type = [], se_url = [], se_branch = [], se_path = [], se_paths = [], se_language = [],
      se_languages = [], se_version = [], se_project = [], se_urls = [], se_bucket = [], se_prefix = [],
      se_endpoint = [], se_region = [], se_path_style = False, se_poll_interval = [],
      se_index_interval = [], se_branches = [], se_branch_poll_interval = [], se_max_branches = 0,
      se_branch_slug = [], se_instance_suffix = [], se_watch = False, se_submodules = None,
      se_extensions = [], se_max_file_size = [], se_generate_thumbnails = None,
      se_thumbnail_max_dim = 0, se_keyframe_mode = [], se_keyframe_interval = [],
      se_scene_threshold = Finite 0 0\<rparr>"

definition valid_source_types :: "string list" where
  "valid_source_types =
     [''git'', ''repo'', ''ast'', ''docs'', ''config'', ''url'', ''image'', ''video'', ''audio'', ''s3'']"

definition source_types :: "string list" where
  "source_types = sort_strings valid_source_types"

definition effective_languages :: "source_entry \<Rightarrow> string list" where
  "effective_languages s =
     (if se_languages s \<noteq> [] then se_languages s
      else if se_language s \<noteq> [] then [se_language s] else [])"

section \<open>Validation\<close>

datatype endpoint_error =
  Unparseable | MissingScheme | UnsupportedScheme string | MissingHost | PathUnsupported string

datatype entry_error =
  UnknownType string | BadDuration string string | NotPositive string string
  | UrlOrPathRequired | BranchAndBranches | EmptyLanguage | LanguageNotListed string
  | PathRequired | PathsRequired | UrlsRequired | BucketRequired | EndpointError endpoint_error
  | EmptyExtension | BadKeyframeMode | SceneNotFinite | SceneOutOfRange

record s3_endpoint =
  ep_host :: string
  ep_secure :: bool

definition parse_endpoint :: "string \<Rightarrow> endpoint_error + s3_endpoint" where
  "parse_endpoint raw =
     (case url_parse raw of
        None \<Rightarrow> Inl Unparseable
      | Some u \<Rightarrow>
          if u_scheme u = [] then Inl MissingScheme
          else if u_scheme u \<noteq> ''http'' \<and> u_scheme u \<noteq> ''https'' then Inl (UnsupportedScheme (u_scheme u))
          else if u_host u = [] then Inl MissingHost
          else if u_path u \<noteq> [] \<and> u_path u \<noteq> ''/'' then Inl (PathUnsupported (u_path u))
          else Inr \<lparr>ep_host = u_host u, ep_secure = (u_scheme u = ''https'')\<rparr>)"

definition validate_store :: "string \<Rightarrow> string \<Rightarrow> entry_error option" where
  "validate_store bucket ep =
     (if bucket = [] then Some BucketRequired
      else if ep \<noteq> [] then
        (case parse_endpoint ep of Inl e \<Rightarrow> Some (EndpointError e) | Inr _ \<Rightarrow> None)
      else None)"

definition validate_languages :: "source_entry \<Rightarrow> entry_error option" where
  "validate_languages s =
     (if list_ex (\<lambda>l. l = []) (se_languages s) then Some EmptyLanguage
      else if se_language s = [] \<or> se_languages s = [] then None
      else if list_ex (\<lambda>l. l = se_language s) (se_languages s) then None
      else Some (LanguageNotListed (se_language s)))"

definition validate_positive_duration ::
  "(nat \<Rightarrow> nat \<Rightarrow> nat \<Rightarrow> nat) \<Rightarrow> string \<Rightarrow> string \<Rightarrow> entry_error option" where
  "validate_positive_duration frac field v =
     (if v = [] then None
      else case parse_duration frac v of
        None \<Rightarrow> Some (BadDuration field v)
      | Some d \<Rightarrow> if d \<le> 0 then Some (NotPositive field v) else None)"

text \<open>The switch on the type.\<close>

definition validate_type :: "source_entry \<Rightarrow> entry_error option" where
  "validate_type s =
     (let t = se_type s
      in if t = ''git'' then
           (if se_url s = [] \<and> se_path s = [] then Some UrlOrPathRequired else None)
         else if t = ''repo'' then
           (if se_url s = [] \<and> se_path s = [] then Some UrlOrPathRequired
            else if se_branches s \<noteq> [] \<and> se_branch s \<noteq> [] then Some BranchAndBranches
            else validate_languages s)
         else if t = ''ast'' then
           (if se_path s = [] then Some PathRequired else validate_languages s)
         else if t = ''docs'' \<or> t = ''config'' then
           (if se_paths s = [] then Some PathsRequired else None)
         else if t = ''url'' then
           (if se_urls s = [] then Some UrlsRequired else None)
         else if t = ''s3'' then validate_store (se_bucket s) (se_endpoint s)
         else if t = ''image'' then
           (if se_paths s = [] then Some PathsRequired
            else if list_ex (\<lambda>x. x = []) (se_extensions s) then Some EmptyExtension else None)
         else if t = ''video'' then
           (if se_paths s = [] then Some PathsRequired
            else if se_keyframe_mode s \<notin> {[], ''interval'', ''scene'', ''iframes''} then Some BadKeyframeMode
            else if (case se_scene_threshold s of Finite _ _ \<Rightarrow> False | _ \<Rightarrow> True) then Some SceneNotFinite
            else if float_negative (se_scene_threshold s) \<or> float_above_one (se_scene_threshold s)
            then Some SceneOutOfRange else None)
         else if t = ''audio'' then
           (if se_paths s = [] then Some PathsRequired else None)
         else None)"

definition validate_entry :: "(nat \<Rightarrow> nat \<Rightarrow> nat \<Rightarrow> nat) \<Rightarrow> source_entry \<Rightarrow> entry_error option" where
  "validate_entry frac s =
     (if se_type s \<notin> set valid_source_types then Some (UnknownType (se_type s))
      else case validate_positive_duration frac ''poll_interval'' (se_poll_interval s) of
        Some e \<Rightarrow> Some e
      | None \<Rightarrow>
          (case validate_positive_duration frac ''index_interval'' (se_index_interval s) of
             Some e \<Rightarrow> Some e
           | None \<Rightarrow> validate_type s))"

section \<open>Expansion of repositories\<close>

record watcher_ref =
  wr_repo :: string
  wr_patterns :: "string list"
  wr_base :: string
  wr_poll_interval :: string
  wr_max_branches :: int
  wr_language :: string
  wr_languages :: "string list"
  wr_version :: string
  wr_project :: string
  wr_watch :: bool

definition repo_path :: "unicode_tables \<Rightarrow> string \<Rightarrow> source_entry \<Rightarrow> string" where
  "repo_path u ws s =
     (if se_path s = [] \<and> se_url s \<noteq> [] then path_join [ws, url_to_slug u (se_url s)] else se_path s)"

definition expand_single_branch :: "unicode_tables \<Rightarrow> string \<Rightarrow> source_entry \<Rightarrow> source_entry list" where
  "expand_single_branch u ws s =
     (let local_path = repo_path u ws s
      in [empty_entry\<lparr>se_type := ''git'', se_url := se_url s, se_path := se_path s, se_branch := se_branch s,
             se_watch := se_watch s, se_branch_slug := se_branch_slug s, se_submodules := se_submodules s\<rparr>,
          empty_entry\<lparr>se_type := ''ast'', se_path := local_path, se_watch := se_watch s,
             se_branch_slug := se_branch_slug s, se_language := se_language s, se_languages := se_languages s,
             se_version := se_version s, se_project := se_project s\<rparr>,
          empty_entry\<lparr>se_type := ''docs'', se_paths := [local_path], se_watch := se_watch s,
             se_branch_slug := se_branch_slug s\<rparr>,
          empty_entry\<lparr>se_type := ''config'', se_paths := [local_path], se_watch := se_watch s,
             se_branch_slug := se_branch_slug s\<rparr>])"

definition expand_branch_sources :: "source_entry \<Rightarrow> branch_state \<Rightarrow> source_entry list" where
  "expand_branch_sources s b =
     [empty_entry\<lparr>se_type := ''git'', se_url := se_url s, se_path := bs_path b, se_branch := bs_branch b,
         se_watch := se_watch s, se_branch_slug := bs_slug b\<rparr>,
      empty_entry\<lparr>se_type := ''ast'', se_path := bs_path b, se_watch := se_watch s,
         se_branch_slug := bs_slug b, se_language := se_language s, se_languages := se_languages s,
         se_version := se_version s, se_project := se_project s\<rparr>,
      empty_entry\<lparr>se_type := ''docs'', se_paths := [bs_path b], se_watch := se_watch s,
         se_branch_slug := bs_slug b\<rparr>,
      empty_entry\<lparr>se_type := ''config'', se_paths := [bs_path b], se_watch := se_watch s,
         se_branch_slug := bs_slug b\<rparr>]"

definition worktree_base :: "unicode_tables \<Rightarrow> string \<Rightarrow> source_entry \<Rightarrow> string" where
  "worktree_base u ws s =
     (if se_path s \<noteq> [] then path_join [path_dir (se_path s), ''.semsource-worktrees'']
      else path_join [ws, ''worktrees'', branch_slug u (repo_path u ws s)])"

definition expand_multi_branch ::
  "unicode_tables \<Rightarrow> 'w git_ops \<Rightarrow> ((string, string) gomap \<Rightarrow> (string, string) gomap)
   \<Rightarrow> ((string, branch_state) gomap \<Rightarrow> (string, branch_state) gomap) \<Rightarrow> string \<Rightarrow> source_entry \<Rightarrow> 'w
   \<Rightarrow> ('w \<times> source_entry list \<times> watcher_ref) option" where
  "expand_multi_branch u ops visit visit' ws s w =
     (case discover u ops visit visit' w
             (new_branch_watcher (repo_path u ws s) (se_branches s) (worktree_base u ws s) (se_max_branches s)) of
        None \<Rightarrow> None
      | Some (w', bw, added, removed) \<Rightarrow>
          Some (w', concat (map (expand_branch_sources s) added),
            \<lparr>wr_repo = repo_path u ws s, wr_patterns = se_branches s, wr_base = worktree_base u ws s,
             wr_poll_interval = se_branch_poll_interval s, wr_max_branches = se_max_branches s,
             wr_language = se_language s, wr_languages = se_languages s, wr_version = se_version s,
             wr_project = se_project s, wr_watch = se_watch s\<rparr>))"

datatype expand_error = RepoUrlOrPathRequired | DiscoveryFailed

fun expand_repo_sources ::
  "unicode_tables \<Rightarrow> 'w git_ops \<Rightarrow> ((string, string) gomap \<Rightarrow> (string, string) gomap)
   \<Rightarrow> ((string, branch_state) gomap \<Rightarrow> (string, branch_state) gomap) \<Rightarrow> string \<Rightarrow> source_entry list
   \<Rightarrow> source_entry list \<Rightarrow> watcher_ref list \<Rightarrow> 'w
   \<Rightarrow> 'w \<times> (expand_error + source_entry list \<times> watcher_ref list)" where
  "expand_repo_sources u ops visit visit' ws [] es rs w = (w, Inr (es, rs))"
| "expand_repo_sources u ops visit visit' ws (s # ss) es rs w =
     (if se_type s \<noteq> ''repo'' then expand_repo_sources u ops visit visit' ws ss (es @ [s]) rs w
      else if se_url s = [] \<and> se_path s = [] then (w, Inl RepoUrlOrPathRequired)
      else if se_branches s \<noteq> [] then
        (case expand_multi_branch u ops visit visit' ws s w of
           None \<Rightarrow> (w, Inl DiscoveryFailed)
         | Some (w', xs, r) \<Rightarrow> expand_repo_sources u ops visit visit' ws ss (es @ xs) (rs @ [r]) w')
      else expand_repo_sources u ops visit visit' ws ss (es @ expand_single_branch u ws s) rs w)"

section \<open>The allowlist of roots\<close>

datatype allow_error = NoRoots | InvalidRoot string | InvalidPath string | Outside string

text \<open>\<open>cwd\<close> is the working directory, \<open>None\<close> when it cannot be read.\<close>

definition path_abs :: "string option \<Rightarrow> string \<Rightarrow> string option" where
  "path_abs cwd p =
     (if is_abs p then Some (clean p)
      else case cwd of None \<Rightarrow> None | Some d \<Rightarrow> Some (path_join [d, p]))"

definition source_paths :: "source_entry \<Rightarrow> string list" where
  "source_paths s = (if se_path s \<noteq> [] then [se_path s] else []) @ se_paths s"

definition under_any_root :: "string \<Rightarrow> string list \<Rightarrow> bool" where
  "under_any_root path roots \<longleftrightarrow> list_ex (\<lambda>r. path = r \<or> has_prefix path (r @ ''/'')) roots"

fun abs_roots :: "string option \<Rightarrow> string list \<Rightarrow> allow_error + string list" where
  "abs_roots cwd [] = Inr []"
| "abs_roots cwd (r # rs) =
     (case path_abs cwd r of
        None \<Rightarrow> Inl (InvalidRoot r)
      | Some a \<Rightarrow> (case abs_roots cwd rs of Inl e \<Rightarrow> Inl e | Inr as \<Rightarrow> Inr (clean a # as)))"

fun check_paths :: "string option \<Rightarrow> string list \<Rightarrow> string list \<Rightarrow> allow_error option" where
  "check_paths cwd roots [] = None"
| "check_paths cwd roots (p # ps) =
     (case path_abs cwd p of
        None \<Rightarrow> Some (InvalidPath p)
      | Some a \<Rightarrow> if under_any_root (clean a) roots then check_paths cwd roots ps else Some (Outside p))"

definition enforce_roots :: "string option \<Rightarrow> source_entry \<Rightarrow> string list \<Rightarrow> allow_error option" where
  "enforce_roots cwd s roots =
     (if source_paths s = [] then None
      else if roots = [] then Some NoRoots
      else case abs_roots cwd roots of
        Inl e \<Rightarrow> Some e
      | Inr rs \<Rightarrow> check_paths cwd rs (source_paths s))"

subsection \<open>Containment, by the elements of the paths\<close>

definition canonical_path :: "string list \<Rightarrow> string" where
  "canonical_path es = CHR ''/'' # str_join es ''/''"

definition abs_elems :: "string \<Rightarrow> string \<Rightarrow> string list" where
  "abs_elems cwd p = clean_elems True (str_split (if is_abs p then p else cwd @ ''/'' @ p) (CHR ''/''))"

lemma abs_elems_proper:
  assumes "is_abs cwd"
  shows "list_all proper_elem (abs_elems cwd p)"
proof -
  have "is_abs (cwd @ ''/'' @ p)" using assms by (cases cwd) (auto simp: is_abs_def has_prefix_def)
  then show ?thesis
    using clean_rooted_proper [of "if is_abs p then p else cwd @ ''/'' @ p"]
    by (auto simp: abs_elems_def list_all_iff split: if_splits)
qed

lemma clean_rooted: "is_abs p \<Longrightarrow> clean p = canonical_path (clean_elems True (str_split p (CHR ''/'')))"
  by (simp add: clean_def render_path_def canonical_path_def)

lemma path_abs_elems:
  assumes "is_abs cwd"
  shows "path_abs (Some cwd) p = Some (canonical_path (abs_elems cwd p))"
proof (cases "is_abs p")
  case True
  then show ?thesis by (simp add: path_abs_def clean_rooted abs_elems_def)
next
  case False
  have "cwd \<noteq> []" "is_abs (cwd @ ''/'' @ p)"
    using assms by (cases cwd; auto simp: is_abs_def has_prefix_def)+
  with False show ?thesis by (simp add: path_abs_def path_join_def clean_rooted abs_elems_def)
qed

lemma split_canonical:
  assumes "list_all proper_elem es" and "es \<noteq> []"
  shows "str_split (canonical_path es) (CHR ''/'') = [] # es"
proof -
  have "list_all (\<lambda>x. CHR ''/'' \<notin> set x) es" using assms(1) by (auto simp: list_all_iff proper_elem_def)
  with str_split_join [OF assms(2)] show ?thesis by (simp add: canonical_path_def)
qed

lemma clean_foldl_proper:
  "list_all proper_elem es \<Longrightarrow> foldl (clean_step True) st es = rev es @ st"
  by (induction es arbitrary: st) (auto simp: clean_step_def proper_elem_def)

lemma clean_canonical:
  assumes "list_all proper_elem es"
  shows "clean (canonical_path es) = canonical_path es"
proof -
  have "clean_elems True (str_split (canonical_path es) (CHR ''/'')) = es"
  proof (cases "es = []")
    case True
    then show ?thesis by (simp add: canonical_path_def clean_elems_def clean_step_def)
  next
    case False
    have "clean_step True [] [] = []" by (simp add: clean_step_def)
    then show ?thesis
      by (simp add: split_canonical [OF assms False] clean_elems_def clean_foldl_proper [OF assms])
  qed
  moreover have "is_abs (canonical_path es)" by (simp add: canonical_path_def is_abs_def has_prefix_def)
  ultimately show ?thesis by (simp add: clean_rooted)
qed

lemma str_split_append_sep: "str_split (a @ c # b) c = str_split a c @ str_split b c"
proof (induction a)
  case (Cons x a)
  then show ?case by (cases "str_split a c") auto
qed simp

lemma has_prefix_iff: "has_prefix s p \<longleftrightarrow> (\<exists>t. s = p @ t)"
  unfolding has_prefix_def by (metis append_eq_conv_conj append_take_drop_id)

definition within_root :: "string list \<Rightarrow> string list \<Rightarrow> bool" where
  "within_root root path \<longleftrightarrow> (if root = [] then path = [] else prefix root path)"

lemma str_join_append: "a \<noteq> [] \<Longrightarrow> b \<noteq> [] \<Longrightarrow> str_join (a @ b) sep = str_join a sep @ sep @ str_join b sep"
  by (induction a sep rule: str_join.induct) (cases b; simp)+

lemma str_join_inj:
  assumes "list_all proper_elem a" and "list_all proper_elem b" and "canonical_path a = canonical_path b"
  shows "a = b"
proof -
  have ne: "str_join xs ''/'' \<noteq> []" if "xs \<noteq> []" "list_all proper_elem xs" for xs
    using that by (cases xs rule: remdups_adj.cases) (auto simp: proper_elem_def)
  consider "a = []" | "b = []" | "a \<noteq> []" "b \<noteq> []" by blast
  then show ?thesis
    using assms split_canonical [OF assms(1)] split_canonical [OF assms(2)] ne
    by cases (use ne [of a] ne [of b] assms in \<open>auto simp: canonical_path_def\<close>)
qed

lemma under_root_iff:
  assumes "list_all proper_elem root" and "list_all proper_elem path"
  shows "canonical_path path = canonical_path root \<or> has_prefix (canonical_path path) (canonical_path root @ ''/'')
    \<longleftrightarrow> within_root root path"
proof (cases "root = []")
  case True
  have "\<not> has_prefix (canonical_path path) ''//''"
    using assms(2) by (cases path rule: remdups_adj.cases)
      (auto simp: canonical_path_def has_prefix_def proper_elem_def take_Cons' neq_Nil_conv)
  with True str_join_inj [OF assms(2), of "[]"] show ?thesis
    by (auto simp: within_root_def canonical_path_def)
next
  case False
  have "within_root root path" if "has_prefix (canonical_path path) (canonical_path root @ ''/'')"
  proof -
    from that obtain t where t: "canonical_path path = canonical_path root @ CHR ''/'' # t"
      by (auto simp: has_prefix_iff)
    have "path \<noteq> []"
    proof
      assume "path = []"
      with t have "length (canonical_path root) = 0" by (simp add: canonical_path_def)
      then show False by (simp add: canonical_path_def)
    qed
    from arg_cong [OF t, of "\<lambda>s. str_split s (CHR ''/'')"]
    have "[] # path = ([] # root) @ str_split t (CHR ''/'')"
      unfolding str_split_append_sep split_canonical [OF assms(2) \<open>path \<noteq> []\<close>]
        split_canonical [OF assms(1) False] .
    with False show ?thesis by (simp add: within_root_def prefix_def)
  qed
  moreover have "canonical_path path = canonical_path root \<Longrightarrow> within_root root path"
    using str_join_inj [OF assms(2,1)] False by (simp add: within_root_def)
  moreover have "canonical_path path = canonical_path root
      \<or> has_prefix (canonical_path path) (canonical_path root @ ''/'')" if "within_root root path"
  proof -
    from that False obtain t where t: "path = root @ t" by (auto simp: within_root_def prefix_def)
    show ?thesis
      using False t by (cases "t = []") (simp_all add: has_prefix_iff canonical_path_def str_join_append)
  qed
  ultimately show ?thesis by blast
qed

lemma abs_roots_elems:
  "is_abs cwd \<Longrightarrow> abs_roots (Some cwd) rs = Inr (map (\<lambda>r. canonical_path (abs_elems cwd r)) rs)"
  by (induction rs) (simp_all add: path_abs_elems clean_canonical abs_elems_proper)

lemma check_paths_elems:
  assumes "is_abs cwd"
  shows "check_paths (Some cwd) (map (\<lambda>r. canonical_path (abs_elems cwd r)) rs) ps = None
    \<longleftrightarrow> list_all (\<lambda>p. list_ex (\<lambda>r. within_root (abs_elems cwd r) (abs_elems cwd p)) rs) ps"
proof (induction ps)
  case (Cons p ps)
  have "under_any_root (clean (canonical_path (abs_elems cwd p))) (map (\<lambda>r. canonical_path (abs_elems cwd r)) rs)
      = list_ex (\<lambda>r. within_root (abs_elems cwd r) (abs_elems cwd p)) rs"
    using under_root_iff [OF abs_elems_proper [OF assms] abs_elems_proper [OF assms]]
    by (simp add: under_any_root_def clean_canonical abs_elems_proper assms list_ex_iff)
  with Cons assms show ?case by (simp add: path_abs_elems)
qed simp

lemma enforce_roots_elems:
  assumes "is_abs cwd"
  shows "enforce_roots (Some cwd) s roots = None
     \<longleftrightarrow> list_all (\<lambda>p. list_ex (\<lambda>r. within_root (abs_elems cwd r) (abs_elems cwd p)) roots) (source_paths s)"
proof (cases "source_paths s = [] \<or> roots = []")
  case True
  then show ?thesis by (cases "source_paths s") (auto simp: enforce_roots_def)
next
  case False
  then show ?thesis by (simp add: enforce_roots_def abs_roots_elems check_paths_elems assms)
qed

text \<open>The allowlist accepts an entry exactly when the elements of a root's absolute path are a
  prefix of the elements of the absolute path, for every path of the entry and some root. As the
  elements of an absolute path are never \<open>..\<close>, nothing outside the roots is accepted; and the root
  \<open>/\<close> itself admits only \<open>/\<close>.\<close>

theorem allowlist_contains:
  assumes "is_abs cwd"
  shows "(enforce_roots (Some cwd) s roots = None
     \<longleftrightarrow> list_all (\<lambda>p. list_ex (\<lambda>r. within_root (abs_elems cwd r) (abs_elems cwd p)) roots) (source_paths s))
     \<and> list_all proper_elem (abs_elems cwd p) \<and> (within_root [] es = (es = []))"
  using enforce_roots_elems [OF assms] abs_elems_proper [OF assms] by (simp add: within_root_def)

theorem allowlist_contains_witness:
  "enforce_roots (Some ''/h'') (empty_entry\<lparr>se_path := ''/m/w/../../etc''\<rparr>) [''/m/w''] \<noteq> None
   \<and> enforce_roots (Some ''/m'') (empty_entry\<lparr>se_path := ''w/x''\<rparr>) [''/m/w''] = None"
proof
  have "\<not> within_root (abs_elems ''/h'' ''/m/w'') (abs_elems ''/h'' ''/m/w/../../etc'')" by code_simp
  then show "enforce_roots (Some ''/h'') (empty_entry\<lparr>se_path := ''/m/w/../../etc''\<rparr>) [''/m/w''] \<noteq> None"
    using allowlist_contains [of "''/h''" "empty_entry\<lparr>se_path := ''/m/w/../../etc''\<rparr>" "[''/m/w'']"]
    by (simp add: is_abs_def has_prefix_def source_paths_def)
  have "within_root (abs_elems ''/m'' ''/m/w'') (abs_elems ''/m'' ''w/x'')" by code_simp
  then show "enforce_roots (Some ''/m'') (empty_entry\<lparr>se_path := ''w/x''\<rparr>) [''/m/w''] = None"
    using allowlist_contains [of "''/m''" "empty_entry\<lparr>se_path := ''w/x''\<rparr>" "[''/m/w'']"]
    by (simp add: is_abs_def has_prefix_def source_paths_def empty_entry_def)
qed

lemma root_slash_admits_nothing_below:
  "enforce_roots (Some ''/'') (empty_entry\<lparr>se_path := ''/srv''\<rparr>) [''/''] = Some (Outside ''/srv'')"
  by code_simp

section \<open>Expansion keeps validity\<close>

lemma clean_elem_nonempty:
  assumes "e \<in> set (clean_elems (is_abs p) (str_split p (CHR ''/'')))"
  shows "e \<noteq> []"
proof -
  obtain es k where "rev (clean_elems (is_abs p) (str_split p (CHR ''/''))) = es @ replicate k ''..''"
      "\<forall>e \<in> set es. proper_elem e"
    using clean_elems_stack [of p] by (auto simp: clean_stack_def)
  with assms have "e \<in> set es \<or> e = ''..''" by (metis Un_iff in_set_replicate set_append set_rev)
  then show ?thesis using \<open>\<forall>e \<in> set es. proper_elem e\<close> by (auto simp: proper_elem_def)
qed

lemma clean_nonempty: "clean p \<noteq> []"
proof -
  have "str_join es ''/'' \<noteq> []" if "es \<noteq> []" "\<forall>e \<in> set es. e \<noteq> []" for es
    using that by (cases es rule: remdups_adj.cases) auto
  then show ?thesis using clean_elem_nonempty [of _ p] by (simp add: clean_def render_path_def)
qed

lemma path_join_nonempty: "a \<noteq> [] \<Longrightarrow> path_join (a # es) \<noteq> []"
  by (simp add: path_join_def clean_nonempty)

lemma path_join_two: "path_join [a, b] \<noteq> [] \<longleftrightarrow> a \<noteq> [] \<or> b \<noteq> []"
  by (auto simp: path_join_def clean_nonempty)

lemma parse_worktrees_paths: "t \<in> set (parse_worktrees out) \<Longrightarrow> wt_path t \<noteq> []"
proof -
  have "\<forall>t \<in> set (fst (foldl worktree_line st ls)). wt_path t \<noteq> []"
    if "\<forall>t \<in> set (fst st). wt_path t \<noteq> []" for st ls
    using that
  proof (induction ls arbitrary: st)
    case (Cons l ls)
    have "\<forall>t \<in> set (fst (worktree_line st l)). wt_path t \<noteq> []"
      using Cons.prems by (auto simp: worktree_line_def split: prod.splits)
    from Cons.IH [OF this] show ?case by simp
  qed simp
  from this [of "([], no_worktree)" "lines_of out"]
  show "t \<in> set (parse_worktrees out) \<Longrightarrow> wt_path t \<noteq> []"
    by (cases "foldl worktree_line ([], no_worktree) (lines_of out)")
      (auto simp: parse_worktrees_def split: if_splits)
qed

lemma worktree_map_paths:
  assumes "\<forall>t \<in> set wts. wt_path t \<noteq> []" and "map_of (worktree_map wts) b = Some p"
  shows "p \<noteq> []"
proof -
  define f where "f = (\<lambda>m (t :: worktree_info). if wt_branch t \<noteq> [] then gm_put (wt_branch t) (wt_path t) m else m)"
  have "\<forall>b p. map_of (foldl f m wts) b = Some p \<longrightarrow> p \<noteq> []"
    if "\<forall>b p. map_of m b = Some p \<longrightarrow> p \<noteq> []" "\<forall>t \<in> set wts. wt_path t \<noteq> []" for m and wts :: "worktree_info list"
    using that
  proof (induction wts arbitrary: m)
    case (Cons t wts)
    have "\<forall>b p. map_of (f m t) b = Some p \<longrightarrow> p \<noteq> []"
      using Cons.prems by (simp add: f_def gm_get_put)
    with Cons show ?case by simp
  qed simp
  from this [of "[]" wts] assms show ?thesis unfolding worktree_map_def f_def [symmetric] by simp
qed

lemma ensure_worktree_path:
  assumes "ensure_worktree u ops repo branch base w = (w', Some p)" and "base \<noteq> []"
  shows "p \<noteq> []"
proof (cases "list_worktrees ops repo w")
  case None
  with assms show ?thesis by (simp add: ensure_worktree_def split: if_splits)
next
  case (Some wts)
  then have ne: "\<forall>t \<in> set wts. wt_path t \<noteq> []"
    using parse_worktrees_paths by (auto simp: list_worktrees_def)
  show ?thesis
  proof (cases "find (\<lambda>t. wt_branch t = branch) wts")
    case None
    with Some assms path_join_nonempty [OF assms(2)] show ?thesis
      by (auto simp: ensure_worktree_def Let_def split: if_splits prod.splits)
  next
    case t: (Some t)
    then have "t \<in> set wts" by (metis find_Some_iff nth_mem)
    with t Some assms ne show ?thesis by (auto simp: ensure_worktree_def split: if_splits)
  qed
qed

lemma discover_paths:
  assumes "discover u ops visit visit' w bw = Some (w', bw', added, removed)" and "bw_base bw \<noteq> []"
  shows "\<forall>s \<in> set added. bs_path s \<noteq> []"
proof -
  define wts where "wts = (case list_worktrees ops (bw_repo bw) w of None \<Rightarrow> [] | Some t \<Rightarrow> worktree_map t)"
  have wts: "map_of wts b = Some p \<Longrightarrow> p \<noteq> []" for b p
    using worktree_map_paths parse_worktrees_paths
    by (auto simp: wts_def list_worktrees_def split: option.splits) blast
  have "\<forall>s \<in> set (snd (snd (foldl (add_branch u ops bw wts) (w, known, a) bs))). bs_path s \<noteq> []"
    if "\<forall>s \<in> set a. bs_path s \<noteq> []" for w known a bs
    using that
  proof (induction bs arbitrary: w known a)
    case (Cons b bs)
    obtain w1 k1 a1 where s: "add_branch u ops bw wts (w, known, a) b = (w1, k1, a1)"
      by (cases "add_branch u ops bw wts (w, known, a) b")
    have "\<forall>s \<in> set a1. bs_path s \<noteq> []"
    proof (cases "gm_has known b \<or> bw_max bw \<le> int (length known)")
      case True
      with s Cons.prems show ?thesis by (simp add: add_branch_def split: if_splits)
    next
      case False
      with s Cons.prems wts ensure_worktree_path [OF _ assms(2)] show ?thesis
        by (fastforce simp: add_branch_def Let_def split: prod.splits option.splits)
    qed
    from Cons.IH [OF this] s show ?case by simp
  qed simp
  note paths = this
  obtain branches where br: "list_branches ops (bw_repo bw) w = Some branches"
    using assms(1) by (auto simp: discover_def split: option.splits)
  let ?seen = "matched_branches visit branches wts (bw_patterns bw)"
  obtain w1 known a1 where f: "foldl (add_branch u ops bw wts) (w, bw_known bw, []) ?seen = (w1, known, a1)"
    by (cases "foldl (add_branch u ops bw wts) (w, bw_known bw, []) ?seen")
  have "added = a1" using assms(1) f by (auto simp: discover_def br wts_def [symmetric] Let_def)
  with paths [of "[]" w "bw_known bw" ?seen] f show ?thesis by simp
qed

lemma type_valid: "validate_entry frac e = None \<longleftrightarrow>
    se_type e \<in> set valid_source_types
    \<and> validate_positive_duration frac ''poll_interval'' (se_poll_interval e) = None
    \<and> validate_positive_duration frac ''index_interval'' (se_index_interval e) = None \<and> validate_type e = None"
  by (auto simp: validate_entry_def split: option.splits)

lemma empty_intervals [simp]: "validate_positive_duration frac f [] = None"
  by (simp add: validate_positive_duration_def)

definition expanded_ok :: "(nat \<Rightarrow> nat \<Rightarrow> nat \<Rightarrow> nat) \<Rightarrow> source_entry \<Rightarrow> bool" where
  "expanded_ok frac e \<longleftrightarrow> validate_entry frac e = None \<and> se_type e \<noteq> ''repo''"

lemma repo_entry_valid:
  assumes "validate_entry frac s = None" and "se_type s = ''repo''"
  shows "se_url s \<noteq> [] \<or> se_path s \<noteq> []" and "validate_languages s = None"
  using assms by (auto simp: type_valid validate_type_def split: if_splits)

lemma validate_languages_cong:
  "se_language e = se_language s \<Longrightarrow> se_languages e = se_languages s \<Longrightarrow>
   validate_languages s = None \<Longrightarrow> validate_languages e = None"
  by (auto simp: validate_languages_def split: if_splits)

lemma empty_entry_sel [simp]:
  "se_url empty_entry = []" "se_path empty_entry = []" "se_paths empty_entry = []"
  "se_language empty_entry = []" "se_languages empty_entry = []" "se_branches empty_entry = []"
  "se_branch empty_entry = []" "se_poll_interval empty_entry = []" "se_index_interval empty_entry = []"
  by (simp_all add: empty_entry_def)

lemma validate_type_cases:
  "se_type s = ''git'' \<Longrightarrow> validate_type s = (if se_url s = [] \<and> se_path s = [] then Some UrlOrPathRequired else None)"
  "se_type s = ''ast'' \<Longrightarrow> validate_type s = (if se_path s = [] then Some PathRequired else validate_languages s)"
  "se_type s = ''docs'' \<Longrightarrow> validate_type s = (if se_paths s = [] then Some PathsRequired else None)"
  "se_type s = ''config'' \<Longrightarrow> validate_type s = (if se_paths s = [] then Some PathsRequired else None)"
  by (simp_all add: validate_type_def Let_def)

lemma child_ok:
  assumes "se_poll_interval e = []" and "se_index_interval e = []" and "validate_type e = None"
    and "se_type e = ''git'' \<or> se_type e = ''ast'' \<or> se_type e = ''docs'' \<or> se_type e = ''config''"
  shows "expanded_ok frac e"
proof -
  have "se_type e \<in> set valid_source_types \<and> se_type e \<noteq> ''repo''"
    using assms(4) by (elim disjE) (simp_all add: valid_source_types_def)
  with assms(1-3) show ?thesis unfolding expanded_ok_def type_valid by simp
qed

lemma expand_single_ok:
  assumes "validate_entry frac s = None" and "se_type s = ''repo''" and "ws \<noteq> []"
  shows "list_all (expanded_ok frac) (expand_single_branch u ws s)"
proof -
  note v = repo_entry_valid [OF assms(1,2)]
  have p: "repo_path u ws s \<noteq> []" 
  proof (cases "se_path s = []")
    case True
    with v(1) path_join_nonempty [OF assms(3)] show ?thesis by (simp add: repo_path_def)
  next
    case False
    then show ?thesis by (simp add: repo_path_def)
  qed
  show ?thesis
    unfolding expand_single_branch_def Let_def list.pred_inject
    by (intro conjI child_ok TrueI) (use v p in \<open>auto simp: validate_type_cases intro: validate_languages_cong [of _ s]\<close>)
qed

lemma expand_branch_ok:
  assumes "validate_entry frac s = None" and "se_type s = ''repo''" and "bs_path b \<noteq> []"
  shows "list_all (expanded_ok frac) (expand_branch_sources s b)"
  unfolding expand_branch_sources_def list.pred_inject
  by (intro conjI child_ok TrueI)
    (use repo_entry_valid [OF assms(1,2)] assms(3) in \<open>auto simp: validate_type_cases intro: validate_languages_cong [of _ s]\<close>)

lemma worktree_base_nonempty: "ws \<noteq> [] \<Longrightarrow> worktree_base u ws s \<noteq> []"
  by (simp add: worktree_base_def path_join_two path_join_nonempty)

lemma expand_fold_ok:
  assumes "ws \<noteq> []"
  shows "list_all (\<lambda>s. validate_entry frac s = None) ss \<Longrightarrow> list_all (expanded_ok frac) es0 \<Longrightarrow>
    expand_repo_sources u ops visit visit' ws ss es0 rs0 w = (w', Inr (es, rs)) \<Longrightarrow>
    list_all (expanded_ok frac) es"
proof (induction ss arbitrary: es0 rs0 w)
  case (Cons s ss)
  have v: "validate_entry frac s = None" using Cons.prems(1) by simp
  consider "se_type s \<noteq> ''repo''" | "se_type s = ''repo''" "se_branches s = []"
    | "se_type s = ''repo''" "se_branches s \<noteq> []" by blast
  then show ?case
  proof cases
    case 1
    with v have "expanded_ok frac s" by (simp add: expanded_ok_def)
    with Cons.prems(2) have "list_all (expanded_ok frac) (es0 @ [s])" by simp
    moreover have "expand_repo_sources u ops visit visit' ws ss (es0 @ [s]) rs0 w = (w', Inr (es, rs))"
      using Cons.prems(3) 1 by simp
    ultimately show ?thesis using Cons.IH [of "es0 @ [s]" rs0 w] Cons.prems(1) by simp
  next
    case 2
    with Cons.prems(3) have "expand_repo_sources u ops visit visit' ws ss
        (es0 @ expand_single_branch u ws s) rs0 w = (w', Inr (es, rs))" by (simp split: if_splits)
    from Cons.IH [OF _ _ this] Cons.prems(1,2) expand_single_ok [OF v 2(1) assms] show ?thesis by simp
  next
    case 3
    then obtain w1 xs r where x: "expand_multi_branch u ops visit visit' ws s w = Some (w1, xs, r)"
        "expand_repo_sources u ops visit visit' ws ss (es0 @ xs) (rs0 @ [r]) w1 = (w', Inr (es, rs))"
      using Cons.prems(3) by (auto split: if_splits option.splits)
    have "list_all (expanded_ok frac) xs"
    proof -
      obtain bw added removed where "discover u ops visit visit' w
          (new_branch_watcher (repo_path u ws s) (se_branches s) (worktree_base u ws s) (se_max_branches s))
            = Some (w1, bw, added, removed)" and xs: "xs = concat (map (expand_branch_sources s) added)"
        using x(1) by (auto simp: expand_multi_branch_def split: option.splits)
      from discover_paths [OF this(1)] worktree_base_nonempty [OF assms]
      have "\<forall>b \<in> set added. bs_path b \<noteq> []" by (simp add: new_branch_watcher_def)
      then show ?thesis using expand_branch_ok [OF v 3(1)] by (auto simp: xs list_all_iff)
    qed
    with Cons.IH [OF _ _ x(2)] Cons.prems show ?thesis by simp
  qed
qed simp

text \<open>The expansion of valid entries is valid: every entry that comes out passes validation again
  and is no longer a \<open>repo\<close>, also for the entries of discovered branches, whatever git answers.\<close>

theorem expansion_stays_valid:
  assumes "list_all (\<lambda>s. validate_entry frac s = None) ss" and "ws \<noteq> []"
    and "expand_repo_sources u ops visit visit' ws ss [] [] w = (w', Inr (es, rs))"
  shows "list_all (\<lambda>e. validate_entry frac e = None \<and> se_type e \<noteq> ''repo'') es"
  using expand_fold_ok [OF assms(2,1) _ assms(3)] by (simp add: expanded_ok_def [abs_def])

definition demo_repo :: source_entry where
  "demo_repo = empty_entry\<lparr>se_type := ''repo'', se_path := ''/r'', se_branches := [''main'']\<rparr>"

lemma demo_expansion:
  "snd (expand_repo_sources ascii_tables demo_git id rev ''/ws'' [demo_repo] [] [] ())
     = Inr (expand_branch_sources demo_repo \<lparr>bs_branch = ''main'', bs_slug = ''main'', bs_path = ''/x''\<rparr>,
            [\<lparr>wr_repo = ''/r'', wr_patterns = [''main''], wr_base = ''/.semsource-worktrees'',
              wr_poll_interval = [], wr_max_branches = 0, wr_language = [], wr_languages = [],
              wr_version = [], wr_project = [], wr_watch = False\<rparr>])"
  by code_simp

theorem expansion_stays_valid_witness:
  "map se_type (expand_branch_sources demo_repo \<lparr>bs_branch = ''main'', bs_slug = ''main'', bs_path = ''/x''\<rparr>)
     = [''git'', ''ast'', ''docs'', ''config'']
   \<and> list_all (\<lambda>e. validate_entry (\<lambda>f n s. 0) e = None \<and> se_type e \<noteq> ''repo'')
     (expand_branch_sources demo_repo \<lparr>bs_branch = ''main'', bs_slug = ''main'', bs_path = ''/x''\<rparr>)"
proof
  have "list_all (\<lambda>s. validate_entry (\<lambda>f n s. 0) s = None) [demo_repo]" by code_simp
  from expansion_stays_valid [OF this _ prod.collapse [symmetric, of "expand_repo_sources ascii_tables demo_git id rev ''/ws'' [demo_repo] [] [] ()",
      unfolded demo_expansion]]
  show "list_all (\<lambda>e. validate_entry (\<lambda>f n s. 0) e = None \<and> se_type e \<noteq> ''repo'')
     (expand_branch_sources demo_repo \<lparr>bs_branch = ''main'', bs_slug = ''main'', bs_path = ''/x''\<rparr>)" by simp
qed (simp add: expand_branch_sources_def)

end
