(* ===== verification/SourceSpawn.thy ===== *)
theory SourceSpawn
  imports SourceConfig
begin

text \<open>
  From source entries to component configurations (\<open>internal/sourcespawn\<close>): the builder of each
  source type, \<open>buildSpecs\<close>, \<open>Build\<close>, \<open>InstanceNames\<close>, and the writes of \<open>AddWithChecker\<close> and
  \<open>Remove\<close> against a configuration store. The store, the resolution of a remote's default branch
  and git are arguments. Strings are valid UTF-8, as everything decoded from JSON is, so that JSON
  encoding keeps them.
\<close>

section \<open>JSON values\<close>

datatype json =
  JNull | JBool bool | JInt int | JStr string | JArr "json list" | JObj "(string \<times> json) list"

text \<open>\<open>json.Marshal\<close> writes a map with its keys sorted.\<close>

definition json_map :: "(string \<times> json) list \<Rightarrow> json" where
  "json_map kvs = JObj (stable_sort (\<lambda>a b. fst a < fst b) kvs)"

definition json_strs :: "string list \<Rightarrow> json" where
  "json_strs xs = JArr (map JStr xs)"

section \<open>Options, errors and specifications\<close>

record spawn_options =
  op_skip_remote :: bool
  op_org :: string
  op_workspace_dir :: string
  op_git_token :: string
  op_media_store_dir :: string

datatype spawn_code = ValidationFailed | InstanceExists | KvWriteFailed | UnsupportedType | NotFound

datatype spawn_cause =
  InvalidEntry entry_error | MultiBranchAdd | MultiBranchIdentity | ExpandFailed expand_error
  | NotSpawnable string | PutFailed string "string list" | InstanceRequired
  | NotRegistered string | DisableFailed string "string list"

record spawn_error =
  err_code :: spawn_code
  err_cause :: spawn_cause

datatype go_error = SpawnError spawn_error | OtherError string

definition code_of :: "go_error \<Rightarrow> spawn_code option" where
  "code_of e = (case e of SpawnError s \<Rightarrow> Some (err_code s) | OtherError _ \<Rightarrow> None)"

record component_spec =
  sp_instance :: string
  sp_factory :: string
  sp_source_type :: string
  sp_config :: json

record component_config =
  cc_name :: string
  cc_enabled :: bool
  cc_config :: json

record spawn_result =
  rs_instance :: string
  rs_factory :: string
  rs_created :: bool
  rs_source_type :: string

text \<open>What the builders read of the world: the Unicode tables, the floating-point part of a
  duration, the JSON of the output ports, the remote's default branch, and git for the expansion.\<close>

record 'w spawn_env =
  en_unicode :: unicode_tables
  en_frac :: "nat \<Rightarrow> nat \<Rightarrow> nat \<Rightarrow> nat"
  en_ports :: json
  en_resolve :: "string \<Rightarrow> string \<Rightarrow> 'w \<Rightarrow> string option"
  en_git :: "'w git_ops"
  en_visit :: "(string, string) gomap \<Rightarrow> (string, string) gomap"
  en_visit_known :: "(string, branch_state) gomap \<Rightarrow> (string, branch_state) gomap"

section \<open>The builders\<close>

definition hash_input :: "source_entry \<Rightarrow> string" where
  "hash_input s =
     se_type s @ ''|'' @ se_url s @ ''|'' @ se_path s @ ''|'' @ str_join (se_paths s) '','' @ ''|''
     @ str_join (se_urls s) '','' @ ''|'' @ se_branch s @ ''|'' @ se_branch_slug s"

definition content_hash_slug :: "source_entry \<Rightarrow> string" where
  "content_hash_slug s = hex_hash 3 (hash_input s)"

definition apply_instance_suffix :: "string \<Rightarrow> string \<Rightarrow> string" where
  "apply_instance_suffix name suf =
     (if suf = [] then name
      else let s = system_slug suf in if s \<noteq> [] then name @ ''-'' @ s else name)"

definition ast_project :: "source_entry \<Rightarrow> string" where
  "ast_project s =
     (let path = (if se_path s = [] then ''.'' else se_path s);
          slug1 = (if se_project s \<noteq> [] then system_slug (se_project s) else system_slug path);
          slug = (if slug1 = [] then ''src-'' @ content_hash_slug s else slug1)
      in branch_scoped_slug slug (se_branch_slug s))"

definition ast_instance :: "source_entry \<Rightarrow> string" where
  "ast_instance s =
     (let project = ast_project s; vs = system_slug (se_version s)
      in apply_instance_suffix
           (if se_version s \<noteq> [] \<and> vs \<noteq> [] then ''ast-source-'' @ project @ ''-'' @ vs
            else ''ast-source-'' @ project) (se_instance_suffix s))"

definition ast_component_config :: "'w spawn_env \<Rightarrow> source_entry \<Rightarrow> string \<Rightarrow> string \<times> json" where
  "ast_component_config env s org =
     (let languages = (if effective_languages s = [] then [''go''] else effective_languages s);
          index_interval = (if se_index_interval s = [] \<and> se_watch s then ''60s'' else se_index_interval s);
          watch_path = json_map
            ([(''path'', JStr (if se_path s = [] then ''.'' else se_path s)), (''org'', JStr org),
              (''project'', JStr (ast_project s)), (''languages'', json_strs languages)]
             @ (if se_version s \<noteq> [] then [(''version'', JStr (se_version s))] else []))
      in (ast_instance s,
          json_map [(''ports'', en_ports env), (''watch_paths'', JArr [watch_path]),
            (''watch_enabled'', JBool (se_watch s)), (''index_interval'', JStr index_interval),
            (''instance_name'', JStr (ast_instance s))]))"

definition git_instance :: "source_entry \<Rightarrow> string" where
  "git_instance s =
     (let slug1 = system_slug (if se_url s = [] then se_path s else se_url s);
          slug = (if slug1 = [] then ''git-'' @ content_hash_slug s else slug1)
      in ''git-source-'' @ branch_scoped_slug slug (se_branch_slug s))"

definition git_branch :: "'w spawn_env \<Rightarrow> source_entry \<Rightarrow> spawn_options \<Rightarrow> 'w \<Rightarrow> string" where
  "git_branch env s opts w =
     (if se_branch s = [] \<and> se_url s \<noteq> [] \<and> \<not> op_skip_remote opts then
        (case en_resolve env (se_url s) (op_git_token opts) w of Some b \<Rightarrow> b | None \<Rightarrow> se_branch s)
      else se_branch s)"

definition git_component_config ::
  "'w spawn_env \<Rightarrow> source_entry \<Rightarrow> string \<Rightarrow> spawn_options \<Rightarrow> 'w \<Rightarrow> string \<times> json" where
  "git_component_config env s org opts w =
     (git_instance s,
      json_map
        ([(''ports'', en_ports env), (''org'', JStr org), (''repo_path'', JStr (se_path s)),
          (''repo_url'', JStr (se_url s)), (''branch'', JStr (git_branch env s opts w)),
          (''poll_interval'', JStr (if se_poll_interval s = [] then ''60s'' else se_poll_interval s)),
          (''watch_enabled'', JBool (se_watch s)), (''workspace_dir'', JStr (op_workspace_dir opts)),
          (''git_token'', JStr (op_git_token opts)), (''branch_slug'', JStr (se_branch_slug s)),
          (''instance_name'', JStr (git_instance s))]
         @ (case se_submodules s of None \<Rightarrow> [] | Some b \<Rightarrow> [(''submodules'', JBool b)])))"

definition entry_paths :: "source_entry \<Rightarrow> string list" where
  "entry_paths s = (if se_paths s = [] \<and> se_path s \<noteq> [] then [se_path s] else se_paths s)"

text \<open>The slug of a source with a list of locations: the first location, or a hash.\<close>

definition first_slug :: "string \<Rightarrow> string list \<Rightarrow> string" where
  "first_slug fallback xs =
     (case xs of [] \<Rightarrow> fallback | x # _ \<Rightarrow> if system_slug x \<noteq> [] then system_slug x else fallback)"

definition project_slug :: "source_entry \<Rightarrow> string \<Rightarrow> string" where
  "project_slug s slug =
     (if se_project s \<noteq> [] \<and> system_slug (se_project s) \<noteq> [] then system_slug (se_project s) else slug)"

definition project_field :: "source_entry \<Rightarrow> (string \<times> json) list" where
  "project_field s = (if se_project s \<noteq> [] then [(''project'', JStr (se_project s))] else [])"

definition doc_instance :: "source_entry \<Rightarrow> string" where
  "doc_instance s =
     apply_instance_suffix
       (''doc-source-'' @ branch_scoped_slug
          (project_slug s (first_slug (''docs-'' @ content_hash_slug s) (entry_paths s))) (se_branch_slug s))
       (se_instance_suffix s)"

definition doc_component_config :: "'w spawn_env \<Rightarrow> source_entry \<Rightarrow> string \<Rightarrow> string \<times> json" where
  "doc_component_config env s org =
     (doc_instance s,
      json_map ([(''ports'', en_ports env), (''org'', JStr org), (''paths'', json_strs (entry_paths s)),
        (''watch_enabled'', JBool (se_watch s)), (''instance_name'', JStr (doc_instance s))] @ project_field s))"

definition cfgfile_instance :: "source_entry \<Rightarrow> string" where
  "cfgfile_instance s =
     apply_instance_suffix
       (''cfgfile-source-'' @ branch_scoped_slug
          (project_slug s (first_slug (''config-'' @ content_hash_slug s) (entry_paths s))) (se_branch_slug s))
       (se_instance_suffix s)"

definition cfgfile_component_config :: "'w spawn_env \<Rightarrow> source_entry \<Rightarrow> string \<Rightarrow> string \<times> json" where
  "cfgfile_component_config env s org =
     (cfgfile_instance s,
      json_map ([(''ports'', en_ports env), (''org'', JStr org), (''paths'', json_strs (entry_paths s)),
        (''watch_enabled'', JBool (se_watch s)), (''instance_name'', JStr (cfgfile_instance s))]
        @ project_field s))"

definition entry_urls :: "source_entry \<Rightarrow> string list" where
  "entry_urls s = (if se_urls s = [] \<and> se_url s \<noteq> [] then [se_url s] else se_urls s)"

definition url_instance :: "source_entry \<Rightarrow> string" where
  "url_instance s = ''url-source-'' @ first_slug (''url-'' @ content_hash_slug s) (entry_urls s)"

definition url_component_config :: "'w spawn_env \<Rightarrow> source_entry \<Rightarrow> string \<Rightarrow> string \<times> json" where
  "url_component_config env s org =
     (url_instance s,
      json_map [(''ports'', en_ports env), (''org'', JStr org), (''urls'', json_strs (entry_urls s)),
        (''poll_interval'', JStr (if se_poll_interval s = [] then ''300s'' else se_poll_interval s)),
        (''instance_name'', JStr (url_instance s))])"

definition object_store_instance :: "source_entry \<Rightarrow> string" where
  "object_store_instance s =
     (let slug = (if system_slug (se_bucket s) = [] then ''s3-'' @ content_hash_slug s
                  else system_slug (se_bucket s))
      in ''objectstore-source-'' @ slug
         @ (if se_prefix s \<noteq> [] \<and> system_slug (se_prefix s) \<noteq> [] then ''-'' @ system_slug (se_prefix s) else []))"

definition opt_str :: "string \<Rightarrow> string \<Rightarrow> (string \<times> json) list" where
  "opt_str k v = (if v \<noteq> [] then [(k, JStr v)] else [])"

definition object_store_component_config ::
  "'w spawn_env \<Rightarrow> source_entry \<Rightarrow> string \<Rightarrow> spawn_options \<Rightarrow> string \<times> json" where
  "object_store_component_config env s org opts =
     (object_store_instance s,
      json_map
        ([(''ports'', en_ports env), (''org'', JStr org), (''bucket'', JStr (se_bucket s)),
          (''watch_enabled'', JBool (se_watch s)), (''instance_name'', JStr (object_store_instance s))]
         @ opt_str ''prefix'' (se_prefix s) @ opt_str ''endpoint'' (se_endpoint s)
         @ opt_str ''region'' (se_region s)
         @ (if se_path_style s then [(''path_style'', JBool True)] else [])
         @ opt_str ''project'' (se_project s) @ opt_str ''version'' (se_version s)
         @ opt_str ''body_store_root'' (op_media_store_dir opts)))"

definition media_instance :: "source_entry \<Rightarrow> string" where
  "media_instance s =
     se_type s @ ''-source-'' @ first_slug (se_type s @ ''-'' @ content_hash_slug s) (entry_paths s)"

definition media_component_config ::
  "'w spawn_env \<Rightarrow> source_entry \<Rightarrow> string \<Rightarrow> spawn_options \<Rightarrow> string \<times> json" where
  "media_component_config env s org opts =
     (media_instance s,
      json_map
        ([(''ports'', en_ports env), (''org'', JStr org), (''paths'', json_strs (entry_paths s)),
          (''watch_enabled'', JBool (se_watch s)), (''instance_name'', JStr (media_instance s))]
         @ opt_str ''file_store_root'' (op_media_store_dir opts)))"

section \<open>The specifications of an entry\<close>

definition spec_of :: "string \<times> json \<Rightarrow> string \<Rightarrow> string \<Rightarrow> component_spec" where
  "spec_of nc factory ty =
     \<lparr>sp_instance = fst nc, sp_factory = factory, sp_source_type = ty, sp_config = snd nc\<rparr>"

text \<open>The switch of \<open>buildSpecs\<close>, without the case of a \<open>repo\<close>.\<close>

definition flat_specs ::
  "'w spawn_env \<Rightarrow> source_entry \<Rightarrow> spawn_options \<Rightarrow> 'w \<Rightarrow> spawn_error + component_spec list" where
  "flat_specs env s opts w =
     (let t = se_type s; org = op_org opts
      in if t = ''ast'' then Inr [spec_of (ast_component_config env s org) ''ast-source'' ''ast'']
         else if t = ''git'' then Inr [spec_of (git_component_config env s org opts w) ''git-source'' ''git'']
         else if t = ''docs'' then Inr [spec_of (doc_component_config env s org) ''doc-source'' ''docs'']
         else if t = ''config'' then Inr [spec_of (cfgfile_component_config env s org) ''cfgfile-source'' ''config'']
         else if t = ''url'' then Inr [spec_of (url_component_config env s org) ''url-source'' ''url'']
         else if t = ''s3'' then
           Inr [spec_of (object_store_component_config env s org opts) ''objectstore-source'' ''s3'']
         else if t = ''image'' \<or> t = ''video'' \<or> t = ''audio'' then
           Inr [spec_of (media_component_config env s org opts) (t @ ''-source'') t]
         else Inl \<lparr>err_code = UnsupportedType, err_cause = NotSpawnable t\<rparr>)"

fun flat_specs_all ::
  "'w spawn_env \<Rightarrow> source_entry list \<Rightarrow> spawn_options \<Rightarrow> 'w \<Rightarrow> spawn_error + component_spec list" where
  "flat_specs_all env [] opts w = Inr []"
| "flat_specs_all env (e # es) opts w =
     (case flat_specs env e opts w of
        Inl x \<Rightarrow> Inl x
      | Inr a \<Rightarrow> (case flat_specs_all env es opts w of Inl x \<Rightarrow> Inl x | Inr b \<Rightarrow> Inr (a @ b)))"

text \<open>An expansion holds no \<open>repo\<close>, so the recursion of \<open>buildSpecs\<close> is one level deep.\<close>

definition build_specs ::
  "'w spawn_env \<Rightarrow> source_entry \<Rightarrow> spawn_options \<Rightarrow> 'w \<Rightarrow> 'w \<times> (spawn_error + component_spec list)" where
  "build_specs env s opts w =
     (if se_type s = ''repo'' then
        (case expand_repo_sources (en_unicode env) (en_git env) (en_visit env) (en_visit_known env)
                (op_workspace_dir opts) [s] [] [] w of
           (w', Inl e) \<Rightarrow> (w', Inl \<lparr>err_code = ValidationFailed, err_cause = ExpandFailed e\<rparr>)
         | (w', Inr (es, _)) \<Rightarrow> (w', flat_specs_all env es opts w'))
      else (w, flat_specs env s opts w))"

definition config_of_spec :: "component_spec \<Rightarrow> component_config" where
  "config_of_spec sp = \<lparr>cc_name = sp_factory sp, cc_enabled = True, cc_config = sp_config sp\<rparr>"

definition build ::
  "'w spawn_env \<Rightarrow> source_entry \<Rightarrow> spawn_options \<Rightarrow> 'w \<Rightarrow> 'w \<times> (spawn_error + (string, component_config) gomap)" where
  "build env s opts w =
     (case validate_entry (en_frac env) s of
        Some e \<Rightarrow> (w, Inl \<lparr>err_code = ValidationFailed, err_cause = InvalidEntry e\<rparr>)
      | None \<Rightarrow>
          (case build_specs env s opts w of
             (w', Inl e) \<Rightarrow> (w', Inl e)
           | (w', Inr specs) \<Rightarrow>
               (w', Inr (foldl (\<lambda>m sp. gm_put (sp_instance sp) (config_of_spec sp) m) [] specs))))"

definition instance_names ::
  "'w spawn_env \<Rightarrow> source_entry \<Rightarrow> spawn_options \<Rightarrow> 'w \<Rightarrow> 'w \<times> (spawn_error + string list)" where
  "instance_names env s opts w =
     (if se_branches s \<noteq> [] then (w, Inl \<lparr>err_code = UnsupportedType, err_cause = MultiBranchIdentity\<rparr>)
      else case build env s (opts\<lparr>op_skip_remote := True\<rparr>) w of
        (w', Inl e) \<Rightarrow> (w', Inl e)
      | (w', Inr m) \<Rightarrow> (w', Inr (map fst m)))"

section \<open>Writing to the store\<close>

text \<open>\<open>ConfigStore\<close>; \<open>cs_read\<close> is there when the store also has \<open>ReadComponentConfig\<close>.\<close>

record 's config_store =
  cs_get :: "'s \<Rightarrow> (string, component_config) gomap"
  cs_put :: "string \<Rightarrow> component_config \<Rightarrow> 's \<Rightarrow> 's \<times> string option"
  cs_read :: "(string \<Rightarrow> 's \<Rightarrow> 's \<times> (string + component_config option)) option"

definition is_created ::
  "(string, component_config) gomap \<Rightarrow> (string \<Rightarrow> bool) option \<Rightarrow> string \<Rightarrow> bool" where
  "is_created existing checker name =
     (let previous = map_of existing name;
          exists = (previous \<noteq> None);
          enabled = (case previous of Some c \<Rightarrow> cc_enabled c | None \<Rightarrow> False)
      in case checker of
           Some has \<Rightarrow> if \<not> exists \<or> enabled then \<not> has name else True
         | None \<Rightarrow> \<not> exists \<or> \<not> enabled)"

definition pending_write ::
  "(string, component_config) gomap \<Rightarrow> (string \<Rightarrow> bool) option \<Rightarrow> component_spec
   \<Rightarrow> component_config \<times> spawn_result" where
  "pending_write existing checker sp =
     (config_of_spec sp,
      \<lparr>rs_instance = sp_instance sp, rs_factory = sp_factory sp,
       rs_created = is_created existing checker (sp_instance sp), rs_source_type = sp_source_type sp\<rparr>)"

fun put_all ::
  "'s config_store \<Rightarrow> (component_config \<times> spawn_result) list \<Rightarrow> spawn_result list \<Rightarrow> 's
   \<Rightarrow> 's \<times> spawn_result list \<times> spawn_error option" where
  "put_all st [] results s = (s, results, None)"
| "put_all st ((c, r) # ws) results s =
     (case cs_put st (rs_instance r) c s of
        (s1, None) \<Rightarrow> put_all st ws (results @ [r]) s1
      | (s1, Some e) \<Rightarrow>
          (case cs_read st of
             None \<Rightarrow> (s1, results, Some \<lparr>err_code = KvWriteFailed, err_cause = PutFailed (rs_instance r) [e]\<rparr>)
           | Some reader \<Rightarrow>
               (case reader (rs_instance r) s1 of
                  (s2, Inl e2) \<Rightarrow>
                    (s2, results, Some \<lparr>err_code = KvWriteFailed, err_cause = PutFailed (rs_instance r) [e, e2]\<rparr>)
                | (s2, Inr got) \<Rightarrow>
                    (s2, if got = Some c then results @ [r] else results,
                     Some \<lparr>err_code = KvWriteFailed, err_cause = PutFailed (rs_instance r) [e]\<rparr>))))"

definition add_with_checker ::
  "'w spawn_env \<Rightarrow> source_entry \<Rightarrow> 's config_store \<Rightarrow> (string \<Rightarrow> bool) option \<Rightarrow> spawn_options \<Rightarrow> 'w \<Rightarrow> 's
   \<Rightarrow> 's \<times> spawn_result list \<times> spawn_error option" where
  "add_with_checker env src st checker opts w s =
     (case validate_entry (en_frac env) src of
        Some e \<Rightarrow> (s, [], Some \<lparr>err_code = ValidationFailed, err_cause = InvalidEntry e\<rparr>)
      | None \<Rightarrow>
          if se_type src = ''repo'' \<and> se_branches src \<noteq> []
          then (s, [], Some \<lparr>err_code = UnsupportedType, err_cause = MultiBranchAdd\<rparr>)
          else (case snd (build_specs env src opts w) of
                  Inl e \<Rightarrow> (s, [], Some e)
                | Inr specs \<Rightarrow> put_all st (map (pending_write (cs_get st s) checker) specs) [] s))"

definition remove_component :: "string \<Rightarrow> 's config_store \<Rightarrow> 's \<Rightarrow> 's \<times> spawn_error option" where
  "remove_component name st s =
     (if name = [] then (s, Some \<lparr>err_code = ValidationFailed, err_cause = InstanceRequired\<rparr>)
      else case map_of (cs_get st s) name of
        None \<Rightarrow> (s, Some \<lparr>err_code = NotFound, err_cause = NotRegistered name\<rparr>)
      | Some c \<Rightarrow>
          if \<not> cc_enabled c then (s, Some \<lparr>err_code = NotFound, err_cause = NotRegistered name\<rparr>)
          else (case cs_put st name (c\<lparr>cc_enabled := False\<rparr>) s of
                  (s1, None) \<Rightarrow> (s1, None)
                | (s1, Some e) \<Rightarrow>
                    (case cs_read st of
                       None \<Rightarrow> (s1, Some \<lparr>err_code = KvWriteFailed, err_cause = DisableFailed name [e]\<rparr>)
                     | Some reader \<Rightarrow>
                         (case reader name s1 of
                            (s2, Inl e2) \<Rightarrow>
                              (s2, Some \<lparr>err_code = KvWriteFailed, err_cause = DisableFailed name [e, e2]\<rparr>)
                          | (s2, Inr _) \<Rightarrow>
                              (s2, Some \<lparr>err_code = KvWriteFailed, err_cause = DisableFailed name [e]\<rparr>)))))"

section \<open>Every accepted type can be spawned\<close>

text \<open>The name of the instance is a function of the entry alone.\<close>

definition instance_of :: "source_entry \<Rightarrow> string" where
  "instance_of s =
     (let t = se_type s
      in if t = ''ast'' then ast_instance s else if t = ''git'' then git_instance s
         else if t = ''docs'' then doc_instance s else if t = ''config'' then cfgfile_instance s
         else if t = ''url'' then url_instance s else if t = ''s3'' then object_store_instance s
         else media_instance s)"

definition factory_of :: "string \<Rightarrow> string" where
  "factory_of t =
     (if t = ''docs'' then ''doc-source'' else if t = ''config'' then ''cfgfile-source''
      else if t = ''s3'' then ''objectstore-source'' else t @ ''-source'')"

lemma suffix_extends: "\<exists>t. apply_instance_suffix name suf = name @ t"
  by (auto simp: apply_instance_suffix_def Let_def)

lemma ast_instance_prefix: "\<exists>t. ast_instance s = ''ast-source-'' @ t"
  using suffix_extends [of "if se_version s \<noteq> [] \<and> system_slug (se_version s) \<noteq> []
      then ''ast-source-'' @ ast_project s @ ''-'' @ system_slug (se_version s)
      else ''ast-source-'' @ ast_project s" "se_instance_suffix s"]
  by (auto simp: ast_instance_def Let_def)

lemma doc_instance_prefix: "\<exists>t. doc_instance s = ''doc-source-'' @ t"
  unfolding doc_instance_def using suffix_extends by (metis append.assoc)

lemma cfgfile_instance_prefix: "\<exists>t. cfgfile_instance s = ''cfgfile-source-'' @ t"
  unfolding cfgfile_instance_def using suffix_extends by (metis append.assoc)

definition named_spec :: "source_entry \<Rightarrow> component_spec \<Rightarrow> bool" where
  "named_spec s sp \<longleftrightarrow>
     sp_instance sp = instance_of s \<and> sp_factory sp = factory_of (se_type s) \<and> sp_source_type sp = se_type s
     \<and> has_prefix (sp_instance sp) (sp_factory sp @ ''-'')"

lemma spec_of_sel [simp]:
  "sp_instance (spec_of nc f t) = fst nc" "sp_factory (spec_of nc f t) = f"
  "sp_source_type (spec_of nc f t) = t" "sp_config (spec_of nc f t) = snd nc"
  by (simp_all add: spec_of_def)

lemma config_fst [simp]:
  "fst (ast_component_config env s org) = ast_instance s"
  "fst (git_component_config env s org opts w) = git_instance s"
  "fst (doc_component_config env s org) = doc_instance s"
  "fst (cfgfile_component_config env s org) = cfgfile_instance s"
  "fst (url_component_config env s org) = url_instance s"
  "fst (object_store_component_config env s org opts) = object_store_instance s"
  "fst (media_component_config env s org opts) = media_instance s"
  by (simp_all add: ast_component_config_def git_component_config_def doc_component_config_def
      cfgfile_component_config_def url_component_config_def object_store_component_config_def
      media_component_config_def Let_def)

lemma flat_specs_total:
  assumes "se_type s \<in> set valid_source_types" and "se_type s \<noteq> ''repo''"
  shows "\<exists>sp. flat_specs env s opts w = Inr [sp] \<and> named_spec s sp"
proof -
  consider "se_type s = ''ast''" | "se_type s = ''git''" | "se_type s = ''docs''" | "se_type s = ''config''"
    | "se_type s = ''url''" | "se_type s = ''s3''" | "se_type s = ''image''" | "se_type s = ''video''"
    | "se_type s = ''audio''"
    using assms by (auto simp: valid_source_types_def)
  then show ?thesis
  proof cases
    case 1
    then show ?thesis using ast_instance_prefix [of s]
      by (simp add: flat_specs_def named_spec_def instance_of_def factory_of_def has_prefix_iff)
  next
    case 2
    then show ?thesis
      by (simp add: flat_specs_def named_spec_def instance_of_def factory_of_def has_prefix_iff git_instance_def Let_def)
  next
    case 3
    then show ?thesis using doc_instance_prefix [of s]
      by (simp add: flat_specs_def named_spec_def instance_of_def factory_of_def has_prefix_iff)
  next
    case 4
    then show ?thesis using cfgfile_instance_prefix [of s]
      by (simp add: flat_specs_def named_spec_def instance_of_def factory_of_def has_prefix_iff)
  next
    case 5
    then show ?thesis
      by (simp add: flat_specs_def named_spec_def instance_of_def factory_of_def has_prefix_iff url_instance_def)
  next
    case 6
    then show ?thesis
      by (simp add: flat_specs_def named_spec_def instance_of_def factory_of_def has_prefix_iff
          object_store_instance_def Let_def)
  qed (simp_all add: flat_specs_def named_spec_def instance_of_def factory_of_def has_prefix_iff media_instance_def)
qed

lemma flat_specs_all_total:
  "list_all (\<lambda>e. se_type e \<in> set valid_source_types \<and> se_type e \<noteq> ''repo'') es \<Longrightarrow>
   \<exists>sps. flat_specs_all env es opts w = Inr sps \<and> list_all2 named_spec es sps"
proof (induction es)
  case (Cons e es)
  then obtain sp sps where "flat_specs env e opts w = Inr [sp]" "named_spec e sp"
      "flat_specs_all env es opts w = Inr sps" "list_all2 named_spec es sps"
    using flat_specs_total [of e env opts w] by auto
  then show ?case by simp
qed simp

text \<open>The entries that an entry without branches stands for.\<close>

definition spawned_entries :: "unicode_tables \<Rightarrow> string \<Rightarrow> source_entry \<Rightarrow> source_entry list" where
  "spawned_entries u ws s = (if se_type s = ''repo'' then expand_single_branch u ws s else [s])"

lemma expand_single_types:
  "map se_type (expand_single_branch u ws s) = [''git'', ''ast'', ''docs'', ''config'']"
  by (simp add: expand_single_branch_def Let_def)

lemma spawned_types:
  assumes "se_type s \<in> set valid_source_types"
  shows "list_all (\<lambda>e. se_type e \<in> set valid_source_types \<and> se_type e \<noteq> ''repo'') (spawned_entries u ws s)"
proof (cases "se_type s = ''repo''")
  case True
  have "list_all (\<lambda>t. t \<in> set valid_source_types \<and> t \<noteq> ''repo'') (map se_type (expand_single_branch u ws s))"
    unfolding expand_single_types by (simp add: valid_source_types_def)
  with True show ?thesis by (simp add: spawned_entries_def list.pred_map comp_def)
next
  case False
  with assms show ?thesis by (simp add: spawned_entries_def)
qed

lemma build_specs_entries:
  assumes "validate_entry (en_frac env) s = None" and "se_branches s = []"
  shows "\<exists>sps. build_specs env s opts w = (w, Inr sps)
    \<and> list_all2 named_spec (spawned_entries (en_unicode env) (op_workspace_dir opts) s) sps"
proof -
  have t: "se_type s \<in> set valid_source_types" using assms(1) by (simp add: type_valid)
  show ?thesis
  proof (cases "se_type s = ''repo''")
    case True
    have "se_url s \<noteq> [] \<or> se_path s \<noteq> []" by (rule repo_entry_valid [OF assms(1) True])
    with True assms(2) spawned_types [OF t, of "en_unicode env" "op_workspace_dir opts"] show ?thesis
      using flat_specs_all_total [of "expand_single_branch (en_unicode env) (op_workspace_dir opts) s" env opts w]
      by (auto simp: build_specs_def spawned_entries_def)
  next
    case False
    from flat_specs_total [OF t False, of env opts w] show ?thesis
      using False by (auto simp: build_specs_def spawned_entries_def)
  qed
qed


definition demo_env0 :: "unit spawn_env" where
  "demo_env0 = \<lparr>en_unicode = ascii_tables, en_frac = (\<lambda>f n s. 0), en_ports = JNull,
     en_resolve = (\<lambda>url token w. Some ''trunk''), en_git = demo_git, en_visit = id, en_visit_known = rev\<rparr>"

definition demo_opts :: spawn_options where
  "demo_opts = \<lparr>op_skip_remote = False, op_org = ''acme'', op_workspace_dir = ''/ws'', op_git_token = [],
     op_media_store_dir = []\<rparr>"

definition demo_clone :: source_entry where
  "demo_clone = empty_entry\<lparr>se_type := ''repo'', se_url := ''https://h/o/r''\<rparr>"

lemma demo_clone_valid: "validate_entry (en_frac demo_env0) demo_clone = None" "se_branches demo_clone = []"
  by code_simp+


section \<open>The handles of an entry\<close>

lemma build_keys:
  "fst ` set (foldl (\<lambda>m sp. gm_put (sp_instance sp) (config_of_spec sp) m) m sps) = fst ` set m \<union> sp_instance ` set sps"
  by (induction sps arbitrary: m) (auto simp: gm_keys_put)

text \<open>The handles of an entry, which removal and the manifest identify a source by, are the
  instance names that an addition writes, whatever the remote answers and whenever either is
  computed: only the workspace directory matters, and the Unicode tables.\<close>

theorem handles_do_not_depend_on_remote:
  assumes "validate_entry (en_frac env) s = None" and "se_branches s = []"
    and "en_frac env' = en_frac env" and "en_unicode env' = en_unicode env"
    and "op_workspace_dir opts' = op_workspace_dir opts"
  shows "\<exists>names sps. snd (instance_names env s opts w) = Inr names
    \<and> snd (build_specs env' s opts' w') = Inr sps
    \<and> set names = sp_instance ` set sps
    \<and> set names = set (map instance_of (spawned_entries (en_unicode env) (op_workspace_dir opts) s))"
proof -
  let ?es = "spawned_entries (en_unicode env) (op_workspace_dir opts) s"
  have names: "map sp_instance sps = map instance_of es" if "list_all2 named_spec es sps" for es sps
    using that by (induction rule: list_all2_induct) (simp_all add: named_spec_def)
  obtain sps where 1: "build_specs env s (opts\<lparr>op_skip_remote := True\<rparr>) w = (w, Inr sps)" "list_all2 named_spec ?es sps"
    using build_specs_entries [OF assms(1,2), of "opts\<lparr>op_skip_remote := True\<rparr>" w] by auto
  have "validate_entry (en_frac env') s = None" using assms(1,3) by simp
  then obtain sps' where 2: "build_specs env' s opts' w' = (w', Inr sps')" "list_all2 named_spec ?es sps'"
    using build_specs_entries [of env' s opts' w'] assms(2,4,5) by auto
  have "snd (instance_names env s opts w)
      = Inr (map fst (foldl (\<lambda>m sp. gm_put (sp_instance sp) (config_of_spec sp) m) [] sps))"
    using assms(1,2) 1(1) by (simp add: instance_names_def build_def)
  moreover have "set (map fst (foldl (\<lambda>m sp. gm_put (sp_instance sp) (config_of_spec sp) m) [] sps))
      = set (map sp_instance sps)"
    using build_keys [of "[]" sps] by simp
  moreover have "sp_instance ` set sps' = set (map sp_instance sps')" by simp
  moreover have "set (map sp_instance sps) = set (map instance_of ?es)"
      "set (map sp_instance sps') = set (map instance_of ?es)"
    by (simp_all only: names [OF 1(2)] names [OF 2(2)])
  ultimately show ?thesis using 2(1) by (intro exI conjI) (assumption, simp, simp, simp)
qed

theorem handles_do_not_depend_on_remote_witness:
  "\<exists>names sps. snd (instance_names demo_env0 demo_clone demo_opts ()) = Inr names
    \<and> snd (build_specs (demo_env0\<lparr>en_resolve := \<lambda>_ _ _. None\<rparr>) demo_clone demo_opts ()) = Inr sps
    \<and> set names = sp_instance ` set sps"
  using handles_do_not_depend_on_remote [OF demo_clone_valid, of "demo_env0\<lparr>en_resolve := \<lambda>_ _ _. None\<rparr>"
      demo_opts demo_opts "()" "()"] by auto

section \<open>The contract of the store\<close>

text \<open>
  What an addition and a removal rely on: a write that succeeds is seen, a write that fails leaves
  what the store shows, and an authoritative read brings one component up to date. The provider is
  the view of a request.
\<close>

definition writes ::
  "(component_config \<times> spawn_result) list \<Rightarrow> (string \<rightharpoonup> component_config) \<Rightarrow> (string \<rightharpoonup> component_config)" where
  "writes ws m = foldl (\<lambda>m (c, r). m(rs_instance r \<mapsto> c)) m ws"

definition written :: "(component_config \<times> spawn_result) list \<Rightarrow> string set" where
  "written ws = (\<lambda>w. rs_instance (snd w)) ` set ws"

lemma writes_simps [simp]:
  "writes [] m = m" "writes ((c, r) # ws) m = writes ws (m(rs_instance r \<mapsto> c))"
  by (simp_all add: writes_def)

lemma writes_outside: "n \<notin> written ws \<Longrightarrow> writes ws m n = m n"
  by (induction ws arbitrary: m) (auto simp: written_def)

lemma writes_cong: "(\<And>n. n \<notin> written ws \<Longrightarrow> m n = m' n) \<Longrightarrow> writes ws m = writes ws m'"
proof (induction ws arbitrary: m m')
  case Nil
  then show ?case by (auto simp: written_def)
next
  case (Cons w ws)
  obtain c r where w: "w = (c, r)" by (cases w)
  have "writes ws (m(rs_instance r \<mapsto> c)) = writes ws (m'(rs_instance r \<mapsto> c))"
    by (rule Cons.IH) (use Cons.prems w in \<open>auto simp: written_def\<close>)
  then show ?case by (simp add: w)
qed

lemma writes_inside: "n \<in> written ws \<Longrightarrow> \<exists>w \<in> set ws. rs_instance (snd w) = n \<and> writes ws m n = Some (fst w)"
proof (induction ws arbitrary: m)
  case (Cons w ws)
  obtain c r where w: "w = (c, r)" by (cases w)
  show ?case
  proof (cases "n \<in> written ws")
    case True
    from Cons.IH [OF this, of "m(rs_instance r \<mapsto> c)"] w show ?thesis by (auto simp del: fun_upd_apply)
  next
    case False
    then have "n = rs_instance r" using Cons.prems w by (auto simp: written_def)
    with False w writes_outside show ?thesis by (intro bexI [of _ w]) auto
  qed
qed (simp add: written_def)

locale desired_store =
  fixes st :: "'s config_store"
  assumes put_ok: "cs_put st n c s = (s', None) \<Longrightarrow> map_of (cs_get st s') = (map_of (cs_get st s))(n \<mapsto> c)"
    and put_err: "cs_put st n c s = (s', Some e) \<Longrightarrow> map_of (cs_get st s') = map_of (cs_get st s)"
    and read_ok: "cs_read st = Some reader \<Longrightarrow> reader n s = (s', Inr got) \<Longrightarrow>
                  map_of (cs_get st s') = (map_of (cs_get st s))(n := got)"
    and read_err: "cs_read st = Some reader \<Longrightarrow> reader n s = (s', Inl e) \<Longrightarrow>
                   map_of (cs_get st s') = map_of (cs_get st s)"
begin

lemma put_all_ok:
  "put_all st ws rs s = (s', rs', None) \<Longrightarrow>
   rs' = rs @ map snd ws \<and> map_of (cs_get st s') = writes ws (map_of (cs_get st s))"
proof (induction ws arbitrary: rs s)
  case (Cons w ws)
  obtain c r where w: "w = (c, r)" by (cases w)
  obtain s1 where p: "cs_put st (rs_instance r) c s = (s1, None)"
      "put_all st ws (rs @ [r]) s1 = (s', rs', None)"
    using Cons.prems w by (auto split: prod.splits option.splits sum.splits)
  from Cons.IH [OF p(2)] put_ok [OF p(1)] w show ?case by (simp del: fun_upd_apply)
qed simp

lemma put_all_outside:
  "put_all st ws rs s = (s', rs', err) \<Longrightarrow> n \<notin> written ws \<Longrightarrow>
   map_of (cs_get st s') n = map_of (cs_get st s) n"
proof (induction ws arbitrary: rs s)
  case (Cons w ws)
  obtain c r where w: "w = (c, r)" by (cases w)
  have n: "n \<noteq> rs_instance r" "n \<notin> written ws" using Cons.prems(2) w by (auto simp: written_def)
  obtain s1 e1 where p: "cs_put st (rs_instance r) c s = (s1, e1)" by (cases "cs_put st (rs_instance r) c s")
  show ?case
  proof (cases e1)
    case None
    with Cons.prems(1) w p have "put_all st ws (rs @ [r]) s1 = (s', rs', err)" by simp
    from Cons.IH [OF this n(2)] put_ok [of "rs_instance r" c s s1] p None n(1) show ?thesis by simp
  next
    case (Some e)
    note same = put_err [of "rs_instance r" c s s1 e]
    show ?thesis
    proof (cases "cs_read st")
      case None
      with Cons.prems(1) w p Some same show ?thesis by simp
    next
      case r: (Some reader)
      obtain s2 res where rd: "reader (rs_instance r) s1 = (s2, res)" by (cases "reader (rs_instance r) s1")
      have "s' = s2" using Cons.prems(1) w p Some r rd by (auto split: sum.splits)
      moreover have "map_of (cs_get st s2) n = map_of (cs_get st s1) n"
        using read_ok [OF r, of "rs_instance r" s1 s2] read_err [OF r, of "rs_instance r" s1 s2] rd n(1)
        by (cases res) auto
      ultimately show ?thesis using same p Some by simp
    qed
  qed
qed simp

lemma add_cases:
  assumes "add_with_checker env src st ch opts w s = (s', rs, err)"
  obtains (refused) e where "s' = s" "rs = []" "err = Some e"
  | (written) sps where "snd (build_specs env src opts w) = Inr sps"
      "put_all st (map (pending_write (cs_get st s) ch) sps) [] s = (s', rs, err)"
  using assms by (auto simp: add_with_checker_def split: option.splits if_splits sum.splits)

lemma written_pending: "written (map (pending_write existing ch) sps) = sp_instance ` set sps"
  by (simp add: written_def pending_write_def image_image)

lemma fst_pending: "map fst (map (pending_write existing ch) sps) = map config_of_spec sps"
  by (simp add: pending_write_def)

lemma writes_pending:
  "writes (map (pending_write existing ch) sps) m = foldl (\<lambda>m sp. m(sp_instance sp \<mapsto> config_of_spec sp)) m sps"
  by (induction sps arbitrary: m) (simp_all add: pending_write_def)

text \<open>A failed addition that is repeated until it succeeds ends where the first would have ended.\<close>

lemma add_retry:
  assumes "add_with_checker env src st ch opts w s = (s1, rs1, Some e)"
    and "add_with_checker env src st ch opts w s1 = (s2, rs2, None)"
    and "snd (build_specs env src opts w) = Inr sps"
  shows "map_of (cs_get st s2) = foldl (\<lambda>m sp. m(sp_instance sp \<mapsto> config_of_spec sp)) (map_of (cs_get st s)) sps"
proof -
  have outside: "map_of (cs_get st s1) n = map_of (cs_get st s) n" if "n \<notin> sp_instance ` set sps" for n
    using assms(1)
  proof (cases rule: add_cases)
    case (written sps')
    with put_all_outside [of "map (pending_write (cs_get st s) ch) sps" "[]" s s1 rs1 "Some e" n] that assms(3)
    show ?thesis by (simp add: written_pending)
  qed simp
  from assms(2) show ?thesis
  proof (cases rule: add_cases)
    case (written sps')
    from put_all_ok [OF written(2)] written(1) assms(3)
    have "map_of (cs_get st s2) = writes (map (pending_write (cs_get st s1) ch) sps) (map_of (cs_get st s1))"
      by simp
    also have "\<dots> = writes (map (pending_write (cs_get st s1) ch) sps) (map_of (cs_get st s))"
      by (rule writes_cong) (use outside in \<open>simp add: written_pending\<close>)
    finally show ?thesis by (simp add: writes_pending)
  qed simp
qed

text \<open>After an addition every handle is enabled; adding again creates nothing.\<close>

lemma add_ok_enabled:
  assumes "add_with_checker env src st ch opts w s = (s', rs, None)"
    and "snd (build_specs env src opts w) = Inr sps" and "n \<in> sp_instance ` set sps"
  shows "\<exists>c. map_of (cs_get st s') n = Some c \<and> cc_enabled c"
  using assms(1)
proof (cases rule: add_cases)
  case (written sps')
  let ?ws = "map (pending_write (cs_get st s) ch) sps"
  from put_all_ok [OF written(2)] written(1) assms(2)
  have "map_of (cs_get st s') = writes ?ws (map_of (cs_get st s))" by simp
  moreover have "n \<in> written ?ws" using assms(3) by (simp add: written_pending)
  from writes_inside [OF this]
  obtain w where "w \<in> set ?ws" "writes ?ws (map_of (cs_get st s)) n = Some (fst w)" by metis
  moreover from this(1) have "cc_enabled (fst w)" by (auto simp: pending_write_def config_of_spec_def)
  ultimately show ?thesis by auto
qed simp

lemma add_again:
  assumes "add_with_checker env src st None opts w s = (s1, rs1, None)"
    and "add_with_checker env src st None opts w s1 = (s2, rs2, None)"
  shows "map_of (cs_get st s2) = map_of (cs_get st s1) \<and> list_all (\<lambda>r. \<not> rs_created r) rs2
    \<and> map rs_instance rs2 = map rs_instance rs1"
  using assms(1)
proof (cases rule: add_cases)
  case first: (written sps)
  from assms(2) show ?thesis
  proof (cases rule: add_cases)
    case (written sps')
    have sps': "sps' = sps" using first(1) written(1) by simp
    let ?ws1 = "map (pending_write (cs_get st s) None) sps"
    let ?ws2 = "map (pending_write (cs_get st s1) None) sps"
    note p1 = put_all_ok [OF first(2)]
    note p2 = put_all_ok [OF written(2), unfolded sps']
    have "map_of (cs_get st s2) = writes ?ws2 (writes ?ws1 (map_of (cs_get st s)))" using p1 p2 by simp
    also have "writes ?ws2 (writes ?ws1 (map_of (cs_get st s))) = writes ?ws2 (map_of (cs_get st s))"
      by (rule writes_cong) (use writes_outside in \<open>simp add: written_pending\<close>)
    also have "\<dots> = map_of (cs_get st s1)" using p1 by (simp add: writes_pending)
    finally have same: "map_of (cs_get st s2) = map_of (cs_get st s1)" .
    have "\<not> rs_created r" if r: "r \<in> set rs2" for r
    proof -
      obtain sp where sp: "sp \<in> set sps" "r = snd (pending_write (cs_get st s1) None sp)"
        using r p2 by (auto simp: comp_def)
      from add_ok_enabled [OF assms(1) first(1), of "sp_instance sp"] sp(1)
      obtain c where "map_of (cs_get st s1) (sp_instance sp) = Some c" "cc_enabled c" by auto
      then show ?thesis using sp(2) by (simp add: pending_write_def is_created_def)
    qed
    moreover have "map rs_instance rs2 = map rs_instance rs1"
      using p1 p2 by (simp add: pending_write_def comp_def)
    ultimately show ?thesis using same by (simp add: list_all_iff)
  qed simp
qed simp

lemma remove_ok:
  assumes "remove_component n st s = (s', None)"
  shows "\<exists>c. map_of (cs_get st s) n = Some c \<and> cc_enabled c
    \<and> map_of (cs_get st s') = (map_of (cs_get st s))(n \<mapsto> c\<lparr>cc_enabled := False\<rparr>)"
proof -
  obtain c where c: "map_of (cs_get st s) n = Some c" "cc_enabled c"
      "cs_put st n (c\<lparr>cc_enabled := False\<rparr>) s = (s', None)"
    using assms by (auto simp: remove_component_def split: if_splits option.splits prod.splits sum.splits)
  with put_ok [OF c(3)] show ?thesis by blast
qed

end

end
