(* ===== verification/SourceIngest.thy ===== *)
theory SourceIngest
  imports SourceSpawn
begin

text \<open>
  Registration and removal of sources (\<open>processor/source-manifest\<close>: \<open>ingest.go\<close>,
  \<open>desired_config.go\<close>, \<open>lifecycle_scope.go\<close>, \<open>http_sources.go\<close>, \<open>payload_ingest.go\<close>). The desired
  state is the set of component configurations in the store and, under the key
  \<open>source-manifest\<close>, the manifest of the next boot. A request works on a view of the store that
  it refreshes first; the store itself and the authoritative read are arguments.
\<close>

section \<open>The view of one request\<close>

type_synonym components = "(string, component_config) gomap"
type_synonym 's reader = "string \<Rightarrow> 's \<Rightarrow> string + component_config option"

definition view_store :: "'s config_store \<Rightarrow> 's reader \<Rightarrow> ('s \<times> components) config_store" where
  "view_store base read =
     \<lparr>cs_get = snd,
      cs_put = (\<lambda>n c (s, snap).
        case cs_put base n c s of
          (s', Some e) \<Rightarrow> ((s', snap), Some e)
        | (s', None) \<Rightarrow> ((s', gm_put n c snap), None)),
      cs_read = Some (\<lambda>n (s, snap).
        case read n s of
          Inl e \<Rightarrow> ((s, snap), Inl e)
        | Inr None \<Rightarrow> ((s, gm_del n snap), Inr None)
        | Inr (Some c) \<Rightarrow> ((s, gm_put n c snap), Inr (Some c)))\<rparr>"

definition is_source_component :: "string \<Rightarrow> bool" where
  "is_source_component name \<longleftrightarrow>
     name \<in> {''ast-source'', ''git-source'', ''doc-source'', ''cfgfile-source'', ''url-source'', ''image-source'',
             ''audio-source'', ''video-source'', ''objectstore-source''}"

definition enabled_source_component_count :: "components \<Rightarrow> int" where
  "enabled_source_component_count cs =
     int (length (filter (\<lambda>(n, c). cc_enabled c \<and> is_source_component (cc_name c)) cs))"

fun refresh :: "'s reader \<Rightarrow> 's \<Rightarrow> string list \<Rightarrow> components \<Rightarrow> string + components" where
  "refresh read s [] snap = Inr snap"
| "refresh read s (n # ns) snap =
     (case read n s of
        Inl e \<Rightarrow> Inl e
      | Inr None \<Rightarrow> refresh read s ns (gm_del n snap)
      | Inr (Some c) \<Rightarrow> refresh read s ns (gm_put n c snap))"

text \<open>The names that a request reads again: the sources and the manifest of the snapshot, in the
  order of the visit, and the handle of the request.\<close>

definition refreshed_names :: "(components \<Rightarrow> components) \<Rightarrow> components \<Rightarrow> string \<Rightarrow> string list" where
  "refreshed_names visit original handle =
     map fst (filter (\<lambda>(n, c). n = ''source-manifest'' \<or> is_source_component (cc_name c)) (visit original))
     @ (if handle \<noteq> [] then [handle] else [])"

definition desired_request_config ::
  "(components \<Rightarrow> components) \<Rightarrow> 's config_store \<Rightarrow> 's reader \<Rightarrow> string \<Rightarrow> 's \<Rightarrow> string + components" where
  "desired_request_config visit base read handle s =
     refresh read s (refreshed_names visit (cs_get base s) handle) (cs_get base s)"

section \<open>The manifest of the next boot\<close>

record manifest_source =
  ms_type :: string
  ms_path :: string
  ms_paths :: "string list"
  ms_url :: string
  ms_urls :: "string list"
  ms_language :: string
  ms_languages :: "string list"
  ms_project :: string
  ms_version :: string
  ms_branch_slug :: string
  ms_instance_suffix :: string
  ms_bucket :: string
  ms_prefix :: string
  ms_endpoint :: string
  ms_region :: string
  ms_path_style :: bool
  ms_branch :: string
  ms_watch :: bool
  ms_poll_interval :: string
  ms_index_interval :: string

definition to_manifest_source :: "source_entry \<Rightarrow> manifest_source" where
  "to_manifest_source s =
     \<lparr>ms_type = se_type s, ms_path = se_path s, ms_paths = se_paths s, ms_url = se_url s, ms_urls = se_urls s,
      ms_language = se_language s, ms_languages = se_languages s, ms_project = se_project s,
      ms_version = se_version s, ms_branch_slug = se_branch_slug s,
      ms_instance_suffix = se_instance_suffix s, ms_bucket = se_bucket s, ms_prefix = se_prefix s,
      ms_endpoint = se_endpoint s, ms_region = se_region s, ms_path_style = se_path_style s,
      ms_branch = se_branch s, ms_watch = se_watch s, ms_poll_interval = se_poll_interval s,
      ms_index_interval = se_index_interval s\<rparr>"

definition to_source_entry :: "manifest_source \<Rightarrow> source_entry" where
  "to_source_entry m =
     empty_entry\<lparr>se_type := ms_type m, se_path := ms_path m, se_paths := ms_paths m, se_url := ms_url m,
      se_urls := ms_urls m, se_language := ms_language m, se_languages := ms_languages m,
      se_project := ms_project m, se_version := ms_version m, se_branch_slug := ms_branch_slug m,
      se_instance_suffix := ms_instance_suffix m, se_bucket := ms_bucket m, se_prefix := ms_prefix m,
      se_endpoint := ms_endpoint m, se_region := ms_region m, se_path_style := ms_path_style m,
      se_branch := ms_branch m, se_watch := ms_watch m, se_poll_interval := ms_poll_interval m,
      se_index_interval := ms_index_interval m\<rparr>"

record manifest_config =
  mc_ports :: json
  mc_namespace :: string
  mc_sources :: "manifest_source list"
  mc_expected :: int
  mc_seed_timeout :: string
  mc_heartbeat :: string

text \<open>\<open>json.Unmarshal\<close> into a struct: a field that is missing or null keeps its value, another type is
  an error, and of two equal keys the last one counts. \<open>omitempty\<close> leaves out empty fields.\<close>

definition json_key :: "string \<Rightarrow> (string \<times> json) list \<Rightarrow> json" where
  "json_key k kvs = (case map_of (rev kvs) k of None \<Rightarrow> JNull | Some v \<Rightarrow> v)"

definition get_str :: "string \<Rightarrow> string \<Rightarrow> (string \<times> json) list \<Rightarrow> string option" where
  "get_str k d kvs = (case json_key k kvs of JNull \<Rightarrow> Some d | JStr s \<Rightarrow> Some s | _ \<Rightarrow> None)"

definition get_bool :: "string \<Rightarrow> (string \<times> json) list \<Rightarrow> bool option" where
  "get_bool k kvs = (case json_key k kvs of JNull \<Rightarrow> Some False | JBool b \<Rightarrow> Some b | _ \<Rightarrow> None)"

definition get_int :: "string \<Rightarrow> (string \<times> json) list \<Rightarrow> int option" where
  "get_int k kvs = (case json_key k kvs of JNull \<Rightarrow> Some 0 | JInt i \<Rightarrow> Some i | _ \<Rightarrow> None)"

fun all_some :: "'a option list \<Rightarrow> 'a list option" where
  "all_some [] = Some []"
| "all_some (x # xs) = do { a \<leftarrow> x; r \<leftarrow> all_some xs; Some (a # r) }"

definition str_elem :: "json \<Rightarrow> string option" where
  "str_elem j = (case j of JStr s \<Rightarrow> Some s | JNull \<Rightarrow> Some [] | _ \<Rightarrow> None)"

definition get_strs :: "string \<Rightarrow> (string \<times> json) list \<Rightarrow> string list option" where
  "get_strs k kvs =
     (case json_key k kvs of JNull \<Rightarrow> Some [] | JArr js \<Rightarrow> all_some (map str_elem js) | _ \<Rightarrow> None)"

definition opt_strs :: "string \<Rightarrow> string list \<Rightarrow> (string \<times> json) list" where
  "opt_strs k xs = (if xs \<noteq> [] then [(k, json_strs xs)] else [])"

definition opt_true :: "string \<Rightarrow> bool \<Rightarrow> (string \<times> json) list" where
  "opt_true k b = (if b then [(k, JBool True)] else [])"

definition encode_source :: "manifest_source \<Rightarrow> json" where
  "encode_source m = JObj
     ([(''type'', JStr (ms_type m))] @ opt_str ''path'' (ms_path m) @ opt_strs ''paths'' (ms_paths m)
      @ opt_str ''url'' (ms_url m) @ opt_strs ''urls'' (ms_urls m) @ opt_str ''language'' (ms_language m)
      @ opt_strs ''languages'' (ms_languages m) @ opt_str ''project'' (ms_project m)
      @ opt_str ''version'' (ms_version m) @ opt_str ''branch_slug'' (ms_branch_slug m)
      @ opt_str ''instance_suffix'' (ms_instance_suffix m) @ opt_str ''bucket'' (ms_bucket m)
      @ opt_str ''prefix'' (ms_prefix m) @ opt_str ''endpoint'' (ms_endpoint m) @ opt_str ''region'' (ms_region m)
      @ opt_true ''path_style'' (ms_path_style m)
      @ opt_str ''branch'' (ms_branch m) @ [(''watch'', JBool (ms_watch m))]
      @ opt_str ''poll_interval'' (ms_poll_interval m) @ opt_str ''index_interval'' (ms_index_interval m))"

definition decode_source :: "json \<Rightarrow> manifest_source option" where
  "decode_source j =
     (case (case j of JObj kvs \<Rightarrow> Some kvs | JNull \<Rightarrow> Some [] | _ \<Rightarrow> None) of
        None \<Rightarrow> None
      | Some kvs \<Rightarrow> do {
          ty \<leftarrow> get_str ''type'' [] kvs; path \<leftarrow> get_str ''path'' [] kvs; paths \<leftarrow> get_strs ''paths'' kvs;
          url \<leftarrow> get_str ''url'' [] kvs; urls \<leftarrow> get_strs ''urls'' kvs; lang \<leftarrow> get_str ''language'' [] kvs;
          langs \<leftarrow> get_strs ''languages'' kvs; proj \<leftarrow> get_str ''project'' [] kvs;
          ver \<leftarrow> get_str ''version'' [] kvs; bs \<leftarrow> get_str ''branch_slug'' [] kvs;
          suf \<leftarrow> get_str ''instance_suffix'' [] kvs; bucket \<leftarrow> get_str ''bucket'' [] kvs;
          pre \<leftarrow> get_str ''prefix'' [] kvs; ep \<leftarrow> get_str ''endpoint'' [] kvs; reg \<leftarrow> get_str ''region'' [] kvs;
          ps \<leftarrow> get_bool ''path_style'' kvs; br \<leftarrow> get_str ''branch'' [] kvs; watch \<leftarrow> get_bool ''watch'' kvs;
          poll \<leftarrow> get_str ''poll_interval'' [] kvs; idx \<leftarrow> get_str ''index_interval'' [] kvs;
          Some \<lparr>ms_type = ty, ms_path = path, ms_paths = paths, ms_url = url, ms_urls = urls,
            ms_language = lang, ms_languages = langs, ms_project = proj, ms_version = ver,
            ms_branch_slug = bs, ms_instance_suffix = suf, ms_bucket = bucket, ms_prefix = pre,
            ms_endpoint = ep, ms_region = reg, ms_path_style = ps, ms_branch = br, ms_watch = watch,
            ms_poll_interval = poll, ms_index_interval = idx\<rparr> })"

definition encode_config :: "manifest_config \<Rightarrow> json" where
  "encode_config m = JObj
     ([(''ports'', mc_ports m), (''namespace'', JStr (mc_namespace m)),
       (''sources'', if mc_sources m = [] then JNull else JArr (map encode_source (mc_sources m))),
       (''expected_source_count'', JInt (mc_expected m))]
      @ opt_str ''seed_timeout'' (mc_seed_timeout m) @ opt_str ''heartbeat_interval'' (mc_heartbeat m))"

definition get_sources :: "(string \<times> json) list \<Rightarrow> manifest_source list option" where
  "get_sources kvs =
     (case json_key ''sources'' kvs of
        JNull \<Rightarrow> Some [] | JArr js \<Rightarrow> all_some (map decode_source js) | _ \<Rightarrow> None)"

text \<open>\<open>default_ports\<close> is the JSON of the ports of \<open>DefaultConfig\<close>.\<close>

definition decode_config :: "json \<Rightarrow> json \<Rightarrow> manifest_config option" where
  "decode_config default_ports j =
     (case (case j of JObj kvs \<Rightarrow> Some kvs | JNull \<Rightarrow> Some [] | _ \<Rightarrow> None) of
        None \<Rightarrow> None
      | Some kvs \<Rightarrow> do {
          ns \<leftarrow> get_str ''namespace'' [] kvs; srcs \<leftarrow> get_sources kvs;
          n \<leftarrow> get_int ''expected_source_count'' kvs;
          seed \<leftarrow> get_str ''seed_timeout'' ''120s'' kvs; beat \<leftarrow> get_str ''heartbeat_interval'' ''30s'' kvs;
          Some \<lparr>mc_ports = (if json_key ''ports'' kvs = JNull then default_ports else json_key ''ports'' kvs),
            mc_namespace = ns, mc_sources = srcs, mc_expected = n, mc_seed_timeout = seed,
            mc_heartbeat = beat\<rparr> })"

section \<open>Manifest entries and instances\<close>

definition handles :: "'w spawn_env \<Rightarrow> spawn_options \<Rightarrow> 'w \<Rightarrow> manifest_source \<Rightarrow> string list option" where
  "handles env opts w m =
     (case snd (instance_names env (to_source_entry m) opts w) of Inl _ \<Rightarrow> None | Inr ns \<Rightarrow> Some ns)"

definition manifest_sources_equal ::
  "'w spawn_env \<Rightarrow> spawn_options \<Rightarrow> 'w \<Rightarrow> manifest_source \<Rightarrow> manifest_source \<Rightarrow> bool" where
  "manifest_sources_equal env opts w a b =
     (if ms_type a \<noteq> ms_type b then False
      else case (handles env opts w a, handles env opts w b) of
        (Some left, Some right) \<Rightarrow>
          length left = length right \<and> list_all (\<lambda>n. n \<in> set right) left
      | _ \<Rightarrow> False)"

definition append_manifest_sources ::
  "'w spawn_env \<Rightarrow> spawn_options \<Rightarrow> 'w \<Rightarrow> source_entry \<Rightarrow> manifest_source list \<Rightarrow> manifest_source list" where
  "append_manifest_sources env opts w s ms =
     filter (\<lambda>m. \<not> manifest_sources_equal env opts w m (to_manifest_source s)) ms @ [to_manifest_source s]"

definition keeps_entry ::
  "'w spawn_env \<Rightarrow> spawn_options \<Rightarrow> 'w \<Rightarrow> components \<Rightarrow> string \<Rightarrow> manifest_source \<Rightarrow> bool" where
  "keeps_entry env opts w cs inst m =
     (case handles env opts w m of
        None \<Rightarrow> True
      | Some built \<Rightarrow>
          if inst \<notin> set built then True
          else list_ex (\<lambda>n. n \<noteq> inst \<and> (case map_of cs n of Some c \<Rightarrow> cc_enabled c | None \<Rightarrow> False)) built)"

definition remove_manifest_source ::
  "'w spawn_env \<Rightarrow> spawn_options \<Rightarrow> 'w \<Rightarrow> components \<Rightarrow> string \<Rightarrow> manifest_source list
   \<Rightarrow> manifest_source list \<times> bool" where
  "remove_manifest_source env opts w cs inst ms =
     (filter (keeps_entry env opts w cs inst) ms, list_ex (\<lambda>m. \<not> keeps_entry env opts w cs inst m) ms)"

section \<open>Requests\<close>

datatype persist_error = ManifestAbsent | ManifestUndecodable | ManifestWriteFailed string

datatype wire_code =
  WireValidationFailed | WireInstanceExists | WireKvWriteFailed | WireUnsupportedType | WireNotFound
  | WireInternalError

datatype ingest_message =
  FullText go_error | MessageOnly spawn_error | JoinedText "spawn_error option" persist_error | AllowText allow_error
  | DecodeText string

record ingest_error =
  ie_code :: wire_code
  ie_message :: ingest_message

definition wire_code_of :: "spawn_code \<Rightarrow> wire_code" where
  "wire_code_of c =
     (case c of
        ValidationFailed \<Rightarrow> WireValidationFailed
      | InstanceExists \<Rightarrow> WireInstanceExists
      | KvWriteFailed \<Rightarrow> WireKvWriteFailed
      | UnsupportedType \<Rightarrow> WireUnsupportedType
      | NotFound \<Rightarrow> WireNotFound)"

definition map_spawn_error :: "go_error \<Rightarrow> ingest_error" where
  "map_spawn_error e =
     (case e of
        OtherError t \<Rightarrow> \<lparr>ie_code = WireInternalError, ie_message = FullText e\<rparr>
      | SpawnError s \<Rightarrow>
          \<lparr>ie_code = wire_code_of (err_code s),
           ie_message = (if wire_code_of (err_code s) = WireKvWriteFailed then FullText e else MessageOnly s)\<rparr>)"

definition persist_desired_manifest ::
  "'w spawn_env \<Rightarrow> json \<Rightarrow> spawn_options \<Rightarrow> 'w \<Rightarrow> 's config_store \<Rightarrow> source_entry option \<Rightarrow> string \<Rightarrow> 's
   \<Rightarrow> 's \<times> persist_error option" where
  "persist_desired_manifest env dports opts w st added removed s =
     (let snapshot = cs_get st s
      in case map_of snapshot ''source-manifest'' of
        None \<Rightarrow> (s, Some ManifestAbsent)
      | Some envelope \<Rightarrow>
          (case decode_config dports (cc_config envelope) of
             None \<Rightarrow> (s, Some ManifestUndecodable)
           | Some desired \<Rightarrow>
               (let srcs = (case added of
                              Some src \<Rightarrow> append_manifest_sources env opts w src (mc_sources desired)
                            | None \<Rightarrow> fst (remove_manifest_source env opts w snapshot removed (mc_sources desired)));
                    desired' = desired\<lparr>mc_sources := srcs,
                                       mc_expected := enabled_source_component_count snapshot\<rparr>
                in case cs_put st ''source-manifest'' (envelope\<lparr>cc_config := encode_config desired'\<rparr>) s of
                     (s', None) \<Rightarrow> (s', None)
                   | (s', Some e) \<Rightarrow> (s', Some (ManifestWriteFailed e)))))"

record add_reply =
  ar_components :: "spawn_result list"
  ar_desired_changed :: bool
  ar_restart_required :: bool
  ar_error :: "ingest_error option"

definition add_reply_error :: "ingest_error \<Rightarrow> add_reply" where
  "add_reply_error e =
     \<lparr>ar_components = [], ar_desired_changed = False, ar_restart_required = False, ar_error = Some e\<rparr>"

text \<open>What \<open>addSource\<close> does once the store of the request is settled.\<close>

definition add_in_store ::
  "'w spawn_env \<Rightarrow> json \<Rightarrow> spawn_options \<Rightarrow> (string \<Rightarrow> bool) option \<Rightarrow> 's config_store \<Rightarrow> source_entry \<Rightarrow> 'w
   \<Rightarrow> 's \<Rightarrow> 's \<times> add_reply" where
  "add_in_store env dports opts checker st src w s =
     (let (s1, rs, err) = add_with_checker env src st checker opts w s;
          reply = \<lparr>ar_components = rs, ar_desired_changed = (rs \<noteq> []), ar_restart_required = (rs \<noteq> []),
                   ar_error = map_option (\<lambda>e. map_spawn_error (SpawnError e)) err\<rparr>
      in if rs = [] then (s1, reply)
         else (case persist_desired_manifest env dports opts w st (Some src) [] s1 of
                 (s2, None) \<Rightarrow> (s2, reply)
               | (s2, Some p) \<Rightarrow>
                   (s2, reply\<lparr>ar_error := Some \<lparr>ie_code = WireKvWriteFailed, ie_message = JoinedText err p\<rparr>\<rparr>)))"

text \<open>\<open>gate\<close> is the error of the request gate, \<open>read\<close> the authoritative read when it is wired.\<close>

definition add_source_request ::
  "'w spawn_env \<Rightarrow> json \<Rightarrow> (components \<Rightarrow> components) \<Rightarrow> spawn_options \<Rightarrow> (string \<Rightarrow> bool) option \<Rightarrow> 's config_store
   \<Rightarrow> 's reader option \<Rightarrow> string option \<Rightarrow> source_entry \<Rightarrow> 'w \<Rightarrow> 's \<Rightarrow> 's \<times> add_reply" where
  "add_source_request env dports visit opts checker base read gate src w s =
     (case gate of
        Some e \<Rightarrow> (s, add_reply_error (map_spawn_error (OtherError e)))
      | None \<Rightarrow>
          (case read of
             None \<Rightarrow> add_in_store env dports opts checker base src w s
           | Some rd \<Rightarrow>
               (case desired_request_config visit base rd [] s of
                  Inl e \<Rightarrow> (s, add_reply_error (map_spawn_error (OtherError e)))
                | Inr snap \<Rightarrow>
                    (let ((s', _), reply) = add_in_store env dports opts checker (view_store base rd) src w (s, snap)
                     in (s', reply)))))"

record remove_reply =
  rr_instance :: string
  rr_removed :: bool
  rr_restart_required :: bool
  rr_error :: "ingest_error option"

definition needs_removal_repair ::
  "'w spawn_env \<Rightarrow> json \<Rightarrow> spawn_options \<Rightarrow> 'w \<Rightarrow> components \<Rightarrow> string \<Rightarrow> bool" where
  "needs_removal_repair env dports opts w cs inst =
     (case map_of cs ''source-manifest'' of
        None \<Rightarrow> False
      | Some envelope \<Rightarrow>
          (case decode_config dports (cc_config envelope) of
             None \<Rightarrow> False
           | Some desired \<Rightarrow>
               list_ex (\<lambda>m. case handles env opts w m of None \<Rightarrow> False | Some ns \<Rightarrow> inst \<in> set ns) (mc_sources desired)
               \<and> (snd (remove_manifest_source env opts w cs inst (mc_sources desired))
                  \<or> mc_expected desired \<noteq> enabled_source_component_count cs)))"

definition remove_in_store ::
  "'w spawn_env \<Rightarrow> json \<Rightarrow> spawn_options \<Rightarrow> bool \<Rightarrow> 's config_store \<Rightarrow> string \<Rightarrow> 'w \<Rightarrow> 's \<Rightarrow> 's \<times> remove_reply" where
  "remove_in_store env dports opts has_read st inst w s =
     (let previous = map_of (cs_get st s) inst;
          (s1, err) = remove_component inst st s;
          repair = (case err of Some e \<Rightarrow> err_code e = NotFound \<and> needs_removal_repair env dports opts w (cs_get st s1) inst
                              | None \<Rightarrow> False);
          committed = (has_read \<and> (case (previous, map_of (cs_get st s1) inst) of
                         (Some p, Some c) \<Rightarrow> cc_enabled p \<and> c = p\<lparr>cc_enabled := False\<rparr> | _ \<Rightarrow> False));
          failed = \<lparr>rr_instance = inst, rr_removed = False, rr_restart_required = False,
                    rr_error = map_option (\<lambda>e. map_spawn_error (SpawnError e)) err\<rparr>;
          finished = \<lparr>rr_instance = inst, rr_removed = True, rr_restart_required = True, rr_error = None\<rparr>
      in if err \<noteq> None \<and> \<not> repair \<and> \<not> committed then (s1, failed)
         else
           (let left = (if repair then None else err)
            in case persist_desired_manifest env dports opts w st None inst s1 of
                 (s2, None) \<Rightarrow>
                   (s2, if left = None then finished
                        else finished\<lparr>rr_error := Some \<lparr>ie_code = WireKvWriteFailed,
                                     ie_message = FullText (SpawnError (the left))\<rparr>\<rparr>)
               | (s2, Some p) \<Rightarrow>
                   (s2, finished\<lparr>rr_error := Some \<lparr>ie_code = WireKvWriteFailed, ie_message = JoinedText left p\<rparr>\<rparr>)))"

definition remove_source_request ::
  "'w spawn_env \<Rightarrow> json \<Rightarrow> (components \<Rightarrow> components) \<Rightarrow> spawn_options \<Rightarrow> 's config_store
   \<Rightarrow> 's reader option \<Rightarrow> string option \<Rightarrow> string \<Rightarrow> 'w \<Rightarrow> 's \<Rightarrow> 's \<times> remove_reply" where
  "remove_source_request env dports visit opts base read gate inst w s =
     (let refused = (\<lambda>e. (s, \<lparr>rr_instance = inst, rr_removed = False, rr_restart_required = False,
                              rr_error = Some (map_spawn_error (OtherError e))\<rparr>))
      in case gate of
        Some e \<Rightarrow> refused e
      | None \<Rightarrow>
          (case read of
             None \<Rightarrow> remove_in_store env dports opts False base inst w s
           | Some rd \<Rightarrow>
               (case desired_request_config visit base rd inst s of
                  Inl e \<Rightarrow> refused e
                | Inr snap \<Rightarrow>
                    (let ((s', _), reply) = remove_in_store env dports opts True (view_store base rd) inst w (s, snap)
                     in (s', reply)))))"

section \<open>The HTTP face\<close>

record http_request =
  hq_authorization :: string
  hq_id :: string
  hq_body :: "string + source_entry"

datatype http_body =
  PlainText string | AddReplyBody add_reply | RemoveReplyBody remove_reply | GoneBody

definition authorized :: "string \<Rightarrow> string \<Rightarrow> bool" where
  "authorized header token =
     (if token = [] then True
      else if \<not> has_prefix header ''Bearer '' then False else trim_prefix header ''Bearer '' = token)"

definition http_status_for :: "wire_code \<Rightarrow> nat" where
  "http_status_for c =
     (case c of
        WireValidationFailed \<Rightarrow> 400 | WireUnsupportedType \<Rightarrow> 400 | WireInstanceExists \<Rightarrow> 409
      | WireNotFound \<Rightarrow> 404 | _ \<Rightarrow> 500)"

text \<open>\<open>wired\<close> is false until the host has registered the handlers.\<close>

definition authorized_ingest :: "bool \<Rightarrow> bool \<Rightarrow> string \<Rightarrow> http_request \<Rightarrow> (nat \<times> http_body) option" where
  "authorized_ingest running wired token r =
     (if \<not> running then Some (503, PlainText ''component not started'')
      else if \<not> wired then Some (503, PlainText ''source registration not ready'')
      else if \<not> authorized (hq_authorization r) token then Some (401, PlainText ''unauthorized'')
      else None)"

definition handle_add_http ::
  "bool \<Rightarrow> bool \<Rightarrow> string \<Rightarrow> string option \<Rightarrow> string list \<Rightarrow> (source_entry \<Rightarrow> 's \<Rightarrow> 's \<times> add_reply)
   \<Rightarrow> http_request \<Rightarrow> 's \<Rightarrow> 's \<times> nat \<times> http_body" where
  "handle_add_http running wired token cwd roots add r s =
     (case authorized_ingest running wired token r of
        Some (c, b) \<Rightarrow> (s, c, b)
      | None \<Rightarrow>
          (case hq_body r of
             Inl e \<Rightarrow> (s, 400, AddReplyBody (add_reply_error
                          \<lparr>ie_code = WireValidationFailed, ie_message = DecodeText e\<rparr>))
           | Inr src \<Rightarrow>
               (case enforce_roots cwd src roots of
                  Some a \<Rightarrow> (s, 403, AddReplyBody (add_reply_error
                              \<lparr>ie_code = WireValidationFailed, ie_message = AllowText a\<rparr>))
                | None \<Rightarrow>
                    (let (s', reply) = add src s
                     in (s', case ar_error reply of
                               Some e \<Rightarrow> if ar_components reply = [] then http_status_for (ie_code e) else 200
                             | None \<Rightarrow> 200,
                         AddReplyBody reply)))))"

definition handle_remove_http ::
  "bool \<Rightarrow> bool \<Rightarrow> string \<Rightarrow> (string \<Rightarrow> 's \<Rightarrow> 's \<times> remove_reply) \<Rightarrow> http_request \<Rightarrow> 's \<Rightarrow> 's \<times> nat \<times> http_body" where
  "handle_remove_http running wired token remove r s =
     (case authorized_ingest running wired token r of
        Some (c, b) \<Rightarrow> (s, c, b)
      | None \<Rightarrow>
          if hq_id r = [] then (s, 400, PlainText ''missing source id'')
          else
            (let (s', reply) = remove (hq_id r) s
             in (s', case rr_error reply of Some e \<Rightarrow> http_status_for (ie_code e) | None \<Rightarrow> 200,
                 RemoveReplyBody reply)))"

definition handle_lifecycle_http :: "bool \<Rightarrow> bool \<Rightarrow> string \<Rightarrow> http_request \<Rightarrow> nat \<times> http_body" where
  "handle_lifecycle_http running wired token r =
     (case authorized_ingest running wired token r of Some x \<Rightarrow> x | None \<Rightarrow> (410, GoneBody))"

record source_handle =
  sh_instance :: string
  sh_source_type :: string
  sh_path :: string
  sh_url :: string
  sh_branch :: string
  sh_mode :: string

definition watch_mode :: "bool \<Rightarrow> string" where
  "watch_mode watch = (if watch then ''watch'' else ''snapshot'')"

text \<open>\<open>sourceHandle\<close>: the first entry of the live manifest whose components include the instance.\<close>

definition source_handle_for ::
  "'w spawn_env \<Rightarrow> spawn_options \<Rightarrow> 'w \<Rightarrow> manifest_source list \<Rightarrow> string \<Rightarrow> source_handle option" where
  "source_handle_for env opts w ms inst =
     (case find (\<lambda>m. case snd (build env (to_source_entry m) opts w) of
                       Inl _ \<Rightarrow> False | Inr built \<Rightarrow> gm_has built inst) ms of
        None \<Rightarrow> None
      | Some m \<Rightarrow> Some \<lparr>sh_instance = inst, sh_source_type = ms_type m, sh_path = ms_path m, sh_url = ms_url m,
                       sh_branch = ms_branch m, sh_mode = watch_mode (ms_watch m)\<rparr>)"

section \<open>The systems of a removed instance\<close>

definition slugs_of :: "string list \<Rightarrow> string list" where
  "slugs_of xs = filter (\<lambda>s. s \<noteq> []) (map system_slug xs)"

definition config_fields :: "json \<Rightarrow> (string \<times> json) list option" where
  "config_fields j = (case j of JObj kvs \<Rightarrow> Some kvs | JNull \<Rightarrow> Some [] | _ \<Rightarrow> None)"

definition watch_path_system :: "json \<Rightarrow> (string \<times> string) option" where
  "watch_path_system j =
     do { kvs \<leftarrow> config_fields j; p \<leftarrow> get_str ''project'' [] kvs; v \<leftarrow> get_str ''version'' [] kvs; Some (p, v) }"

definition get_watch_paths :: "(string \<times> json) list \<Rightarrow> (string \<times> string) list option" where
  "get_watch_paths kvs =
     (case json_key ''watch_paths'' kvs of
        JNull \<Rightarrow> Some [] | JArr js \<Rightarrow> all_some (map watch_path_system js) | _ \<Rightarrow> None)"

definition systems_for_component_config :: "component_config \<Rightarrow> string list" where
  "systems_for_component_config cc =
     (case config_fields (cc_config cc) of
        None \<Rightarrow> []
      | Some kvs \<Rightarrow>
          if cc_name cc = ''ast-source'' then
            (case get_watch_paths kvs of
               None \<Rightarrow> []
             | Some wps \<Rightarrow> map (\<lambda>(p, v). scoped_system_slug p v) (filter (\<lambda>(p, v). p \<noteq> []) wps))
          else if cc_name cc \<in> {''doc-source'', ''cfgfile-source'', ''image-source'', ''video-source'', ''audio-source''}
          then (case get_strs ''paths'' kvs of None \<Rightarrow> [] | Some ps \<Rightarrow> slugs_of ps)
          else if cc_name cc = ''url-source'' then
            (case get_strs ''urls'' kvs of None \<Rightarrow> [] | Some us \<Rightarrow> slugs_of us)
          else if cc_name cc = ''git-source'' then
            (case do { rp \<leftarrow> get_str ''repo_path'' [] kvs; ru \<leftarrow> get_str ''repo_url'' [] kvs;
                       bs \<leftarrow> get_str ''branch_slug'' [] kvs; Some (if ru = [] then rp else ru, bs) } of
               None \<Rightarrow> []
             | Some (ident, bs) \<Rightarrow>
                 if system_slug ident = [] then [] else [branch_scoped_slug (system_slug ident) bs])
          else [])"

definition systems_for_removed_instance :: "string \<Rightarrow> components \<Rightarrow> string list" where
  "systems_for_removed_instance inst cs =
     (case map_of cs inst of None \<Rightarrow> [] | Some cc \<Rightarrow> systems_for_component_config cc)"

section \<open>The view keeps the contract of the store\<close>

interpretation view: desired_store "view_store base rd"
  for base :: "'s config_store" and rd :: "'s reader"
proof
  fix n c and s s' :: "'s \<times> components"
  assume "cs_put (view_store base rd) n c s = (s', None)"
  then show "map_of (cs_get (view_store base rd) s') = (map_of (cs_get (view_store base rd) s))(n \<mapsto> c)"
    by (auto simp: view_store_def gm_get_put split: prod.splits option.splits)
next
  fix n c e and s s' :: "'s \<times> components"
  assume "cs_put (view_store base rd) n c s = (s', Some e)"
  then show "map_of (cs_get (view_store base rd) s') = map_of (cs_get (view_store base rd) s)"
    by (auto simp: view_store_def split: prod.splits option.splits)
next
  fix reader n got and s s' :: "'s \<times> components"
  assume "cs_read (view_store base rd) = Some reader" and "reader n s = (s', Inr got)"
  then show "map_of (cs_get (view_store base rd) s') = (map_of (cs_get (view_store base rd) s))(n := got)"
    by (auto simp: view_store_def gm_get_put gm_get_del split: prod.splits option.splits sum.splits)
next
  fix reader n e and s s' :: "'s \<times> components"
  assume "cs_read (view_store base rd) = Some reader" and "reader n s = (s', Inl e)"
  then show "map_of (cs_get (view_store base rd) s') = map_of (cs_get (view_store base rd) s)"
    by (auto simp: view_store_def split: prod.splits option.splits sum.splits)
qed


text \<open>A store in memory that refuses the writes of a script and shows what it holds.\<close>

definition demo_store :: "(bool list \<times> components) config_store" where
  "demo_store =
     \<lparr>cs_get = snd,
      cs_put = (\<lambda>n c (fails, cs). case fails of
                  True # r \<Rightarrow> ((r, cs), Some ''kv'')
                | _ \<Rightarrow> ((tl fails, gm_put n c cs), None)),
      cs_read = None\<rparr>"

definition demo_reader :: "(bool list \<times> components) reader" where
  "demo_reader n s = Inr (map_of (snd s) n)"

definition demo_checkout :: source_entry where
  "demo_checkout = empty_entry\<lparr>se_type := ''git'', se_path := ''/d/notes''\<rparr>"

lemma demo_retry:
  "add_with_checker demo_env0 demo_checkout (view_store demo_store demo_reader) None demo_opts () (([True], []), [])
     = ((([], []), []), [], Some \<lparr>err_code = KvWriteFailed, err_cause = PutFailed ''git-source-notes'' [''kv'']\<rparr>)"
  by code_simp


section \<open>Encoding the manifest\<close>

lemma json_key_append:
  "json_key k (a @ b) = (if k \<in> fst ` set b then json_key k b else json_key k a)"
proof -
  have "map_of (rev b) k = None \<longleftrightarrow> k \<notin> fst ` set b" by (simp add: map_of_eq_None_iff)
  then show ?thesis by (auto simp: json_key_def map_add_def split: option.split)
qed

lemma json_key_simps [simp]:
  "json_key k [] = JNull"
  "json_key k [(k', v)] = (if k' = k then v else JNull)"
  "json_key k (opt_str k' v') = (if k' = k \<and> v' \<noteq> [] then JStr v' else JNull)"
  "json_key k (opt_strs k' xs) = (if k' = k \<and> xs \<noteq> [] then json_strs xs else JNull)"
  "json_key k (opt_true k' b) = (if k' = k \<and> b then JBool True else JNull)"
  by (auto simp: json_key_def opt_str_def opt_strs_def opt_true_def)

lemma json_key_Cons:
  "json_key k ((k', v) # r) = (if k \<in> fst ` set r then json_key k r else if k' = k then v else JNull)"
  using json_key_append [of k "[(k', v)]" r] by simp

lemma keys_opt [simp]:
  "fst ` set (opt_str k v) = (if v = [] then {} else {k})"
  "fst ` set (opt_strs k xs) = (if xs = [] then {} else {k})"
  "fst ` set (opt_true k b) = (if b then {k} else {})"
  by (auto simp: opt_str_def opt_strs_def opt_true_def)

lemma all_some_map: "(\<And>x. x \<in> set xs \<Longrightarrow> f (g x) = Some x) \<Longrightarrow> all_some (map f (map g xs)) = Some xs"
  by (induction xs) auto

lemma json_strs_get: "all_some (map str_elem (map JStr xs)) = Some xs"
  by (rule all_some_map) (simp add: str_elem_def)

lemma get_str_val:
  "get_str k [] kvs = Some v" if "json_key k kvs = (if v \<noteq> [] then JStr v else JNull)"
  using that by (cases "v = []") (simp_all add: get_str_def)

lemma get_strs_val:
  "get_strs k kvs = Some xs" if "json_key k kvs = (if xs \<noteq> [] then json_strs xs else JNull)"
  using that json_strs_get [of xs] by (cases "xs = []") (simp_all add: get_strs_def json_strs_def)

text \<open>An object whose fields are written one after the other, each at most once.\<close>

lemma json_key_fields:
  assumes "distinct (map fst fs)" and "\<forall>(k, f) \<in> set fs. fst ` set f \<subseteq> {k}" and "(k, f) \<in> set fs"
  shows "json_key k (concat (map snd fs)) = json_key k f"
  using assms
proof (induction fs)
  case (Cons x fs)
  obtain k' f' where x: "x = (k', f')" by (cases x)
  have tail: "fst ` set (concat (map snd fs)) \<subseteq> fst ` set fs" 
    if "\<forall>(k, f) \<in> set fs. fst ` set f \<subseteq> {k}" for fs :: "(string \<times> (string \<times> json) list) list"
  proof
    fix a
    assume "a \<in> fst ` set (concat (map snd fs))"
    then obtain k f b where "(k, f) \<in> set fs" "(a, b) \<in> set f" by auto
    moreover from this that have "a = k" by fastforce
    ultimately show "a \<in> fst ` set fs" by force
  qed
  show ?case
  proof (cases "(k, f) \<in> set fs")
    case True
    then have "k \<noteq> k'" using Cons.prems(1) x by (auto simp: image_iff)
    moreover have "fst ` set f' \<subseteq> {k'}" using Cons.prems(2) x by simp
    ultimately have "k \<notin> fst ` set f'" by auto
    then have none: "json_key k f' = JNull"
      using map_of_eq_None_iff [of "rev f'" k] by (simp add: json_key_def)
    have "json_key k (concat (map snd fs)) = json_key k f" using Cons True by simp
    moreover have "json_key k (concat (map snd fs)) = JNull" if "k \<notin> fst ` set (concat (map snd fs))"
      using that map_of_eq_None_iff [of "rev (concat (map snd fs))" k] by (simp add: json_key_def)
    ultimately show ?thesis using x none by (auto simp: json_key_append)
  next
    case False
    with Cons.prems(3) x have "k' = k" "f' = f" by auto
    moreover from this Cons.prems(1,2) x tail [of fs] have "k \<notin> fst ` set (concat (map snd fs))" by auto
    ultimately show ?thesis using x by (simp add: json_key_append)
  qed
qed simp

definition source_fields :: "manifest_source \<Rightarrow> (string \<times> (string \<times> json) list) list" where
  "source_fields m =
     [(''type'', [(''type'', JStr (ms_type m))]), (''path'', opt_str ''path'' (ms_path m)),
      (''paths'', opt_strs ''paths'' (ms_paths m)), (''url'', opt_str ''url'' (ms_url m)),
      (''urls'', opt_strs ''urls'' (ms_urls m)), (''language'', opt_str ''language'' (ms_language m)),
      (''languages'', opt_strs ''languages'' (ms_languages m)), (''project'', opt_str ''project'' (ms_project m)),
      (''version'', opt_str ''version'' (ms_version m)),
      (''branch_slug'', opt_str ''branch_slug'' (ms_branch_slug m)),
      (''instance_suffix'', opt_str ''instance_suffix'' (ms_instance_suffix m)),
      (''bucket'', opt_str ''bucket'' (ms_bucket m)), (''prefix'', opt_str ''prefix'' (ms_prefix m)),
      (''endpoint'', opt_str ''endpoint'' (ms_endpoint m)), (''region'', opt_str ''region'' (ms_region m)),
      (''path_style'', opt_true ''path_style'' (ms_path_style m)), (''branch'', opt_str ''branch'' (ms_branch m)),
      (''watch'', [(''watch'', JBool (ms_watch m))]),
      (''poll_interval'', opt_str ''poll_interval'' (ms_poll_interval m)),
      (''index_interval'', opt_str ''index_interval'' (ms_index_interval m))]"

lemma encode_source_fields: "encode_source m = JObj (concat (map snd (source_fields m)))"
  by (simp add: encode_source_def source_fields_def)

lemma source_key:
  "(k, f) \<in> set (source_fields m) \<Longrightarrow> json_key k (concat (map snd (source_fields m))) = json_key k f"
proof (rule json_key_fields)
  show "distinct (map fst (source_fields m))" by (simp add: source_fields_def)
  show "\<forall>(k, f) \<in> set (source_fields m). fst ` set f \<subseteq> {k}" by (simp add: source_fields_def)
qed

lemma decode_encode_source: "decode_source (encode_source m) = Some m"
proof -
  define kvs where "kvs = concat (map snd (source_fields m))"
  have key: "(k, f) \<in> set (source_fields m) \<Longrightarrow> json_key k kvs = json_key k f" for k f
    unfolding kvs_def by (rule source_key)
  have str: "get_str k [] kvs = Some v" if "(k, opt_str k v) \<in> set (source_fields m)" for k v
    by (rule get_str_val) (simp add: key [OF that])
  have strs: "get_strs k kvs = Some xs" if "(k, opt_strs k xs) \<in> set (source_fields m)" for k xs
    by (rule get_strs_val) (simp add: key [OF that])
  have "get_str ''type'' [] kvs = Some (ms_type m)"
    using key [of "''type''" "[(''type'', JStr (ms_type m))]"] by (simp add: get_str_def source_fields_def)
  moreover have "get_bool ''watch'' kvs = Some (ms_watch m)"
    using key [of "''watch''" "[(''watch'', JBool (ms_watch m))]"] by (simp add: get_bool_def source_fields_def)
  moreover have "get_bool ''path_style'' kvs = Some (ms_path_style m)"
    using key [of "''path_style''" "opt_true ''path_style'' (ms_path_style m)"]
    by (simp add: get_bool_def source_fields_def)
  moreover have "get_str ''path'' [] kvs = Some (ms_path m)" "get_str ''url'' [] kvs = Some (ms_url m)"
    "get_str ''language'' [] kvs = Some (ms_language m)" "get_str ''project'' [] kvs = Some (ms_project m)"
    "get_str ''version'' [] kvs = Some (ms_version m)" "get_str ''branch_slug'' [] kvs = Some (ms_branch_slug m)"
    "get_str ''instance_suffix'' [] kvs = Some (ms_instance_suffix m)"
    "get_str ''bucket'' [] kvs = Some (ms_bucket m)" "get_str ''prefix'' [] kvs = Some (ms_prefix m)"
    "get_str ''endpoint'' [] kvs = Some (ms_endpoint m)" "get_str ''region'' [] kvs = Some (ms_region m)"
    "get_str ''branch'' [] kvs = Some (ms_branch m)" "get_str ''poll_interval'' [] kvs = Some (ms_poll_interval m)"
    "get_str ''index_interval'' [] kvs = Some (ms_index_interval m)"
    by (rule str; simp add: source_fields_def)+
  moreover have "get_strs ''paths'' kvs = Some (ms_paths m)" "get_strs ''urls'' kvs = Some (ms_urls m)"
    "get_strs ''languages'' kvs = Some (ms_languages m)"
    by (rule strs; simp add: source_fields_def)+
  ultimately show ?thesis
    unfolding encode_source_fields kvs_def [symmetric] by (simp add: decode_source_def)
qed

lemma decode_encode_config:
  "decode_config default_ports (encode_config m) =
     Some (m\<lparr>mc_ports := (if mc_ports m = JNull then default_ports else mc_ports m),
             mc_seed_timeout := (if mc_seed_timeout m = [] then ''120s'' else mc_seed_timeout m),
             mc_heartbeat := (if mc_heartbeat m = [] then ''30s'' else mc_heartbeat m)\<rparr>)"
proof -
  define kvs where "kvs =
     [(''ports'', mc_ports m), (''namespace'', JStr (mc_namespace m)),
       (''sources'', if mc_sources m = [] then JNull else JArr (map encode_source (mc_sources m))),
       (''expected_source_count'', JInt (mc_expected m))]
      @ opt_str ''seed_timeout'' (mc_seed_timeout m) @ opt_str ''heartbeat_interval'' (mc_heartbeat m)"
  note key = kvs_def json_key_append json_key_Cons image_Un
  have keys: "json_key ''ports'' kvs = mc_ports m" "json_key ''namespace'' kvs = JStr (mc_namespace m)"
      "json_key ''sources'' kvs = (if mc_sources m = [] then JNull else JArr (map encode_source (mc_sources m)))"
      "json_key ''expected_source_count'' kvs = JInt (mc_expected m)"
      "json_key ''seed_timeout'' kvs = (if mc_seed_timeout m = [] then JNull else JStr (mc_seed_timeout m))"
      "json_key ''heartbeat_interval'' kvs = (if mc_heartbeat m = [] then JNull else JStr (mc_heartbeat m))"
    by (simp_all add: key)
  have "get_sources kvs = Some (mc_sources m)"
    using all_some_map [of "mc_sources m" decode_source encode_source]
    by (simp add: get_sources_def keys decode_encode_source)
  moreover have "get_str ''namespace'' [] kvs = Some (mc_namespace m)"
      "get_int ''expected_source_count'' kvs = Some (mc_expected m)"
      "get_str ''seed_timeout'' ''120s'' kvs = Some (if mc_seed_timeout m = [] then ''120s'' else mc_seed_timeout m)"
      "get_str ''heartbeat_interval'' ''30s'' kvs = Some (if mc_heartbeat m = [] then ''30s'' else mc_heartbeat m)"
    by (simp_all add: get_str_def get_int_def keys)
  ultimately show ?thesis
    unfolding encode_config_def kvs_def [symmetric]
    by (simp add: decode_config_def keys)
qed


section \<open>The manifest keeps the identity of a source\<close>

lemma manifest_source_inverse: "to_manifest_source (to_source_entry m) = m"
  by (simp add: to_manifest_source_def to_source_entry_def)

lemma entry_fields [simp]:
  "se_type (to_source_entry (to_manifest_source s)) = se_type s"
  "se_path (to_source_entry (to_manifest_source s)) = se_path s"
  "se_paths (to_source_entry (to_manifest_source s)) = se_paths s"
  "se_url (to_source_entry (to_manifest_source s)) = se_url s"
  "se_urls (to_source_entry (to_manifest_source s)) = se_urls s"
  "se_language (to_source_entry (to_manifest_source s)) = se_language s"
  "se_languages (to_source_entry (to_manifest_source s)) = se_languages s"
  "se_project (to_source_entry (to_manifest_source s)) = se_project s"
  "se_version (to_source_entry (to_manifest_source s)) = se_version s"
  "se_branch_slug (to_source_entry (to_manifest_source s)) = se_branch_slug s"
  "se_instance_suffix (to_source_entry (to_manifest_source s)) = se_instance_suffix s"
  "se_bucket (to_source_entry (to_manifest_source s)) = se_bucket s"
  "se_prefix (to_source_entry (to_manifest_source s)) = se_prefix s"
  "se_endpoint (to_source_entry (to_manifest_source s)) = se_endpoint s"
  "se_branch (to_source_entry (to_manifest_source s)) = se_branch s"
  "se_watch (to_source_entry (to_manifest_source s)) = se_watch s"
  "se_poll_interval (to_source_entry (to_manifest_source s)) = se_poll_interval s"
  "se_index_interval (to_source_entry (to_manifest_source s)) = se_index_interval s"
  "se_branches (to_source_entry (to_manifest_source s)) = []"
  "se_extensions (to_source_entry (to_manifest_source s)) = []"
  "se_keyframe_mode (to_source_entry (to_manifest_source s)) = []"
  "se_scene_threshold (to_source_entry (to_manifest_source s)) = Finite 0 0"
  by (simp_all add: to_manifest_source_def to_source_entry_def empty_entry_def)

lemma manifest_entry_valid:
  assumes "validate_entry frac s = None"
  shows "validate_entry frac (to_source_entry (to_manifest_source s)) = None"
proof -
  have "validate_languages (to_source_entry (to_manifest_source s)) = validate_languages s"
    by (simp add: validate_languages_def)
  moreover have "float_negative (Finite 0 0) = False" "float_above_one (Finite 0 0) = False"
    by (simp_all add: float_negative_def float_above_one_def)
  ultimately have "validate_type (to_source_entry (to_manifest_source s)) = None"
    using assms by (auto simp: type_valid validate_type_def Let_def split: if_splits)
  with assms show ?thesis by (simp add: type_valid)
qed

text \<open>The entries with the same identity have the same instance names.\<close>

lemma instance_of_cong:
  assumes "se_type e = se_type s" and "se_url e = se_url s" and "se_path e = se_path s"
    and "se_paths e = se_paths s" and "se_urls e = se_urls s" and "se_branch e = se_branch s"
    and "se_branch_slug e = se_branch_slug s" and "se_project e = se_project s"
    and "se_version e = se_version s" and "se_instance_suffix e = se_instance_suffix s"
    and "se_bucket e = se_bucket s" and "se_prefix e = se_prefix s"
  shows "instance_of e = instance_of s"
proof -
  have h: "content_hash_slug e = content_hash_slug s"
    using assms by (simp add: content_hash_slug_def hash_input_def)
  have "entry_paths e = entry_paths s" "entry_urls e = entry_urls s" "project_slug e = project_slug s"
    using assms by (simp_all add: entry_paths_def entry_urls_def project_slug_def fun_eq_iff)
  with h assms show ?thesis
    by (simp add: instance_of_def ast_instance_def ast_project_def git_instance_def doc_instance_def
        cfgfile_instance_def url_instance_def object_store_instance_def media_instance_def Let_def)
qed

lemma spawned_manifest_names:
  "map instance_of (spawned_entries u ws (to_source_entry (to_manifest_source s)))
     = map instance_of (spawned_entries u ws s)"
proof (cases "se_type s = ''repo''")
  case True
  let ?m = "to_source_entry (to_manifest_source s)"
  have rp: "repo_path u ws ?m = repo_path u ws s" by (simp add: repo_path_def)
  have "instance_of (hd (expand_single_branch u ws ?m)) = instance_of (hd (expand_single_branch u ws s))"
    unfolding expand_single_branch_def Let_def list.sel by (rule instance_of_cong) simp_all
  moreover have "tl (expand_single_branch u ws ?m) = tl (expand_single_branch u ws s)"
    unfolding expand_single_branch_def Let_def list.sel rp by simp
  moreover have "expand_single_branch u ws e \<noteq> []" for e by (simp add: expand_single_branch_def Let_def)
  ultimately have "map instance_of (expand_single_branch u ws ?m) = map instance_of (expand_single_branch u ws s)"
    by (cases "expand_single_branch u ws ?m"; cases "expand_single_branch u ws s") simp_all
  with True show ?thesis by (simp add: spawned_entries_def)
next
  case False
  have "instance_of (to_source_entry (to_manifest_source s)) = instance_of s"
    by (rule instance_of_cong) simp_all
  with False show ?thesis by (simp add: spawned_entries_def)
qed

lemma keys_of_puts:
  "map fst (foldl (\<lambda>m sp. gm_put (sp_instance sp) (config_of_spec sp) m) m sps)
     = foldl (\<lambda>ns n. if n \<in> set ns then ns else ns @ [n]) (map fst m) (map sp_instance sps)"
proof (induction sps arbitrary: m)
  case (Cons sp sps)
  have "map fst (gm_put k v m) = (if k \<in> set (map fst m) then map fst m else map fst m @ [k])" for k and v :: component_config
    unfolding gm_put_def by (induction m) auto
  with Cons show ?case by simp
qed simp

lemma named_spec_names: "list_all2 named_spec es sps \<Longrightarrow> map sp_instance sps = map instance_of es"
  by (induction rule: list_all2_induct) (simp_all add: named_spec_def)

lemma instance_names_eq:
  assumes "validate_entry (en_frac env) s = None" and "se_branches s = []"
  shows "instance_names env s opts w =
    (w, Inr (foldl (\<lambda>ns n. if n \<in> set ns then ns else ns @ [n]) []
       (map instance_of (spawned_entries (en_unicode env) (op_workspace_dir opts) s))))"
proof -
  obtain sps where "build_specs env s (opts\<lparr>op_skip_remote := True\<rparr>) w = (w, Inr sps)"
      "list_all2 named_spec (spawned_entries (en_unicode env) (op_workspace_dir opts) s) sps"
    using build_specs_entries [OF assms, of "opts\<lparr>op_skip_remote := True\<rparr>" w] by auto
  then show ?thesis
    using assms keys_of_puts [of "[]" sps] named_spec_names
    by (simp add: instance_names_def build_def)
qed

text \<open>The manifest keeps the identity of a source: the handles of the entry that is read back from the
  manifest are those of the entry that was registered, although the manifest drops eleven of its
  fields; so removal and repair find every source they registered.\<close>

theorem manifest_keeps_handles:
  assumes "validate_entry (en_frac env) s = None" and "se_branches s = []"
  shows "instance_names env (to_source_entry (to_manifest_source s)) opts w = instance_names env s opts w
    \<and> to_manifest_source (to_source_entry m) = m"
  using instance_names_eq [OF assms] instance_names_eq [OF manifest_entry_valid [OF assms(1)]]
    spawned_manifest_names manifest_source_inverse by simp

theorem manifest_keeps_handles_witness:
  "instance_names demo_env0 (to_source_entry (to_manifest_source demo_clone)) demo_opts ()
     = instance_names demo_env0 demo_clone demo_opts ()"
  using manifest_keeps_handles [OF demo_clone_valid] by blast

section \<open>What a request leaves behind\<close>

definition manifest_of :: "json \<Rightarrow> components \<Rightarrow> manifest_config option" where
  "manifest_of dports cs =
     (case map_of cs ''source-manifest'' of None \<Rightarrow> None | Some e \<Rightarrow> decode_config dports (cc_config e))"

lemma count_put:
  assumes "map_of cs k = Some c" and "cc_name c' = cc_name c" and "cc_enabled c' = cc_enabled c"
  shows "enabled_source_component_count (gm_put k c' cs) = enabled_source_component_count cs"
proof -
  have "length (filter P (gm_put k c' cs)) = length (filter P cs)"
    if "\<And>n. P (n, c') = P (n, c)" "map_of cs k = Some c" for P
    using that(2) unfolding gm_put_def by (induction cs) (auto simp: that(1))
  from this [of "\<lambda>(n, c). cc_enabled c \<and> is_source_component (cc_name c)"] assms
  show ?thesis by (simp add: enabled_source_component_count_def)
qed

lemma view_put:
  "cs_put (view_store base rd) n c s = (s', None) \<Longrightarrow> snd s' = gm_put n c (snd s)"
  by (auto simp: view_store_def split: prod.splits option.splits)

lemma view_get [simp]: "cs_get (view_store base rd) = snd"
  by (simp add: view_store_def)

text \<open>The second write of a request, when it succeeds.\<close>

lemma persist_ok:
  assumes "persist_desired_manifest env dports opts w (view_store base rd) added removed s = (s', None)"
  obtains desired envelope where "manifest_of dports (snd s) = Some desired"
    and "map_of (snd s) ''source-manifest'' = Some envelope"
    and "manifest_of dports (snd s') = decode_config dports (encode_config
          (desired\<lparr>mc_sources := (case added of
              Some src \<Rightarrow> append_manifest_sources env opts w src (mc_sources desired)
            | None \<Rightarrow> fst (remove_manifest_source env opts w (snd s) removed (mc_sources desired))),
            mc_expected := enabled_source_component_count (snd s)\<rparr>))"
    and "enabled_source_component_count (snd s') = enabled_source_component_count (snd s)"
    and "\<And>n. n \<noteq> ''source-manifest'' \<Longrightarrow> map_of (snd s') n = map_of (snd s) n"
    and "map_option cc_enabled (map_of (snd s') ''source-manifest'') = Some (cc_enabled envelope)"
proof -
  obtain envelope where e: "map_of (snd s) ''source-manifest'' = Some envelope"
    using assms by (auto simp: persist_desired_manifest_def Let_def split: option.splits)
  obtain desired where d: "decode_config dports (cc_config envelope) = Some desired"
    using assms e by (auto simp: persist_desired_manifest_def Let_def split: option.splits)
  define env' where "env' = envelope\<lparr>cc_config := encode_config
          (desired\<lparr>mc_sources := (case added of
              Some src \<Rightarrow> append_manifest_sources env opts w src (mc_sources desired)
            | None \<Rightarrow> fst (remove_manifest_source env opts w (snd s) removed (mc_sources desired))),
            mc_expected := enabled_source_component_count (snd s)\<rparr>)\<rparr>"
  have "cs_put (view_store base rd) ''source-manifest'' env' s = (s', None)"
  proof -
    have "persist_desired_manifest env dports opts w (view_store base rd) added removed s =
        (case cs_put (view_store base rd) ''source-manifest'' env' s of
           (s', None) \<Rightarrow> (s', None) | (s', Some e) \<Rightarrow> (s', Some (ManifestWriteFailed e)))"
      unfolding persist_desired_manifest_def Let_def env'_def view_get by (simp add: e d cong: option.case_cong)
    with assms show ?thesis by (auto split: prod.splits option.splits)
  qed
  from view_put [OF this] have s': "snd s' = gm_put ''source-manifest'' env' (snd s)" .
  show ?thesis
  proof (rule that)
    show "manifest_of dports (snd s) = Some desired" by (simp add: manifest_of_def e d)
    show "map_of (snd s) ''source-manifest'' = Some envelope" by (rule e)
    show "enabled_source_component_count (snd s') = enabled_source_component_count (snd s)"
      unfolding s' by (rule count_put [OF e]) (simp_all add: env'_def)
  qed (simp_all add: manifest_of_def s' gm_get_put env'_def)
qed

text \<open>C3: An addition that reports no error has settled the desired state: every component it reports is
  enabled, the manifest of the next boot ends with the source, holds no other entry for the same
  handles, and expects exactly the number of source components that are enabled.\<close>

theorem addition_settles_manifest:
  assumes "add_in_store env dports opts ch (view_store base rd) src w s = (s', reply)" and "ar_error reply = None"
  shows "ar_components reply \<noteq> []
    \<and> list_all (\<lambda>r. \<exists>c. map_of (snd s') (rs_instance r) = Some c \<and> cc_enabled c) (ar_components reply)
    \<and> (\<exists>cfg old. manifest_of dports (snd s') = Some cfg
        \<and> mc_sources cfg = filter (\<lambda>m. \<not> manifest_sources_equal env opts w m (to_manifest_source src)) old
             @ [to_manifest_source src]
        \<and> mc_expected cfg = enabled_source_component_count (snd s'))"
proof -
  let ?st = "view_store base rd"
  obtain s1 rs err where a: "add_with_checker env src ?st ch opts w s = (s1, rs, err)"
    by (cases "add_with_checker env src ?st ch opts w s")
  have err: "err = None" and rs: "ar_components reply = rs"
    using assms a by (auto simp: add_in_store_def Let_def split: if_splits prod.splits option.splits)
  obtain sps where sps: "snd (build_specs env src opts w) = Inr sps"
      and put: "put_all ?st (map (pending_write (cs_get ?st s) ch) sps) [] s = (s1, rs, None)"
    using a err by (cases rule: view.add_cases) auto
  have names: "rs_instance ` set rs = sp_instance ` set sps"
    using view.put_all_ok [OF put] by (auto simp: pending_write_def image_iff)
  have ne: "rs \<noteq> []"
  proof
    assume "rs = []"
    then have "sps = []" using names by auto
    moreover have valid: "validate_entry (en_frac env) src = None" "\<not> (se_type src = ''repo'' \<and> se_branches src \<noteq> [])"
      using a err by (auto simp: add_with_checker_def split: option.splits if_splits)
    moreover have "sps \<noteq> []"
    proof (cases "se_type src = ''repo''")
      case True
      with valid(2) have "se_branches src = []" by simp
      from build_specs_entries [OF valid(1) this, of opts w] sps True show ?thesis
        by (auto simp: spawned_entries_def expand_single_branch_def Let_def)
    next
      case False
      have "se_type src \<in> set valid_source_types" using valid(1) by (simp add: type_valid)
      from flat_specs_total [OF this False, of env opts w] sps False show ?thesis
        by (auto simp: build_specs_def)
    qed
    ultimately show False by simp
  qed
  obtain s2 p where pr: "persist_desired_manifest env dports opts w ?st (Some src) [] s1 = (s2, p)"
    by (cases "persist_desired_manifest env dports opts w ?st (Some src) [] s1")
  have "p = None" and s2: "s' = s2"
    using assms a err ne pr by (auto simp: add_in_store_def Let_def split: option.splits)
  note persist = persist_ok [OF pr [unfolded \<open>p = None\<close>], folded s2, unfolded option.case]
  obtain desired envelope where m:
      "map_of (snd s1) ''source-manifest'' = Some envelope"
      "manifest_of dports (snd s') = decode_config dports (encode_config
          (desired\<lparr>mc_sources := append_manifest_sources env opts w src (mc_sources desired),
            mc_expected := enabled_source_component_count (snd s1)\<rparr>))"
      "enabled_source_component_count (snd s') = enabled_source_component_count (snd s1)"
      "\<And>n. n \<noteq> ''source-manifest'' \<Longrightarrow> map_of (snd s') n = map_of (snd s1) n"
      "map_option cc_enabled (map_of (snd s') ''source-manifest'') = Some (cc_enabled envelope)"
    by (rule persist) (rule that, assumption+)
  have "\<exists>c. map_of (snd s') (rs_instance r) = Some c \<and> cc_enabled c" if "r \<in> set rs" for r
  proof -
    have "rs_instance r \<in> sp_instance ` set sps" using that names by blast
    from view.add_ok_enabled [OF a [unfolded err] sps this]
    obtain c where c: "map_of (snd s1) (rs_instance r) = Some c" "cc_enabled c" by auto
    show ?thesis
    proof (cases "rs_instance r = ''source-manifest''")
      case True
      with c m(1) have "cc_enabled envelope" by simp
      with m(5) True show ?thesis by auto
    next
      case False
      with c m(4) show ?thesis by simp
    qed
  qed
  moreover have "\<exists>cfg. manifest_of dports (snd s') = Some cfg
      \<and> mc_sources cfg = append_manifest_sources env opts w src (mc_sources desired)
      \<and> mc_expected cfg = enabled_source_component_count (snd s')"
    unfolding m(2) m(3) decode_encode_config by simp
  ultimately show ?thesis using ne rs unfolding append_manifest_sources_def list_all_iff by blast
qed

definition demo_manifest :: manifest_config where
  "demo_manifest = \<lparr>mc_ports = JNull, mc_namespace = ''acme'', mc_sources = [], mc_expected = 0,
     mc_seed_timeout = ''5s'', mc_heartbeat = ''5s''\<rparr>"

definition demo_booted :: components where
  "demo_booted = [(''source-manifest'',
     \<lparr>cc_name = ''source-manifest'', cc_enabled = True, cc_config = encode_config demo_manifest\<rparr>)]"

theorem addition_settles_manifest_witness:
  "case add_in_store demo_env0 JNull demo_opts None (view_store demo_store demo_reader) demo_checkout () (([], []), demo_booted) of
     (s', reply) \<Rightarrow> ar_error reply = None
       \<and> map_option mc_expected (manifest_of JNull (snd s')) = Some (enabled_source_component_count (snd s'))
       \<and> enabled_source_component_count (snd s') = 1"
proof -
  let ?r = "add_in_store demo_env0 JNull demo_opts None (view_store demo_store demo_reader) demo_checkout () (([], []), demo_booted)"
  obtain s' reply where r: "?r = (s', reply)" by (cases ?r)
  have "ar_error (snd ?r) = None" by code_simp
  then have ok: "ar_error reply = None" using r by simp
  have "enabled_source_component_count (snd (fst ?r)) = 1" by code_simp
  then have "enabled_source_component_count (snd s') = 1" using r by simp
  with addition_settles_manifest [OF r ok] r ok show ?thesis by auto
qed

lemma keeps_entry_cong:
  assumes "\<And>n. map_option cc_enabled (map_of cs n) = map_option cc_enabled (map_of cs' n)"
  shows "keeps_entry env opts w cs inst m = keeps_entry env opts w cs' inst m"
proof -
  have "(case map_of cs n of Some c \<Rightarrow> cc_enabled c | None \<Rightarrow> False)
      = (case map_of cs' n of Some c \<Rightarrow> cc_enabled c | None \<Rightarrow> False)" for n
    using assms [of n] by (auto split: option.splits)
  then have "(\<lambda>n. n \<noteq> inst \<and> (case map_of cs n of Some c \<Rightarrow> cc_enabled c | None \<Rightarrow> False))
      = (\<lambda>n. n \<noteq> inst \<and> (case map_of cs' n of Some c \<Rightarrow> cc_enabled c | None \<Rightarrow> False))" by simp
  then show ?thesis unfolding keeps_entry_def by (simp only:)
qed

lemma remove_not_found:
  assumes "remove_component n st s = (s', Some e)" and "err_code e = NotFound"
  shows "s' = s \<and> n \<noteq> [] \<and> (\<forall>c. map_of (cs_get st s) n = Some c \<longrightarrow> \<not> cc_enabled c)"
  using assms by (auto simp: remove_component_def split: if_splits option.splits prod.splits sum.splits)

lemma remove_absent:
  assumes "n \<noteq> []" and "\<And>c. map_of (cs_get st s) n = Some c \<Longrightarrow> \<not> cc_enabled c"
  shows "remove_component n st s = (s, Some \<lparr>err_code = NotFound, err_cause = NotRegistered n\<rparr>)"
  using assms by (auto simp: remove_component_def split: option.splits)

text \<open>What a removal without an error has done before it returns.\<close>

lemma removal_settled:
  assumes "remove_in_store env dports opts has_read (view_store base rd) inst w s = (s', reply)"
    and "rr_error reply = None" and "inst \<noteq> ''source-manifest''"
  obtains cfg where "inst \<noteq> []" and "\<And>c. map_of (snd s') inst = Some c \<Longrightarrow> \<not> cc_enabled c"
    and "manifest_of dports (snd s') = Some cfg" and "mc_expected cfg = enabled_source_component_count (snd s')"
    and "list_all (keeps_entry env opts w (snd s') inst) (mc_sources cfg)"
proof -
  let ?st = "view_store base rd"
  obtain s1 err where rm: "remove_component inst ?st s = (s1, err)" by (cases "remove_component inst ?st s")
  obtain s2 p where pr: "persist_desired_manifest env dports opts w ?st None inst s1 = (s2, p)"
    by (cases "persist_desired_manifest env dports opts w ?st None inst s1")
  have "p = None \<and> s' = s2 \<and> (case err of None \<Rightarrow> True | Some e \<Rightarrow> err_code e = NotFound)"
    using assms(1,2) rm pr by (auto simp: remove_in_store_def Let_def split: if_splits option.splits)
  then have p: "p = None" and s2: "s2 = s'" and err: "case err of None \<Rightarrow> True | Some e \<Rightarrow> err_code e = NotFound"
    by auto
  have off: "inst \<noteq> [] \<and> (\<forall>c. map_of (snd s1) inst = Some c \<longrightarrow> \<not> cc_enabled c)"
  proof (cases err)
    case None
    from view.remove_ok [OF rm [unfolded None]] rm None show ?thesis
      by (auto simp: remove_component_def split: if_splits)
  next
    case (Some e)
    with remove_not_found [OF rm [unfolded Some]] err show ?thesis by simp
  qed
  note persist = persist_ok [OF pr [unfolded p], unfolded s2 option.case remove_manifest_source_def fst_conv]
  obtain desired envelope where m:
      "map_of (snd s1) ''source-manifest'' = Some envelope"
      "manifest_of dports (snd s') = decode_config dports (encode_config
          (desired\<lparr>mc_sources := filter (keeps_entry env opts w (snd s1) inst) (mc_sources desired),
            mc_expected := enabled_source_component_count (snd s1)\<rparr>))"
      "enabled_source_component_count (snd s') = enabled_source_component_count (snd s1)"
      "\<And>n. n \<noteq> ''source-manifest'' \<Longrightarrow> map_of (snd s') n = map_of (snd s1) n"
      "map_option cc_enabled (map_of (snd s') ''source-manifest'') = Some (cc_enabled envelope)"
    by (rule persist) (rule that, assumption+)
  have "map_option cc_enabled (map_of (snd s') n) = map_option cc_enabled (map_of (snd s1) n)" for n
    using m(1,4,5) by (cases "n = ''source-manifest''") auto
  note keep = keeps_entry_cong [OF this]
  have "\<exists>cfg. manifest_of dports (snd s') = Some cfg \<and> mc_expected cfg = enabled_source_component_count (snd s')
      \<and> mc_sources cfg = filter (keeps_entry env opts w (snd s1) inst) (mc_sources desired)"
    unfolding m(2) m(3) decode_encode_config by simp
  then obtain cfg where cfg: "manifest_of dports (snd s') = Some cfg"
      "mc_expected cfg = enabled_source_component_count (snd s')"
      "mc_sources cfg = filter (keeps_entry env opts w (snd s1) inst) (mc_sources desired)" by blast
  show ?thesis
    by (rule that [OF _ _ cfg(1,2)]) (use off m(4) assms(3) in \<open>auto simp: cfg(3) list_all_iff keep\<close>)
qed

text \<open>C4: A removal that reports no error is final: the component is not enabled afterwards, the manifest of
  the next boot keeps no source that only this component carried and expects exactly the number of
  components that are still enabled, and the same removal again is refused with NOT_FOUND and
  changes nothing.\<close>

theorem removal_is_final:
  assumes "remove_in_store env dports opts has_read (view_store base rd) inst w s = (s', reply)"
    and "rr_error reply = None" and "inst \<noteq> ''source-manifest''"
  shows "(\<forall>c. map_of (snd s') inst = Some c \<longrightarrow> \<not> cc_enabled c)
    \<and> (\<exists>cfg. manifest_of dports (snd s') = Some cfg
          \<and> list_all (keeps_entry env opts w (snd s') inst) (mc_sources cfg)
          \<and> mc_expected cfg = enabled_source_component_count (snd s'))
    \<and> (\<exists>again. remove_in_store env dports opts has_read (view_store base rd) inst w s' = (s', again)
          \<and> map_option ie_code (rr_error again) = Some WireNotFound \<and> \<not> rr_removed again)"
proof -
  obtain cfg where c: "inst \<noteq> []" "\<And>c. map_of (snd s') inst = Some c \<Longrightarrow> \<not> cc_enabled c"
      "manifest_of dports (snd s') = Some cfg" "mc_expected cfg = enabled_source_component_count (snd s')"
      "list_all (keeps_entry env opts w (snd s') inst) (mc_sources cfg)"
    using removal_settled [OF assms] by blast
  have "\<not> needs_removal_repair env dports opts w (snd s') inst"
    using c(3,4,5) by (auto simp: needs_removal_repair_def manifest_of_def remove_manifest_source_def
        list_all_iff list_ex_iff split: option.splits)
  moreover have "remove_component inst (view_store base rd) s'
      = (s', Some \<lparr>err_code = NotFound, err_cause = NotRegistered inst\<rparr>)"
    by (rule remove_absent) (use c(1,2) in auto)
  ultimately have "\<exists>again. remove_in_store env dports opts has_read (view_store base rd) inst w s' = (s', again)
          \<and> map_option ie_code (rr_error again) = Some WireNotFound \<and> \<not> rr_removed again"
    using c(2) by (auto simp: remove_in_store_def Let_def map_spawn_error_def wire_code_of_def split: option.splits)
  with c show ?thesis by blast
qed

theorem removal_is_final_witness:
  "case add_in_store demo_env0 JNull demo_opts None (view_store demo_store demo_reader) demo_checkout () (([], []), demo_booted) of
     (s, _) \<Rightarrow> (case remove_in_store demo_env0 JNull demo_opts True (view_store demo_store demo_reader) ''git-source-notes'' () s of
        (s', reply) \<Rightarrow> rr_removed reply \<and> rr_error reply = None
          \<and> map_option mc_expected (manifest_of JNull (snd s')) = Some (enabled_source_component_count (snd s'))
          \<and> enabled_source_component_count (snd s') = 0)"
proof -
  let ?st = "view_store demo_store demo_reader"
  let ?a = "add_in_store demo_env0 JNull demo_opts None ?st demo_checkout () (([], []), demo_booted)"
  let ?r = "remove_in_store demo_env0 JNull demo_opts True ?st ''git-source-notes'' () (fst ?a)"
  obtain s' reply where r: "?r = (s', reply)" by (cases ?r)
  have "rr_error (snd ?r) = None \<and> rr_removed (snd ?r) \<and> enabled_source_component_count (snd (fst ?r)) = 0" by code_simp
  then have ok: "rr_error reply = None" "rr_removed reply" "enabled_source_component_count (snd s') = 0" using r by simp_all
  from removal_is_final [OF r ok(1)] r ok show ?thesis by (auto simp: case_prod_unfold)
qed

section \<open>What the HTTP face lets through\<close>

lemma trim_prefix_split: "has_prefix h p \<Longrightarrow> h = p @ trim_prefix h p"
  using append_take_drop_id [of "length p" h] by (simp add: trim_prefix_def has_prefix_def)

text \<open>C14: A request over HTTP changes the state only if the component runs, its handlers are wired, the
  request carries the configured token, its body decodes to an entry, and every local path of
  the entry lies within an allowed root; the reply then is the one of the addition, with status
  200 unless nothing was registered.\<close>

theorem http_admission:
  assumes "handle_add_http running wired token (Some cwd) roots add r s = (s', code, body)"
    and "s' \<noteq> s" and "is_abs cwd"
  shows "\<exists>src reply. running \<and> wired \<and> hq_body r = Inr src \<and> add src s = (s', reply) \<and> body = AddReplyBody reply
    \<and> (token = [] \<or> hq_authorization r = ''Bearer '' @ token)
    \<and> list_all (\<lambda>p. list_ex (\<lambda>q. within_root (abs_elems cwd q) (abs_elems cwd p)) roots) (source_paths src)
    \<and> (code = 200 \<or> ar_components reply = [])"
proof -
  have gate: "authorized_ingest running wired token r = None"
    using assms(1,2) by (auto simp: handle_add_http_def split: option.splits)
  with assms(1,2) obtain src where src: "hq_body r = Inr src" "enforce_roots (Some cwd) src roots = None"
    by (auto simp: handle_add_http_def split: sum.splits option.splits)
  obtain s1 reply where a: "add src s = (s1, reply)" by (cases "add src s")
  have "running \<and> wired \<and> authorized (hq_authorization r) token"
    using gate by (auto simp: authorized_ingest_def split: if_splits)
  moreover have "token = [] \<or> hq_authorization r = ''Bearer '' @ token" if "authorized (hq_authorization r) token"
    using that trim_prefix_split [of "hq_authorization r" "''Bearer ''"]
    unfolding authorized_def by (auto split: if_splits)
  moreover have "s' = s1 \<and> body = AddReplyBody reply \<and> (code = 200 \<or> ar_components reply = [])"
    using assms(1) gate src a by (auto simp: handle_add_http_def split: option.splits if_splits)
  ultimately show ?thesis using src(1) a enforce_roots_elems [OF assms(3)] src(2) by blast
qed

theorem http_admission_witness:
  "case handle_add_http True True ''t'' (Some ''/d'') [''/d'']
      (\<lambda>src. add_in_store demo_env0 JNull demo_opts None (view_store demo_store demo_reader) src ())
      \<lparr>hq_authorization = ''Bearer t'', hq_id = [], hq_body = Inr demo_checkout\<rparr> (([], []), demo_booted) of
     (s', code, body) \<Rightarrow> code = 200 \<and> within_root (abs_elems ''/d'' ''/d'') (abs_elems ''/d'' ''/d/notes'')"
proof -
  let ?h = "handle_add_http True True ''t'' (Some ''/d'') [''/d'']
      (\<lambda>src. add_in_store demo_env0 JNull demo_opts None (view_store demo_store demo_reader) src ())
      \<lparr>hq_authorization = ''Bearer t'', hq_id = [], hq_body = Inr demo_checkout\<rparr> (([], []), demo_booted)"
  obtain s' code body where h: "?h = (s', code, body)" by (cases ?h)
  have "length (snd (fst ?h)) = 2 \<and> fst (snd ?h) = 200" by code_simp
  then have ok: "s' \<noteq> (([], []), demo_booted)" "code = 200" using h by (auto simp: demo_booted_def)
  have "is_abs ''/d''" by code_simp
  from http_admission [OF h ok(1) this] h ok show ?thesis
    by (auto simp: source_paths_def demo_checkout_def empty_entry_def)
qed

end
