(* ===== verification/SubWatch.thy ===== *)
theory SubWatch
  imports Submodules SourceSpawn
begin

text \<open>
  The submodule watcher (\<open>internal/subwatch/subwatch.go\<close>): every tick takes the inventory of the
  checkout and reconciles the component configurations it has written with the pins it finds.
  The store is a pair of operations on a state; the order in which Go visits a map is a parameter.
\<close>

section \<open>State\<close>

record 's kv_store =
  kv_put :: "string \<Rightarrow> component_config \<Rightarrow> 's \<Rightarrow> 's \<times> bool"
  kv_delete :: "string \<Rightarrow> 's \<Rightarrow> 's \<times> bool"

record subwatch_config =
  sw_repo_path :: string
  sw_parent_slug :: string
  sw_languages :: "string list"
  sw_watch :: bool
  sw_opts :: spawn_options

record pin =
  pn_sha :: string
  pn_names :: "string list"
  pn_confirmed :: bool

text \<open>What a tick reads besides its state: the builders' world, and the order of each map.\<close>

record 'w subwatch_env =
  sv_spawn :: "'w spawn_env"
  sv_world :: 'w
  sv_pins :: "(string, pin) gomap \<Rightarrow> (string, pin) gomap"
  sv_desired :: "(string, submodule_info) gomap \<Rightarrow> (string, submodule_info) gomap"
  sv_built :: "(string, component_config) gomap \<Rightarrow> (string, component_config) gomap"

definition sha_prefix_len :: nat where
  "sha_prefix_len = 12"

section \<open>Spawning the components of a pin\<close>

definition submodule_suffix :: "subwatch_config \<Rightarrow> string \<Rightarrow> string" where
  "submodule_suffix cfg path =
     ''via-'' @ sw_parent_slug cfg @ ''-'' @ map (\<lambda>c. if c = CHR ''/'' then CHR ''-'' else c) path"

definition submodule_entries :: "unicode_tables \<Rightarrow> subwatch_config \<Rightarrow> submodule_info \<Rightarrow> source_entry list" where
  "submodule_entries u cfg i =
     (let project = url_to_slug u (sm_resolved i);
          sha12 = take sha_prefix_len (sm_sha i);
          dir = path_join [sw_repo_path cfg, sm_path i];
          suf = submodule_suffix cfg (sm_path i)
      in [empty_entry\<lparr>se_type := ''ast'', se_path := dir, se_project := project, se_version := sha12,
            se_languages := sw_languages cfg, se_watch := sw_watch cfg, se_instance_suffix := suf\<rparr>,
          empty_entry\<lparr>se_type := ''docs'', se_paths := [dir], se_project := project @ ''-'' @ sha12,
            se_watch := sw_watch cfg, se_instance_suffix := suf\<rparr>,
          empty_entry\<lparr>se_type := ''config'', se_paths := [dir], se_project := project @ ''-'' @ sha12,
            se_watch := sw_watch cfg, se_instance_suffix := suf\<rparr>])"

fun put_built ::
  "'s kv_store \<Rightarrow> (string, component_config) gomap \<Rightarrow> string list \<Rightarrow> 's \<Rightarrow> 's \<times> string list option" where
  "put_built st [] names s = (s, Some names)"
| "put_built st ((n, c) # built) names s =
     (case kv_put st n c s of
        (s', False) \<Rightarrow> (s', None)
      | (s', True) \<Rightarrow> put_built st built (names @ [n]) s')"

fun spawn_entries ::
  "'w subwatch_env \<Rightarrow> spawn_options \<Rightarrow> 's kv_store \<Rightarrow> source_entry list \<Rightarrow> string list \<Rightarrow> 's
   \<Rightarrow> 's \<times> string list option" where
  "spawn_entries env opts st [] names s = (s, Some names)"
| "spawn_entries env opts st (e # es) names s =
     (case snd (build (sv_spawn env) e opts (sv_world env)) of
        Inl _ \<Rightarrow> (s, None)
      | Inr built \<Rightarrow>
          (case put_built st (sv_built env built) names s of
             (s', None) \<Rightarrow> (s', None)
           | (s', Some names') \<Rightarrow> spawn_entries env opts st es names' s'))"

definition spawn_pin ::
  "'w subwatch_env \<Rightarrow> subwatch_config \<Rightarrow> 's kv_store \<Rightarrow> submodule_info \<Rightarrow> 's \<Rightarrow> 's \<times> pin option" where
  "spawn_pin env cfg st i s =
     (case spawn_entries env (sw_opts cfg) st (submodule_entries (en_unicode (sv_spawn env)) cfg i) [] s of
        (s', None) \<Rightarrow> (s', None)
      | (s', Some names) \<Rightarrow> (s', Some \<lparr>pn_sha = sm_sha i, pn_names = names, pn_confirmed = False\<rparr>))"

definition remove_instances :: "'s kv_store \<Rightarrow> string list \<Rightarrow> 's \<Rightarrow> 's" where
  "remove_instances st names s = foldl (\<lambda>s n. fst (kv_delete st n s)) s names"

section \<open>One tick\<close>

type_synonym pins = "(string, pin) gomap"

definition desired_pins :: "submodule_info list \<Rightarrow> (string, submodule_info) gomap" where
  "desired_pins is =
     foldl (\<lambda>m i. if sm_materialized i \<and> sha_prefix_len \<le> length (sm_sha i) then gm_put (sm_path i) i m else m) [] is"

definition reap_pin ::
  "'w subwatch_env \<Rightarrow> subwatch_config \<Rightarrow> 's kv_store \<Rightarrow> (string, submodule_info) gomap
   \<Rightarrow> pins \<times> 's \<Rightarrow> string \<times> pin \<Rightarrow> pins \<times> 's" where
  "reap_pin env cfg st desired ps kt =
     (case (ps, kt) of ((pins, s), (path, t)) \<Rightarrow>
        (case map_of desired path of
           Some cur \<Rightarrow>
             if sm_sha cur = pn_sha t then (pins, s)
             else (case spawn_pin env cfg st cur s of
                     (s', None) \<Rightarrow> (pins, s')
                   | (s', Some t') \<Rightarrow> (gm_put path t' pins, remove_instances st (pn_names t) s'))
         | None \<Rightarrow> (gm_del path pins, remove_instances st (pn_names t) s)))"

definition confirm_pin ::
  "'w subwatch_env \<Rightarrow> subwatch_config \<Rightarrow> 's kv_store \<Rightarrow> (string, submodule_info) gomap
   \<Rightarrow> pins \<times> 's \<Rightarrow> string \<times> pin \<Rightarrow> pins \<times> 's" where
  "confirm_pin env cfg st desired ps kt =
     (case (ps, kt) of ((pins, s), (path, t)) \<Rightarrow>
        if pn_confirmed t then (pins, s)
        else (case map_of desired path of
                Some cur \<Rightarrow>
                  if sm_sha cur = pn_sha t then
                    (case spawn_pin env cfg st cur s of
                       (s', None) \<Rightarrow> (pins, s')
                     | (s', Some _) \<Rightarrow> (gm_put path (t\<lparr>pn_confirmed := True\<rparr>) pins, s'))
                  else (pins, s)
              | None \<Rightarrow> (pins, s)))"

definition add_pin ::
  "'w subwatch_env \<Rightarrow> subwatch_config \<Rightarrow> 's kv_store \<Rightarrow> pins \<times> 's \<Rightarrow> string \<times> submodule_info \<Rightarrow> pins \<times> 's" where
  "add_pin env cfg st ps ki =
     (case (ps, ki) of ((pins, s), (path, cur)) \<Rightarrow>
        if gm_has pins path then (pins, s)
        else (case spawn_pin env cfg st cur s of
                (s', None) \<Rightarrow> (pins, s')
              | (s', Some t) \<Rightarrow> (gm_put path t pins, s')))"

definition reconcile ::
  "'w subwatch_env \<Rightarrow> subwatch_config \<Rightarrow> 's kv_store \<Rightarrow> (string, submodule_info) gomap \<Rightarrow> pins \<Rightarrow> 's
   \<Rightarrow> pins \<times> 's" where
  "reconcile env cfg st desired pins s =
     (let ps1 = foldl (reap_pin env cfg st desired) (pins, s) (sv_pins env pins);
          ps2 = foldl (confirm_pin env cfg st desired) ps1 (sv_pins env (fst ps1))
      in foldl (add_pin env cfg st) ps2 (sv_desired env desired))"

definition tick ::
  "'w subwatch_env \<Rightarrow> repo_env \<Rightarrow> subwatch_config \<Rightarrow> 's kv_store \<Rightarrow> pins \<Rightarrow> 's \<Rightarrow> pins \<times> 's" where
  "tick env repo cfg st pins s =
     (case list_submodules repo (sw_repo_path cfg) of
        None \<Rightarrow> (pins, s)
      | Some iv \<Rightarrow> reconcile env cfg st (desired_pins (inv_submodules iv)) pins s)"

section \<open>Spawning, when the store accepts\<close>

definition pin_names :: "unicode_tables \<Rightarrow> subwatch_config \<Rightarrow> submodule_info \<Rightarrow> string list" where
  "pin_names u cfg i = map instance_of (submodule_entries u cfg i)"

text \<open>The languages of the parent have been validated, and it has a checkout.\<close>

definition config_ok :: "subwatch_config \<Rightarrow> bool" where
  "config_ok cfg = (sw_repo_path cfg \<noteq> [] \<and> list_all (\<lambda>l. l \<noteq> []) (sw_languages cfg))"

definition env_ok :: "'w subwatch_env \<Rightarrow> bool" where
  "env_ok env = (go_visit (sv_pins env) \<and> go_visit (sv_desired env) \<and> go_visit (sv_built env))"

text \<open>A store that accepts every operation; \<open>live\<close> are the names it holds.\<close>

definition accepts :: "'s kv_store \<Rightarrow> ('s \<Rightarrow> string set) \<Rightarrow> bool" where
  "accepts st live =
     ((\<forall>n c s. snd (kv_put st n c s) \<and> live (fst (kv_put st n c s)) = insert n (live s))
      \<and> (\<forall>n s. live (fst (kv_delete st n s)) = live s - {n}))"

lemma accepts_put: "accepts st live \<Longrightarrow> \<exists>s'. kv_put st n c s = (s', True) \<and> live s' = insert n (live s)"
  by (rule exI [of _ "fst (kv_put st n c s)"]) (simp add: accepts_def prod_eq_iff)

lemma accepts_delete: "accepts st live \<Longrightarrow> live (fst (kv_delete st n s)) = live s - {n}"
  by (simp add: accepts_def)

lemma live_remove: "accepts st live \<Longrightarrow> live (remove_instances st names s) = live s - set names"
  by (induction names arbitrary: s) (auto simp: remove_instances_def accepts_delete)

lemma visit_single: "go_visit visit \<Longrightarrow> visit [x] = [x]"
  using gm_same_mset [of "visit [x]" "[x]"] by (simp add: go_visit_def gm_wf_def)

lemma submodule_entries_ok:
  assumes "config_ok cfg" and "e \<in> set (submodule_entries u cfg i)"
  shows "validate_entry frac e = None \<and> se_branches e = [] \<and> se_type e \<noteq> ''repo''"
proof -
  have "list_all (\<lambda>e. validate_entry frac e = None \<and> se_branches e = [] \<and> se_type e \<noteq> ''repo'') (submodule_entries u cfg i)"
    using assms(1) path_join_nonempty [of "sw_repo_path cfg" "[sm_path i]"]
    by (simp add: submodule_entries_def Let_def config_ok_def validate_entry_def validate_type_def
        validate_positive_duration_def validate_languages_def valid_source_types_def empty_entry_def list_ex_iff list_all_iff)
  with assms(2) show ?thesis by (simp add: list_all_iff)
qed

lemma build_single:
  assumes "validate_entry (en_frac env) e = None" and "se_branches e = []" and "se_type e \<noteq> ''repo''"
  shows "\<exists>c. snd (build env e opts w) = Inr [(instance_of e, c)]"
proof -
  obtain sps where b: "build_specs env e opts w = (w, Inr sps)" and l: "list_all2 named_spec [e] sps"
    using build_specs_entries [OF assms(1,2), of opts w] assms(3) by (auto simp: spawned_entries_def)
  from l obtain sp where "sps = [sp]" "sp_instance sp = instance_of e"
    by (auto simp: list_all2_Cons1 named_spec_def)
  with assms(1) b show ?thesis by (simp add: build_def gm_put_def)
qed

lemma spawn_entries_ok:
  assumes "accepts st live" and "go_visit (sv_built env)"
    and "\<And>e. e \<in> set es \<Longrightarrow> validate_entry (en_frac (sv_spawn env)) e = None \<and> se_branches e = [] \<and> se_type e \<noteq> ''repo''"
  shows "\<exists>s'. spawn_entries env opts st es names s = (s', Some (names @ map instance_of es))
    \<and> live s' = live s \<union> set (map instance_of es)"
  using assms(3)
proof (induction es arbitrary: names s)
  case (Cons e es)
  obtain c where b: "snd (build (sv_spawn env) e opts (sv_world env)) = Inr [(instance_of e, c)]"
    using build_single [of "sv_spawn env" e opts "sv_world env"] Cons.prems [of e] by auto
  obtain s1 where p: "kv_put st (instance_of e) c s = (s1, True)" "live s1 = insert (instance_of e) (live s)"
    using accepts_put [OF assms(1)] by blast
  from Cons.IH [of "names @ [instance_of e]" s1] Cons.prems show ?case
    by (auto simp: b p visit_single [OF assms(2)])
qed simp

lemma spawn_pin_ok:
  assumes "accepts st live" and "env_ok env" and "config_ok cfg"
  shows "\<exists>s'. spawn_pin env cfg st i s
        = (s', Some \<lparr>pn_sha = sm_sha i, pn_names = pin_names (en_unicode (sv_spawn env)) cfg i, pn_confirmed = False\<rparr>)
    \<and> live s' = live s \<union> set (pin_names (en_unicode (sv_spawn env)) cfg i)"
proof -
  have "go_visit (sv_built env)" using assms(2) by (simp add: env_ok_def)
  from spawn_entries_ok [OF assms(1) this, of "submodule_entries (en_unicode (sv_spawn env)) cfg i" "sw_opts cfg" "[]" s]
    submodule_entries_ok [OF assms(3)]
  show ?thesis by (auto simp: spawn_pin_def pin_names_def)
qed

section \<open>What a tick leaves\<close>

text \<open>A loop over the entries of a map that touches only the entry it visits.\<close>

lemma fold_entries:
  assumes "distinct (map fst xs)"
    and "\<And>x tr s. x \<in> set xs \<Longrightarrow> map_of tr (fst x) = m (fst x) \<Longrightarrow>
      \<exists>tr' s'. step (tr, s) x = (tr', s') \<and> map_of tr' = (map_of tr)(fst x := g x) \<and> live s' = (live s \<union> A x) - B x"
    and "\<And>x y. x \<in> set xs \<Longrightarrow> y \<in> set xs \<Longrightarrow> fst x \<noteq> fst y \<Longrightarrow> A x \<inter> B y = {}"
    and "\<And>x. x \<in> set xs \<Longrightarrow> map_of tr (fst x) = m (fst x)"
  shows "\<exists>tr' s'. foldl step (tr, s) xs = (tr', s')
    \<and> map_of tr' = (\<lambda>k. case map_of xs k of None \<Rightarrow> map_of tr k | Some v \<Rightarrow> g (k, v))
    \<and> live s' = (live s \<union> \<Union> (A ` set xs)) - \<Union> (B ` set xs)"
  using assms
proof (induction xs arbitrary: tr s)
  case (Cons x xs)
  obtain k v where x: "x = (k, v)" by (cases x)
  obtain tr1 s1 where st: "step (tr, s) x = (tr1, s1)" "map_of tr1 = (map_of tr)(k := g x)"
      "live s1 = (live s \<union> A x) - B x"
    using Cons.prems(2) [OF list.set_intros(1) Cons.prems(4) [OF list.set_intros(1)], of s] unfolding x fst_conv by blast
  have k: "k \<notin> fst ` set xs" using Cons.prems(1) x by simp
  have "\<exists>tr' s'. foldl step (tr1, s1) xs = (tr', s')
      \<and> map_of tr' = (\<lambda>k. case map_of xs k of None \<Rightarrow> map_of tr1 k | Some v \<Rightarrow> g (k, v))
      \<and> live s' = (live s1 \<union> \<Union> (A ` set xs)) - \<Union> (B ` set xs)"
  proof (rule Cons.IH)
    show "distinct (map fst xs)" using Cons.prems(1) by simp
    show "map_of tr1 (fst y) = m (fst y)" if "y \<in> set xs" for y
      using Cons.prems(4) [of y] that k st(2) by (auto simp: image_iff)
  qed (use Cons.prems in auto)
  then obtain tr' s' where r: "foldl step (tr1, s1) xs = (tr', s')"
      "map_of tr' = (\<lambda>k. case map_of xs k of None \<Rightarrow> map_of tr1 k | Some v \<Rightarrow> g (k, v))"
      "live s' = (live s1 \<union> \<Union> (A ` set xs)) - \<Union> (B ` set xs)" by blast
  have "map_of xs k = None" using k by (simp add: map_of_eq_None_iff)
  then have "map_of tr' = (\<lambda>j. case map_of (x # xs) j of None \<Rightarrow> map_of tr j | Some v \<Rightarrow> g (j, v))"
    unfolding r(2) st(2) by (auto simp: x fun_eq_iff split: option.splits)
  moreover have "A y \<inter> B x = {}" if "y \<in> set xs" for y
    using Cons.prems(3) [of y x] that k x by force
  then have "live s' = (live s \<union> \<Union> (A ` set (x # xs))) - \<Union> (B ` set (x # xs))"
    unfolding r(3) st(3) by auto
  ultimately show ?case using st(1) r(1) by auto
qed simp

definition owned :: "pins \<Rightarrow> string set" where
  "owned pins = {n. \<exists>p t. map_of pins p = Some t \<and> n \<in> set (pn_names t)}"

definition disjoint_names :: "string list \<Rightarrow> string list \<Rightarrow> bool" where
  "disjoint_names xs ys = list_all (\<lambda>x. x \<notin> set ys) xs"

text \<open>No two different pins share an instance name, and a pin that stays has the names it was given.\<close>

definition names_apart ::
  "unicode_tables \<Rightarrow> subwatch_config \<Rightarrow> pins \<Rightarrow> (string, submodule_info) gomap \<Rightarrow> bool" where
  "names_apart u cfg pins desired =
     list_all (\<lambda>(p, t).
         list_all (\<lambda>(q, t'). p = q \<or> disjoint_names (pn_names t') (pn_names t)) pins
         \<and> list_all (\<lambda>(q, i). if p = q \<and> pn_sha t = sm_sha i then pn_names t = pin_names u cfg i
                               else disjoint_names (pin_names u cfg i) (pn_names t)) desired) pins"

lemma names_apartD:
  assumes "names_apart u cfg pins desired" and "map_of pins p = Some t"
  shows "map_of pins q = Some t' \<Longrightarrow> p \<noteq> q \<Longrightarrow> set (pn_names t') \<inter> set (pn_names t) = {}"
    and "map_of desired q = Some i \<Longrightarrow> p \<noteq> q \<or> pn_sha t \<noteq> sm_sha i \<Longrightarrow> set (pin_names u cfg i) \<inter> set (pn_names t) = {}"
    and "map_of desired p = Some i \<Longrightarrow> pn_sha t = sm_sha i \<Longrightarrow> pn_names t = pin_names u cfg i"
proof -
  note apart = bspec [OF assms(1) [unfolded names_apart_def list_all_iff] map_of_SomeD [OF assms(2)], unfolded case_prod_conv]
  show "set (pn_names t') \<inter> set (pn_names t) = {}" if "map_of pins q = Some t'" "p \<noteq> q"
    using bspec [OF conjunct1 [OF apart] map_of_SomeD [OF that(1)], unfolded case_prod_conv] that(2)
    by (auto simp: list_all_iff disjoint_names_def)
  have d: "if p = q \<and> pn_sha t = sm_sha i then pn_names t = pin_names u cfg i
      else disjoint_names (pin_names u cfg i) (pn_names t)" if "map_of desired q = Some i" for q i
    using bspec [OF conjunct2 [OF apart] map_of_SomeD [OF that], unfolded case_prod_conv] .
  show "set (pin_names u cfg i) \<inter> set (pn_names t) = {}" if "map_of desired q = Some i" "p \<noteq> q \<or> pn_sha t \<noteq> sm_sha i"
    using d [OF that(1)] that(2) by (auto simp: list_all_iff disjoint_names_def split: if_splits)
  show "pn_names t = pin_names u cfg i" if "map_of desired p = Some i" "pn_sha t = sm_sha i"
    using d [OF that(1)] that(2) by simp
qed

definition reaped :: "unicode_tables \<Rightarrow> subwatch_config \<Rightarrow> (string, submodule_info) gomap \<Rightarrow> string \<times> pin \<Rightarrow> pin option" where
  "reaped u cfg desired = (\<lambda>(path, t). case map_of desired path of
       None \<Rightarrow> None
     | Some cur \<Rightarrow> if sm_sha cur = pn_sha t then Some t
                   else Some \<lparr>pn_sha = sm_sha cur, pn_names = pin_names u cfg cur, pn_confirmed = False\<rparr>)"

definition moved_in :: "unicode_tables \<Rightarrow> subwatch_config \<Rightarrow> (string, submodule_info) gomap \<Rightarrow> string \<times> pin \<Rightarrow> string set" where
  "moved_in u cfg desired = (\<lambda>(path, t). case map_of desired path of
       None \<Rightarrow> {} | Some cur \<Rightarrow> if sm_sha cur = pn_sha t then {} else set (pin_names u cfg cur))"

definition moved_out :: "(string, submodule_info) gomap \<Rightarrow> string \<times> pin \<Rightarrow> string set" where
  "moved_out desired = (\<lambda>(path, t). case map_of desired path of
       None \<Rightarrow> set (pn_names t) | Some cur \<Rightarrow> if sm_sha cur = pn_sha t then {} else set (pn_names t))"

lemmas pin_moves = reaped_def moved_in_def moved_out_def

lemma reap_step:
  assumes "accepts st live" and "env_ok env" and "config_ok cfg" and "map_of tr (fst x) = Some (snd x)"
  shows "\<exists>tr' s'. reap_pin env cfg st desired (tr, s) x = (tr', s')
    \<and> map_of tr' = (map_of tr)(fst x := reaped (en_unicode (sv_spawn env)) cfg desired x)
    \<and> live s' = (live s \<union> moved_in (en_unicode (sv_spawn env)) cfg desired x) - moved_out desired x"
proof -
  obtain k t where x: "x = (k, t)" by (cases x)
  show ?thesis
  proof (cases "map_of desired k")
    case None
    then show ?thesis
      by (simp add: x reap_pin_def pin_moves gm_get_del live_remove [OF assms(1)])
  next
    case (Some cur)
    obtain s' where "spawn_pin env cfg st cur s = (s', Some \<lparr>pn_sha = sm_sha cur,
          pn_names = pin_names (en_unicode (sv_spawn env)) cfg cur, pn_confirmed = False\<rparr>)"
        "live s' = live s \<union> set (pin_names (en_unicode (sv_spawn env)) cfg cur)"
      using spawn_pin_ok [OF assms(1-3)] by blast
    with Some assms(4) show ?thesis
      by (auto simp: x reap_pin_def pin_moves gm_get_put live_remove [OF assms(1)] fun_eq_iff)
  qed
qed

lemma confirm_step:
  assumes "accepts st live" and "env_ok env" and "config_ok cfg" and "map_of tr (fst x) = Some (snd x)"
    and "map_of desired (fst x) = Some cur" and "sm_sha cur = pn_sha (snd x)"
  shows "\<exists>tr' s'. confirm_pin env cfg st desired (tr, s) x = (tr', s')
    \<and> map_of tr' = (map_of tr)(fst x := Some (snd x\<lparr>pn_confirmed := True\<rparr>))
    \<and> live s' = live s \<union> (if pn_confirmed (snd x) then {} else set (pin_names (en_unicode (sv_spawn env)) cfg cur))"
proof -
  obtain k t where x: "x = (k, t)" by (cases x)
  show ?thesis
  proof (cases "pn_confirmed t")
    case True
    then have "t\<lparr>pn_confirmed := True\<rparr> = t" by simp
    with True assms(4) show ?thesis by (simp add: x confirm_pin_def fun_upd_idem)
  next
    case False
    obtain s' t' where "spawn_pin env cfg st cur s = (s', Some t')"
        "live s' = live s \<union> set (pin_names (en_unicode (sv_spawn env)) cfg cur)"
      using spawn_pin_ok [OF assms(1-3)] by blast
    with False assms(5,6) show ?thesis by (simp add: x confirm_pin_def gm_get_put)
  qed
qed

lemma add_step:
  assumes "accepts st live" and "env_ok env" and "config_ok cfg"
  shows "\<exists>tr' s'. add_pin env cfg st (tr, s) x = (tr', s')
    \<and> map_of tr' = (map_of tr)(fst x := (case map_of tr (fst x) of Some t \<Rightarrow> Some t
        | None \<Rightarrow> Some \<lparr>pn_sha = sm_sha (snd x), pn_names = pin_names (en_unicode (sv_spawn env)) cfg (snd x), pn_confirmed = False\<rparr>))
    \<and> live s' = live s \<union> (if map_of tr (fst x) = None then set (pin_names (en_unicode (sv_spawn env)) cfg (snd x)) else {})"
proof -
  obtain k cur where x: "x = (k, cur)" by (cases x)
  obtain s' where "spawn_pin env cfg st cur s = (s', Some \<lparr>pn_sha = sm_sha cur,
        pn_names = pin_names (en_unicode (sv_spawn env)) cfg cur, pn_confirmed = False\<rparr>)"
      "live s' = live s \<union> set (pin_names (en_unicode (sv_spawn env)) cfg cur)"
    using spawn_pin_ok [OF assms] by blast
  then show ?thesis
    by (cases "map_of tr k") (simp_all add: x add_pin_def gm_has_def gm_get_put fun_upd_idem)
qed

lemma gm_wf_steps:
  assumes "\<And>ps x. gm_wf (fst ps) \<Longrightarrow> gm_wf (fst (step ps x))" and "gm_wf (fst ps)"
  shows "gm_wf (fst (foldl step ps xs))"
  using assms(2) by (induction xs arbitrary: ps) (simp_all add: assms(1))

lemma gm_wf_reap: "gm_wf (fst ps) \<Longrightarrow> gm_wf (fst (reap_pin env cfg st desired ps x))"
  by (cases x, cases ps) (simp add: reap_pin_def split: option.split prod.split)

lemma gm_wf_confirm: "gm_wf (fst ps) \<Longrightarrow> gm_wf (fst (confirm_pin env cfg st desired ps x))"
  by (cases x, cases ps) (simp add: confirm_pin_def split: option.split prod.split)

lemma visited: "go_visit visit \<Longrightarrow> gm_wf m \<Longrightarrow> map_of (visit m) = map_of m \<and> distinct (map fst (visit m))"
  by (simp add: go_visit_def gm_same_def gm_wf_def)

lemma UN_map_of: "gm_wf m \<Longrightarrow> map_of m' = map_of m \<Longrightarrow> distinct (map fst m') \<Longrightarrow>
  \<Union> (F ` set m') = {n. \<exists>k v. map_of m k = Some v \<and> n \<in> F (k, v)}"
  by (force simp flip: map_of_eq_Some_iff)

lemma reap_all:
  assumes "accepts st live" and "env_ok env" and "config_ok cfg" and "gm_wf pins"
    and "names_apart (en_unicode (sv_spawn env)) cfg pins desired"
  shows "\<exists>tr' s'. foldl (reap_pin env cfg st desired) (pins, s) (sv_pins env pins) = (tr', s')
    \<and> map_of tr' = (\<lambda>k. case map_of pins k of None \<Rightarrow> None | Some t \<Rightarrow> reaped (en_unicode (sv_spawn env)) cfg desired (k, t))
    \<and> live s' = (live s \<union> {n. \<exists>k t. map_of pins k = Some t \<and> n \<in> moved_in (en_unicode (sv_spawn env)) cfg desired (k, t)})
               - {n. \<exists>k t. map_of pins k = Some t \<and> n \<in> moved_out desired (k, t)} \<and> gm_wf tr'"
proof -
  let ?u = "en_unicode (sv_spawn env)" and ?xs = "sv_pins env pins"
  have v: "map_of ?xs = map_of pins" "distinct (map fst ?xs)"
    using visited [OF _ assms(4)] assms(2) by (auto simp: env_ok_def)
  have mem: "map_of pins (fst x) = Some (snd x)" if "x \<in> set ?xs" for x
    using v that by (metis map_of_eq_Some_iff prod.collapse)
  have "\<exists>tr' s'. foldl (reap_pin env cfg st desired) (pins, s) ?xs = (tr', s')
      \<and> map_of tr' = (\<lambda>k. case map_of ?xs k of None \<Rightarrow> map_of pins k | Some v \<Rightarrow> reaped ?u cfg desired (k, v))
      \<and> live s' = (live s \<union> \<Union> (moved_in ?u cfg desired ` set ?xs)) - \<Union> (moved_out desired ` set ?xs)"
  proof (rule fold_entries [where m = "map_of pins"])
    show "\<exists>tr' s'. reap_pin env cfg st desired (tr, s) x = (tr', s')
        \<and> map_of tr' = (map_of tr)(fst x := reaped ?u cfg desired x)
        \<and> live s' = (live s \<union> moved_in ?u cfg desired x) - moved_out desired x"
      if "x \<in> set ?xs" "map_of tr (fst x) = map_of pins (fst x)" for x tr s
      by (rule reap_step [OF assms(1-3)]) (use that mem [OF that(1)] in simp)
    show "moved_in ?u cfg desired x \<inter> moved_out desired y = {}"
      if "x \<in> set ?xs" "y \<in> set ?xs" "fst x \<noteq> fst y" for x y
      using names_apartD(2) [OF assms(5) mem [OF that(2)], of "fst x"] that(3)
      by (auto simp: moved_in_def moved_out_def split: prod.splits option.splits if_splits)
  qed (use v(2) in simp_all)
  then obtain tr' s' where r: "foldl (reap_pin env cfg st desired) (pins, s) ?xs = (tr', s')"
      "map_of tr' = (\<lambda>k. case map_of pins k of None \<Rightarrow> map_of pins k | Some v \<Rightarrow> reaped ?u cfg desired (k, v))"
      "live s' = (live s \<union> \<Union> (moved_in ?u cfg desired ` set ?xs)) - \<Union> (moved_out desired ` set ?xs)"
    unfolding v(1) by blast
  have "map_of tr' = (\<lambda>k. case map_of pins k of None \<Rightarrow> None | Some t \<Rightarrow> reaped ?u cfg desired (k, t))"
    unfolding r(2) by (auto simp: fun_eq_iff split: option.split)
  moreover have "gm_wf tr'"
    using gm_wf_steps [of "reap_pin env cfg st desired" "(pins, s)" ?xs] gm_wf_reap assms(4) r(1) by fastforce
  ultimately show ?thesis using r(1,3) unfolding UN_map_of [OF assms(4) v] by blast
qed

lemma confirm_all:
  assumes "accepts st live" and "env_ok env" and "config_ok cfg" and "gm_wf pins"
    and "\<And>k t. map_of pins k = Some t \<Longrightarrow> \<exists>cur. map_of desired k = Some cur \<and> sm_sha cur = pn_sha t
           \<and> pn_names t = pin_names (en_unicode (sv_spawn env)) cfg cur"
    and "owned pins \<subseteq> live s"
  shows "\<exists>tr' s'. foldl (confirm_pin env cfg st desired) (pins, s) (sv_pins env pins) = (tr', s')
    \<and> map_of tr' = (\<lambda>k. map_option (\<lambda>t. t\<lparr>pn_confirmed := True\<rparr>) (map_of pins k)) \<and> live s' = live s \<and> gm_wf tr'"
proof -
  let ?xs = "sv_pins env pins"
  let ?again = "\<lambda>x. if pn_confirmed (snd x) then {} else set (pn_names (snd x))"
  have v: "map_of ?xs = map_of pins" "distinct (map fst ?xs)"
    using visited [OF _ assms(4)] assms(2) by (auto simp: env_ok_def)
  have mem: "map_of pins (fst x) = Some (snd x)" if "x \<in> set ?xs" for x
    using v that by (metis map_of_eq_Some_iff prod.collapse)
  have "\<exists>tr' s'. foldl (confirm_pin env cfg st desired) (pins, s) ?xs = (tr', s')
      \<and> map_of tr' = (\<lambda>k. case map_of ?xs k of None \<Rightarrow> map_of pins k | Some v \<Rightarrow> Some (snd (k, v)\<lparr>pn_confirmed := True\<rparr>))
      \<and> live s' = (live s \<union> \<Union> (?again ` set ?xs)) - \<Union> ((\<lambda>_. {}) ` set ?xs)"
  proof (rule fold_entries [where m = "map_of pins" and g = "\<lambda>x. Some (snd x\<lparr>pn_confirmed := True\<rparr>)"])
    fix x tr s
    assume x: "x \<in> set ?xs" "map_of tr (fst x) = map_of pins (fst x)"
    obtain cur where cur: "map_of desired (fst x) = Some cur" "sm_sha cur = pn_sha (snd x)"
        "pn_names (snd x) = pin_names (en_unicode (sv_spawn env)) cfg cur"
      using assms(5) [OF mem [OF x(1)]] by blast
    show "\<exists>tr' s'. confirm_pin env cfg st desired (tr, s) x = (tr', s')
        \<and> map_of tr' = (map_of tr)(fst x := Some (snd x\<lparr>pn_confirmed := True\<rparr>))
        \<and> live s' = (live s \<union> ?again x) - {}"
      using confirm_step [OF assms(1-3) _ cur(1,2), of tr s] x mem [OF x(1)] cur(3)
      by (cases "pn_confirmed (snd x)") simp_all
  qed (use v(2) in simp_all)
  then obtain tr' s' where r: "foldl (confirm_pin env cfg st desired) (pins, s) ?xs = (tr', s')"
      "map_of tr' = (\<lambda>k. case map_of pins k of None \<Rightarrow> map_of pins k | Some v \<Rightarrow> Some (snd (k, v)\<lparr>pn_confirmed := True\<rparr>))"
      "live s' = (live s \<union> \<Union> (?again ` set ?xs)) - \<Union> ((\<lambda>_. {}) ` set ?xs)"
    unfolding v(1) by blast
  have "map_of tr' = (\<lambda>k. map_option (\<lambda>t. t\<lparr>pn_confirmed := True\<rparr>) (map_of pins k))"
    unfolding r(2) by (auto simp: fun_eq_iff split: option.split)
  moreover have "\<Union> (?again ` set ?xs) \<subseteq> live s"
  proof
    fix n
    assume "n \<in> \<Union> (?again ` set ?xs)"
    then obtain x where x: "x \<in> set ?xs" "n \<in> set (pn_names (snd x))" by (auto split: if_splits)
    from mem [OF x(1)] x(2) assms(6) show "n \<in> live s" by (auto simp: owned_def)
  qed
  then have "live s' = live s" unfolding r(3) by auto
  moreover have "gm_wf tr'"
    using gm_wf_steps [of "confirm_pin env cfg st desired" "(pins, s)" ?xs] gm_wf_confirm assms(4) r(1) by fastforce
  ultimately show ?thesis using r(1) by blast
qed

lemma add_all:
  assumes "accepts st live" and "env_ok env" and "config_ok cfg" and "gm_wf desired"
  shows "\<exists>tr' s'. foldl (add_pin env cfg st) (pins, s) (sv_desired env desired) = (tr', s')
    \<and> map_of tr' = (\<lambda>k. case map_of desired k of None \<Rightarrow> map_of pins k
        | Some cur \<Rightarrow> (case map_of pins k of Some t \<Rightarrow> Some t
            | None \<Rightarrow> Some \<lparr>pn_sha = sm_sha cur, pn_names = pin_names (en_unicode (sv_spawn env)) cfg cur, pn_confirmed = False\<rparr>))
    \<and> live s' = live s \<union> {n. \<exists>k cur. map_of desired k = Some cur \<and> map_of pins k = None
        \<and> n \<in> set (pin_names (en_unicode (sv_spawn env)) cfg cur)}"
proof -
  let ?u = "en_unicode (sv_spawn env)" and ?xs = "sv_desired env desired"
  let ?new = "\<lambda>x. if map_of pins (fst x) = None then set (pin_names ?u cfg (snd x)) else {}"
  let ?g = "\<lambda>x. case map_of pins (fst x) of Some t \<Rightarrow> Some t
      | None \<Rightarrow> Some \<lparr>pn_sha = sm_sha (snd x), pn_names = pin_names ?u cfg (snd x), pn_confirmed = False\<rparr>"
  have v: "map_of ?xs = map_of desired" "distinct (map fst ?xs)"
    using visited [OF _ assms(4)] assms(2) by (auto simp: env_ok_def)
  have "\<exists>tr' s'. foldl (add_pin env cfg st) (pins, s) ?xs = (tr', s')
      \<and> map_of tr' = (\<lambda>k. case map_of ?xs k of None \<Rightarrow> map_of pins k | Some v \<Rightarrow> ?g (k, v))
      \<and> live s' = (live s \<union> \<Union> (?new ` set ?xs)) - \<Union> ((\<lambda>_. {}) ` set ?xs)"
  proof (rule fold_entries [where m = "map_of pins"])
    fix x tr s
    assume x: "x \<in> set ?xs" "map_of tr (fst x) = map_of pins (fst x)"
    show "\<exists>tr' s'. add_pin env cfg st (tr, s) x = (tr', s') \<and> map_of tr' = (map_of tr)(fst x := ?g x)
        \<and> live s' = (live s \<union> ?new x) - {}"
      using add_step [OF assms(1-3), of tr s x] unfolding x(2) by simp
  qed (use v(2) in simp_all)
  then obtain tr' s' where r: "foldl (add_pin env cfg st) (pins, s) ?xs = (tr', s')"
      "map_of tr' = (\<lambda>k. case map_of desired k of None \<Rightarrow> map_of pins k | Some v \<Rightarrow> ?g (k, v))"
      "live s' = (live s \<union> \<Union> (?new ` set ?xs)) - \<Union> ((\<lambda>_. {}) ` set ?xs)"
    unfolding v(1) by blast
  have "\<Union> (?new ` set ?xs) = {n. \<exists>k cur. map_of desired k = Some cur \<and> map_of pins k = None
        \<and> n \<in> set (pin_names ?u cfg cur)}"
    unfolding UN_map_of [OF assms(4) v] by auto
  with r(1,3) r(2) [unfolded fst_conv snd_conv] show ?thesis by simp
qed

lemma owned_alt: "owned pins = {n. \<exists>k ns. map_option pn_names (map_of pins k) = Some ns \<and> n \<in> set ns}"
  unfolding owned_def by auto

lemma desired_pins_wf: "gm_wf (desired_pins is)"
proof -
  have "gm_wf (foldl (\<lambda>m i. if sm_materialized i \<and> sha_prefix_len \<le> length (sm_sha i)
      then gm_put (sm_path i) i m else m) m xs)" if "gm_wf m" for m and xs :: "submodule_info list"
    using that by (induction xs arbitrary: m) simp_all
  from this [OF gm_wf_Nil] show ?thesis by (simp add: desired_pins_def)
qed

text \<open>What the first loop leaves: the kept and the respawned pins, and their names.\<close>

lemma reap_settles:
  assumes "accepts st live" and "env_ok env" and "config_ok cfg" and "gm_wf pins"
    and "names_apart (en_unicode (sv_spawn env)) cfg pins desired" and "owned pins \<subseteq> live s"
  obtains pins1 s1 where "foldl (reap_pin env cfg st desired) (pins, s) (sv_pins env pins) = (pins1, s1)"
    and "map_of pins1 = (\<lambda>k. case map_of pins k of None \<Rightarrow> None
          | Some t \<Rightarrow> reaped (en_unicode (sv_spawn env)) cfg desired (k, t))"
    and "gm_wf pins1" and "live s1 = (live s - owned pins) \<union> owned pins1"
    and "\<And>k t. map_of pins1 k = Some t \<Longrightarrow> \<exists>cur. map_of desired k = Some cur \<and> sm_sha cur = pn_sha t
          \<and> pn_names t = pin_names (en_unicode (sv_spawn env)) cfg cur"
proof -
  let ?u = "en_unicode (sv_spawn env)"
  note apart = names_apartD [OF assms(5)]
  obtain pins1 s1 where 1: "foldl (reap_pin env cfg st desired) (pins, s) (sv_pins env pins) = (pins1, s1)"
      "map_of pins1 = (\<lambda>k. case map_of pins k of None \<Rightarrow> None | Some t \<Rightarrow> reaped ?u cfg desired (k, t))"
      "live s1 = (live s \<union> {n. \<exists>k t. map_of pins k = Some t \<and> n \<in> moved_in ?u cfg desired (k, t)})
               - {n. \<exists>k t. map_of pins k = Some t \<and> n \<in> moved_out desired (k, t)}" "gm_wf pins1"
    using reap_all [OF assms(1-5), of s] by blast
  have kept: "\<exists>t0 cur. map_of pins k = Some t0 \<and> map_of desired k = Some cur \<and> sm_sha cur = pn_sha t
      \<and> pn_names t = pin_names ?u cfg cur" if "map_of pins1 k = Some t" for k t
    using that apart(3) unfolding 1(2) by (auto simp: reaped_def split: option.splits if_splits)
  have live1: "live s1 = (live s - owned pins) \<union> owned pins1"
  proof -
    have "n \<in> live s1" if own: "map_of pins1 k = Some t" "n \<in> set (pn_names t)" for n k t
    proof -
      obtain t0 cur where t0: "map_of pins k = Some t0" "map_of desired k = Some cur" "sm_sha cur = pn_sha t"
          "pn_names t = pin_names ?u cfg cur" using kept [OF own(1)] by blast
      have "n \<in> live s \<union> moved_in ?u cfg desired (k, t0)"
      proof (cases "sm_sha cur = pn_sha t0")
        case True
        then have "n \<in> set (pn_names t0)" using own(2) t0(4) apart(3) [OF t0(1,2)] by simp
        with t0(1) have "n \<in> owned pins" unfolding owned_def by blast
        with assms(6) show ?thesis by blast
      next
        case False
        with own(2) t0 show ?thesis by (simp add: moved_in_def)
      qed
      moreover have "n \<notin> moved_out desired (j, t')" if "map_of pins j = Some t'" for j t'
        using apart(2) [OF that t0(2)] own(2) t0(4) apart(3) [OF that] by (cases "j = k") (auto simp: moved_out_def t0 split: option.splits if_splits)
      ultimately show ?thesis using t0(1) unfolding 1(3) by blast
    qed
    then have "owned pins1 \<subseteq> live s1" by (auto simp: owned_def)
    moreover have "n \<in> owned pins1" if m: "n \<in> live s1" "n \<in> owned pins" for n
    proof -
      obtain k t where k: "map_of pins k = Some t" "n \<in> set (pn_names t)" using m(2) by (auto simp: owned_def)
      have "n \<notin> moved_out desired (k, t)" using m(1) k(1) unfolding 1(3) by blast
      then have "map_of pins1 k = Some t"
        using k unfolding 1(2) by (auto simp: moved_out_def reaped_def split: option.splits if_splits)
      with k(2) show ?thesis by (auto simp: owned_def)
    qed
    moreover have "n \<in> owned pins1" if m: "n \<in> live s1" "n \<notin> live s" for n
    proof -
      obtain k t where k: "map_of pins k = Some t" "n \<in> moved_in ?u cfg desired (k, t)"
        using m unfolding 1(3) by blast
      then obtain t' where "map_of pins1 k = Some t'" "n \<in> set (pn_names t')"
        unfolding 1(2) by (auto simp: moved_in_def reaped_def split: option.splits if_splits)
      then show ?thesis by (auto simp: owned_def)
    qed
    moreover have "live s - owned pins \<subseteq> live s1"
      unfolding 1(3) by (auto simp: owned_def moved_out_def split: option.splits if_splits)
    ultimately show ?thesis by blast
  qed
  show ?thesis by (rule that [OF 1(1,2,4) live1]) (use kept in blast)
qed


text \<open>A checkout whose pin of \<open>lib\<close> has moved, and a store in memory.\<close>

definition demo_checkout_env :: repo_env where
  "demo_checkout_env = demo_env\<lparr>re_ls_files := \<lambda>d ps.
     if d = ''/r'' then Some (''160000 c0ffee0123456789 0'' @ [CHR 0x09] @ ''lib'' @ [CHR 0x0A]) else Some []\<rparr>"

definition demo_pin_store :: "(string, component_config) gomap kv_store" where
  "demo_pin_store = \<lparr>kv_put = \<lambda>n c s. (gm_put n c s, True), kv_delete = \<lambda>n s. (gm_del n s, True)\<rparr>"

definition demo_sub_env :: "unit subwatch_env" where
  "demo_sub_env = \<lparr>sv_spawn = demo_env0, sv_world = (), sv_pins = rev, sv_desired = id, sv_built = id\<rparr>"

definition demo_sub_config :: subwatch_config where
  "demo_sub_config = \<lparr>sw_repo_path = ''/r'', sw_parent_slug = ''r'', sw_languages = [''c''], sw_watch = True, sw_opts = demo_opts\<rparr>"

definition demo_pins :: pins where
  "demo_pins = [(''lib'', \<lparr>pn_sha = ''beef'', pn_names = [''old''], pn_confirmed = True\<rparr>)]"

lemma demo_checkout_inventory:
  "list_submodules demo_checkout_env ''/r'' =
     Some \<lparr>inv_submodules =
        [\<lparr>sm_path = ''lib'', sm_url = ''../lib'', sm_resolved = ''https://h/o/lib'', sm_sha = ''c0ffee0123456789'',
          sm_materialized = True, sm_depth = 1\<rparr>,
         \<lparr>sm_path = ''lib/dep'', sm_url = ''https://k/dep'', sm_resolved = ''https://k/dep'', sm_sha = [],
          sm_materialized = False, sm_depth = 2\<rparr>],
       inv_beyond = []\<rparr>"
  by code_simp


section \<open>Names\<close>

text \<open>
  The identity of a submodule is canonical: what the graph sees of a pin, its project and version,
  depends on the resolved URL and the revision only. The instance names depend on the parent and
  the path too, but a slash and a dash in the path are not told apart: two links of one repository
  at one revision, at \<open>a/b\<close> and at \<open>a-b\<close>, share their instances, and removing one link removes
  the components of the other.
\<close>

lemma submodule_identity_canonical:
  assumes "sm_resolved i = sm_resolved j" and "take sha_prefix_len (sm_sha i) = take sha_prefix_len (sm_sha j)"
  shows "map (\<lambda>e. (se_type e, se_project e, se_version e)) (submodule_entries u cfg i)
    = map (\<lambda>e. (se_type e, se_project e, se_version e)) (submodule_entries u cfg' j)"
  using assms by (simp add: submodule_entries_def Let_def)

lemma system_slug_empty: "system_slug [] = []"
  by code_simp

lemma submodule_links_collide:
  assumes "sm_resolved i = sm_resolved j" and "take sha_prefix_len (sm_sha i) = take sha_prefix_len (sm_sha j)"
    and "submodule_suffix cfg (sm_path i) = submodule_suffix cfg (sm_path j)"
    and "system_slug (url_to_slug u (sm_resolved j)) \<noteq> []"
    and "system_slug (url_to_slug u (sm_resolved j) @ ''-'' @ take sha_prefix_len (sm_sha j)) \<noteq> []"
  shows "pin_names u cfg i = pin_names u cfg j"
proof -
  have "url_to_slug u (sm_resolved j) \<noteq> []" using assms(4) by (auto simp: system_slug_empty)
  with assms show ?thesis
    by (simp add: pin_names_def submodule_entries_def Let_def instance_of_def ast_instance_def ast_project_def
        doc_instance_def cfgfile_instance_def project_slug_def empty_entry_def)
qed

lemma submodule_links_share_suffix: "submodule_suffix cfg ''a/b'' = submodule_suffix cfg ''a-b''"
  by (simp add: submodule_suffix_def)

end
