(* ===== verification/EntityPub.thy ===== *)
theory EntityPub
  imports GraphModel SourceStatus
begin

text \<open>
  Package \<open>internal/entitypub\<close> with \<open>source/ontology\<close>: the payload contract at the publish boundary,
  the stamp of the ontology class, the tracker of distinct entities, and the publisher that buffers
  payloads and delivers them with retries. The buffer, the transport, the clock and the JSON encoder
  are parameters. Durations are nanoseconds; they and the 64-bit counters are integers, as none of
  the operations here comes near their range.
\<close>

section \<open>The ontology class of an entity\<close>

text \<open>The two tables hold IRIs of the framework's vocabulary, here named by their constants.\<close>

definition class_predicate :: string where "class_predicate = ''entity.ontology.class''"

definition source_classes :: "((string \<times> string) \<times> string) list" where
  "source_classes =
     [((''git'', ''commit''), ''cco.Act''), ((''git'', ''author''), ''cco.Person''),
      ((''git'', ''branch''), ''cco.DesignativeInformationContentEntity''),
      ((''web'', ''page''), ''cco.Document''), ((''web'', ''doc''), ''cco.Document''),
      ((''config'', ''gomod''), ''cco.Specification''), ((''config'', ''project''), ''cco.Specification''),
      ((''config'', ''package''), ''cco.Specification''),
      ((''config'', ''dependency''), ''cco.DesignativeInformationContentEntity''),
      ((''config'', ''image''), ''cco.Identifier''),
      ((''media'', ''image''), ''cco.InformationBearingArtifact''),
      ((''media'', ''video''), ''cco.InformationBearingArtifact''),
      ((''media'', ''audio''), ''cco.InformationBearingArtifact''),
      ((''media'', ''keyframe''), ''cco.InformationBearingArtifact''),
      ((''media'', ''blob''), ''cco.InformationBearingArtifact'')]"

definition code_type_classes :: "(string \<times> string) list" where
  "code_type_classes =
     [(''function'', ''cco.Algorithm''), (''method'', ''cco.Algorithm''), (''struct'', ''cco.SoftwareCode''),
      (''interface'', ''cco.SoftwareCode''), (''class'', ''cco.SoftwareCode''), (''enum'', ''cco.SoftwareCode''),
      (''type'', ''cco.SoftwareCode''), (''const'', ''cco.SoftwareCode''), (''var'', ''cco.SoftwareCode''),
      (''component'', ''cco.SoftwareCode''), (''package'', ''cco.SoftwareCode''),
      (''file'', ''cco.InformationBearingArtifact''), (''folder'', ''cco.InformationBearingArtifact''),
      (''repo'', ''cco.Artifact'')]"

definition class_for :: "string \<Rightarrow> string \<Rightarrow> string option" where
  "class_for domain ty =
     (case map_of source_classes (domain, ty) of
        Some iri \<Rightarrow> Some iri
      | None \<Rightarrow> map_of code_type_classes ty)"

definition stamp_class :: "string \<Rightarrow> triple list \<Rightarrow> int \<Rightarrow> triple list" where
  "stamp_class eid ts updated =
     (if list_ex (\<lambda>t. t_predicate t = class_predicate) ts then ts
      else case class_for (fst (id_parts eid)) (snd (id_parts eid)) of
        None \<Rightarrow> ts
      | Some iri \<Rightarrow> ts @ [\<lparr>t_subject = eid, t_predicate = class_predicate, t_object = OString iri, t_datatype = [],
                           t_source = platform_semsource, t_time = updated, t_confidence = 1\<rparr>])"

section \<open>Payloads\<close>

text \<open>\<open>handler.EntityState\<close> and \<open>graph.EntityPayload\<close>; the storage reference is opaque.\<close>

record 'r entity_state =
  es_id :: string
  es_triples :: "triple list"
  es_updated :: int
  es_storage :: "'r option"
  es_profile :: string

record 'r entity_payload =
  ep_id :: string
  ep_triples :: "triple list"
  ep_updated :: int
  ep_storage :: "'r option"
  ep_profile :: string

datatype payload_error =
  StateNil | BadKey key_error | PartCount nat | EmptyPart nat | BadSegment | EmptySubject nat
  | ForeignSubject nat string | NoEntityId | NoProfile | BadProfile string

text \<open>What the framework decides: the segment contract of an identifier, and the profiles.\<close>

record graph_rules =
  gr_entity_id_ok :: "string \<Rightarrow> bool"
  gr_profile_ok :: "string \<Rightarrow> bool"

definition payload_validate :: "graph_rules \<Rightarrow> 'r entity_payload \<Rightarrow> payload_error option" where
  "payload_validate rules p =
     (if ep_id p = [] then Some NoEntityId
      else if ep_profile p = [] then Some NoProfile
      else if \<not> gr_profile_ok rules (ep_profile p) then Some (BadProfile (ep_profile p)) else None)"

fun empty_part :: "nat \<Rightarrow> string list \<Rightarrow> payload_error option" where
  "empty_part i [] = None"
| "empty_part i (p # ps) = (if p = [] then Some (EmptyPart i) else empty_part (Suc i) ps)"

fun subject_error :: "string \<Rightarrow> nat \<Rightarrow> triple list \<Rightarrow> payload_error option" where
  "subject_error eid i [] = None"
| "subject_error eid i (t # ts) =
     (if t_subject t = [] then Some (EmptySubject i)
      else if t_subject t \<noteq> eid then Some (ForeignSubject i (t_subject t))
      else subject_error eid (Suc i) ts)"

text \<open>The checks of an identifier that both validators make.\<close>

definition id_error :: "string \<Rightarrow> payload_error option" where
  "id_error eid =
     (case validate_nats_kv_key eid of
        Some e \<Rightarrow> Some (BadKey e)
      | None \<Rightarrow>
          (let parts = str_split eid (CHR ''.'')
           in if length parts \<noteq> 6 then Some (PartCount (length parts)) else empty_part 0 parts))"

definition validate_payload :: "graph_rules \<Rightarrow> 'r entity_payload \<Rightarrow> payload_error option" where
  "validate_payload rules p =
     (case id_error (ep_id p) of
        Some e \<Rightarrow> Some e
      | None \<Rightarrow>
          if \<not> gr_entity_id_ok rules (ep_id p) then Some BadSegment
          else case subject_error (ep_id p) 0 (ep_triples p) of
            Some e \<Rightarrow> Some e
          | None \<Rightarrow> payload_validate rules p)"

definition payload_from_state :: "graph_rules \<Rightarrow> 'r entity_state option \<Rightarrow> payload_error + 'r entity_payload" where
  "payload_from_state rules st =
     (case st of
        None \<Rightarrow> Inl StateNil
      | Some s \<Rightarrow>
          (let p = \<lparr>ep_id = es_id s, ep_triples = stamp_class (es_id s) (es_triples s) (es_updated s),
                    ep_updated = es_updated s, ep_storage = es_storage s, ep_profile = es_profile s\<rparr>
           in case validate_payload rules p of Some e \<Rightarrow> Inl e | None \<Rightarrow> Inr p))"

text \<open>\<open>handler/entity_state.go\<close>: the same checks on a state, and on a batch.\<close>

definition validate_self_subject_state :: "'r entity_state option \<Rightarrow> payload_error option" where
  "validate_self_subject_state st =
     (case st of
        None \<Rightarrow> Some StateNil
      | Some s \<Rightarrow> if es_id s = [] then Some NoEntityId else subject_error (es_id s) 0 (es_triples s))"

definition validate_entity_state_id :: "'r entity_state option \<Rightarrow> payload_error option" where
  "validate_entity_state_id st = (case st of None \<Rightarrow> Some StateNil | Some s \<Rightarrow> id_error (es_id s))"

fun validate_states :: "('s \<Rightarrow> payload_error option) \<Rightarrow> nat \<Rightarrow> 's list \<Rightarrow> (nat \<times> payload_error) option" where
  "validate_states check i [] = None"
| "validate_states check i (s # ss) =
     (case check s of Some e \<Rightarrow> Some (i, e) | None \<Rightarrow> validate_states check (Suc i) ss)"

section \<open>Distinct entities\<close>

record distinct_tracker =
  dt_seen :: "string list"
  dt_types :: "(string, int) gomap"

definition new_distinct_tracker :: distinct_tracker where
  "new_distinct_tracker = \<lparr>dt_seen = [], dt_types = []\<rparr>"

definition gm_count :: "(string, int) gomap \<Rightarrow> string \<Rightarrow> int" where
  "gm_count m k = (case map_of m k of None \<Rightarrow> 0 | Some n \<Rightarrow> n)"

definition observe :: "string \<Rightarrow> distinct_tracker \<Rightarrow> distinct_tracker \<times> bool" where
  "observe eid t =
     (if eid \<in> set (dt_seen t) then (t, False)
      else
        (let (domain, ty) = id_parts eid; k = domain @ ''.'' @ ty;
             t' = t\<lparr>dt_seen := dt_seen t @ [eid]\<rparr>
         in (if domain \<noteq> [] then t'\<lparr>dt_types := gm_put k (gm_count (dt_types t) k + 1) (dt_types t)\<rparr> else t', True)))"

definition distinct_count :: "distinct_tracker \<Rightarrow> int" where
  "distinct_count t = int (length (dt_seen t))"

definition type_counts :: "distinct_tracker \<Rightarrow> (string, int) gomap" where
  "type_counts t = dt_types t"

section \<open>Publish errors\<close>

text \<open>An error is the list of what \<open>errors.Is\<close> and \<open>errors.As\<close> find in its chain.\<close>

datatype error_kind =
  Canceled | DeadlineExceeded | CircuitOpen | NotConnected | NatsTimeout | NoResponders
  | ApiError nat string | OtherError string

type_synonym publish_error = "error_kind list"

datatype publish_class = PublishRetryable | PublishTerminal | PublishCanceled

definition stream_capacity_descriptions :: "string list" where
  "stream_capacity_descriptions =
     [''maximum bytes exceeded'', ''maximum messages exceeded'', ''maximum messages per subject exceeded'']"

definition api_error :: "publish_error \<Rightarrow> (nat \<times> string) option" where
  "api_error e =
     (case filter (\<lambda>k. case k of ApiError _ _ \<Rightarrow> True | _ \<Rightarrow> False) e of
        ApiError c d # _ \<Rightarrow> Some (c, d) | _ \<Rightarrow> None)"

definition classify_publish_error :: "error_kind option \<Rightarrow> publish_error \<Rightarrow> publish_class" where
  "classify_publish_error ctx e =
     (if (case ctx of None \<Rightarrow> False | Some c \<Rightarrow> Canceled \<in> set e \<or> c \<in> set e) then PublishCanceled
      else if list_ex (\<lambda>k. k \<in> {CircuitOpen, NotConnected, NatsTimeout, DeadlineExceeded, NoResponders}) e
      then PublishRetryable
      else case api_error e of
        Some (c, d) \<Rightarrow>
          if c = 10077 \<and> d \<in> set stream_capacity_descriptions then PublishRetryable else PublishTerminal
      | None \<Rightarrow> PublishTerminal)"

section \<open>Delivering one payload\<close>

definition circuit_open_backoff :: int where "circuit_open_backoff = 500 * 1000000"
definition max_circuit_open_backoff :: int where "max_circuit_open_backoff = 10 * 1000000000"
definition delivery_budget :: int where "delivery_budget = 90 * 1000000000"
definition max_publish_attempts :: nat where "max_publish_attempts = 20"
definition default_batch_size :: nat where "default_batch_size = 50"

text \<open>The transport and the clock: publishing data under a message identifier, the time, the state of
  the context, and a wait that ends with the timer (true) or with the context.\<close>

record 'w transport =
  tr_publish :: "string \<Rightarrow> string \<Rightarrow> 'w \<Rightarrow> 'w \<times> publish_error option"
  tr_now :: "'w \<Rightarrow> int"
  tr_ctx :: "'w \<Rightarrow> error_kind option"
  tr_wait :: "int \<Rightarrow> 'w \<Rightarrow> 'w \<times> bool"

record publisher =
  pb_retry_backoff :: int
  pb_max_backoff :: int
  pb_published :: int
  pb_dropped :: int
  pb_failed :: int
  pb_retries :: int
  pb_backpressure :: bool
  pb_failing :: bool

definition new_publisher :: "int \<Rightarrow> int \<Rightarrow> publisher" where
  "new_publisher initial maximum =
     \<lparr>pb_retry_backoff = (if initial > 0 then initial else circuit_open_backoff),
      pb_max_backoff = (if maximum > 0 then maximum else max_circuit_open_backoff),
      pb_published = 0, pb_dropped = 0, pb_failed = 0, pb_retries = 0,
      pb_backpressure = False, pb_failing = False\<rparr>"

definition enter_backpressure :: "publisher \<Rightarrow> publisher" where
  "enter_backpressure p = (if pb_backpressure p then p else p\<lparr>pb_backpressure := True\<rparr>)"

definition clear_backpressure :: "publisher \<Rightarrow> publisher" where
  "clear_backpressure p = (if \<not> pb_backpressure p then p else p\<lparr>pb_backpressure := False\<rparr>)"

datatype delivery =
  Delivered | MarshalFailed | DeliveryCanceled publish_error | TerminalAfter nat publish_error
  | ContextDone | BudgetExhausted nat publish_error

definition delivered_ok :: "publisher \<Rightarrow> publisher" where
  "delivered_ok p =
     (let q = clear_backpressure (p\<lparr>pb_published := pb_published p + 1\<rparr>)
      in q\<lparr>pb_failing := fst (condition_clear (pb_failing q))\<rparr>)"

text \<open>One turn of the loop of \<open>publishOne\<close>: it is over, or goes on with the error of the attempt.\<close>

definition publish_turn ::
  "'w transport \<Rightarrow> string \<Rightarrow> string \<Rightarrow> int \<Rightarrow> nat \<Rightarrow> int \<Rightarrow> publisher \<Rightarrow> 'w
   \<Rightarrow> ('w \<times> publisher \<times> delivery) + ('w \<times> publisher \<times> publish_error)" where
  "publish_turn tr data msg_id deadline attempts backoff p w =
     (case tr_publish tr data msg_id w of
        (w1, None) \<Rightarrow> Inl (w1, delivered_ok p, Delivered)
      | (w1, Some e) \<Rightarrow>
          (case classify_publish_error (tr_ctx tr w1) e of
             PublishCanceled \<Rightarrow> Inl (w1, p, DeliveryCanceled e)
           | PublishTerminal \<Rightarrow> Inl (w1, p, TerminalAfter attempts e)
           | PublishRetryable \<Rightarrow>
               if attempts = max_publish_attempts \<or> tr_now tr w1 > deadline
               then Inl (w1, p, BudgetExhausted attempts e)
               else
                 (let p1 = enter_backpressure (p\<lparr>pb_retries := pb_retries p + 1\<rparr>)
                  in case tr_wait tr backoff w1 of
                       (w2, False) \<Rightarrow> Inl (w2, p1, ContextDone)
                     | (w2, True) \<Rightarrow> Inr (w2, p1, e))))"

definition next_backoff :: "int \<Rightarrow> int \<Rightarrow> int" where
  "next_backoff max_backoff backoff =
     (let b = 2 * backoff in if b > max_backoff then max_backoff else b)"

function publish_loop ::
  "'w transport \<Rightarrow> string \<Rightarrow> string \<Rightarrow> int \<Rightarrow> int \<Rightarrow> nat \<Rightarrow> int \<Rightarrow> publish_error \<Rightarrow> publisher \<Rightarrow> 'w
   \<Rightarrow> 'w \<times> publisher \<times> delivery" where
  "publish_loop tr data msg_id max_backoff deadline attempts backoff err p w =
     (if attempts > max_publish_attempts then (w, p, BudgetExhausted attempts err)
      else case publish_turn tr data msg_id deadline attempts backoff p w of
        Inl r \<Rightarrow> r
      | Inr (w', p', e) \<Rightarrow>
          publish_loop tr data msg_id max_backoff deadline (Suc attempts) (next_backoff max_backoff backoff) e p' w')"
  by pat_completeness auto
termination
  by (relation "measure (\<lambda>(_, _, _, _, _, attempts, _). Suc max_publish_attempts - attempts)") auto

declare publish_loop.simps [simp del]

record 'p codec =
  co_id :: "'p \<Rightarrow> string"
  co_encode :: "'p \<Rightarrow> string option"
  co_own :: "'p \<Rightarrow> 'p option"

definition message_id :: "'p codec \<Rightarrow> 'p \<Rightarrow> string \<Rightarrow> string" where
  "message_id co payload data = co_id co payload @ '':'' @ hex_hash 6 data"

definition publish_one :: "'w transport \<Rightarrow> 'p codec \<Rightarrow> 'p \<Rightarrow> publisher \<Rightarrow> 'w \<Rightarrow> 'w \<times> publisher \<times> delivery" where
  "publish_one tr co payload p w =
     (case co_encode co payload of
        None \<Rightarrow> (w, p, MarshalFailed)
      | Some data \<Rightarrow>
          publish_loop tr data (message_id co payload data) (pb_max_backoff p)
            (tr_now tr w + delivery_budget) 1 (pb_retry_backoff p) [] p w)"

section \<open>The publisher\<close>

text \<open>The bounded buffer of the framework.\<close>

record ('b, 'p) buffer_ops =
  bf_write :: "'p \<Rightarrow> 'b \<Rightarrow> 'b \<times> bool"
  bf_read_batch :: "nat \<Rightarrow> 'b \<Rightarrow> 'b \<times> 'p list"
  bf_close :: "'b \<Rightarrow> 'b"

definition send :: "('b, 'p) buffer_ops \<Rightarrow> 'p codec \<Rightarrow> 'p \<Rightarrow> publisher \<times> 'b \<Rightarrow> (publisher \<times> 'b) \<times> bool" where
  "send bf co payload st =
     (case st of (p, b) \<Rightarrow>
        (case co_own co payload of
           None \<Rightarrow> ((p\<lparr>pb_dropped := pb_dropped p + 1\<rparr>, b), False)
         | Some owned \<Rightarrow>
             (case bf_write bf owned b of
                (b', False) \<Rightarrow> ((p\<lparr>pb_dropped := pb_dropped p + 1\<rparr>, b'), False)
              | (b', True) \<Rightarrow> ((p, b'), True))))"

text \<open>The body of the loops of \<open>drainBatch\<close> and \<open>flush\<close>.\<close>

definition settle_one :: "'w transport \<Rightarrow> 'p codec \<Rightarrow> 'p \<Rightarrow> publisher \<Rightarrow> 'w \<Rightarrow> 'w \<times> publisher \<times> delivery" where
  "settle_one tr co payload p w =
     (case publish_one tr co payload p w of
        (w', p', Delivered) \<Rightarrow> (w', p', Delivered)
      | (w', p', d) \<Rightarrow>
          (let q = p'\<lparr>pb_failed := pb_failed p' + 1\<rparr>
           in (w', q\<lparr>pb_failing := fst (condition_enter (pb_failing q))\<rparr>, d)))"

definition lost :: "publisher \<Rightarrow> int" where
  "lost p = pb_dropped p + pb_failed p"

datatype stop_result = StopClean | StopLost int | StopIncomplete

text \<open>\<open>Stop\<close> after the buffer is closed: \<open>joined\<close> is true when the drain loop ended in time.\<close>

definition stop_outcome :: "bool \<Rightarrow> bool \<Rightarrow> publisher \<Rightarrow> stop_result" where
  "stop_outcome started joined p =
     (if \<not> started then StopClean
      else if \<not> joined then StopIncomplete
      else if lost p > 0 then StopLost (lost p) else StopClean)"

section \<open>Producers, the drain loop and the shutdown, interleaved\<close>

datatype drain_phase = Draining | Flushing | Exited

text \<open>\<open>sy_sent\<close>, \<open>sy_accepted\<close> and \<open>sy_settled\<close> are history: how many payloads were offered, the
  accepted ones in order, and the payloads the drain loop is done with, with their outcome.\<close>

record ('b, 'p, 'w) pub_system =
  sy_pub :: publisher
  sy_buf :: 'b
  sy_world :: 'w
  sy_inflight :: "'p list"
  sy_phase :: drain_phase
  sy_stop :: bool
  sy_sent :: nat
  sy_accepted :: "'p list"
  sy_settled :: "('p \<times> bool) list"

definition start_system :: "publisher \<Rightarrow> 'b \<Rightarrow> 'w \<Rightarrow> ('b, 'p, 'w) pub_system" where
  "start_system p b w =
     \<lparr>sy_pub = p, sy_buf = b, sy_world = w, sy_inflight = [], sy_phase = Draining, sy_stop = False,
      sy_sent = 0, sy_accepted = [], sy_settled = []\<rparr>"

definition do_send :: "('b, 'p) buffer_ops \<Rightarrow> 'p codec \<Rightarrow> 'p \<Rightarrow> ('b, 'p, 'w) pub_system \<Rightarrow> ('b, 'p, 'w) pub_system" where
  "do_send bf co payload s =
     (case send bf co payload (sy_pub s, sy_buf s) of
        ((p, b), ok) \<Rightarrow>
          s\<lparr>sy_pub := p, sy_buf := b, sy_sent := Suc (sy_sent s),
            sy_accepted := (if ok then sy_accepted s @ [the (co_own co payload)] else sy_accepted s)\<rparr>)"

definition do_read :: "('b, 'p) buffer_ops \<Rightarrow> ('b, 'p, 'w) pub_system \<Rightarrow> ('b, 'p, 'w) pub_system" where
  "do_read bf s =
     (case bf_read_batch bf default_batch_size (sy_buf s) of
        (b, batch) \<Rightarrow>
          s\<lparr>sy_buf := b, sy_inflight := batch,
            sy_phase := (if sy_phase s = Flushing \<and> batch = [] then Exited else sy_phase s)\<rparr>)"

definition do_settle :: "'w transport \<Rightarrow> 'p codec \<Rightarrow> 'p \<Rightarrow> 'p list \<Rightarrow> ('b, 'p, 'w) pub_system \<Rightarrow> ('b, 'p, 'w) pub_system" where
  "do_settle tr co payload rest s =
     (case settle_one tr co payload (sy_pub s) (sy_world s) of
        (w, p, d) \<Rightarrow>
          s\<lparr>sy_pub := p, sy_world := w, sy_inflight := rest, sy_settled := sy_settled s @ [(payload, d = Delivered)]\<rparr>)"

text \<open>
  The steps: a producer sends; the loop, between two batches, reads the next one or turns to the
  flush once it is told to stop; it settles the head of its batch; \<open>Stop\<close> closes the buffer and
  then gives the signal, which a cancelled context gives too, without closing; the world moves.
\<close>

inductive pub_step ::
  "('b, 'p) buffer_ops \<Rightarrow> 'p codec \<Rightarrow> 'w transport \<Rightarrow> ('b, 'p, 'w) pub_system \<Rightarrow> ('b, 'p, 'w) pub_system \<Rightarrow> bool"
  for bf co tr where
  send: "pub_step bf co tr s (do_send bf co payload s)"
| read: "sy_inflight s = [] \<Longrightarrow> sy_phase s \<noteq> Exited \<Longrightarrow> pub_step bf co tr s (do_read bf s)"
| settle: "sy_inflight s = payload # rest \<Longrightarrow> pub_step bf co tr s (do_settle tr co payload rest s)"
| close: "pub_step bf co tr s (s\<lparr>sy_buf := bf_close bf (sy_buf s)\<rparr>)"
| signal: "pub_step bf co tr s (s\<lparr>sy_stop := True\<rparr>)"
| flush: "sy_inflight s = [] \<Longrightarrow> sy_stop s \<Longrightarrow> sy_phase s = Draining \<Longrightarrow> pub_step bf co tr s (s\<lparr>sy_phase := Flushing\<rparr>)"
| world: "pub_step bf co tr s (s\<lparr>sy_world := w\<rparr>)"

text \<open>The documented contract of the buffer: a queue that keeps the order, hands out at most the batch
  size and an empty batch only when it is empty, and accepts nothing once it is closed.\<close>

definition fifo :: "('b, 'p) buffer_ops \<Rightarrow> ('b \<Rightarrow> 'p list) \<Rightarrow> ('b \<Rightarrow> bool) \<Rightarrow> bool" where
  "fifo bf items sealed \<longleftrightarrow>
     (\<forall>p b b' ok. bf_write bf p b = (b', ok) \<longrightarrow>
        items b' = items b @ (if ok then [p] else []) \<and> sealed b' = sealed b \<and> (ok \<longrightarrow> \<not> sealed b))
     \<and> (\<forall>n b b' xs. bf_read_batch bf n b = (b', xs) \<longrightarrow>
        items b = xs @ items b' \<and> sealed b' = sealed b \<and> length xs \<le> n \<and> (0 < n \<longrightarrow> xs = [] \<longrightarrow> items b = []))
     \<and> (\<forall>b. items (bf_close bf b) = items b \<and> sealed (bf_close bf b))"

lemma fifo_write: "fifo bf items sealed \<Longrightarrow> bf_write bf p b = (b', ok) \<Longrightarrow>
    items b' = items b @ (if ok then [p] else []) \<and> sealed b' = sealed b \<and> (ok \<longrightarrow> \<not> sealed b)"
  unfolding fifo_def by blast

lemma fifo_read: "fifo bf items sealed \<Longrightarrow> bf_read_batch bf n b = (b', xs) \<Longrightarrow>
    items b = xs @ items b' \<and> sealed b' = sealed b \<and> length xs \<le> n \<and> (0 < n \<longrightarrow> xs = [] \<longrightarrow> items b = [])"
  unfolding fifo_def by blast

lemma fifo_close: "fifo bf items sealed \<Longrightarrow> items (bf_close bf b) = items b \<and> sealed (bf_close bf b)"
  unfolding fifo_def by blast

text \<open>What one delivery does to the counters.\<close>

definition counted :: "publisher \<Rightarrow> publisher \<Rightarrow> int \<Rightarrow> bool" where
  "counted p p' n \<longleftrightarrow> pb_published p' = pb_published p + n \<and> pb_dropped p' = pb_dropped p
     \<and> pb_failed p' = pb_failed p \<and> pb_retry_backoff p' = pb_retry_backoff p \<and> pb_max_backoff p' = pb_max_backoff p"

lemma counted_delivered: "counted p (delivered_ok p) 1"
  by (simp add: counted_def delivered_ok_def clear_backpressure_def Let_def)

lemma publish_turn_counted:
  "publish_turn tr data m deadline n backoff p w = r \<Longrightarrow>
   (case r of Inl (_, p', d) \<Rightarrow> counted p p' (if d = Delivered then 1 else 0) | Inr (_, p', _) \<Rightarrow> counted p p' 0)"
  using counted_delivered [of p]
  by (auto simp: publish_turn_def counted_def enter_backpressure_def Let_def
      split: prod.splits option.splits publish_class.splits bool.splits if_splits)

lemma publish_loop_counted:
  "publish_loop tr data m maxb deadline n backoff err p w = (w', p', d) \<Longrightarrow>
   counted p p' (if d = Delivered then 1 else 0)"
proof (induction tr data m maxb deadline n backoff err p w arbitrary: w' p' d rule: publish_loop.induct)
  case (1 tr data m maxb deadline n backoff err p w)
  show ?case
  proof (cases "n > max_publish_attempts")
    case True
    with 1(2) show ?thesis by (auto simp: publish_loop.simps [of tr data m maxb deadline n] counted_def)
  next
    case False
    note turn = publish_turn_counted [of tr data m deadline n backoff p w, OF refl]
    show ?thesis
    proof (cases "publish_turn tr data m deadline n backoff p w")
      case (Inl r)
      with 1(2) False turn show ?thesis by (simp add: publish_loop.simps [of tr data m maxb deadline n])
    next
      case (Inr x)
      obtain w1 p1 e where x: "x = (w1, p1, e)" by (cases x)
      from 1(2) False Inr x have "publish_loop tr data m maxb deadline (Suc n) (next_backoff maxb backoff) e p1 w1 = (w', p', d)"
        by (simp add: publish_loop.simps [of tr data m maxb deadline n])
      from 1(1) [OF False Inr [unfolded x] refl refl this] turn Inr x show ?thesis by (simp add: counted_def)
    qed
  qed
qed

lemma settle_one_counts:
  assumes "settle_one tr co payload p w = (w', p', d)"
  shows "pb_published p' = pb_published p + (if d = Delivered then 1 else 0)"
    and "pb_failed p' = pb_failed p + (if d = Delivered then 0 else 1)" and "pb_dropped p' = pb_dropped p"
proof -
  obtain w1 p1 d1 where one: "publish_one tr co payload p w = (w1, p1, d1)"
    by (cases "publish_one tr co payload p w")
  have "counted p p1 (if d1 = Delivered then 1 else 0)"
  proof (cases "co_encode co payload")
    case None
    with one show ?thesis by (auto simp: publish_one_def counted_def)
  next
    case (Some data)
    with one show ?thesis by (intro publish_loop_counted) (simp add: publish_one_def)
  qed
  with one assms show "pb_published p' = pb_published p + (if d = Delivered then 1 else 0)"
    and "pb_failed p' = pb_failed p + (if d = Delivered then 0 else 1)" and "pb_dropped p' = pb_dropped p"
    by (auto simp: settle_one_def counted_def Let_def split: delivery.splits)
qed

definition accounts :: "('b \<Rightarrow> 'p list) \<Rightarrow> ('b, 'p, 'w) pub_system \<Rightarrow> bool" where
  "accounts items s \<longleftrightarrow>
     sy_accepted s = map fst (sy_settled s) @ sy_inflight s @ items (sy_buf s)
     \<and> pb_published (sy_pub s) = int (length (filter snd (sy_settled s)))
     \<and> pb_failed (sy_pub s) = int (length (filter (\<lambda>x. \<not> snd x) (sy_settled s)))
     \<and> int (sy_sent s) = int (length (sy_accepted s)) + pb_dropped (sy_pub s)
     \<and> 0 \<le> pb_dropped (sy_pub s) \<and> length (sy_inflight s) \<le> default_batch_size \<and> (sy_phase s = Exited \<longrightarrow> sy_inflight s = [])"

lemma accounts_step:
  assumes "pub_step bf co tr s s'" and "fifo bf items sealed" and "accounts items s"
  shows "accounts items s'"
  using assms(1,3)
proof cases
  case (send payload)
  obtain p b ok where r: "send bf co payload (sy_pub s, sy_buf s) = ((p, b), ok)"
    by (cases "send bf co payload (sy_pub s, sy_buf s)") auto
  show ?thesis
  proof (cases "co_own co payload")
    case None
    with assms(3) send r show ?thesis by (auto simp: accounts_def do_send_def send_def)
  next
    case (Some q)
    obtain b1 ok1 where w: "bf_write bf q (sy_buf s) = (b1, ok1)" by (cases "bf_write bf q (sy_buf s)")
    from fifo_write [OF assms(2) w] assms(3) send r w Some show ?thesis
      by (cases ok1) (auto simp: accounts_def do_send_def send_def)
  qed
next
  case read
  obtain b xs where r: "bf_read_batch bf default_batch_size (sy_buf s) = (b, xs)"
    by (cases "bf_read_batch bf default_batch_size (sy_buf s)")
  from fifo_read [OF assms(2) r] assms(3) read r show ?thesis
    by (auto simp: accounts_def do_read_def)
next
  case (settle payload rest)
  obtain w p d where r: "settle_one tr co payload (sy_pub s) (sy_world s) = (w, p, d)"
    by (cases "settle_one tr co payload (sy_pub s) (sy_world s)")
  from settle_one_counts [OF r] assms(3) settle r show ?thesis
    by (auto simp: accounts_def do_settle_def)
next
  case close
  with fifo_close [OF assms(2)] assms(3) show ?thesis by (simp add: accounts_def)
qed (use assms(3) in \<open>simp_all add: accounts_def\<close>)

lemma accounts_reachable:
  assumes "(pub_step bf co tr)\<^sup>*\<^sup>* s s'" and "fifo bf items sealed" and "accounts items s"
  shows "accounts items s'"
  using assms(1) by (induction rule: rtranclp_induct) (use assms(2,3) accounts_step in blast)+

text \<open>C22: In every state the producers, the drain loop and the shutdown can reach together, every payload
  offered is accounted for exactly once: it was dropped at admission, or it is published, failed,
  in the batch being delivered, or in the buffer; the drain loop is done with the accepted payloads
  in the order of their acceptance; and \<open>Lost\<close> counts exactly those that will never arrive.\<close>

theorem publisher_accounts:
  assumes "(pub_step bf co tr)\<^sup>*\<^sup>* (start_system (new_publisher i m) b w) s" and "fifo bf items sealed" and "items b = []"
  shows "sy_accepted s = map fst (sy_settled s) @ sy_inflight s @ items (sy_buf s)
    \<and> pb_published (sy_pub s) = int (length (filter snd (sy_settled s)))
    \<and> int (sy_sent s) = pb_published (sy_pub s) + lost (sy_pub s) + int (length (sy_inflight s) + length (items (sy_buf s)))
    \<and> length (sy_inflight s) \<le> default_batch_size"
proof -
  have "accounts items (start_system (new_publisher i m) b w)"
    using assms(3) by (simp add: accounts_def start_system_def new_publisher_def)
  from accounts_reachable [OF assms(1,2) this] have a: "accounts items s" .
  have "int (length (sy_settled s)) = int (length (filter snd (sy_settled s)) + length (filter (\<lambda>x. \<not> snd x) (sy_settled s)))"
    by (simp add: sum_length_filter_compl)
  with a show ?thesis by (auto simp: accounts_def lost_def)
qed

text \<open>Once the buffer is closed nothing is accepted any more, and the flush reads until it is empty.\<close>

definition sealed_inv :: "('b \<Rightarrow> 'p list) \<Rightarrow> ('b \<Rightarrow> bool) \<Rightarrow> ('b, 'p, 'w) pub_system \<Rightarrow> bool" where
  "sealed_inv items sealed s \<longleftrightarrow> sealed (sy_buf s) \<and> (sy_phase s = Exited \<longrightarrow> items (sy_buf s) = [] \<and> sy_inflight s = [])"

lemma sealed_step:
  assumes "pub_step bf co tr s s'" and "fifo bf items sealed" and "sealed_inv items sealed s"
  shows "sealed_inv items sealed s' \<and> sy_accepted s' = sy_accepted s"
  using assms(1,3)
proof cases
  case (send payload)
  show ?thesis
  proof (cases "co_own co payload")
    case None
    with assms(3) send show ?thesis by (simp add: sealed_inv_def do_send_def send_def)
  next
    case (Some q)
    obtain b1 ok1 where w: "bf_write bf q (sy_buf s) = (b1, ok1)" by (cases "bf_write bf q (sy_buf s)")
    from fifo_write [OF assms(2) w] assms(3) send w Some show ?thesis
      by (cases ok1) (auto simp: sealed_inv_def do_send_def send_def)
  qed
next
  case read
  obtain b xs where r: "bf_read_batch bf default_batch_size (sy_buf s) = (b, xs)"
    by (cases "bf_read_batch bf default_batch_size (sy_buf s)")
  from fifo_read [OF assms(2) r] assms(3) read r show ?thesis
    by (auto simp: sealed_inv_def do_read_def default_batch_size_def)
next
  case (settle payload rest)
  with assms(3) show ?thesis by (auto simp: sealed_inv_def do_settle_def split: prod.splits)
next
  case close
  with fifo_close [OF assms(2)] assms(3) show ?thesis by (simp add: sealed_inv_def)
qed (use assms(3) in \<open>simp_all add: sealed_inv_def\<close>)

text \<open>C23: A shutdown settles everything: if \<open>Stop\<close> has closed the buffer before the drain loop left, then
  when the loop leaves every payload ever accepted has been delivered or counted as failed, none is
  left behind, and \<open>Stop\<close> reports an error exactly if some payload was lost.\<close>

theorem stop_settles_everything:
  assumes "(pub_step bf co tr)\<^sup>*\<^sup>* (start_system (new_publisher i m) b w) s" and "fifo bf items sealed" and "items b = []"
    and "sealed (sy_buf s)" and "sy_phase s \<noteq> Exited"
    and "(pub_step bf co tr)\<^sup>*\<^sup>* s s'" and "sy_phase s' = Exited"
  shows "sy_accepted s' = sy_accepted s \<and> map fst (sy_settled s') = sy_accepted s
    \<and> (stop_outcome True True (sy_pub s') = StopClean \<longleftrightarrow> list_all snd (sy_settled s') \<and> sy_sent s' = length (sy_accepted s))"
proof -
  have "accounts items (start_system (new_publisher i m) b w)"
    using assms(3) by (simp add: accounts_def start_system_def new_publisher_def)
  note acc = accounts_reachable [OF assms(6,2) accounts_reachable [OF assms(1,2) this]]
  have "sealed_inv items sealed s' \<and> sy_accepted s' = sy_accepted s"
    using assms(6)
  proof (induction rule: rtranclp_induct)
    case base
    with assms(4,5) show ?case by (simp add: sealed_inv_def)
  next
    case (step y z)
    from sealed_step [OF step(2) assms(2)] step(3) show ?case by simp
  qed
  with acc assms(7) have e: "sy_accepted s' = sy_accepted s" "map fst (sy_settled s') = sy_accepted s"
    by (auto simp: accounts_def sealed_inv_def)
  have "filter (\<lambda>x. \<not> snd x) (sy_settled s') = [] \<longleftrightarrow> list_all snd (sy_settled s')"
    by (auto simp: filter_empty_conv list_all_iff)
  moreover have "pb_dropped (sy_pub s') = 0 \<longleftrightarrow> sy_sent s' = length (sy_accepted s)"
    using acc e(1) by (auto simp: accounts_def)
  ultimately show ?thesis using acc e by (auto simp: stop_outcome_def lost_def accounts_def)
qed

section \<open>The bounds of one delivery\<close>

text \<open>A transport that records what it is asked to do: each attempt with the time it ended at, each wait.\<close>

datatype pub_event = Attempt string string int | Wait int

definition recorded :: "'w transport \<Rightarrow> ('w \<times> pub_event list) transport" where
  "recorded tr =
     \<lparr>tr_publish = \<lambda>data m (w, evs). (case tr_publish tr data m w of
          (w', e) \<Rightarrow> ((w', evs @ [Attempt data m (tr_now tr w')]), e)),
      tr_now = \<lambda>(w, evs). tr_now tr w,
      tr_ctx = \<lambda>(w, evs). tr_ctx tr w,
      tr_wait = \<lambda>d (w, evs). (case tr_wait tr d w of (w', ok) \<Rightarrow> ((w', evs @ [Wait d]), ok))\<rparr>"

fun attempt_times :: "pub_event list \<Rightarrow> int list" where
  "attempt_times [] = []"
| "attempt_times (Attempt _ _ t # es) = t # attempt_times es"
| "attempt_times (Wait _ # es) = attempt_times es"

fun waits :: "pub_event list \<Rightarrow> int list" where
  "waits [] = []"
| "waits (Attempt _ _ _ # es) = waits es"
| "waits (Wait d # es) = d # waits es"

definition same_message :: "string \<Rightarrow> string \<Rightarrow> pub_event \<Rightarrow> bool" where
  "same_message data m e = (case e of Attempt d i _ \<Rightarrow> d = data \<and> i = m | Wait _ \<Rightarrow> True)"

fun backoffs :: "int \<Rightarrow> int \<Rightarrow> nat \<Rightarrow> int list" where
  "backoffs maxb b 0 = []"
| "backoffs maxb b (Suc n) = b # backoffs maxb (next_backoff maxb b) n"

text \<open>A turn makes one attempt; if the loop goes on, it was in time and has waited once.\<close>

lemma turn_recorded:
  assumes "publish_turn (recorded tr) data m deadline n b p (w, evs) = r"
  shows "\<exists>t. case r of
      Inl (wl, p', d) \<Rightarrow> (snd wl = evs @ [Attempt data m t] \<and> pb_retries p' = pb_retries p)
        \<or> (snd wl = evs @ [Attempt data m t, Wait b] \<and> pb_retries p' = pb_retries p + 1)
    | Inr (wl, p', e) \<Rightarrow> snd wl = evs @ [Attempt data m t, Wait b] \<and> t \<le> deadline \<and> pb_retries p' = pb_retries p + 1"
proof -
  obtain w1 e where pub: "tr_publish tr data m w = (w1, e)" by (cases "tr_publish tr data m w")
  obtain w2 ok where wt: "tr_wait tr b w1 = (w2, ok)" by (cases "tr_wait tr b w1")
  show ?thesis
    by (rule exI [of _ "tr_now tr w1"])
      (use assms pub wt in \<open>auto simp: publish_turn_def recorded_def delivered_ok_def clear_backpressure_def
         enter_backpressure_def Let_def split: option.splits publish_class.splits bool.splits if_splits\<close>)
qed

definition bounded_log :: "string \<Rightarrow> string \<Rightarrow> int \<Rightarrow> int \<Rightarrow> nat \<Rightarrow> int \<Rightarrow> pub_event list \<Rightarrow> bool" where
  "bounded_log data m maxb deadline n b evs \<longleftrightarrow>
     list_all (same_message data m) evs \<and> length (attempt_times evs) \<le> Suc max_publish_attempts - n
     \<and> waits evs = backoffs maxb b (length (waits evs))
     \<and> list_all (\<lambda>t. t \<le> deadline) (butlast (attempt_times evs))"

lemma loop_recorded:
  assumes "publish_loop (recorded tr) data m maxb deadline n b err p (w, evs) = ((w', evs'), p', d)"
  shows "\<exists>ext. evs' = evs @ ext \<and> bounded_log data m maxb deadline n b ext
    \<and> pb_retries p' = pb_retries p + int (length (waits ext))"
  using assms
proof (induction "Suc max_publish_attempts - n" arbitrary: n b err p w evs)
  case 0
  then show ?case by (simp add: publish_loop.simps [of "recorded tr" data m maxb deadline n] bounded_log_def)
next
  case (Suc k)
  then have n: "\<not> n > max_publish_attempts" by simp
  obtain t where t: "case publish_turn (recorded tr) data m deadline n b p (w, evs) of
      Inl (wl, p', d) \<Rightarrow> (snd wl = evs @ [Attempt data m t] \<and> pb_retries p' = pb_retries p)
        \<or> (snd wl = evs @ [Attempt data m t, Wait b] \<and> pb_retries p' = pb_retries p + 1)
    | Inr (wl, p', e) \<Rightarrow> snd wl = evs @ [Attempt data m t, Wait b] \<and> t \<le> deadline \<and> pb_retries p' = pb_retries p + 1"
    by (rule exE [OF turn_recorded [OF refl]])
  show ?case
  proof (cases "publish_turn (recorded tr) data m deadline n b p (w, evs)")
    case (Inl r)
    with Suc.prems n have "r = ((w', evs'), p', d)"
      by (simp add: publish_loop.simps [of "recorded tr" data m maxb deadline n])
    with t Inl n have "(evs' = evs @ [Attempt data m t] \<and> pb_retries p' = pb_retries p)
        \<or> (evs' = evs @ [Attempt data m t, Wait b] \<and> pb_retries p' = pb_retries p + 1)" by simp
    then show ?thesis
    proof (elim disjE)
      assume "evs' = evs @ [Attempt data m t] \<and> pb_retries p' = pb_retries p"
      with n show ?thesis by (intro exI [of _ "[Attempt data m t]"]) (simp add: bounded_log_def same_message_def)
    next
      assume "evs' = evs @ [Attempt data m t, Wait b] \<and> pb_retries p' = pb_retries p + 1"
      with n show ?thesis by (intro exI [of _ "[Attempt data m t, Wait b]"]) (simp add: bounded_log_def same_message_def)
    qed
  next
    case (Inr x)
    obtain w1 p1 e where x: "x = ((w1, evs @ [Attempt data m t, Wait b]), p1, e)" "t \<le> deadline"
        "pb_retries p1 = pb_retries p + 1"
      using t Inr by (cases x) auto
    have k: "k = Suc max_publish_attempts - Suc n" using Suc.hyps(2) n by simp
    from Suc.prems n Inr x have rest: "publish_loop (recorded tr) data m maxb deadline (Suc n) (next_backoff maxb b) e p1
        (w1, evs @ [Attempt data m t, Wait b]) = ((w', evs'), p', d)"
      by (simp add: publish_loop.simps [of "recorded tr" data m maxb deadline n])
    obtain ext where ext: "evs' = evs @ [Attempt data m t, Wait b] @ ext"
        "bounded_log data m maxb deadline (Suc n) (next_backoff maxb b) ext"
        "pb_retries p' = pb_retries p1 + int (length (waits ext))"
      using Suc.hyps(1) [OF k rest] by auto
    from ext(2) have times: "length (attempt_times ext) \<le> max_publish_attempts - n"
      and same: "list_all (same_message data m) ext" "waits ext = backoffs maxb (next_backoff maxb b) (length (waits ext))"
        "list_all (\<lambda>t. t \<le> deadline) (butlast (attempt_times ext))"
      by (auto simp: bounded_log_def)
    have "bounded_log data m maxb deadline n b ([Attempt data m t, Wait b] @ ext)"
      using times same n x(2) by (auto simp: bounded_log_def same_message_def)
    with ext(1,3) x(3) show ?thesis by (intro exI [of _ "[Attempt data m t, Wait b] @ ext"]) simp
  qed
qed

lemma backoffs_bounded:
  assumes "0 < b" and "b \<le> maxb"
  shows "list_all (\<lambda>d. 0 < d \<and> d \<le> maxb) (backoffs maxb b n) \<and> sorted (backoffs maxb b n) \<and> list_all (\<lambda>d. b \<le> d) (backoffs maxb b n)"
  using assms
proof (induction n arbitrary: b)
  case (Suc n)
  have "0 < next_backoff maxb b" "next_backoff maxb b \<le> maxb" "b \<le> next_backoff maxb b"
    using Suc.prems by (auto simp: next_backoff_def Let_def)
  from Suc.IH [OF this(1,2)] this Suc.prems show ?case by (auto simp: list_all_iff)
qed simp

text \<open>C24: A delivery is bounded and safe to repeat: it makes at most twenty attempts, each with the same
  data under the same message identifier, which is the identifier of the entity and the hash of the
  data; it waits between them with backoffs that never shrink nor pass the maximum; only the last
  attempt can end after the budget of 90 seconds; and it counts each wait as one retry.\<close>

theorem delivery_bounded:
  assumes "publish_one (recorded tr) co payload (new_publisher i mx) (w, []) = ((w', evs), p', d)"
    and "co_encode co payload = Some data" and "0 < i" and "i \<le> mx"
  shows "length (attempt_times evs) \<le> 20 \<and> list_all (same_message data (co_id co payload @ '':'' @ hex_hash 6 data)) evs
    \<and> sorted (waits evs) \<and> list_all (\<lambda>b. i \<le> b \<and> b \<le> mx) (waits evs)
    \<and> list_all (\<lambda>t. t \<le> tr_now tr w + 90 * 1000000000) (butlast (attempt_times evs))
    \<and> pb_retries p' = int (length (waits evs))"
proof -
  let ?p = "new_publisher i mx"
  have bo: "pb_retry_backoff ?p = i" "pb_max_backoff ?p = mx" "pb_retries ?p = 0"
    using assms(3,4) by (simp_all add: new_publisher_def)
  have "publish_loop (recorded tr) data (message_id co payload data) mx (tr_now tr w + delivery_budget) 1 i [] ?p (w, [])
      = ((w', evs), p', d)"
    using assms(1,2) bo by (simp add: publish_one_def recorded_def)
  from loop_recorded [OF this] bo(3)
  have l: "bounded_log data (message_id co payload data) mx (tr_now tr w + delivery_budget) 1 i evs"
    and r: "pb_retries p' = int (length (waits evs))" by auto
  from l have "waits evs = backoffs mx i (length (waits evs))" by (simp add: bounded_log_def)
  with backoffs_bounded [OF assms(3,4), of "length (waits evs)"]
  have "sorted (waits evs)" "list_all (\<lambda>b. i \<le> b \<and> b \<le> mx) (waits evs)" by (auto simp: list_all_iff)
  with l r show ?thesis by (simp add: bounded_log_def max_publish_attempts_def delivery_budget_def message_id_def)
qed

section \<open>What passes the publish boundary\<close>

lemma empty_part_iff: "empty_part i ps = None \<longleftrightarrow> list_all (\<lambda>p. p \<noteq> []) ps"
  by (induction ps arbitrary: i) auto

lemma subject_error_iff: "eid \<noteq> [] \<Longrightarrow> subject_error eid i ts = None \<longleftrightarrow> list_all (\<lambda>t. t_subject t = eid) ts"
  by (induction ts arbitrary: i) auto

lemma id_error_iff:
  "id_error eid = None \<longleftrightarrow> validate_nats_kv_key eid = None \<and> length (str_split eid (CHR ''.'')) = 6
     \<and> list_all (\<lambda>p. p \<noteq> []) (str_split eid (CHR ''.''))"
  by (auto simp: id_error_def Let_def empty_part_iff split: option.splits)

lemma id_error_nonempty: "id_error eid = None \<Longrightarrow> eid \<noteq> []"
  by (auto simp: id_error_iff validate_nats_kv_key_def)

lemma stamp_class_ext:
  "\<exists>ext. stamp_class eid ts u = ts @ ext \<and> length ext \<le> 1 \<and> list_all (\<lambda>t. t_subject t = eid \<and> t_predicate t = class_predicate) ext"
  by (auto simp: stamp_class_def split: option.split)

lemma stamp_class_idem: "stamp_class eid (stamp_class eid ts u) v = stamp_class eid ts u"
proof (cases "list_ex (\<lambda>t. t_predicate t = class_predicate) ts")
  case False
  then show ?thesis by (cases "class_for (fst (id_parts eid)) (snd (id_parts eid))") (simp_all add: stamp_class_def)
qed (simp add: stamp_class_def)

lemma subject_stamp:
  assumes "eid \<noteq> []"
  shows "subject_error eid 0 (stamp_class eid ts u) = None \<longleftrightarrow> list_all (\<lambda>t. t_subject t = eid) ts"
proof -
  obtain ext where "stamp_class eid ts u = ts @ ext" "list_all (\<lambda>t. t_subject t = eid \<and> t_predicate t = class_predicate) ext"
    using stamp_class_ext by blast
  then show ?thesis using assms by (auto simp: subject_error_iff list_all_iff)
qed

lemma payload_from_state_iff:
  "payload_from_state rules (Some s) = Inr p \<longleftrightarrow>
      id_error (es_id s) = None \<and> gr_entity_id_ok rules (es_id s) \<and> list_all (\<lambda>t. t_subject t = es_id s) (es_triples s)
      \<and> es_profile s \<noteq> [] \<and> gr_profile_ok rules (es_profile s)
      \<and> p = \<lparr>ep_id = es_id s, ep_triples = stamp_class (es_id s) (es_triples s) (es_updated s),
             ep_updated = es_updated s, ep_storage = es_storage s, ep_profile = es_profile s\<rparr>"
proof (cases "id_error (es_id s)")
  case None
  then have "es_id s \<noteq> []" by (rule id_error_nonempty)
  with None subject_stamp [OF this, of "es_triples s" "es_updated s"] show ?thesis
    by (cases "subject_error (es_id s) 0 (stamp_class (es_id s) (es_triples s) (es_updated s))")
      (auto simp: payload_from_state_def validate_payload_def payload_validate_def Let_def)
qed (simp add: payload_from_state_def validate_payload_def Let_def)

text \<open>C25: The publish boundary: a state becomes a payload exactly if its identifier is a legal key of six
  non-empty parts that the graph accepts, all its triples are about itself and its profile is known;
  the payload then holds the triples of the state, followed at most by one class, which a second
  stamp would not add again. An identifier built from valid segments is never the reason of a
  refusal.\<close>

theorem publish_boundary:
  assumes "list_all valid_segment [org, platform, system, domain, ty, inst]"
    and "es_id s' = build_id M org platform system domain ty inst"
  shows "(payload_from_state rules (Some s) = Inr p \<longleftrightarrow>
      id_error (es_id s) = None \<and> gr_entity_id_ok rules (es_id s) \<and> list_all (\<lambda>t. t_subject t = es_id s) (es_triples s)
      \<and> es_profile s \<noteq> [] \<and> gr_profile_ok rules (es_profile s)
      \<and> p = \<lparr>ep_id = es_id s, ep_triples = stamp_class (es_id s) (es_triples s) (es_updated s),
             ep_updated = es_updated s, ep_storage = es_storage s, ep_profile = es_profile s\<rparr>)
    \<and> (\<exists>ext. stamp_class (es_id s) (es_triples s) (es_updated s) = es_triples s @ ext \<and> length ext \<le> 1)
    \<and> stamp_class (es_id s) (stamp_class (es_id s) (es_triples s) (es_updated s)) v = stamp_class (es_id s) (es_triples s) (es_updated s)
    \<and> id_error (es_id s') = None"
proof -
  obtain i where i: "es_id s' = id_join [org, platform, system, domain, ty, i]" "valid_segment i"
    using build_id_segments [of M org platform system domain ty inst] assms by auto
  then have v: "list_all valid_segment [org, platform, system, domain, ty, i]" using assms(1) by simp
  from id_join_split [OF _ v] id_join_key [OF _ v] v have "id_error (es_id s') = None"
    unfolding id_error_iff i(1) by (auto simp: valid_segment_def)
  then show ?thesis using payload_from_state_iff stamp_class_idem stamp_class_ext by blast
qed

section \<open>Counting distinct entities\<close>

definition observe_all :: "string list \<Rightarrow> distinct_tracker" where
  "observe_all eids = foldl (\<lambda>t e. fst (observe e t)) new_distinct_tracker eids"

definition type_key :: "string \<Rightarrow> string" where
  "type_key eid = fst (id_parts eid) @ ''.'' @ snd (id_parts eid)"

text \<open>The tracker counts distinct entities: after any sequence of observations the count is the number
  of different identifiers, the count of a type is the number of different identifiers of that type,
  and so neither order nor republication changes them.\<close>

theorem tracker_counts_distinct:
  "distinct_count (observe_all eids) = int (card (set eids))
   \<and> gm_count (type_counts (observe_all eids)) k = int (card {e \<in> set eids. fst (id_parts e) \<noteq> [] \<and> type_key e = k})"
proof -
  have "distinct (dt_seen t') \<and> set (dt_seen t') = set eids
      \<and> gm_count (dt_types t') k = int (card {e \<in> set eids. fst (id_parts e) \<noteq> [] \<and> type_key e = k})"
    if "t' = observe_all eids" for t'
    using that
  proof (induction eids arbitrary: t' rule: rev_induct)
    case Nil
    then show ?case by (simp add: observe_all_def new_distinct_tracker_def gm_count_def)
  next
    case (snoc e es)
    let ?t = "observe_all es"
    note IH = snoc.IH [OF refl]
    have t': "t' = fst (observe e ?t)" using snoc.prems by (simp add: observe_all_def)
    show ?case
    proof (cases "e \<in> set es")
      case True
      then have "t' = ?t" using IH t' by (simp add: observe_def)
      moreover have "set (es @ [e]) = set es" using True by auto
      ultimately show ?thesis using IH by simp
    next
      case False
      let ?S = "\<lambda>A. {e \<in> A. fst (id_parts e) \<noteq> [] \<and> type_key e = k}"
      have new: "e \<notin> set (dt_seen ?t)" using IH False by simp
      define A where "A = ?S (set es)"
      have "?S (set (es @ [e])) = (if fst (id_parts e) \<noteq> [] \<and> type_key e = k then insert e A else A)"
        by (auto simp: A_def)
      moreover have "e \<notin> A" "finite A" using False by (auto simp: A_def)
      ultimately have sum: "card (?S (set (es @ [e]))) = card A + (if fst (id_parts e) \<noteq> [] \<and> type_key e = k then 1 else 0)"
        by simp
      have "dt_seen t' = dt_seen ?t @ [e]"
        using new by (simp add: t' observe_def Let_def case_prod_unfold)
      moreover have "gm_count (dt_types t') k = gm_count (dt_types ?t) k + (if fst (id_parts e) \<noteq> [] \<and> type_key e = k then 1 else 0)"
        using new by (auto simp: t' observe_def Let_def case_prod_unfold type_key_def gm_count_def gm_get_put)
      ultimately show ?thesis using IH False sum by (auto simp: A_def)
    qed
  qed
  from this [OF refl] show ?thesis by (simp add: distinct_count_def type_counts_def distinct_card [symmetric])
qed

section \<open>Concrete runs\<close>

definition demo_codec :: "string codec" where
  "demo_codec = \<lparr>co_id = (\<lambda>p. p), co_encode = Some, co_own = Some\<rparr>"

text \<open>A buffer of two places.\<close>

definition demo_buffer :: "(string list \<times> bool, string) buffer_ops" where
  "demo_buffer =
     \<lparr>bf_write = \<lambda>p (q, z). if z \<or> 2 \<le> length q then ((q, z), False) else ((q @ [p], z), True),
      bf_read_batch = \<lambda>n (q, z). ((drop n q, z), take n q),
      bf_close = \<lambda>(q, z). (q, True)\<rparr>"

lemma demo_fifo: "fifo demo_buffer fst snd"
  by (auto simp: fifo_def demo_buffer_def split: if_splits)

text \<open>A transport that times out twice.\<close>

definition demo_transport :: "nat transport" where
  "demo_transport =
     \<lparr>tr_publish = \<lambda>d m w. (Suc w, if w < 2 then Some [NatsTimeout] else None),
      tr_now = \<lambda>w. int w, tr_ctx = \<lambda>w. None, tr_wait = \<lambda>d w. (w, True)\<rparr>"

lemmas publish_unfold = publish_loop.simps publish_turn_def next_backoff_def classify_publish_error_def
  enter_backpressure_def clear_backpressure_def delivered_ok_def condition_clear_def max_publish_attempts_def
  delivery_budget_def Let_def

lemma pub_steps:
  "(pub_step bf co tr)\<^sup>*\<^sup>* s t \<Longrightarrow> pub_step bf co tr t u \<Longrightarrow> (pub_step bf co tr)\<^sup>*\<^sup>* s u"
  by (rule rtranclp.rtrancl_into_rtrancl)

definition demo_sent :: "(string list \<times> bool, string, nat) pub_system" where
  "demo_sent = do_send demo_buffer demo_codec ''b'' (do_send demo_buffer demo_codec ''a''
     (start_system (new_publisher 1 5) ([], False) 0))"

lemma demo_sent_reached:
  "(pub_step demo_buffer demo_codec demo_transport)\<^sup>*\<^sup>* (start_system (new_publisher 1 5) ([], False) 0) demo_sent"
  unfolding demo_sent_def by (rule pub_steps [OF pub_steps [OF rtranclp.rtrancl_refl pub_step.send] pub_step.send])

theorem publisher_accounts_witness:
  "sy_accepted demo_sent = [''a'', ''b''] \<and> int (sy_sent demo_sent)
     = pb_published (sy_pub demo_sent) + lost (sy_pub demo_sent) + int (length (sy_inflight demo_sent) + length (fst (sy_buf demo_sent)))"
proof -
  have "fst (([], False) :: string list \<times> bool) = []" by simp
  from publisher_accounts [OF demo_sent_reached demo_fifo this]
  show ?thesis by (simp add: demo_sent_def do_send_def send_def demo_codec_def demo_buffer_def start_system_def)
qed

definition demo_closed :: "(string list \<times> bool, string, nat) pub_system" where
  "demo_closed = demo_sent\<lparr>sy_buf := bf_close demo_buffer (sy_buf demo_sent)\<rparr>"

definition demo_flushing :: "(string list \<times> bool, string, nat) pub_system" where
  "demo_flushing = do_read demo_buffer (demo_closed\<lparr>sy_stop := True, sy_phase := Flushing\<rparr>)"

definition demo_exited :: "(string list \<times> bool, string, nat) pub_system" where
  "demo_exited = do_read demo_buffer (do_settle demo_transport demo_codec ''b'' []
     (do_settle demo_transport demo_codec ''a'' [''b''] demo_flushing))"

lemma demo_closed_state:
  "sy_inflight demo_closed = []" "sy_phase demo_closed = Draining" "sy_buf demo_closed = ([''a'', ''b''], True)"
  "sy_accepted demo_closed = [''a'', ''b'']"
  by (simp_all add: demo_closed_def demo_sent_def do_send_def send_def demo_codec_def demo_buffer_def start_system_def)

lemma demo_flushing_state:
  "sy_inflight demo_flushing = [''a'', ''b'']" "sy_phase demo_flushing = Flushing" "sy_buf demo_flushing = ([], True)"
  by (simp_all add: demo_flushing_def do_read_def demo_closed_state demo_buffer_def default_batch_size_def)

lemma demo_exited_state: "sy_phase demo_exited = Exited"
  by (simp add: demo_exited_def do_read_def do_settle_def demo_flushing_state demo_buffer_def default_batch_size_def
      split: prod.split)

lemma demo_shutdown: "(pub_step demo_buffer demo_codec demo_transport)\<^sup>*\<^sup>* demo_closed demo_exited"
proof -
  let ?R = "pub_step demo_buffer demo_codec demo_transport"
  let ?s1 = "demo_closed\<lparr>sy_stop := True\<rparr>"
  let ?s2 = "?s1\<lparr>sy_phase := Flushing\<rparr>"
  let ?s3 = "do_settle demo_transport demo_codec ''a'' [''b''] demo_flushing"
  let ?s4 = "do_settle demo_transport demo_codec ''b'' [] ?s3"
  have 1: "?R demo_closed ?s1" by (rule pub_step.signal)
  have 2: "?R ?s1 ?s2" by (rule pub_step.flush) (simp_all add: demo_closed_state)
  have "?R ?s2 (do_read demo_buffer ?s2)" by (rule pub_step.read) (simp_all add: demo_closed_state)
  then have 3: "?R ?s2 demo_flushing" by (simp add: demo_flushing_def)
  have 4: "?R demo_flushing ?s3" by (rule pub_step.settle) (simp add: demo_flushing_state)
  have 5: "?R ?s3 ?s4" by (rule pub_step.settle) (simp add: do_settle_def split: prod.split)
  have "?R ?s4 (do_read demo_buffer ?s4)"
    by (rule pub_step.read) (simp_all add: do_settle_def demo_flushing_state split: prod.split)
  then have 6: "?R ?s4 demo_exited" by (simp add: demo_exited_def)
  show ?thesis
    by (rule pub_steps [OF pub_steps [OF pub_steps [OF pub_steps [OF pub_steps [OF r_into_rtranclp [of ?R, OF 1] 2] 3] 4] 5] 6])
qed

theorem stop_settles_everything_witness:
  "map fst (sy_settled demo_exited) = [''a'', ''b'']"
proof -
  have r: "(pub_step demo_buffer demo_codec demo_transport)\<^sup>*\<^sup>* (start_system (new_publisher 1 5) ([], False) 0) demo_closed"
    unfolding demo_closed_def by (rule pub_steps [OF demo_sent_reached pub_step.close])
  have "fst (([], False) :: string list \<times> bool) = []" "snd (sy_buf demo_closed)" "sy_phase demo_closed \<noteq> Exited"
    by (simp_all add: demo_closed_state)
  from stop_settles_everything [OF r demo_fifo this demo_shutdown demo_exited_state] show ?thesis
    by (simp add: demo_closed_state)
qed

theorem delivery_bounded_witness:
  "case publish_one (recorded demo_transport) demo_codec ''a'' (new_publisher 1 5) (0, []) of
     ((w, evs), p, d) \<Rightarrow> d = Delivered \<and> waits evs = [1, 2] \<and> pb_retries p = 2"
proof -
  let ?r = "publish_one (recorded demo_transport) demo_codec ''a'' (new_publisher 1 5) (0, [])"
  obtain w evs p d where r: "?r = ((w, evs), p, d)" by (cases ?r) auto
  have data: "co_encode demo_codec ''a'' = Some ''a''" by (simp add: demo_codec_def)
  have "snd (snd ?r) = Delivered \<and> waits (snd (fst ?r)) = [1, 2]"
    by (simp add: publish_one_def demo_codec_def new_publisher_def recorded_def demo_transport_def publish_unfold)
  with delivery_bounded [OF r data] r show ?thesis by simp
qed

theorem publish_boundary_witness:
  "id_error (build_id 255 ''acme'' ''semsource'' ''gcs'' ''golang'' ''function'' ''main-go-Run'') = None"
proof -
  have "list_all valid_segment [''acme'', ''semsource'', ''gcs'', ''golang'', ''function'', ''main-go-Run'']"
    by (simp add: valid_segment_def alnum_char_def allowed_char_def is_allowed_instance_rune_def
        is_ascii_alnum_def ascii_lower_def ascii_upper_def ascii_digit_def)
  moreover define s' where "s' = \<lparr>es_id = build_id 255 ''acme'' ''semsource'' ''gcs'' ''golang'' ''function'' ''main-go-Run'',
      es_triples = [], es_updated = 0, es_storage = None :: unit option, es_profile = []\<rparr>"
  then have "es_id s' = build_id 255 ''acme'' ''semsource'' ''gcs'' ''golang'' ''function'' ''main-go-Run''" by simp
  ultimately have "id_error (es_id s') = None" using publish_boundary by blast
  then show ?thesis by (simp add: s'_def)
qed

text \<open>A producer that is late finds its payload in a buffer nobody reads, if the context ended the drain
  loop and \<open>Stop\<close> has not closed the buffer: nothing counts it as lost, and \<open>Stop\<close> reports success.\<close>

lemma late_payload_lost_silently:
  "\<exists>s. (pub_step demo_buffer demo_codec demo_transport)\<^sup>*\<^sup>* (start_system (new_publisher 1 5) ([], False) 0) s
     \<and> sy_phase s = Exited \<and> sy_accepted s = [''a''] \<and> sy_settled s = [] \<and> stop_outcome True True (sy_pub s) = StopClean"
proof -
  let ?R = "pub_step demo_buffer demo_codec demo_transport"
  define s0 :: "(string list \<times> bool, string, nat) pub_system" where "s0 = start_system (new_publisher 1 5) ([], False) 0"
  let ?s1 = "s0\<lparr>sy_stop := True\<rparr>"
  let ?s2 = "?s1\<lparr>sy_phase := Flushing\<rparr>"
  let ?s3 = "do_read demo_buffer ?s2"
  let ?s4 = "do_send demo_buffer demo_codec ''a'' ?s3"
  have 1: "?R s0 ?s1" by (rule pub_step.signal)
  have 2: "?R ?s1 ?s2" by (rule pub_step.flush) (simp_all add: s0_def start_system_def)
  have 3: "?R ?s2 ?s3" by (rule pub_step.read) (simp_all add: s0_def start_system_def)
  have 4: "?R ?s3 ?s4" by (rule pub_step.send)
  have "?R\<^sup>*\<^sup>* s0 ?s4"
    by (rule pub_steps [OF pub_steps [OF pub_steps [OF r_into_rtranclp [of ?R, OF 1] 2] 3] 4])
  moreover have "sy_phase ?s4 = Exited \<and> sy_accepted ?s4 = [''a''] \<and> sy_settled ?s4 = [] \<and> stop_outcome True True (sy_pub ?s4) = StopClean"
    by (simp add: s0_def start_system_def do_read_def do_send_def send_def demo_buffer_def demo_codec_def
        stop_outcome_def lost_def new_publisher_def)
  ultimately show ?thesis unfolding s0_def by blast
qed

end
