(* ===== verification/DocEntities.thy ===== *)
theory DocEntities
  imports DocSplitter EntityPub Lifecycle GoPath
begin

text \<open>
  The document source (\<open>handler/doc/handler.go\<close>, \<open>handler/doc/entities.go\<close>): a document
  becomes one parent entity and one entity per passage, the bodies of the passages go to a body
  store under the hash of their content, and a walk over the configured roots does this for every
  document file it may see. With \<open>handler/excludes.go\<close>, \<open>internal/gitboundary\<close> and
  \<open>source/vocabulary/docextensions.go\<close>, and the end-to-end behaviour of a shrunken document under
  the lifecycle pass.
\<close>

section \<open>What the document pipeline takes from outside\<close>

text \<open>The Unicode tables, the orbit relation of \<open>SimpleFold\<close> above ASCII, the bound and the prefix
  rule of framework identifiers, and its constants for an entity reference and for the content
  profile.\<close>

record 'e doc_env =
  de_unicode :: unicode_tables
  de_fold :: "nat \<Rightarrow> nat \<Rightarrow> bool"
  de_limit :: int
  de_prefix :: "string \<Rightarrow> 'e option"
  de_ref :: string
  de_content :: string

record storage_ref =
  sr_instance :: string
  sr_key :: string
  sr_mime :: string
  sr_size :: nat

type_synonym 'w store_put = "string \<Rightarrow> string \<Rightarrow> 'w \<Rightarrow> 'w \<times> bool"

record 'w doc_handler =
  dh_store :: "'w store_put option"
  dh_instance :: string
  dh_project :: string

section \<open>Predicates\<close>

definition doc_type :: string where "doc_type = ''source.doc.type''"
definition doc_section_path :: string where "doc_section_path = ''source.doc.section''"
definition doc_mime_type :: string where "doc_mime_type = ''source.doc.mime-type''"
definition doc_file_hash :: string where "doc_file_hash = ''source.doc.file-hash''"
definition doc_body_store :: string where "doc_body_store = ''source.doc.body-store''"
definition doc_body_key :: string where "doc_body_key = ''source.doc.body-key''"
definition entity_role_navigational :: string where "entity_role_navigational = ''entity.role.navigational''"

lemmas doc_predicate_defs =
  doc_type_def doc_section_path_def doc_mime_type_def doc_file_hash_def doc_body_store_def
  doc_body_key_def entity_role_navigational_def

section \<open>Formats, types and titles\<close>

definition doc_extensions :: "string list" where
  "doc_extensions = [''.adoc'', ''.md'', ''.mdx'', ''.txt'']"

definition is_doc_extension :: "unicode_tables \<Rightarrow> string \<Rightarrow> bool" where
  "is_doc_extension u ext \<longleftrightarrow> to_lower u ext \<in> set doc_extensions"

definition format_for_ext :: "unicode_tables \<Rightarrow> string \<Rightarrow> doc_format" where
  "format_for_ext u ext = (if to_lower u ext = ''.adoc'' then FormatASCIIDoc else FormatMarkdown)"

definition mime_for_ext :: "unicode_tables \<Rightarrow> string \<Rightarrow> string" where
  "mime_for_ext u ext =
     (let e = to_lower u ext
      in if e = ''.adoc'' then ''text/asciidoc''
         else if e = ''.md'' \<or> e = ''.mdx'' then ''text/markdown''
         else if e = ''.txt'' then ''text/plain''
         else ''application/octet-stream'')"

definition content_hash :: "string \<Rightarrow> string" where
  "content_hash b = hex_encode (sum256 b)"

text \<open>A \<open>bufio.Scanner\<close> gives up on a line of 64 kilobytes or more, and drops one carriage return.\<close>

definition max_scan_token :: int where "max_scan_token = 65536"

definition drop_cr :: "string \<Rightarrow> string" where
  "drop_cr line = (if line \<noteq> [] \<and> last line = CHR 0x0D then butlast line else line)"

fun title_scan :: "string \<Rightarrow> string list \<Rightarrow> string option" where
  "title_scan marker [] = None"
| "title_scan marker (raw # raws) =
     (if int (length raw) \<ge> max_scan_token then None
      else if has_prefix (drop_cr raw) marker then Some (trim_space (trim_prefix (drop_cr raw) marker))
      else title_scan marker raws)"

definition extract_title :: "string \<Rightarrow> string \<Rightarrow> doc_format \<Rightarrow> string" where
  "extract_title content filename f =
     (let marker = (if f = FormatASCIIDoc then ''= '' else ''# '')
      in case title_scan marker (str_split content (CHR 0x0A)) of
           Some t \<Rightarrow> t
         | None \<Rightarrow> trim_suffix filename (path_ext filename))"

section \<open>The parent\<close>

record doc_entity =
  dn_id :: string
  dn_title :: string
  dn_path :: string
  dn_mime :: string
  dn_hash :: string
  dn_indexed :: int
  dn_chunks :: nat

definition document_entity_id :: "int \<Rightarrow> authority \<Rightarrow> string \<Rightarrow> string \<Rightarrow> string" where
  "document_entity_id M auth system path = authority_build M auth system ''web'' ''doc'' (sanitize_instance path)"

definition new_entity ::
  "int \<Rightarrow> authority \<Rightarrow> string \<Rightarrow> string \<Rightarrow> string \<Rightarrow> string \<Rightarrow> string \<Rightarrow> int \<Rightarrow> doc_entity" where
  "new_entity M auth title path mime hash system now =
     \<lparr>dn_id = document_entity_id M auth system path, dn_title = title, dn_path = path, dn_mime = mime,
      dn_hash = hash, dn_indexed = now, dn_chunks = 0\<rparr>"

definition fact :: "string \<Rightarrow> int \<Rightarrow> string \<Rightarrow> obj \<Rightarrow> triple" where
  "fact eid now p ob =
     \<lparr>t_subject = eid, t_predicate = p, t_object = ob, t_datatype = [], t_source = platform_semsource,
      t_time = now, t_confidence = 1\<rparr>"

definition entity_triples :: "doc_entity \<Rightarrow> triple list" where
  "entity_triples e =
     (let f = fact (dn_id e) (dn_indexed e)
      in [f doc_type (OString ''document''), f doc_file_path (OString (dn_path e)),
          f doc_mime_type (OString (dn_mime e)), f doc_file_hash (OString (dn_hash e)),
          f dc_title (OString (dn_title e)), f doc_chunk_count (OInt (int (dn_chunks e))),
          f entity_role_navigational (OString ''document'')])"

definition parent_state :: "string \<Rightarrow> doc_entity \<Rightarrow> storage_ref entity_state" where
  "parent_state profile e =
     \<lparr>es_id = dn_id e, es_triples = entity_triples e, es_updated = dn_indexed e, es_storage = None,
      es_profile = profile\<rparr>"

section \<open>Passages\<close>

record passage_entity =
  pa_id :: string
  pa_parent :: string
  pa_title :: string
  pa_section :: string
  pa_ordinal :: nat
  pa_path :: string
  pa_mime :: string
  pa_body :: string
  pa_indexed :: int
  pa_ref :: "storage_ref option"
  pa_instance :: string
  pa_key :: string

definition pad_zero :: "nat \<Rightarrow> nat \<Rightarrow> string" where
  "pad_zero w n = replicate (w - length (show_nat n)) (CHR ''0'') @ show_nat n"

definition chunk_instance :: "string \<Rightarrow> nat \<Rightarrow> string" where
  "chunk_instance path n = sanitize_instance path @ ''-'' @ pad_zero 4 n"

text \<open>\<open>strings.EqualFold\<close>: rune by rune equal, equal up to the case of ASCII letters, or in one orbit.\<close>

definition rune_equal_fold :: "(nat \<Rightarrow> nat \<Rightarrow> bool) \<Rightarrow> nat \<Rightarrow> nat \<Rightarrow> bool" where
  "rune_equal_fold orbit r r' \<longleftrightarrow>
     r = r' \<or> (let a = min r r'; b = max r r' in if b < 128 then ascii_upper a \<and> b = a + 32 else orbit a b)"

definition equal_fold :: "(nat \<Rightarrow> nat \<Rightarrow> bool) \<Rightarrow> string \<Rightarrow> string \<Rightarrow> bool" where
  "equal_fold orbit s t \<longleftrightarrow> list_all2 (rune_equal_fold orbit) (runes s) (runes t)"

definition section_sign :: string where
  "section_sign = [CHR '' '', CHR 0xC2, CHR 0xA7, CHR '' '']"

definition passage_title :: "(nat \<Rightarrow> nat \<Rightarrow> bool) \<Rightarrow> string \<Rightarrow> string list \<Rightarrow> nat \<Rightarrow> string" where
  "passage_title orbit parent_title path n =
     (let trimmed = dropWhile (\<lambda>h. equal_fold orbit (trim_space h) (trim_space parent_title)) path
      in if trimmed \<noteq> [] then parent_title @ section_sign @ str_join trimmed section_sign
         else if path \<noteq> [] then parent_title
         else parent_title @ section_sign @ ''passage '' @ show_nat (n + 1))"

definition new_passage_entity ::
  "'e doc_env \<Rightarrow> authority \<Rightarrow> string \<Rightarrow> string \<Rightarrow> string \<Rightarrow> string \<Rightarrow> string \<Rightarrow> passage \<Rightarrow> int \<Rightarrow> passage_entity" where
  "new_passage_entity env auth system parent_id parent_title path mime p now =
     \<lparr>pa_id = authority_build (de_limit env) auth system ''web'' ''chunk'' (chunk_instance path (p_ordinal p)),
      pa_parent = parent_id, pa_title = passage_title (de_fold env) parent_title (heading_path p) (p_ordinal p),
      pa_section = p_heading p, pa_ordinal = p_ordinal p, pa_path = path, pa_mime = mime, pa_body = p_body p,
      pa_indexed = now, pa_ref = None, pa_instance = [], pa_key = []\<rparr>"

definition passage_triples :: "string \<Rightarrow> passage_entity \<Rightarrow> triple list" where
  "passage_triples ref p =
     (let f = fact (pa_id p) (pa_indexed p)
      in [f doc_type (OString ''passage''), f doc_file_path (OString (pa_path p)),
          f doc_mime_type (OString (pa_mime p)), f dc_title (OString (pa_title p)),
          f doc_chunk_index (OInt (int (pa_ordinal p))),
          (f code_belongs (OString (pa_parent p)))\<lparr>t_datatype := ref\<rparr>]
         @ (if pa_section p \<noteq> [] then [f doc_section_path (OString (pa_section p))] else [])
         @ (if pa_key p \<noteq> [] \<and> pa_instance p \<noteq> []
            then [f doc_body_store (OString (pa_instance p)), f doc_body_key (OString (pa_key p))] else []))"

definition passage_state :: "string \<Rightarrow> string \<Rightarrow> passage_entity \<Rightarrow> storage_ref entity_state" where
  "passage_state ref profile p =
     \<lparr>es_id = pa_id p, es_triples = passage_triples ref p, es_updated = pa_indexed p, es_storage = pa_ref p,
      es_profile = profile\<rparr>"

section \<open>Bodies\<close>

definition body_key :: "string \<Rightarrow> string" where
  "body_key body = ''doc:'' @ hex_encode (sum256 body)"

text \<open>\<open>Inl\<close> is \<open>ErrBodyStoreRequired\<close>; \<open>Inr None\<close> means there was nothing to store.\<close>

definition put_body :: "'w doc_handler \<Rightarrow> string \<Rightarrow> string \<Rightarrow> 'w \<Rightarrow> 'w \<times> (unit + storage_ref option)" where
  "put_body h body mime w =
     (case dh_store h of
        None \<Rightarrow> (w, Inl ())
      | Some put \<Rightarrow>
          if dh_instance h = [] then (w, Inl ())
          else if body = [] then (w, Inr None)
          else (case put (body_key body) body w of
                  (w', False) \<Rightarrow> (w', Inl ())
                | (w', True) \<Rightarrow>
                    (w', Inr (Some \<lparr>sr_instance = dh_instance h, sr_key = body_key body, sr_mime = mime,
                                    sr_size = length body\<rparr>))))"

definition offload_passage_body :: "'w doc_handler \<Rightarrow> passage_entity \<Rightarrow> 'w \<Rightarrow> 'w \<times> (unit + passage_entity)" where
  "offload_passage_body h p w =
     (case put_body h (pa_body p) (pa_mime p) w of
        (w', Inl _) \<Rightarrow> (w', Inl ())
      | (w', Inr None) \<Rightarrow> (w', Inr p)
      | (w', Inr (Some r)) \<Rightarrow>
          (w', Inr (p\<lparr>pa_instance := dh_instance h, pa_key := sr_key r, pa_ref := Some r\<rparr>)))"

section \<open>One document\<close>

datatype 'e doc_error = BadAuthority "'e authority_error" | BodyStoreRequired

fun passage_states ::
  "'w doc_handler \<Rightarrow> string \<Rightarrow> string \<Rightarrow> passage_entity list \<Rightarrow> 'w \<Rightarrow> 'w \<times> storage_ref entity_state list option" where
  "passage_states h ref profile [] w = (w, Some [])"
| "passage_states h ref profile (p # ps) w =
     (case offload_passage_body h p w of
        (w', Inl _) \<Rightarrow> (w', None)
      | (w', Inr q) \<Rightarrow>
          (case passage_states h ref profile ps w' of
             (w'', None) \<Rightarrow> (w'', None)
           | (w'', Some ss) \<Rightarrow> (w'', Some (passage_state ref profile q # ss))))"

text \<open>\<open>None\<close> is a splitter that does not return.\<close>

definition ingest_content_entity_states ::
  "'e doc_env \<Rightarrow> 'w doc_handler \<Rightarrow> string \<Rightarrow> string \<Rightarrow> string \<Rightarrow> authority \<Rightarrow> int \<Rightarrow> 'w
   \<Rightarrow> ('w \<times> ('e doc_error + storage_ref entity_state list)) option" where
  "ingest_content_entity_states env h content path system auth now w =
     (case authority_validate (de_limit env) (de_prefix env) auth of
        Some e \<Rightarrow> Some (w, Inl (BadAuthority e))
      | None \<Rightarrow>
          (let u = de_unicode env;
               f = format_for_ext u (path_ext path);
               title = extract_title content (path_base path) f;
               mime = mime_for_ext u (path_ext path)
           in case split_passages u content f of
                None \<Rightarrow> None
              | Some ps \<Rightarrow>
                  (let parent = (new_entity (de_limit env) auth title path mime (content_hash content) system now)
                                  \<lparr>dn_chunks := length ps\<rparr>
                   in case passage_states h (de_ref env) (de_content env)
                            (map (\<lambda>p. new_passage_entity env auth system (dn_id parent) title path mime p now) ps) w of
                        (w', None) \<Rightarrow> Some (w', Inl BodyStoreRequired)
                      | (w', Some ss) \<Rightarrow> Some (w', Inr (parent_state (de_content env) parent # ss)))))"
section \<open>Walking the roots\<close>

text \<open>What \<open>filepath.Walk\<close> finds: a file with its bytes unless they cannot be read, a directory with
  its entries in the order of their names unless they cannot be read, an entry that is gone.\<close>

datatype doc_node = DocFile "string option" | DocDir "(string \<times> doc_node) list option" | DocGone

definition default_excluded_dirs :: "string list" where
  "default_excluded_dirs = [''node_modules'', ''.git'']"

definition is_default_excluded_dir :: "string \<Rightarrow> bool" where
  "is_default_excluded_dir name \<longleftrightarrow> name \<in> set default_excluded_dirs"

definition rel_path :: "string list \<Rightarrow> string" where
  "rel_path rel = (if rel = [] then ''.'' else str_join rel ''/'')"

definition is_default_excluded_doc_dir :: "string list \<Rightarrow> string \<Rightarrow> bool" where
  "is_default_excluded_doc_dir rel base \<longleftrightarrow> is_default_excluded_dir base \<or> rel_path rel = ''openspec''"

definition is_boundary :: "(string \<times> doc_node) list \<Rightarrow> bool" where
  "is_boundary entries \<longleftrightarrow> list_ex (\<lambda>(n, _). n = ''.git'') entries"

definition doc_system :: "'w doc_handler \<Rightarrow> string \<Rightarrow> string" where
  "doc_system h rt = (if dh_project h \<noteq> [] then system_slug (dh_project h) else system_slug rt)"

definition resolve_paths :: "string list \<Rightarrow> string \<Rightarrow> string list option" where
  "resolve_paths paths path = (if paths \<noteq> [] then Some paths else if path = [] then None else Some [path])"

text \<open>\<open>ingestFileEntityStates\<close>: \<open>Inl None\<close> is a file that cannot be read.\<close>

definition ingest_file_entity_states ::
  "'e doc_env \<Rightarrow> 'w doc_handler \<Rightarrow> string option \<Rightarrow> string list \<Rightarrow> string \<Rightarrow> authority \<Rightarrow> int \<Rightarrow> 'w
   \<Rightarrow> ('w \<times> ('e doc_error option + storage_ref entity_state list)) option" where
  "ingest_file_entity_states env h bytes rel system auth now w =
     (case bytes of
        None \<Rightarrow> Some (w, Inl None)
      | Some content \<Rightarrow>
          map_option (\<lambda>(w', r). (w', case r of Inl e \<Rightarrow> Inl (Some e) | Inr ss \<Rightarrow> Inr ss))
            (ingest_content_entity_states env h content (rel_path rel) system auth now w))"

datatype walk_error = WalkIO | WalkCancelled | WalkBodyStore

type_synonym 'w walk_state = "'w \<times> storage_ref entity_state list"

text \<open>The function the walk calls on a file. \<open>live\<close> tells whether the context still is.\<close>

definition visit_file ::
  "'e doc_env \<Rightarrow> 'w doc_handler \<Rightarrow> ('w \<Rightarrow> bool) \<Rightarrow> string \<Rightarrow> authority \<Rightarrow> int \<Rightarrow> string list \<Rightarrow> string
   \<Rightarrow> string option \<Rightarrow> 'w walk_state \<Rightarrow> ('w walk_state \<times> walk_error option) option" where
  "visit_file env h live system auth now rel base bytes st =
     (case st of (w, acc) \<Rightarrow>
        if \<not> live w then Some ((w, acc), Some WalkCancelled)
        else if \<not> is_doc_extension (de_unicode env) (path_ext base) then Some ((w, acc), None)
        else (case ingest_file_entity_states env h bytes rel system auth now w of
                None \<Rightarrow> None
              | Some (w', Inl (Some BodyStoreRequired)) \<Rightarrow> Some ((w', acc), Some WalkBodyStore)
              | Some (w', Inl _) \<Rightarrow> Some ((w', acc), None)
              | Some (w', Inr ss) \<Rightarrow> Some ((w', acc @ ss), None)))"

text \<open>The walk below a root: \<open>rel\<close> are the names that lead to the node, \<open>base\<close> is the last element of
  its path, which for the root itself is that of the configured path. A skipped directory and a
  finished one look alike to the caller.\<close>

fun doc_walk :: "'e doc_env \<Rightarrow> 'w doc_handler \<Rightarrow> ('w \<Rightarrow> bool) \<Rightarrow> string \<Rightarrow> authority \<Rightarrow> int \<Rightarrow> string list
     \<Rightarrow> string \<Rightarrow> doc_node \<Rightarrow> 'w walk_state \<Rightarrow> ('w walk_state \<times> walk_error option) option"
  and doc_walk_entries :: "'e doc_env \<Rightarrow> 'w doc_handler \<Rightarrow> ('w \<Rightarrow> bool) \<Rightarrow> string \<Rightarrow> authority \<Rightarrow> int \<Rightarrow> string list
     \<Rightarrow> (string \<times> doc_node) list \<Rightarrow> 'w walk_state \<Rightarrow> ('w walk_state \<times> walk_error option) option" where
  "doc_walk env h live system auth now rel base DocGone st = Some (st, Some WalkIO)"
| "doc_walk env h live system auth now rel base (DocFile bytes) st =
     visit_file env h live system auth now rel base bytes st"
| "doc_walk env h live system auth now rel base (DocDir None) st = Some (st, Some WalkIO)"
| "doc_walk env h live system auth now rel base (DocDir (Some entries)) st =
     (if \<not> live (fst st) then Some (st, Some WalkCancelled)
      else if is_default_excluded_doc_dir rel base then Some (st, None)
      else if rel \<noteq> [] \<and> is_boundary entries then Some (st, None)
      else doc_walk_entries env h live system auth now rel entries st)"
| "doc_walk_entries env h live system auth now rel [] st = Some (st, None)"
| "doc_walk_entries env h live system auth now rel ((name, node) # entries) st =
     (case doc_walk env h live system auth now (rel @ [name]) name node st of
        Some (st', None) \<Rightarrow> doc_walk_entries env h live system auth now rel entries st'
      | r \<Rightarrow> r)"

datatype 'e doc_ingest_error = IngestBadAuthority "'e authority_error" | NoPathsConfigured | IngestCancelled | WalkFailed string walk_error

fun doc_roots ::
  "'e doc_env \<Rightarrow> 'w doc_handler \<Rightarrow> ('w \<Rightarrow> bool) \<Rightarrow> (string \<Rightarrow> doc_node) \<Rightarrow> authority \<Rightarrow> int \<Rightarrow> string list
   \<Rightarrow> 'w walk_state \<Rightarrow> ('w \<times> ('e doc_ingest_error + storage_ref entity_state list)) option" where
  "doc_roots env h live fs auth now [] (w, acc) = Some (w, Inr acc)"
| "doc_roots env h live fs auth now (rt # roots) (w, acc) =
     (if \<not> live w then Some (w, Inl IngestCancelled)
      else (case doc_walk env h live (doc_system h rt) auth now [] (path_base rt) (fs rt) (w, acc) of
              None \<Rightarrow> None
            | Some ((w', acc'), Some e) \<Rightarrow> Some (w', Inl (WalkFailed rt e))
            | Some ((w', acc'), None) \<Rightarrow> doc_roots env h live fs auth now roots (w', acc')))"

definition ingest_entity_states ::
  "'e doc_env \<Rightarrow> 'w doc_handler \<Rightarrow> ('w \<Rightarrow> bool) \<Rightarrow> (string \<Rightarrow> doc_node) \<Rightarrow> string list \<Rightarrow> string \<Rightarrow> authority \<Rightarrow> int
   \<Rightarrow> 'w \<Rightarrow> ('w \<times> ('e doc_ingest_error + storage_ref entity_state list)) option" where
  "ingest_entity_states env h live fs paths path auth now w =
     (case authority_validate (de_limit env) (de_prefix env) auth of
        Some e \<Rightarrow> Some (w, Inl (IngestBadAuthority e))
      | None \<Rightarrow>
          (case resolve_paths paths path of
             None \<Rightarrow> Some (w, Inl NoPathsConfigured)
           | Some roots \<Rightarrow> doc_roots env h live fs auth now roots (w, [])))"

section \<open>Watch events\<close>

datatype change_operation = OperationCreate | OperationModify | OperationDelete

record change_event =
  ce_path :: string
  ce_operation :: change_operation
  ce_time :: int
  ce_states :: "storage_ref entity_state list"

text \<open>\<open>rel\<close> is the path of the event below its root; \<open>fetch\<close> is what \<open>Stat\<close> and \<open>ReadFile\<close> find there.\<close>

definition enrich_event ::
  "'e doc_env \<Rightarrow> 'w doc_handler \<Rightarrow> authority \<Rightarrow> string \<Rightarrow> string list \<Rightarrow> string option option \<Rightarrow> int \<Rightarrow> change_event \<Rightarrow> 'w
   \<Rightarrow> ('w \<times> change_event) option" where
  "enrich_event env h auth rt rel fetch now ev w =
     (if ce_operation ev = OperationDelete then Some (w, ev\<lparr>ce_time := now\<rparr>)
      else (case fetch of
              None \<Rightarrow> Some (w, ev\<lparr>ce_operation := OperationDelete, ce_time := now\<rparr>)
            | Some bytes \<Rightarrow>
                if auth_org auth = [] then Some (w, ev\<lparr>ce_time := now\<rparr>)
                else (case ingest_file_entity_states env h bytes rel (doc_system h rt) auth now w of
                        None \<Rightarrow> None
                      | Some (w', Inl _) \<Rightarrow> Some (w', ev\<lparr>ce_time := now\<rparr>)
                      | Some (w', Inr ss) \<Rightarrow> Some (w', ev\<lparr>ce_states := ss, ce_time := now\<rparr>))))"
section \<open>The states of a document\<close>

lemma show_nat_digits: "list_all (\<lambda>c. ascii_digit (byte c)) (show_nat n)"
proof (induction n rule: show_nat.induct)
  case (1 n)
  then show ?case by (subst show_nat.simps) (auto simp: ascii_digit_def)
qed

lemma pad_zero_allowed: "allowed (pad_zero k n)"
proof -
  have d: "list_all (\<lambda>c. ascii_digit (byte c)) (pad_zero k n)"
    using show_nat_digits [of n] by (auto simp: pad_zero_def list_all_iff ascii_digit_def)
  then show ?thesis
    by (auto simp: list_all_iff allowed_char_def is_allowed_instance_rune_def is_ascii_alnum_def)
qed

lemma sanitize_instance_valid: "valid_segment (sanitize_instance s)"
  using sanitize_instance_canonical [of s] by (simp add: canonical_instance_def)

lemma chunk_instance_valid: "valid_segment (chunk_instance path n)"
  unfolding chunk_instance_def by (rule valid_segment_append) (simp_all add: sanitize_instance_valid pad_zero_allowed)

lemma web_segments: "valid_segment ''web''" "valid_segment ''doc''" "valid_segment ''chunk''"
  by (simp_all add: valid_segment_def alnum_char_def allowed_char_def is_allowed_instance_rune_def
      is_ascii_alnum_def ascii_lower_def ascii_upper_def ascii_digit_def)

text \<open>An authority, a system and a rule under which the framework accepts the identifiers built.\<close>

definition accepts_segments :: "graph_rules \<Rightarrow> bool" where
  "accepts_segments rules \<longleftrightarrow>
     (\<forall>a b c d e f. list_all valid_segment [a, b, c, d, e, f] \<longrightarrow> gr_entity_id_ok rules (id_join [a, b, c, d, e, f]))"

lemma built_id_accepted:
  assumes "valid_segment (auth_org auth)" "valid_segment (auth_platform auth)" "valid_segment system"
    and "valid_segment ty" "valid_segment inst" and "accepts_segments rules"
  shows "id_error (authority_build M auth system ''web'' ty inst) = None"
    "gr_entity_id_ok rules (authority_build M auth system ''web'' ty inst)"
proof -
  obtain i where i: "authority_build M auth system ''web'' ty inst
      = id_join [auth_org auth, auth_platform auth, system, ''web'', ty, i]" "valid_segment i"
    unfolding authority_build_def using build_id_segments assms(5) by blast
  have v: "list_all valid_segment [auth_org auth, auth_platform auth, system, ''web'', ty, i]"
    using assms(1-4) i(2) by (simp add: web_segments)
  show "id_error (authority_build M auth system ''web'' ty inst) = None"
    using id_join_split [OF _ v] id_join_key [OF _ v] v unfolding id_error_iff i(1)
    by (auto simp: valid_segment_def)
  show "gr_entity_id_ok rules (authority_build M auth system ''web'' ty inst)"
    using assms(6) v unfolding accepts_segments_def i(1) by blast
qed

text \<open>A passage whose body was offloaded.\<close>

definition stored_passage :: "'w doc_handler \<Rightarrow> passage_entity \<Rightarrow> passage_entity" where
  "stored_passage h p =
     (if pa_body p = [] then p
      else p\<lparr>pa_instance := dh_instance h, pa_key := body_key (pa_body p),
             pa_ref := Some \<lparr>sr_instance = dh_instance h, sr_key = body_key (pa_body p), sr_mime = pa_mime p,
                            sr_size = length (pa_body p)\<rparr>\<rparr>)"

lemma offload_ok:
  "offload_passage_body h p w = (w', Inr q) \<Longrightarrow> q = stored_passage h p \<and> dh_instance h \<noteq> [] \<and> dh_store h \<noteq> None"
  by (auto simp: offload_passage_body_def put_body_def stored_passage_def split: option.splits if_splits prod.splits sum.splits bool.splits)

lemma passage_states_ok:
  "passage_states h ref profile ps w = (w', Some ss) \<Longrightarrow> ss = map (passage_state ref profile \<circ> stored_passage h) ps"
proof (induction ps arbitrary: w w' ss)
  case (Cons p ps)
  then show ?case
    by (auto split: prod.splits sum.splits option.splits dest!: offload_ok)
qed simp

text \<open>The parent and the passages that a document is turned into.\<close>

definition document_parent :: "'e doc_env \<Rightarrow> string \<Rightarrow> string \<Rightarrow> string \<Rightarrow> authority \<Rightarrow> int \<Rightarrow> nat \<Rightarrow> doc_entity" where
  "document_parent env content path system auth now n =
     (let f = format_for_ext (de_unicode env) (path_ext path)
      in (new_entity (de_limit env) auth (extract_title content (path_base path) f) path
            (mime_for_ext (de_unicode env) (path_ext path)) (content_hash content) system now)\<lparr>dn_chunks := n\<rparr>)"

definition document_passage :: "'e doc_env \<Rightarrow> string \<Rightarrow> string \<Rightarrow> string \<Rightarrow> authority \<Rightarrow> int \<Rightarrow> passage \<Rightarrow> passage_entity" where
  "document_passage env content path system auth now p =
     (let f = format_for_ext (de_unicode env) (path_ext path)
      in new_passage_entity env auth system (document_entity_id (de_limit env) auth system path)
           (extract_title content (path_base path) f) path (mime_for_ext (de_unicode env) (path_ext path)) p now)"

lemma state_sel [simp]:
  "es_id (parent_state c e) = dn_id e" "es_triples (parent_state c e) = entity_triples e" "es_profile (parent_state c e) = c"
  "es_id (passage_state ref c p) = pa_id p" "es_triples (passage_state ref c p) = passage_triples ref p"
  "es_profile (passage_state ref c p) = c" "es_storage (passage_state ref c p) = pa_ref p"
  by (simp_all add: parent_state_def passage_state_def)

lemma document_sel [simp]:
  "dn_id (document_parent env content path system auth now n) = document_entity_id (de_limit env) auth system path"
  "dn_path (document_parent env content path system auth now n) = path"
  "dn_chunks (document_parent env content path system auth now n) = n"
  "pa_id (document_passage env content path system auth now p)
     = authority_build (de_limit env) auth system ''web'' ''chunk'' (chunk_instance path (p_ordinal p))"
  "pa_parent (document_passage env content path system auth now p) = document_entity_id (de_limit env) auth system path"
  "pa_path (document_passage env content path system auth now p) = path"
  "pa_ordinal (document_passage env content path system auth now p) = p_ordinal p"
  "pa_body (document_passage env content path system auth now p) = p_body p"
  by (simp_all add: document_parent_def document_passage_def new_entity_def new_passage_entity_def Let_def)

lemma ingest_content_ok:
  assumes "ingest_content_entity_states env h content path system auth now w = Some (w', Inr ss)"
  obtains ps where "split_passages (de_unicode env) content (format_for_ext (de_unicode env) (path_ext path)) = Some ps"
    and "ss = parent_state (de_content env) (document_parent env content path system auth now (length ps))
      # map (\<lambda>p. passage_state (de_ref env) (de_content env) (stored_passage h (document_passage env content path system auth now p))) ps"
    and "passage_states h (de_ref env) (de_content env) (map (document_passage env content path system auth now) ps) w
      = (w', Some (tl ss))"
proof -
  let ?f = "format_for_ext (de_unicode env) (path_ext path)"
  have dp: "(\<lambda>p. new_passage_entity env auth system (document_entity_id (de_limit env) auth system path)
      (extract_title content (path_base path) ?f) path (mime_for_ext (de_unicode env) (path_ext path)) p now)
    = document_passage env content path system auth now"
    by (auto simp: document_passage_def Let_def)
  obtain ps ss' where ps: "split_passages (de_unicode env) content ?f = Some ps"
    and st: "passage_states h (de_ref env) (de_content env) (map (document_passage env content path system auth now) ps) w = (w', Some ss')"
    and ss: "ss = parent_state (de_content env) (document_parent env content path system auth now (length ps)) # ss'"
    using assms dp
    by (auto simp: ingest_content_entity_states_def Let_def document_parent_def new_entity_def
        split: option.splits prod.splits)
  show ?thesis by (rule that [OF ps]) (use passage_states_ok [OF st] st in \<open>simp_all add: ss comp_def\<close>)
qed

lemma stored_passage_sel [simp]:
  "pa_id (stored_passage h p) = pa_id p" "pa_parent (stored_passage h p) = pa_parent p"
  "pa_title (stored_passage h p) = pa_title p" "pa_section (stored_passage h p) = pa_section p"
  "pa_ordinal (stored_passage h p) = pa_ordinal p" "pa_path (stored_passage h p) = pa_path p"
  "pa_mime (stored_passage h p) = pa_mime p" "pa_indexed (stored_passage h p) = pa_indexed p"
  "pa_body (stored_passage h p) = pa_body p"
  by (simp_all add: stored_passage_def)

lemma fact_sel [simp]:
  "t_subject (fact eid now p ob) = eid" "t_predicate (fact eid now p ob) = p"
  "t_object (fact eid now p ob) = ob" "t_datatype (fact eid now p ob) = []"
  by (simp_all add: fact_def)

lemma triples_self_subject:
  "dn_id e = eid \<Longrightarrow> list_all (\<lambda>t. t_subject t = eid) (entity_triples e)"
  "pa_id p = eid \<Longrightarrow> list_all (\<lambda>t. t_subject t = eid) (passage_triples ref p)"
  by (simp_all add: entity_triples_def passage_triples_def Let_def)

text \<open>What the readers of the graph find in the two kinds of states.\<close>

lemma entity_readers:
  "triple_int (entity_triples e) doc_chunk_count = Some (int (dn_chunks e))"
  "triple_int (entity_triples e) doc_chunk_index = None" "triple_string (entity_triples e) doc_file_path = dn_path e"
  "triple_string (entity_triples e) code_path = []" "parent_scan ref [] (entity_triples e) = Some []"
  "\<not> is_marked_stale (entity_triples e)" "\<not> is_source_removed (entity_triples e)"
  by (simp_all add: entity_triples_def Let_def predicate_defs doc_predicate_defs is_marked_stale_def is_source_removed_def)

lemma passage_readers:
  "triple_int (passage_triples ref p) doc_chunk_count = None"
  "triple_int (passage_triples ref p) doc_chunk_index = Some (int (pa_ordinal p))"
  "triple_string (passage_triples ref p) doc_file_path = pa_path p" "triple_string (passage_triples ref p) code_path = []"
  "ref \<noteq> [] \<Longrightarrow> parent_scan ref [] (passage_triples ref p) = Some (pa_parent p)"
  "\<not> is_marked_stale (passage_triples ref p)" "\<not> is_source_removed (passage_triples ref p)"
  by (simp_all add: passage_triples_def Let_def predicate_defs doc_predicate_defs is_marked_stale_def is_source_removed_def)

lemma numbered_map: "map p_ordinal ps = [0..<length ps] \<Longrightarrow> map (\<lambda>p. g (p_ordinal p)) ps = map g [0..<length ps]"
  by (metis (no_types, lifting) comp_apply map_eq_conv map_map)

section \<open>A document that changed\<close>

text \<open>A state on its way into the graph: the class is stamped, and JSON turns every number into a
  \<open>float64\<close>, which holds the numbers of passages exactly.\<close>

definition json_triple :: "triple \<Rightarrow> triple" where
  "json_triple t =
     t\<lparr>t_object := (case t_object t of OInt n \<Rightarrow> OFloat (of_int n) | OInt64 n \<Rightarrow> OFloat (of_int n) | ob \<Rightarrow> ob)\<rparr>"

definition graph_entity :: "storage_ref entity_state \<Rightarrow> entity" where
  "graph_entity s =
     \<lparr>e_id = es_id s, e_triples = map json_triple (stamp_class (es_id s) (es_triples s) (es_updated s)), e_updated = es_updated s\<rparr>"

text \<open>The graph holds the latest state of every identifier.\<close>

definition republished :: "storage_ref entity_state list \<Rightarrow> storage_ref entity_state list \<Rightarrow> entity list" where
  "republished old new = map graph_entity new @ map graph_entity (filter (\<lambda>s. es_id s \<notin> es_id ` set new) old)"

lemma json_readers [simp]:
  "triple_int (map json_triple ts) p = triple_int ts p" "triple_string (map json_triple ts) p = triple_string ts p"
  "parent_scan ref q (map json_triple ts) = parent_scan ref q ts"
  "is_marked_stale (map json_triple ts) = is_marked_stale ts"
  "is_source_removed (map json_triple ts) = is_source_removed ts"
  subgoal by (induction ts) (auto simp: json_triple_def truncate_rat_def split: obj.split)
  subgoal by (induction ts) (auto simp: json_triple_def split: obj.split)
  subgoal by (induction ts arbitrary: q) (auto simp: json_triple_def split: obj.split)
  subgoal by (induction ts) (auto simp: json_triple_def is_marked_stale_def)
  subgoal by (induction ts) (auto simp: json_triple_def is_source_removed_def lifecycle_reason_def split: obj.split)
  done

lemma parent_scan_append_other:
  "list_all (\<lambda>t. t_predicate t \<noteq> code_belongs) us \<Longrightarrow> parent_scan ref q (ts @ us) = parent_scan ref q ts"
proof (induction ts arbitrary: q)
  case Nil
  then show ?case by (induction us) auto
qed (auto split: obj.split)

lemma stamped_readers [simp]:
  assumes "p \<noteq> class_predicate"
  shows "triple_int (stamp_class eid ts u) p = triple_int ts p" "triple_string (stamp_class eid ts u) p = triple_string ts p"
proof -
  obtain ext where e: "stamp_class eid ts u = ts @ ext" "list_all (\<lambda>t. t_predicate t = class_predicate) ext"
    using stamp_class_ext [of eid ts u] by (auto simp: list_all_iff)
  show "triple_int (stamp_class eid ts u) p = triple_int ts p" "triple_string (stamp_class eid ts u) p = triple_string ts p"
    unfolding e(1) using e(2) assms by (auto simp: list_all_iff intro!: triple_int_append_other triple_string_append_other)
qed

lemma stamped_scans [simp]:
  "parent_scan ref q (stamp_class eid ts u) = parent_scan ref q ts"
  "is_marked_stale (stamp_class eid ts u) = is_marked_stale ts"
  "is_source_removed (stamp_class eid ts u) = is_source_removed ts"
proof -
  obtain ext where e: "stamp_class eid ts u = ts @ ext" "list_all (\<lambda>t. t_predicate t = class_predicate) ext"
    using stamp_class_ext [of eid ts u] by (auto simp: list_all_iff)
  have ne: "class_predicate \<noteq> code_belongs" "class_predicate \<noteq> lifecycle_stale"
    by (simp_all add: class_predicate_def predicate_defs)
  show "parent_scan ref q (stamp_class eid ts u) = parent_scan ref q ts"
    unfolding e(1) by (rule parent_scan_append_other) (use e(2) ne in \<open>auto simp: list_all_iff\<close>)
  show "is_marked_stale (stamp_class eid ts u) = is_marked_stale ts"
    "is_source_removed (stamp_class eid ts u) = is_source_removed ts"
    unfolding e(1) using e(2) ne by (auto simp: is_marked_stale_def is_source_removed_def list_all_iff list_ex_iff)
qed

lemma class_predicate_other: "doc_chunk_count \<noteq> class_predicate" "doc_chunk_index \<noteq> class_predicate"
  "doc_file_path \<noteq> class_predicate" "code_path \<noteq> class_predicate"
  by (simp_all add: class_predicate_def predicate_defs)

lemma graph_entity_sel [simp]: "e_id (graph_entity s) = es_id s"
  by (simp add: graph_entity_def)

lemma graph_entity_readers:
  assumes "p \<in> {doc_chunk_count, doc_chunk_index, doc_file_path, code_path}"
  shows "triple_int (e_triples (graph_entity s)) p = triple_int (es_triples s) p"
    "triple_string (e_triples (graph_entity s)) p = triple_string (es_triples s) p"
  using assms class_predicate_other by (auto simp: graph_entity_def)

lemma graph_entity_scans [simp]:
  "parent_scan ref q (e_triples (graph_entity s)) = parent_scan ref q (es_triples s)"
  "is_marked_stale (e_triples (graph_entity s)) = is_marked_stale (es_triples s)"
  "is_source_removed (e_triples (graph_entity s)) = is_source_removed (es_triples s)"
  by (simp_all add: graph_entity_def)

lemma parent_counts_one:
  assumes "triple_int (e_triples e) doc_chunk_count = Some n" and "0 \<le> n"
    and "\<And>e'. e' \<in> set es \<Longrightarrow> triple_int (e_triples e') doc_chunk_count = None"
  shows "parent_counts (e # es) = gm_put (e_id e) n []"
proof -
  have "foldl (\<lambda>m e. case triple_int (e_triples e) doc_chunk_count of
      Some n \<Rightarrow> if n \<ge> 0 then gm_put (e_id e) n m else m | None \<Rightarrow> m) m es = m" for m
    using assms(3) by (induction es arbitrary: m) auto
  then show ?thesis using assms(1,2) by (simp add: parent_counts_def)
qed

text \<open>What a lifecycle pass thinks of a document entity whose file is there.\<close>

lemma document_verdicts:
  fixes counts :: "(string, int) gomap"
  assumes "live (dn_path e)" "dn_path e \<noteq> []"
  shows "verdict_of ref counts reason (Some live) (e_triples (graph_entity (parent_state c e))) = Keep"
  using assms
  by (simp add: verdict_of_def path_of_def graph_entity_readers entity_readers passage_parent_count_def)

lemma passage_verdicts:
  assumes "live (pa_path p)" "pa_path p \<noteq> []" "ref \<noteq> []" "pa_parent p \<noteq> []" "map_of counts (pa_parent p) = Some (int n)"
  shows "verdict_of ref counts reason (Some live) (e_triples (graph_entity (passage_state ref c p)))
     = (if n \<le> pa_ordinal p then Mark reason_passage_removed else Keep)"
  using assms
  by (simp add: verdict_of_def path_of_def graph_entity_readers passage_readers passage_parent_count_def is_vanished_passage_def)
lemma document_id_nonempty: "document_entity_id M auth system path \<noteq> []"
  by (auto simp: document_entity_id_def authority_build_def build_id_def id_join_def Let_def)

lemma fresh_number:
  assumes "map p_ordinal qs = [0..<length qs]" and "g n \<notin> (\<lambda>q. g (p_ordinal q)) ` set qs"
  shows "length qs \<le> n"
proof (rule ccontr)
  assume "\<not> length qs \<le> n"
  then have n: "n < length qs" by simp
  then have "p_ordinal (qs ! n) = n" using arg_cong [OF assms(1), of "\<lambda>l. l ! n"] by simp
  with n have "g n \<in> (\<lambda>q. g (p_ordinal q)) ` set qs" by (metis imageI nth_mem)
  then show False using assms(2) by simp
qed

lemma republished_verdicts:
  assumes "ingest_content_entity_states env h content path system auth now w = Some (w1, Inr old)"
    and "ingest_content_entity_states env h content' path system auth now' w' = Some (w2, Inr new)"
    and "de_ref env \<noteq> []" and "path \<noteq> []" and "live path" and "e \<in> set (republished old new)"
  shows "verdict_of (de_ref env) (parent_counts (republished old new)) reason (Some live) (e_triples e)
    = (if e_id e \<in> es_id ` set new then Keep else Mark reason_passage_removed)"
proof -
  let ?f = "format_for_ext (de_unicode env) (path_ext path)" and ?d = "document_entity_id (de_limit env) auth system path"
  let ?p = "\<lambda>ct nw n. parent_state (de_content env) (document_parent env ct path system auth nw n)"
  let ?q = "\<lambda>ct nw p. passage_state (de_ref env) (de_content env) (stored_passage h (document_passage env ct path system auth nw p))"
  obtain ps where old: "old = ?p content now (length ps) # map (?q content now) ps"
    by (rule ingest_content_ok [OF assms(1)])
  obtain qs where qs: "split_passages (de_unicode env) content' ?f = Some qs"
    and new: "new = ?p content' now' (length qs) # map (?q content' now') qs"
    by (rule ingest_content_ok [OF assms(2)])
  have ord: "map p_ordinal qs = [0..<length qs]"
    using qs split_passages_spans(2) unfolding split_passages_def numbered_def by blast
  have lt: "p_ordinal q < length qs" if "q \<in> set qs" for q
    using that ord by (metis (mono_tags, lifting) atLeastLessThan_iff imageI list.set_map set_upt)
  have parent: "es_id (?p content now (length ps)) \<in> es_id ` set new" by (simp add: new)
  then obtain rest where rep: "republished old new = graph_entity (?p content' now' (length qs)) # rest"
    and rest: "set rest \<subseteq> graph_entity ` (?q content' now' ` set qs \<union> {s \<in> ?q content now ` set ps. es_id s \<notin> es_id ` set new})"
    by (auto simp: republished_def old new)
  have counts: "map_of (parent_counts (republished old new)) ?d = Some (int (length qs))"
    unfolding rep by (subst parent_counts_one [where n = "int (length qs)"])
      (use rest in \<open>auto simp: graph_entity_readers entity_readers passage_readers gm_get_put\<close>)
  from assms(6) rest consider "e = graph_entity (?p content' now' (length qs))"
    | q where "q \<in> set qs" "e = graph_entity (?q content' now' q)"
    | p where "e = graph_entity (?q content now p)" "es_id (?q content now p) \<notin> es_id ` set new"
    unfolding rep by (force simp del: state_sel)
  then show ?thesis
  proof cases
    case 1
    then show ?thesis using assms(4,5) by (simp add: document_verdicts new)
  next
    case 2
    have "?q content' now' q \<in> set new" using 2(1) by (simp add: new)
    then have "e_id e \<in> es_id ` set new" using imageI [of _ "set new" es_id] 2(2) by (metis graph_entity_sel)
    with 2 lt [OF 2(1)] show ?thesis
      using assms(3-5) counts by (simp add: passage_verdicts [where n = "length qs"] document_id_nonempty)
  next
    case 3
    let ?g = "\<lambda>n. authority_build (de_limit env) auth system ''web'' ''chunk'' (chunk_instance path n)"
    have "?g (p_ordinal p) \<notin> (\<lambda>q. ?g (p_ordinal q)) ` set qs" using 3(2) by (simp add: new image_image)
    then have "length qs \<le> p_ordinal p" by (rule fresh_number [OF ord])
    with 3 show ?thesis
      using assms(3-5) counts by (simp add: passage_verdicts [where n = "length qs"] document_id_nonempty)
  qed
qed

section \<open>Bodies stay retrievable\<close>

text \<open>The interface of a body store: what was put under a legal key can be got back, and a put under
  another legal key, successful or not, does not disturb it.\<close>

locale body_store =
  fixes put :: "'w store_put" and get :: "string \<Rightarrow> 'w \<Rightarrow> string option" and legal :: "string \<Rightarrow> bool"
  assumes put_get: "legal k \<Longrightarrow> put k v w = (w', True) \<Longrightarrow> get k w' = Some v"
    and put_other: "legal k \<Longrightarrow> legal k' \<Longrightarrow> k \<noteq> k' \<Longrightarrow> put k v w = (w', ok) \<Longrightarrow> get k' w' = get k' w"
begin

lemma put_body_ok:
  assumes "put_body h body mime w = (w', Inr r)" and "dh_store h = Some put" and "legal (body_key body)"
  shows "body \<noteq> [] \<Longrightarrow> get (body_key body) w' = Some body"
    and "legal k \<Longrightarrow> k \<noteq> body_key body \<Longrightarrow> get k w' = get k w"
  using assms put_get put_other [of "body_key body" k]
  by (auto simp: put_body_def split: if_splits prod.splits bool.splits)

lemma bodies_retrievable:
  assumes "passage_states h ref profile ps w = (w', Some ss)" and "dh_store h = Some put"
    and "\<And>p. p \<in> set ps \<Longrightarrow> legal (body_key (pa_body p))" and "inj_on body_key (pa_body ` set ps)"
  shows "p \<in> set ps \<Longrightarrow> pa_body p \<noteq> [] \<Longrightarrow> get (body_key (pa_body p)) w' = Some (pa_body p)"
    and "legal k \<Longrightarrow> k \<notin> body_key ` pa_body ` set ps \<Longrightarrow> get k w' = get k w"
proof -
  have "(\<forall>p \<in> set ps. pa_body p \<noteq> [] \<longrightarrow> get (body_key (pa_body p)) w' = Some (pa_body p))
      \<and> (\<forall>k. legal k \<longrightarrow> k \<notin> body_key ` pa_body ` set ps \<longrightarrow> get k w' = get k w)"
    using assms
  proof (induction ps arbitrary: w ss)
    case (Cons p ps)
    then obtain w1 r ss' where 1: "put_body h (pa_body p) (pa_mime p) w = (w1, Inr r)"
      and 2: "passage_states h ref profile ps w1 = (w', Some ss')"
      by (auto simp: offload_passage_body_def split: prod.splits sum.splits option.splits)
    from Cons.prems(4) have inj: "inj_on body_key (pa_body ` set ps)" by (auto intro: inj_on_subset)
    have IH: "\<forall>q \<in> set ps. pa_body q \<noteq> [] \<longrightarrow> get (body_key (pa_body q)) w' = Some (pa_body q)"
        "\<forall>k. legal k \<longrightarrow> k \<notin> body_key ` pa_body ` set ps \<longrightarrow> get k w' = get k w1"
      using Cons.IH [OF 2 Cons.prems(2) _ inj] Cons.prems(3) by auto
    have leg: "legal (body_key (pa_body p))" using Cons.prems(3) by simp
    have "get (body_key (pa_body p)) w' = Some (pa_body p)" if "pa_body p \<noteq> []"
    proof (cases "body_key (pa_body p) \<in> body_key ` pa_body ` set ps")
      case True
      then have "pa_body p \<in> pa_body ` set ps" using Cons.prems(4) by (auto simp: inj_on_def)
      then obtain q where "q \<in> set ps" "pa_body q = pa_body p" by auto
      then show ?thesis using IH(1) that by metis
    next
      case False
      then show ?thesis using IH(2) leg put_body_ok(1) [OF 1 Cons.prems(2) leg that] by simp
    qed
    moreover have "get k w' = get k w" if "legal k" "k \<notin> body_key ` pa_body ` set (p # ps)" for k
      using that IH(2) put_body_ok(2) [OF 1 Cons.prems(2) leg, of k] by auto
    ultimately show ?case using IH(1) by auto
  qed simp
  then show "p \<in> set ps \<Longrightarrow> pa_body p \<noteq> [] \<Longrightarrow> get (body_key (pa_body p)) w' = Some (pa_body p)"
    "legal k \<Longrightarrow> k \<notin> body_key ` pa_body ` set ps \<Longrightarrow> get k w' = get k w" by auto
qed

end
section \<open>What a walk ingests\<close>

text \<open>The documents a walk may see: the readable document files that no excluded directory and no
  nested git checkout hides.\<close>

fun visible_docs :: "unicode_tables \<Rightarrow> string list \<Rightarrow> string \<Rightarrow> doc_node \<Rightarrow> (string list \<times> string) list"
  and visible_entries :: "unicode_tables \<Rightarrow> string list \<Rightarrow> (string \<times> doc_node) list \<Rightarrow> (string list \<times> string) list" where
  "visible_docs u rel base (DocFile (Some content)) = (if is_doc_extension u (path_ext base) then [(rel, content)] else [])"
| "visible_docs u rel base (DocFile None) = []"
| "visible_docs u rel base DocGone = []"
| "visible_docs u rel base (DocDir None) = []"
| "visible_docs u rel base (DocDir (Some entries)) =
     (if is_default_excluded_doc_dir rel base \<or> (rel \<noteq> [] \<and> is_boundary entries) then []
      else visible_entries u rel entries)"
| "visible_entries u rel [] = []"
| "visible_entries u rel ((name, node) # entries) = visible_docs u (rel @ [name]) name node @ visible_entries u rel entries"

text \<open>The same, by path: the node that a list of names leads to, and the directories on the way.\<close>

fun node_at :: "doc_node \<Rightarrow> string list \<Rightarrow> doc_node option" where
  "node_at node [] = Some node"
| "node_at (DocDir (Some entries)) (name # rel) =
     (case map_of entries name of Some node \<Rightarrow> node_at node rel | None \<Rightarrow> None)"
| "node_at _ (name # rel) = None"

definition hidden_dir :: "string list \<Rightarrow> string \<Rightarrow> doc_node \<Rightarrow> bool" where
  "hidden_dir rel base node \<longleftrightarrow>
     (case node of
        DocDir (Some entries) \<Rightarrow>
          is_default_excluded_doc_dir rel base \<or> (rel \<noteq> [] \<and> is_boundary entries)
      | _ \<Rightarrow> False)"

text \<open>No directory is unreadable and no entry vanishes under the walk; names are distinct.\<close>

fun steady :: "doc_node \<Rightarrow> bool" where
  "steady (DocFile _) = True"
| "steady DocGone = False"
| "steady (DocDir None) = False"
| "steady (DocDir (Some entries)) = (distinct (map fst entries) \<and> list_all (\<lambda>(_, n). steady n) entries)"

definition document_states ::
  "'e doc_env \<Rightarrow> 'w doc_handler \<Rightarrow> string \<Rightarrow> string \<Rightarrow> string \<Rightarrow> authority \<Rightarrow> int \<Rightarrow> storage_ref entity_state list" where
  "document_states env h content path system auth now =
     (case split_passages (de_unicode env) content (format_for_ext (de_unicode env) (path_ext path)) of
        None \<Rightarrow> []
      | Some ps \<Rightarrow>
          parent_state (de_content env) (document_parent env content path system auth now (length ps))
          # map (\<lambda>p. passage_state (de_ref env) (de_content env) (stored_passage h (document_passage env content path system auth now p))) ps)"

text \<open>A deployment that works: the authority is valid, the body store accepts every put.\<close>

definition working :: "'e doc_env \<Rightarrow> 'w doc_handler \<Rightarrow> authority \<Rightarrow> bool" where
  "working env h auth \<longleftrightarrow>
     authority_validate (de_limit env) (de_prefix env) auth = None \<and> dh_instance h \<noteq> []
     \<and> (case dh_store h of None \<Rightarrow> False | Some put \<Rightarrow> \<forall>k v w. snd (put k v w))"

lemma working_put:
  assumes "working env h auth"
  shows "\<exists>w'. offload_passage_body h p w = (w', Inr (stored_passage h p))"
proof -
  obtain put where put: "dh_store h = Some put" "\<And>k v w. snd (put k v w)" "dh_instance h \<noteq> []"
    using assms by (auto simp: working_def split: option.splits)
  then obtain w' where "put (body_key (pa_body p)) (pa_body p) w = (w', True)" by (metis prod.collapse)
  then show ?thesis using put(1,3) by (auto simp: offload_passage_body_def put_body_def stored_passage_def)
qed

lemma working_states:
  assumes "working env h auth"
  shows "\<exists>w'. passage_states h ref profile ps w = (w', Some (map (passage_state ref profile \<circ> stored_passage h) ps))"
proof (induction ps arbitrary: w)
  case (Cons p ps)
  obtain w1 where 1: "offload_passage_body h p w = (w1, Inr (stored_passage h p))" using working_put [OF assms] by blast
  then show ?case using Cons.IH [of w1] by auto
qed simp

lemma working_ingest:
  assumes "working env h auth"
    and "split_passages (de_unicode env) content (format_for_ext (de_unicode env) (path_ext path)) \<noteq> None"
  shows "\<exists>w'. ingest_content_entity_states env h content path system auth now w
    = Some (w', Inr (document_states env h content path system auth now))"
proof -
  let ?f = "format_for_ext (de_unicode env) (path_ext path)"
  obtain ps where ps: "split_passages (de_unicode env) content ?f = Some ps" using assms(2) by auto
  have dp: "(\<lambda>p. new_passage_entity env auth system (document_entity_id (de_limit env) auth system path)
      (extract_title content (path_base path) ?f) path (mime_for_ext (de_unicode env) (path_ext path)) p now)
    = document_passage env content path system auth now"
    by (auto simp: document_passage_def Let_def)
  obtain w' where "passage_states h (de_ref env) (de_content env) (map (document_passage env content path system auth now) ps) w
      = (w', Some (map (passage_state (de_ref env) (de_content env) \<circ> stored_passage h) (map (document_passage env content path system auth now) ps)))"
    using working_states [OF assms(1)] by blast
  moreover have "authority_validate (de_limit env) (de_prefix env) auth = None" using assms(1) by (simp add: working_def)
  ultimately show ?thesis
    using ps dp by (simp add: ingest_content_entity_states_def document_states_def document_parent_def new_entity_def
        Let_def comp_def)
qed

definition splits :: "'e doc_env \<Rightarrow> (string list \<times> string) list \<Rightarrow> bool" where
  "splits env docs \<longleftrightarrow>
     list_all (\<lambda>(rel, content). split_passages (de_unicode env) content
        (format_for_ext (de_unicode env) (path_ext (rel_path rel))) \<noteq> None) docs"

lemma splits_append [simp]: "splits env (a @ b) \<longleftrightarrow> splits env a \<and> splits env b"
  by (simp add: splits_def)

lemma working_walk:
  assumes "working env h auth"
  shows "steady node \<Longrightarrow> splits env (visible_docs (de_unicode env) rel base node) \<Longrightarrow>
      \<exists>w'. doc_walk env h (\<lambda>_. True) system auth now rel base node (w, acc)
        = Some ((w', acc @ concat (map (\<lambda>(r, c). document_states env h c (rel_path r) system auth now)
            (visible_docs (de_unicode env) rel base node))), None)"
    and "list_all (\<lambda>(_, n). steady n) entries \<Longrightarrow> splits env (visible_entries (de_unicode env) rel entries) \<Longrightarrow>
      \<exists>w'. doc_walk_entries env h (\<lambda>_. True) system auth now rel entries (w, acc)
        = Some ((w', acc @ concat (map (\<lambda>(r, c). document_states env h c (rel_path r) system auth now)
            (visible_entries (de_unicode env) rel entries))), None)"
proof (induction "de_unicode env" rel base node and "de_unicode env" rel entries arbitrary: w acc and w acc
    rule: visible_docs_visible_entries.induct)
  case (1 rel base content)
  then show ?case
    using working_ingest [OF assms, of content "rel_path rel" system now w]
    by (auto simp: visit_file_def ingest_file_entity_states_def splits_def)
next
  case (2 rel base)
  then show ?case by (auto simp: visit_file_def ingest_file_entity_states_def)
next
  case (7 rel name node entries)
  let ?s = "\<lambda>docs. concat (map (\<lambda>(r, c). document_states env h c (rel_path r) system auth now) docs)"
  let ?a = "acc @ ?s (visible_docs (de_unicode env) (rel @ [name]) name node)"
  obtain w1 where 1: "doc_walk env h (\<lambda>_. True) system auth now (rel @ [name]) name node (w, acc) = Some ((w1, ?a), None)"
    using 7(1) 7(3,4) by fastforce
  obtain w2 where "doc_walk_entries env h (\<lambda>_. True) system auth now rel entries (w1, ?a)
      = Some ((w2, ?a @ ?s (visible_entries (de_unicode env) rel entries)), None)"
    using 7(2) [of w1 ?a] 7(3,4) by auto
  with 1 show ?case by simp
qed auto

lemma visible_entries_mem:
  "x \<in> set (visible_entries u rel entries) \<longleftrightarrow> (\<exists>name node. (name, node) \<in> set entries \<and> x \<in> set (visible_docs u (rel @ [name]) name node))"
proof (induction entries)
  case (Cons e entries)
  obtain a b where "e = (a, b)" by (cases e)
  with Cons show ?case by (simp only: visible_entries.simps set_append Un_iff list.set insert_iff prod.inject) blast
qed simp

lemma proper_prefixes_Cons:
  "(\<forall>q t. a # s = q @ t \<longrightarrow> t \<noteq> [] \<longrightarrow> P q) \<longleftrightarrow> P [] \<and> (\<forall>q t. s = q @ t \<longrightarrow> t \<noteq> [] \<longrightarrow> P (a # q))"
  by (auto simp: Cons_eq_append_conv)

text \<open>The directories on the way to a file are all open.\<close>

definition reachable_doc :: "unicode_tables \<Rightarrow> string list \<Rightarrow> string \<Rightarrow> doc_node \<Rightarrow> string list \<Rightarrow> string \<Rightarrow> bool" where
  "reachable_doc u rel base node s content \<longleftrightarrow>
     node_at node s = Some (DocFile (Some content)) \<and> is_doc_extension u (path_ext (last (base # s)))
     \<and> (\<forall>q t. s = q @ t \<longrightarrow> t \<noteq> [] \<longrightarrow> (\<forall>dir. node_at node q = Some dir \<longrightarrow> \<not> hidden_dir (rel @ q) (last (base # q)) dir))"

lemma reachable_doc_Cons:
  "reachable_doc u rel base (DocDir (Some entries)) (name # s) content \<longleftrightarrow>
     \<not> hidden_dir rel base (DocDir (Some entries))
     \<and> (\<exists>node. map_of entries name = Some node \<and> reachable_doc u (rel @ [name]) name node s content)"
  unfolding reachable_doc_def proper_prefixes_Cons by (auto split: option.splits)

lemma visible_docs_mem:
  "steady node \<Longrightarrow> (r, c) \<in> set (visible_docs u rel base node) \<longleftrightarrow> (\<exists>s. r = rel @ s \<and> reachable_doc u rel base node s c)"
proof (induction node arbitrary: rel base r)
  case (DocFile bytes)
  have "node_at (DocFile bytes) s = Some n \<longleftrightarrow> s = [] \<and> n = DocFile bytes" for s n by (cases s) auto
  then show ?case by (cases bytes) (auto simp: reachable_doc_def)
next
  case DocGone
  have "node_at DocGone s = Some n \<longleftrightarrow> s = [] \<and> n = DocGone" for s n by (cases s) auto
  then show ?case by (auto simp: reachable_doc_def)
next
  case (DocDir es)
  then obtain entries where es: "es = Some entries" "distinct (map fst entries)" "\<forall>(n, x) \<in> set entries. steady x"
    by (cases es) (auto simp: list_all_iff)
  have root: "\<not> reachable_doc u rel base (DocDir (Some entries)) [] c" by (simp add: reachable_doc_def)
  have IH: "(r, c) \<in> set (visible_docs u (rel @ [name]) name node) \<longleftrightarrow> (\<exists>s. r = (rel @ [name]) @ s \<and> reachable_doc u (rel @ [name]) name node s c)"
    if "(name, node) \<in> set entries" for name node r
    by (rule DocDir.IH [of entries "(name, node)" node]) (use es that in auto)
  have reach: "(\<exists>s. r = rel @ s \<and> reachable_doc u rel base (DocDir (Some entries)) s c) \<longleftrightarrow>
      \<not> hidden_dir rel base (DocDir (Some entries))
      \<and> (\<exists>name node s. (name, node) \<in> set entries \<and> r = rel @ name # s \<and> reachable_doc u (rel @ [name]) name node s c)"
    (is "?l \<longleftrightarrow> ?r")
  proof
    assume ?l
    then obtain s where s: "r = rel @ s" "reachable_doc u rel base (DocDir (Some entries)) s c" by blast
    with root obtain name s' where "s = name # s'" by (cases s) auto
    with s show ?r by (auto simp: reachable_doc_Cons dest: map_of_SomeD)
  next
    assume ?r
    then obtain name node s where s: "\<not> hidden_dir rel base (DocDir (Some entries))" "(name, node) \<in> set entries"
        "r = rel @ name # s" "reachable_doc u (rel @ [name]) name node s c" by blast
    then have "reachable_doc u rel base (DocDir (Some entries)) (name # s) c"
      using es(2) by (auto simp: reachable_doc_Cons)
    then show ?l using s(3) by blast
  qed
  have "(r, c) \<in> set (visible_docs u rel base (DocDir (Some entries))) \<longleftrightarrow>
      \<not> hidden_dir rel base (DocDir (Some entries))
      \<and> (\<exists>name node. (name, node) \<in> set entries \<and> (r, c) \<in> set (visible_docs u (rel @ [name]) name node))"
    by (simp add: hidden_dir_def visible_entries_mem)
  also have "\<dots> \<longleftrightarrow> \<not> hidden_dir rel base (DocDir (Some entries))
      \<and> (\<exists>name node. (name, node) \<in> set entries \<and> (\<exists>s. r = (rel @ [name]) @ s \<and> reachable_doc u (rel @ [name]) name node s c))"
    using IH by blast
  finally show ?case unfolding es(1) reach by simp
qed

text \<open>C27: A working source ingests exactly the documents it may see: the walk returns the states of every
  readable file with a document extension, in the order of the walk, and of nothing else; a file is
  left out precisely if a directory on its way is named \<open>node_modules\<close> or \<open>.git\<close>, is the
  \<open>openspec\<close> directory of the root, or is a git checkout of its own below the root.\<close>

theorem walk_ingests_visible_docs:
  assumes "working env h auth" and "steady node" and "splits env (visible_docs (de_unicode env) [] base node)"
  shows "(\<exists>w'. doc_walk env h (\<lambda>_. True) system auth now [] base node (w, [])
        = Some ((w', concat (map (\<lambda>(r, c). document_states env h c (rel_path r) system auth now)
            (visible_docs (de_unicode env) [] base node))), None))
    \<and> ((r, c) \<in> set (visible_docs (de_unicode env) [] base node) \<longleftrightarrow>
        node_at node r = Some (DocFile (Some c)) \<and> is_doc_extension (de_unicode env) (path_ext (last (base # r)))
        \<and> (\<forall>q t. r = q @ t \<longrightarrow> t \<noteq> [] \<longrightarrow> (\<forall>dir. node_at node q = Some dir \<longrightarrow> \<not> hidden_dir q (last (base # q)) dir)))"
  using working_walk(1) [OF assms, of system now w "[]"] visible_docs_mem [OF assms(2), of r c _ "[]"]
  by (simp add: reachable_doc_def)
section \<open>Where the pipeline departs from what it documents\<close>

text \<open>A root that is itself a file, the documented configuration \<open>["docs/", "README.md"]\<close>, is ingested
  under the path \<open>.\<close>: its name, its extension and with them its type are lost, and every such root
  of a project has one and the same identifier.\<close>

lemma file_root_loses_its_name:
  "doc_walk env h live system auth now [] ''README.md'' (DocFile (Some content)) (w, acc)
     = visit_file env h live system auth now [] ''README.md'' (Some content) (w, acc)"
  "rel_path [] = ''.''" "mime_for_ext ascii_tables (path_ext (rel_path [])) = ''application/octet-stream''"
  "extract_title [] (path_base (rel_path [])) FormatMarkdown = []"
  subgoal by simp
  subgoal by (simp add: rel_path_def)
  subgoal by code_simp
  subgoal by code_simp
  done

text \<open>The scan for the title knows nothing of fences: a comment in a shell listing is the title of the
  document, where the splitter sees a line of code; and a heading without text is an empty title.\<close>

lemma fenced_comment_is_title:
  "extract_title (''```sh'' @ [CHR 0x0A] @ ''# install'' @ [CHR 0x0A] @ ''```'' @ [CHR 0x0A] @ ''# Guide'') ''guide.md'' FormatMarkdown
     = ''install''"
  "map s_heading (document_sections (''```sh'' @ [CHR 0x0A] @ ''# install'' @ [CHR 0x0A] @ ''```'' @ [CHR 0x0A] @ ''# Guide'')
     \<lparr>ceiling_b = 1, floor_b = 0, hard_max = 9\<rparr> FormatMarkdown) = [[], ''Guide'']"
  "extract_title ''#  '' ''guide.md'' FormatMarkdown = []"
  by code_simp+

text \<open>The system of a root without letters or digits is empty, so that the publish boundary refuses every
  entity of a source on the current directory.\<close>

lemma current_directory_has_no_system: "system_slug ''./'' = []" "system_slug ''.'' = []"
  by code_simp+

section \<open>Examples\<close>

definition demo_doc_env :: "unit doc_env" where
  "demo_doc_env =
     \<lparr>de_unicode = ascii_tables, de_fold = (\<lambda>_ _. False), de_limit = 255, de_prefix = (\<lambda>_. None), de_ref = ''entity'',
      de_content = ''content''\<rparr>"

definition demo_doc_handler :: "unit doc_handler" where
  "demo_doc_handler = \<lparr>dh_store = Some (\<lambda>_ _ w. (w, True)), dh_instance = ''bodies'', dh_project = []\<rparr>"

definition demo_doc_authority :: authority where
  "demo_doc_authority = \<lparr>auth_org = ''acme'', auth_platform = ''semsource''\<rparr>"

definition demo_doc_tree :: doc_node where
  "demo_doc_tree =
     DocDir (Some [(''a.md'', DocFile (Some ''hello'')), (''node_modules'', DocDir (Some [(''b.md'', DocFile (Some ''x''))])),
       (''openspec'', DocDir (Some [(''c.md'', DocFile (Some ''x''))]))])"

lemma demo_working: "working demo_doc_env demo_doc_handler demo_doc_authority"
proof -
  have "authority_validate (de_limit demo_doc_env) (de_prefix demo_doc_env) demo_doc_authority = None" by code_simp
  then show ?thesis by (simp add: working_def demo_doc_handler_def)
qed

lemma demo_env_sel: "de_ref demo_doc_env = ''entity''" "de_content demo_doc_env = ''content''" "de_limit demo_doc_env = 255"
  by (simp_all add: demo_doc_env_def)

lemma demo_segments: "list_all valid_segment [auth_org demo_doc_authority, auth_platform demo_doc_authority, ''docs'']"
  by (simp add: demo_doc_authority_def valid_segment_def alnum_char_def allowed_char_def is_allowed_instance_rune_def
      is_ascii_alnum_def ascii_lower_def ascii_upper_def ascii_digit_def)

lemma demo_split:
  "split_passages (de_unicode demo_doc_env) ''hello'' (format_for_ext (de_unicode demo_doc_env) (path_ext ''a.md'')) \<noteq> None"
  "split_passages (de_unicode demo_doc_env) [] (format_for_ext (de_unicode demo_doc_env) (path_ext ''a.md'')) \<noteq> None"
  by code_simp+

abbreviation demo_states :: "string \<Rightarrow> storage_ref entity_state list" where
  "demo_states content \<equiv> document_states demo_doc_env demo_doc_handler content ''a.md'' ''docs'' demo_doc_authority 7"

lemma demo_ingest:
  "ingest_content_entity_states demo_doc_env demo_doc_handler ''hello'' ''a.md'' ''docs'' demo_doc_authority 7 () = Some ((), Inr (demo_states ''hello''))"
  "ingest_content_entity_states demo_doc_env demo_doc_handler [] ''a.md'' ''docs'' demo_doc_authority 7 () = Some ((), Inr (demo_states []))"
  using working_ingest [OF demo_working demo_split(1)] working_ingest [OF demo_working demo_split(2)] by auto



theorem walk_ingests_visible_docs_witness:
  "\<exists>w'. doc_walk demo_doc_env demo_doc_handler (\<lambda>_. True) ''docs'' demo_doc_authority 7 [] ''repo'' demo_doc_tree ((), [])
     = Some ((w', demo_states ''hello''), None)"
proof -
  have v: "visible_docs (de_unicode demo_doc_env) [] ''repo'' demo_doc_tree = [([''a.md''], ''hello'')]" by code_simp
  have "steady demo_doc_tree" by (simp add: demo_doc_tree_def)
  moreover have "splits demo_doc_env (visible_docs (de_unicode demo_doc_env) [] ''repo'' demo_doc_tree)"
    unfolding v using demo_split(1) by (simp add: splits_def rel_path_def)
  ultimately show ?thesis
    using walk_ingests_visible_docs [OF demo_working, of demo_doc_tree "''repo''" "''docs''" 7 "()"]
    by (simp add: v rel_path_def)
qed

end
