(* ===== verification/FileStore.thy ===== *)
theory FileStore
  imports DocEntities SourceConfig
begin

text \<open>
  The file store (\<open>storage/filestore\<close>): keys become paths below a root directory, a put writes a
  temporary file and renames it. The disk is a map of files and a list of directories; every
  operation takes a tick of a clock, by which the environment decides which system call fails.
  The store provides the interface \<open>body_store\<close> of the document source.
\<close>

section \<open>The disk and its faults\<close>

datatype fs_op = OpStat | OpMkdir | OpTemp | OpCopy | OpClose | OpRename | OpRemove | OpRead

record disk =
  dk_files :: "(string, string) gomap"
  dk_dirs :: "string list"
  dk_clock :: nat

record store_env =
  st_root :: string
  st_live :: "nat \<Rightarrow> bool"
  st_fault :: "nat \<Rightarrow> fs_op \<Rightarrow> bool"
  st_tmp :: "nat \<Rightarrow> string"
  st_partial :: "nat \<Rightarrow> string \<Rightarrow> string"

datatype store_error = CtxEnded | NoKey | DotDotKey | OutsideKey | RootMissing | RootNotDir | IoError fs_op

definition tick_clock :: "disk \<Rightarrow> disk" where
  "tick_clock d = d\<lparr>dk_clock := Suc (dk_clock d)\<rparr>"

text \<open>A clean absolute path and the directories above it, the root directory aside.\<close>

definition dirs_above :: "string \<Rightarrow> string list" where
  "dirs_above p =
     (let es = clean_elems True (str_split p (CHR ''/''))
      in map (\<lambda>i. canonical_path (take i es)) [1..<Suc (length es)])"

definition mkdir_all :: "string \<Rightarrow> disk \<Rightarrow> disk option" where
  "mkdir_all dir d =
     (if list_ex (gm_has (dk_files d)) (dirs_above dir) then None
      else Some (d\<lparr>dk_dirs := dk_dirs d @ filter (\<lambda>p. p \<notin> set (dk_dirs d)) (dirs_above dir)\<rparr>))"

section \<open>The operations\<close>

definition resolve_key :: "string \<Rightarrow> string \<Rightarrow> store_error + string" where
  "resolve_key rt key =
     (if key = [] then Inl NoKey
      else if ''..'' \<in> set (str_split key (CHR ''/'')) then Inl DotDotKey
      else let p = clean (path_join [rt, key])
           in if \<not> has_prefix p (rt @ ''/'') then Inl OutsideKey else Inr p)"

definition key_from_path :: "string \<Rightarrow> string \<Rightarrow> string" where
  "key_from_path rt p = trim_prefix p (rt @ ''/'')"

text \<open>\<open>New\<close>: the root is made absolute in the working directory \<open>cwd\<close>, and created if asked for.\<close>

definition new_store :: "string \<Rightarrow> string \<Rightarrow> bool \<Rightarrow> (fs_op \<Rightarrow> bool) \<Rightarrow> disk \<Rightarrow> disk \<times> (store_error + string)" where
  "new_store cwd dir create fault d =
     (let p = (if is_abs dir then clean dir else path_join [cwd, dir])
      in if fault OpStat then (d, Inl (IoError OpStat))
         else if gm_has (dk_files d) p then (d, Inl RootNotDir)
         else if p \<in> set (dk_dirs d) then (d, Inr p)
         else if \<not> create then (d, Inl RootMissing)
         else if fault OpMkdir then (d, Inl (IoError OpMkdir))
         else (case mkdir_all p d of None \<Rightarrow> (d, Inl (IoError OpMkdir)) | Some d' \<Rightarrow> (d', Inr p)))"

definition tmp_name :: "store_env \<Rightarrow> nat \<Rightarrow> string" where
  "tmp_name env n = ''.tmp-'' @ st_tmp env n"

definition put_reader :: "store_env \<Rightarrow> string \<Rightarrow> string \<Rightarrow> disk \<Rightarrow> disk \<times> (store_error + nat)" where
  "put_reader env key data d =
     (let n = dk_clock d; fault = st_fault env n; d0 = tick_clock d
      in if \<not> st_live env n then (d0, Inl CtxEnded)
         else (case resolve_key (st_root env) key of
             Inl e \<Rightarrow> (d0, Inl e)
           | Inr target \<Rightarrow>
               if fault OpMkdir then (d0, Inl (IoError OpMkdir))
               else (case mkdir_all (path_dir target) d0 of
                   None \<Rightarrow> (d0, Inl (IoError OpMkdir))
                 | Some d1 \<Rightarrow>
                     if fault OpTemp then (d1, Inl (IoError OpTemp))
                     else
                       (let tmp = path_join [path_dir target, tmp_name env n];
                            abandon = (\<lambda>op part.
                              (if fault OpRemove then d1\<lparr>dk_files := gm_put tmp part (dk_files d1)\<rparr> else d1, Inl (IoError op)))
                        in if fault OpCopy then abandon OpCopy (st_partial env n data)
                           else if fault OpClose then abandon OpClose data
                           else if fault OpRename \<or> target \<in> set (dk_dirs d1) then abandon OpRename data
                           else (d1\<lparr>dk_files := gm_put target data (dk_files d1)\<rparr>, Inr (length data))))))"

definition file_put :: "store_env \<Rightarrow> disk store_put" where
  "file_put env key data d = (case put_reader env key data d of (d', r) \<Rightarrow> (d', case r of Inl _ \<Rightarrow> False | Inr _ \<Rightarrow> True))"

definition file_get :: "store_env \<Rightarrow> string \<Rightarrow> disk \<Rightarrow> disk \<times> (store_error + string)" where
  "file_get env key d =
     (let n = dk_clock d; d0 = tick_clock d
      in if \<not> st_live env n then (d0, Inl CtxEnded)
         else (case resolve_key (st_root env) key of
             Inl e \<Rightarrow> (d0, Inl e)
           | Inr target \<Rightarrow>
               if st_fault env n OpRead then (d0, Inl (IoError OpRead))
               else (case map_of (dk_files d) target of
                       None \<Rightarrow> (d0, Inl (IoError OpRead))
                     | Some data \<Rightarrow> (d0, Inr data))))"

text \<open>The loop of \<open>deepestExisting\<close> visits the path and then its parents.\<close>

definition deepest_existing :: "string \<Rightarrow> disk \<Rightarrow> string \<Rightarrow> string" where
  "deepest_existing rt d p =
     (case find (\<lambda>q. \<not> has_prefix q rt \<or> q \<in> set (dk_dirs d)) (rev (dirs_above p)) of
        Some q \<Rightarrow> if has_prefix q rt then q else rt
      | None \<Rightarrow> rt)"

definition list_keys :: "store_env \<Rightarrow> string \<Rightarrow> disk \<Rightarrow> disk \<times> (store_error + string list)" where
  "list_keys env pre d =
     (let n = dk_clock d; d0 = tick_clock d; rt = st_root env;
          from_dir = (\<lambda>walk_root.
            sort_strings (filter (\<lambda>k. has_prefix k pre)
              (map (key_from_path rt)
                (filter (\<lambda>p. has_prefix p (walk_root @ ''/'') \<and> \<not> has_prefix (path_base p) ''.tmp-'') (map fst (dk_files d))))))
      in if \<not> st_live env n then (d0, Inl CtxEnded)
         else if pre = [] then (d0, Inr (from_dir rt))
         else (case resolve_key rt pre of
                 Inl e \<Rightarrow> (d0, Inl e)
               | Inr p \<Rightarrow> (d0, Inr (from_dir (deepest_existing rt d p)))))"

text \<open>\<open>os.Remove\<close> also removes an empty directory; a file above the path is not \<open>ErrNotExist\<close>.\<close>

definition delete_key :: "store_env \<Rightarrow> string \<Rightarrow> disk \<Rightarrow> disk \<times> store_error option" where
  "delete_key env key d =
     (let n = dk_clock d; d0 = tick_clock d
      in if \<not> st_live env n then (d0, Some CtxEnded)
         else (case resolve_key (st_root env) key of
             Inl e \<Rightarrow> (d0, Some e)
           | Inr target \<Rightarrow>
               if st_fault env n OpRemove then (d0, Some (IoError OpRemove))
               else if gm_has (dk_files d) target then (d0\<lparr>dk_files := gm_del target (dk_files d)\<rparr>, None)
               else if target \<in> set (dk_dirs d) then
                 (if list_ex (\<lambda>p. has_prefix p (target @ ''/'')) (map fst (dk_files d) @ dk_dirs d)
                  then (d0, Some (IoError OpRemove))
                  else (d0\<lparr>dk_dirs := filter (\<lambda>p. p \<noteq> target) (dk_dirs d)\<rparr>, None))
               else if list_ex (gm_has (dk_files d)) (dirs_above target) then (d0, Some (IoError OpRemove))
               else (d0, None)))"

section \<open>Keys and paths\<close>

text \<open>The elements that a key really has.\<close>

definition key_elems :: "string \<Rightarrow> string list" where
  "key_elems key = filter (\<lambda>e. e \<noteq> [] \<and> e \<noteq> ''.'') (str_split key (CHR ''/''))"

lemma key_elems_proper:
  "''..'' \<notin> set (str_split key (CHR ''/'')) \<Longrightarrow> list_all proper_elem (key_elems key)"
  by (auto simp: key_elems_def list_all_iff proper_elem_def dest: str_split_no_sep)

lemma foldl_clean_filter:
  "''..'' \<notin> set es \<Longrightarrow> foldl (clean_step True) st es = foldl (clean_step True) st (filter (\<lambda>e. e \<noteq> [] \<and> e \<noteq> ''.'') es)"
  by (induction es arbitrary: st) (auto simp: clean_step_def)

lemma canonical_append:
  "rs \<noteq> [] \<Longrightarrow> es \<noteq> [] \<Longrightarrow> canonical_path (rs @ es) = canonical_path rs @ ''/'' @ str_join es ''/''"
  by (simp add: canonical_path_def str_join_append)

lemma join_prefix:
  assumes "rs \<noteq> []"
  shows "has_prefix (canonical_path (rs @ es)) (canonical_path rs @ ''/'') \<longleftrightarrow> es \<noteq> []"
proof (cases "es = []")
  case True
  then show ?thesis by (simp add: has_prefix_def)
next
  case False
  then show ?thesis using canonical_append [OF assms False] by (simp add: has_prefix_def)
qed

lemma clean_append:
  assumes "list_all proper_elem es" and "''..'' \<notin> set (str_split key (CHR ''/''))"
  shows "clean_elems True (str_split (canonical_path es @ ''/'' @ key) (CHR ''/'')) = es @ key_elems key"
    and "clean (canonical_path es @ ''/'' @ key) = canonical_path (es @ key_elems key)"
proof -
  let ?p = "canonical_path es @ ''/'' @ key"
  have abs: "is_abs ?p" by (simp add: canonical_path_def is_abs_def has_prefix_def)
  have split: "str_split ?p (CHR ''/'') = str_split (canonical_path es) (CHR ''/'') @ str_split key (CHR ''/'')"
    using str_split_append_sep [of "canonical_path es" "CHR ''/''" key] by simp
  have nil: "clean_step True [] [] = []" by (simp add: clean_step_def)
  have "foldl (clean_step True) [] (str_split (canonical_path es) (CHR ''/'')) = rev es"
  proof (cases "es = []")
    case True
    then show ?thesis by (simp add: canonical_path_def nil)
  next
    case False
    then show ?thesis using split_canonical [OF assms(1) False] clean_foldl_proper [OF assms(1), of "[]"] by (simp add: nil)
  qed
  then show *: "clean_elems True (str_split ?p (CHR ''/'')) = es @ key_elems key"
    unfolding clean_elems_def split foldl_append
    using clean_foldl_proper [OF key_elems_proper [OF assms(2)]] foldl_clean_filter [OF assms(2)]
    by (simp add: key_elems_def)
  show "clean ?p = canonical_path (es @ key_elems key)" using clean_rooted [OF abs] * by simp
qed

lemma key_elems_name [simp]: "proper_elem e \<Longrightarrow> key_elems e = [e]"
  using str_split_join [of "[e]" "CHR ''/''"] by (simp add: key_elems_def proper_elem_def)

lemma split_name: "proper_elem e \<Longrightarrow> str_split e (CHR ''/'') = [e]"
  using str_split_join [of "[e]" "CHR ''/''"] by (simp add: proper_elem_def)

lemma canonical_snoc: "canonical_path (es @ [e]) = (if es = [] then [] else canonical_path es) @ ''/'' @ e"
  using canonical_append [of es "[e]"] by (auto simp: canonical_path_def)

lemma path_dir_canonical:
  assumes "list_all proper_elem (es @ [e])"
  shows "path_dir (canonical_path (es @ [e])) = canonical_path es"
proof -
  have ns: "CHR ''/'' \<notin> set e" using assms by (simp add: proper_elem_def)
  have d: "rev (dropWhile (\<lambda>c. c \<noteq> CHR ''/'') (rev (a @ ''/'' @ e))) = a @ ''/''" for a
    using ns by (simp add: dropWhile_append2 dropWhile_append)
  show ?thesis
  proof (cases "es = []")
    case True
    have "clean ''/'' = canonical_path []" using clean_canonical [of "[]"] by (simp add: canonical_path_def)
    with True d [of "[]"] show ?thesis by (simp add: path_dir_def canonical_path_def)
  next
    case False
    have "clean (canonical_path es @ ''/'' @ []) = canonical_path (es @ key_elems [])"
      by (rule clean_append(2)) (use assms in simp_all)
    moreover have "key_elems [] = []" by (simp add: key_elems_def)
    ultimately show ?thesis using False d [of "canonical_path es"] by (simp add: path_dir_def canonical_snoc)
  qed
qed

lemma path_base_canonical:
  assumes "proper_elem e"
  shows "path_base (canonical_path (es @ [e])) = e"
proof -
  have e: "e \<noteq> []" "CHR ''/'' \<notin> set e" using assms by (auto simp: proper_elem_def)
  obtain a where a: "canonical_path (es @ [e]) = a @ ''/'' @ e" using canonical_snoc by blast
  have "last e \<noteq> CHR ''/''" using e last_in_set by metis
  then have "trim_right_bytes (\<lambda>c. c = CHR ''/'') (a @ ''/'' @ e) = a @ ''/'' @ e"
    using e(1) by (cases e rule: rev_cases) (auto simp: trim_right_bytes_def)
  moreover have "takeWhile (\<lambda>c. c \<noteq> CHR ''/'') (rev (a @ ''/'' @ e)) = rev e"
    using e(2) by (auto simp: takeWhile_append2 takeWhile_tail)
  ultimately show ?thesis unfolding a using e(1) by (simp add: path_base_def)
qed

lemma path_join_name:
  assumes "list_all proper_elem es" and "proper_elem e"
  shows "path_join [canonical_path es, e] = canonical_path (es @ [e])"
proof -
  have "path_join [canonical_path es, e] = clean (canonical_path es @ ''/'' @ e)"
    by (simp add: path_join_def canonical_path_def)
  moreover have "''..'' \<notin> set (str_split e (CHR ''/''))" using assms(2) by (auto simp: split_name proper_elem_def)
  ultimately show ?thesis using clean_append(2) [OF assms(1), of e] assms(2) by simp
qed

lemma dirs_above_canonical:
  assumes "list_all proper_elem es"
  shows "dirs_above (canonical_path es) = map (\<lambda>i. canonical_path (take i es)) [1..<Suc (length es)]"
proof -
  have "clean_elems True (str_split (canonical_path es) (CHR ''/'')) = es"
  proof (cases "es = []")
    case False
    have "clean_step True [] [] = []" by (simp add: clean_step_def)
    then show ?thesis
      by (simp add: split_canonical [OF assms False] clean_elems_def clean_foldl_proper [OF assms])
  qed (simp add: canonical_path_def clean_elems_def clean_step_def)
  then show ?thesis by (simp add: dirs_above_def)
qed

lemma resolve_key_eq:
  assumes "list_all proper_elem rs" and "rs \<noteq> []"
  shows "resolve_key (canonical_path rs) key =
    (if key = [] then Inl NoKey
     else if ''..'' \<in> set (str_split key (CHR ''/'')) then Inl DotDotKey
     else if key_elems key = [] then Inl OutsideKey
     else Inr (canonical_path (rs @ key_elems key)))"
proof (cases "key = [] \<or> ''..'' \<in> set (str_split key (CHR ''/''))")
  case False
  then have k: "key \<noteq> []" "''..'' \<notin> set (str_split key (CHR ''/''))" by auto
  have "path_join [canonical_path rs, key] = clean (canonical_path rs @ ''/'' @ key)"
    by (simp add: path_join_def canonical_path_def)
  moreover have "list_all proper_elem (rs @ key_elems key)" using assms(1) key_elems_proper [OF k(2)] by simp
  ultimately show ?thesis
    using k clean_append(2) [OF assms(1) k(2)] clean_canonical join_prefix [OF assms(2)]
    by (simp add: resolve_key_def Let_def)
qed (auto simp: resolve_key_def)
section \<open>What the operations do to the files\<close>

text \<open>A store whose root is a directory other than \<open>/\<close>, as \<open>New\<close> leaves it; temporary names have no slash.\<close>

definition store_ok :: "store_env \<Rightarrow> string list \<Rightarrow> bool" where
  "store_ok env rs \<longleftrightarrow>
     st_root env = canonical_path rs \<and> rs \<noteq> [] \<and> list_all proper_elem rs \<and> (\<forall>n. CHR ''/'' \<notin> set (st_tmp env n))"

text \<open>A key that addresses a file below the root, and not a temporary one.\<close>

definition plain_key :: "string \<Rightarrow> bool" where
  "plain_key key \<longleftrightarrow>
     ''..'' \<notin> set (str_split key (CHR ''/'')) \<and> key_elems key \<noteq> [] \<and> \<not> has_prefix (last (key_elems key)) ''.tmp-''"

text \<open>What an undisturbed read finds under a key.\<close>

definition stored :: "store_env \<Rightarrow> string \<Rightarrow> disk \<Rightarrow> string option" where
  "stored env key d = (case resolve_key (st_root env) key of Inl _ \<Rightarrow> None | Inr p \<Rightarrow> map_of (dk_files d) p)"

lemma key_elems_Nil [simp]: "key_elems [] = []"
  by (simp add: key_elems_def)

lemma plain_resolve:
  assumes "store_ok env rs" and "plain_key key"
  shows "resolve_key (st_root env) key = Inr (canonical_path (rs @ key_elems key))"
  using assms resolve_key_eq [of rs key] by (auto simp: store_ok_def plain_key_def)

lemma plain_elems: "plain_key key \<Longrightarrow> list_all proper_elem (key_elems key)"
  by (simp add: plain_key_def key_elems_proper)

lemma plain_stored:
  assumes "store_ok env rs" and "plain_key key"
  shows "stored env key d = map_of (dk_files d) (canonical_path (rs @ key_elems key))"
  by (simp add: stored_def plain_resolve [OF assms])

lemma clock_files [simp]: "dk_files (tick_clock d) = dk_files d" "dk_dirs (tick_clock d) = dk_dirs d"
  by (simp_all add: tick_clock_def)

lemma mkdir_files: "mkdir_all dir d = Some d' \<Longrightarrow> dk_files d' = dk_files d"
  by (auto simp: mkdir_all_def split: if_splits)

lemma tmp_proper: "CHR ''/'' \<notin> set (st_tmp env n) \<Longrightarrow> proper_elem (tmp_name env n)"
  by (auto simp: proper_elem_def tmp_name_def)

lemma tmp_prefix: "has_prefix (tmp_name env n) ''.tmp-''"
  by (simp add: tmp_name_def has_prefix_def)

lemma put_reader_files:
  assumes "store_ok env rs" and "put_reader env key data d = (d', r)"
  shows "(\<exists>e. r = Inl e \<and> dk_files d' = dk_files d)
    \<or> (''..'' \<notin> set (str_split key (CHR ''/'')) \<and> key_elems key \<noteq> [] \<and>
        (\<exists>e part. r = Inl e \<and> dk_files d' = gm_put (canonical_path (rs @ butlast (key_elems key) @ [tmp_name env (dk_clock d)])) part (dk_files d)))
    \<or> (''..'' \<notin> set (str_split key (CHR ''/'')) \<and> key_elems key \<noteq> [] \<and>
        r = Inr (length data) \<and> dk_files d' = gm_put (canonical_path (rs @ key_elems key)) data (dk_files d))"
proof (cases "resolve_key (st_root env) key")
  case (Inl e)
  with assms(2) show ?thesis by (auto simp: put_reader_def Let_def split: if_splits)
next
  case (Inr target)
  have rs: "st_root env = canonical_path rs" "rs \<noteq> []" "list_all proper_elem rs" "CHR ''/'' \<notin> set (st_tmp env (dk_clock d))"
    using assms(1) by (auto simp: store_ok_def)
  from Inr resolve_key_eq [OF rs(3,2), of key] have k: "''..'' \<notin> set (str_split key (CHR ''/''))" "key_elems key \<noteq> []"
    and target: "target = canonical_path (rs @ key_elems key)"
    unfolding rs(1) by (auto split: if_splits)
  from k(2) obtain es e where es: "key_elems key = es @ [e]" by (cases "key_elems key" rule: rev_cases) auto
  have pr: "list_all proper_elem ((rs @ es) @ [e])" using rs(3) key_elems_proper [OF k(1)] es by simp
  have tmp: "path_join [path_dir target, tmp_name env (dk_clock d)]
      = canonical_path (rs @ butlast (key_elems key) @ [tmp_name env (dk_clock d)])"
    using path_dir_canonical [OF pr] path_join_name [of "rs @ es", OF _ tmp_proper [OF rs(4)]] pr
    by (simp add: target es)
  show ?thesis
  proof (cases "mkdir_all (path_dir target) (tick_clock d)")
    case None
    with assms(2) Inr show ?thesis by (auto simp: put_reader_def Let_def split: if_splits)
  next
    case (Some d1)
    from mkdir_files [OF Some] have f: "dk_files d1 = dk_files d" by simp
    from assms(2) Inr Some k f show ?thesis
      unfolding put_reader_def Let_def by (auto simp: target tmp [unfolded target] split: if_splits)
  qed
qed

lemma other_path:
  assumes "list_all proper_elem (rs @ a)" "list_all proper_elem (rs @ b)" "a \<noteq> b"
  shows "canonical_path (rs @ a) \<noteq> canonical_path (rs @ b)"
  using str_join_inj [OF assms(1,2)] assms(3) by auto

lemma put_reader_stored:
  assumes "store_ok env rs" and "plain_key key" and "put_reader env key data d = (d', r)" and "plain_key k"
  shows "stored env k d' = (case r of Inl _ \<Rightarrow> stored env k d
    | Inr _ \<Rightarrow> if key_elems k = key_elems key then Some data else stored env k d)"
proof -
  have rs: "list_all proper_elem rs" "CHR ''/'' \<notin> set (st_tmp env (dk_clock d))" using assms(1) by (auto simp: store_ok_def)
  have ke: "list_all proper_elem (rs @ key_elems key)" "list_all proper_elem (rs @ key_elems k)"
    using rs(1) plain_elems assms(2,4) by auto
  have "list_all proper_elem (butlast (key_elems key))"
    using plain_elems [OF assms(2)] by (auto simp: list_all_iff dest: in_set_butlastD)
  then have tp: "list_all proper_elem (rs @ butlast (key_elems key) @ [tmp_name env (dk_clock d)])"
    using rs by (simp add: tmp_proper)
  have "last (key_elems k) \<noteq> tmp_name env (dk_clock d)"
    using assms(4) tmp_prefix [of env "dk_clock d"] by (auto simp: plain_key_def)
  then have "key_elems k \<noteq> butlast (key_elems key) @ [tmp_name env (dk_clock d)]" by auto
  then have nt: "canonical_path (rs @ key_elems k) \<noteq> canonical_path (rs @ butlast (key_elems key) @ [tmp_name env (dk_clock d)])"
    using other_path [OF ke(2) tp] by simp
  show ?thesis
    using put_reader_files [OF assms(1,3)] nt other_path [OF ke(2) ke(1)]
    by (auto simp: plain_stored [OF assms(1,4)] gm_get_put)
qed

text \<open>C29: The store keeps what it was given, whole or not at all: after a put that succeeded its key reads
  the new bytes, after one that failed at any system call every key reads what it read before, no
  other key is ever disturbed, and two keys are the same one exactly if they have the same elements,
  so that empty and dot elements do not count.\<close>

theorem store_put_is_atomic:
  assumes "store_ok env rs" and "plain_key key" and "put_reader env key data d = (d', r)" and "plain_key k"
  shows "(case r of Inl _ \<Rightarrow> stored env k d' = stored env k d
      | Inr n \<Rightarrow> n = length data \<and> stored env k d' = (if key_elems k = key_elems key then Some data else stored env k d))
    \<and> (st_live env (dk_clock d') \<longrightarrow> \<not> st_fault env (dk_clock d') OpRead \<longrightarrow>
        snd (file_get env k d') = (case stored env k d' of None \<Rightarrow> Inl (IoError OpRead) | Some v \<Rightarrow> Inr v))"
proof -
  have "n = length data" if "r = Inr n" for n
    using put_reader_files [OF assms(1,3)] that by auto
  then show ?thesis
    using put_reader_stored [OF assms]
    by (auto simp: file_get_def Let_def plain_resolve [OF assms(1,4)] plain_stored [OF assms(1,4)]
        split: sum.splits option.splits)
qed

text \<open>C30: No key reaches outside of the root: whatever string is used as a key, a put and a delete leave
  every file outside of the root as it is, even when they fail halfway, and a key with \<open>..\<close> among its
  elements is refused without touching anything.\<close>

theorem store_stays_under_root:
  assumes "store_ok env rs" and "\<not> has_prefix p (st_root env @ ''/'')"
  shows "map_of (dk_files (fst (put_reader env key data d))) p = map_of (dk_files d) p
    \<and> map_of (dk_files (fst (delete_key env key d))) p = map_of (dk_files d) p
    \<and> (''..'' \<in> set (str_split key (CHR ''/'')) \<longrightarrow>
        dk_files (fst (put_reader env key data d)) = dk_files d \<and> dk_files (fst (delete_key env key d)) = dk_files d
        \<and> (st_live env (dk_clock d) \<longrightarrow> snd (file_get env key d) = Inl DotDotKey))"
proof -
  have rs: "st_root env = canonical_path rs" "rs \<noteq> []" "list_all proper_elem rs" using assms(1) by (auto simp: store_ok_def)
  have out: "p \<noteq> canonical_path (rs @ es)" if "es \<noteq> []" for es
    using that assms(2) join_prefix [OF rs(2), of es] unfolding rs(1) by auto
  obtain d' r where put: "put_reader env key data d = (d', r)" by force
  from put_reader_files [OF assms(1) put] out
  have 1: "map_of (dk_files d') p = map_of (dk_files d) p" by (auto simp: gm_get_put)
  from put_reader_files [OF assms(1) put]
  have 2: "dk_files d' = dk_files d" if "''..'' \<in> set (str_split key (CHR ''/''))" using that by auto
  note res = resolve_key_eq [OF rs(3,2), of key]
  have nil: "''..'' \<notin> set (str_split [] (CHR ''/''))" by simp
  have 3: "map_of (dk_files (fst (delete_key env key d))) p = map_of (dk_files d) p"
    using out by (auto simp: delete_key_def Let_def rs(1) res gm_get_del split: sum.splits)
  have 4: "dk_files (fst (delete_key env key d)) = dk_files d" "st_live env (dk_clock d) \<Longrightarrow> snd (file_get env key d) = Inl DotDotKey"
    if "''..'' \<in> set (str_split key (CHR ''/''))"
    using that nil by (auto simp: delete_key_def file_get_def Let_def rs(1) res)
  show ?thesis using 1 2 3 4 by (simp add: put)
qed
section \<open>The store of the passage bodies\<close>

definition legal_key :: "store_env \<Rightarrow> string \<Rightarrow> bool" where
  "legal_key env k \<longleftrightarrow> (\<exists>rs. store_ok env rs) \<and> proper_elem k \<and> \<not> has_prefix k ''.tmp-''"

lemma legal_plain: "proper_elem k \<Longrightarrow> \<not> has_prefix k ''.tmp-'' \<Longrightarrow> plain_key k"
  by (auto simp: plain_key_def split_name proper_elem_def)

interpretation fs: body_store "file_put env" "stored env" "legal_key env" for env
proof
  fix k v w w'
  assume l: "legal_key env k" and p: "file_put env k v w = (w', True)"
  then obtain rs where rs: "store_ok env rs" "plain_key k" by (auto simp: legal_key_def legal_plain)
  from p obtain n where "put_reader env k v w = (w', Inr n)" by (auto simp: file_put_def split: prod.splits sum.splits)
  then show "stored env k w' = Some v" using put_reader_stored [OF rs _ rs(2)] by fastforce
next
  fix k k' v w w' ok
  assume l: "legal_key env k" "legal_key env k'" "k \<noteq> k'" and p: "file_put env k v w = (w', ok)"
  then obtain rs where rs: "store_ok env rs" "plain_key k" "plain_key k'" "key_elems k \<noteq> key_elems k'"
    by (auto simp: legal_key_def legal_plain)
  from p obtain r where "put_reader env k v w = (w', r)" by (auto simp: file_put_def split: prod.splits)
  then show "stored env k' w' = stored env k' w"
    using put_reader_stored [OF rs(1,2) _ rs(3)] rs(4) by (fastforce split: sum.splits)
qed

lemma body_key_legal: "store_ok env rs \<Longrightarrow> legal_key env (body_key body)"
proof -
  have "\<not> is_hex_char (CHR ''/'')" by (simp add: is_hex_char_def ascii_digit_def)
  then have "CHR ''/'' \<notin> set (hex_encode (sum256 body))"
    using hex_encode_hex [of "sum256 body"] sum256_lt by blast
  then show "store_ok env rs \<Longrightarrow> legal_key env (body_key body)"
    by (auto simp: legal_key_def body_key_def proper_elem_def has_prefix_def)
qed

text \<open>C31: The body of every passage can be read back: once a document was ingested into a file store,
  every passage with a body carries a reference to it, and under the key of the reference the store
  holds exactly the bytes of the passage, provided no two different passages of the document have the
  same hash.\<close>

theorem passage_bodies_are_stored:
  assumes "ingest_content_entity_states env h content path system auth now d = Some (d', Inr ss)"
    and "dh_store h = Some (file_put senv)" and "store_ok senv rs"
    and "split_passages (de_unicode env) content (format_for_ext (de_unicode env) (path_ext path)) = Some ps"
    and "inj_on body_key (p_body ` set ps)"
  shows "list_all2 (\<lambda>p s. p_body p = [] \<or> (\<exists>r. es_storage s = Some r \<and> stored senv (sr_key r) d' = Some (p_body p)
      \<and> sr_size r = length (p_body p) \<and> sr_instance r = dh_instance h)) ps (tl ss)"
proof -
  let ?d = "document_passage env content path system auth now"
  obtain ps' where "split_passages (de_unicode env) content (format_for_ext (de_unicode env) (path_ext path)) = Some ps'"
    and ss: "tl ss = map (\<lambda>p. passage_state (de_ref env) (de_content env) (stored_passage h (?d p))) ps'"
    and st: "passage_states h (de_ref env) (de_content env) (map ?d ps') d = (d', Some (tl ss))"
    by (rule ingest_content_ok [OF assms(1)]) auto
  then have ps: "ps' = ps" using assms(4) by simp
  have inj: "inj_on body_key (pa_body ` set (map ?d ps'))" using assms(5) by (simp add: ps image_image)
  have "stored senv (body_key (p_body p)) d' = Some (p_body p)" if "p \<in> set ps" "p_body p \<noteq> []" for p
    using fs.bodies_retrievable(1) [OF st assms(2) body_key_legal [OF assms(3)] inj, of "?d p"] that by (simp add: ps)
  then show ?thesis
    unfolding ss ps by (auto simp: list_all2_map2 list_all2_same stored_passage_def)
qed

section \<open>Listing\<close>

text \<open>A disk on which the store may list: paths are canonical, the directories above every file are
  there, files are no directories, and the root is one.\<close>

definition disk_ok :: "string list \<Rightarrow> disk \<Rightarrow> bool" where
  "disk_ok rs d \<longleftrightarrow>
     gm_wf (dk_files d) \<and> canonical_path rs \<in> set (dk_dirs d)
     \<and> (\<forall>p \<in> fst ` set (dk_files d). \<exists>es. list_all proper_elem es \<and> p = canonical_path es)"

text \<open>The keys the store should list: those of the files below the root that are not temporary.\<close>

definition listable :: "string list \<Rightarrow> disk \<Rightarrow> string set" where
  "listable rs d =
     {str_join es ''/'' | es. es \<noteq> [] \<and> list_all proper_elem es \<and> gm_has (dk_files d) (canonical_path (rs @ es))
        \<and> \<not> has_prefix (last es) ''.tmp-''}"

lemma key_from_path_canonical:
  assumes "rs \<noteq> []" "es \<noteq> []"
  shows "key_from_path (canonical_path rs) (canonical_path (rs @ es)) = str_join es ''/''"
  using canonical_append [OF assms] by (simp add: key_from_path_def trim_prefix_def has_prefix_def)

lemma under_dir:
  assumes "list_all proper_elem a" "a \<noteq> []" "list_all proper_elem b"
  shows "has_prefix (canonical_path b) (canonical_path a @ ''/'') \<longleftrightarrow> (\<exists>c. c \<noteq> [] \<and> b = a @ c)"
proof
  assume h: "has_prefix (canonical_path b) (canonical_path a @ ''/'')"
  then have "within_root a b" using under_root_iff [OF assms(1,3)] by simp
  then obtain c where c: "b = a @ c" using assms(2) by (auto simp: within_root_def prefix_def)
  moreover have "c \<noteq> []" using h c by (auto simp: has_prefix_def)
  ultimately show "\<exists>c. c \<noteq> [] \<and> b = a @ c" by blast
qed (use assms(2) join_prefix in auto)

text \<open>What the walk from a directory \<open>rs @ q\<close> lists.\<close>

lemma walk_keys:
  assumes "rs \<noteq> []" "list_all proper_elem (rs @ q)" "disk_ok rs d"
  shows "{k. \<exists>p \<in> fst ` set (dk_files d). has_prefix p (canonical_path (rs @ q) @ ''/'') \<and> \<not> has_prefix (path_base p) ''.tmp-''
      \<and> k = key_from_path (canonical_path rs) p}
    = {k \<in> listable rs d. \<exists>c. c \<noteq> [] \<and> k = str_join (q @ c) ''/'' \<and> list_all proper_elem c}" (is "?l = ?r")
proof
  show "?l \<subseteq> ?r"
  proof
    fix k assume "k \<in> ?l"
    then obtain p where p: "p \<in> fst ` set (dk_files d)" "has_prefix p (canonical_path (rs @ q) @ ''/'')"
        "\<not> has_prefix (path_base p) ''.tmp-''" "k = key_from_path (canonical_path rs) p" by blast
    obtain es where es: "list_all proper_elem es" "p = canonical_path es" using assms(3) p(1) by (auto simp: disk_ok_def)
    obtain c where c: "c \<noteq> []" "es = rs @ q @ c"
      using p(2) under_dir [OF assms(2) _ es(1)] assms(1) es(2) by auto
    have pc: "list_all proper_elem (q @ c)" "list_all proper_elem c" using es(1) c(2) by auto
    have k: "k = str_join (q @ c) ''/''" using key_from_path_canonical [OF assms(1), of "q @ c"] c p(4) es(2) by simp
    obtain c' e where e: "c = c' @ [e]" using c(1) by (cases c rule: rev_cases) auto
    have "path_base p = last (q @ c)" using path_base_canonical [of e "rs @ q @ c'"] pc e c(2) es(2) by simp
    then have "k \<in> listable rs d"
      using p(1,3) pc c es(2) k by (auto simp: listable_def gm_has_iff intro!: exI [of _ "q @ c"])
    with k c(1) pc(2) show "k \<in> ?r" by blast
  qed
  show "?r \<subseteq> ?l"
  proof
    fix k assume "k \<in> ?r"
    then obtain es c where es: "es \<noteq> []" "list_all proper_elem es" "gm_has (dk_files d) (canonical_path (rs @ es))"
        "\<not> has_prefix (last es) ''.tmp-''" "k = str_join es ''/''" and c: "c \<noteq> []" "k = str_join (q @ c) ''/''" "list_all proper_elem c"
      by (auto simp: listable_def)
    have pq: "list_all proper_elem (q @ c)" "list_all proper_elem q" using assms(2) c(3) by auto
    have "es = q @ c" using str_join_inj [OF es(2) pq(1)] es(5) c(2) by (simp add: canonical_path_def)
    moreover obtain es' e where e: "es = es' @ [e]" using es(1) by (cases es rule: rev_cases) auto
    moreover have "path_base (canonical_path (rs @ es)) = last es"
      using es(2) path_base_canonical [of e "rs @ es'"] by (simp add: e)
    ultimately have "has_prefix (canonical_path (rs @ es)) (canonical_path (rs @ q) @ ''/'')"
      "path_base (canonical_path (rs @ es)) = last es"
      using under_dir [OF assms(2), of "rs @ es"] assms(1,2) es(2) c(1) by auto
    moreover have "k = key_from_path (canonical_path rs) (canonical_path (rs @ es))"
      using key_from_path_canonical [OF assms(1) es(1)] es(5) by simp
    ultimately show "k \<in> ?l" using es(3,4) unfolding gm_has_iff
      by (intro CollectI bexI [of _ "canonical_path (rs @ es)"]) simp_all
  qed
qed
lemma dirs_above_snoc:
  assumes "list_all proper_elem (es @ [e])"
  shows "dirs_above (canonical_path (es @ [e])) = dirs_above (canonical_path es) @ [canonical_path (es @ [e])]"
proof -
  have es: "list_all proper_elem es" using assms by simp
  have "map (\<lambda>i. canonical_path (take i (es @ [e]))) [1..<Suc (length es)] = map (\<lambda>i. canonical_path (take i es)) [1..<Suc (length es)]"
    by (rule map_cong) auto
  then show ?thesis unfolding dirs_above_canonical [OF assms] dirs_above_canonical [OF es] by simp
qed

lemma deepest_is_deepest:
  assumes "rs \<noteq> []" "list_all proper_elem (rs @ ps)" "canonical_path rs \<in> set (dk_dirs d)"
  shows "\<exists>j \<le> length ps. deepest_existing (canonical_path rs) d (canonical_path (rs @ ps)) = canonical_path (rs @ take j ps)
    \<and> (j < length ps \<longleftrightarrow> canonical_path (rs @ ps) \<notin> set (dk_dirs d))"
  using assms(2)
proof (induction ps rule: rev_induct)
  case Nil
  obtain es e where rs: "rs = es @ [e]" using assms(1) by (cases rs rule: rev_cases) auto
  have "dirs_above (canonical_path rs) = dirs_above (canonical_path es) @ [canonical_path rs]"
    using Nil dirs_above_snoc [of es e] rs by simp
  then show ?case using assms(3) by (simp add: deepest_existing_def has_prefix_def)
next
  case (snoc e ps)
  then have pr: "list_all proper_elem ((rs @ ps) @ [e])" "list_all proper_elem (rs @ ps)" by simp_all
  have pre: "has_prefix (canonical_path (rs @ xs)) (canonical_path rs)" for xs
    using canonical_append [OF assms(1), of xs] by (cases "xs = []") (simp_all add: has_prefix_def)
  have da: "dirs_above (canonical_path (rs @ ps @ [e])) = dirs_above (canonical_path (rs @ ps)) @ [canonical_path (rs @ ps @ [e])]"
    using dirs_above_snoc [OF pr(1)] by simp
  show ?case
  proof (cases "canonical_path (rs @ ps @ [e]) \<in> set (dk_dirs d)")
    case True
    then show ?thesis using pre [of "ps @ [e]"]
      by (intro exI [of _ "length (ps @ [e])"]) (simp add: deepest_existing_def da)
  next
    case False
    then have "deepest_existing (canonical_path rs) d (canonical_path (rs @ ps @ [e])) = deepest_existing (canonical_path rs) d (canonical_path (rs @ ps))"
      using pre [of "ps @ [e]"] by (simp add: deepest_existing_def da)
    moreover obtain j where "j \<le> length ps" "deepest_existing (canonical_path rs) d (canonical_path (rs @ ps)) = canonical_path (rs @ take j ps)"
      using snoc.IH pr(2) by blast
    ultimately show ?thesis using False by (intro exI [of _ j]) simp
  qed
qed

text \<open>A key that begins like another one shares all its elements but the last.\<close>

lemma join_prefix_elems:
  assumes "has_prefix (str_join es ''/'') (str_join ps ''/'')" "list_all proper_elem es" "list_all proper_elem ps" "ps \<noteq> []"
  shows "take (length ps - 1) es = butlast ps \<and> length ps \<le> length es"
  using assms
proof (induction ps arbitrary: es rule: induct_list012)
  case (2 p)
  then show ?case by (cases es) (auto simp: has_prefix_def proper_elem_def)
next
  case (3 p q ps)
  have tw: "takeWhile (\<lambda>c. c \<noteq> CHR ''/'') (a @ CHR ''/'' # b) = a" if "CHR ''/'' \<notin> set a" for a b
    using that by (auto simp: takeWhile_append2 takeWhile_tail)
  from "3.prems"(1) obtain t where t: "str_join es ''/'' = p @ ''/'' @ str_join (q # ps) ''/'' @ t"
    by (auto simp: has_prefix_iff)
  have p: "CHR ''/'' \<notin> set p" "p \<noteq> []" using "3.prems"(3) by (auto simp: proper_elem_def)
  obtain e es' where es: "es = e # es'" using t p(2) by (cases es) auto
  have e: "CHR ''/'' \<notin> set e" using "3.prems"(2) es by (auto simp: proper_elem_def)
  have "es' \<noteq> []" using t e es by (auto dest!: arg_cong [of _ _ set])
  then have j: "str_join es ''/'' = e @ CHR ''/'' # str_join es' ''/''" using es by (cases es') auto
  with t have "takeWhile (\<lambda>c. c \<noteq> CHR ''/'') (e @ CHR ''/'' # str_join es' ''/'')
      = takeWhile (\<lambda>c. c \<noteq> CHR ''/'') (p @ CHR ''/'' # (str_join (q # ps) ''/'' @ t))" by simp
  then have ep: "e = p" using tw [OF e] tw [OF p(1)] by simp
  then have "str_join es' ''/'' = str_join (q # ps) ''/'' @ t" using t j by simp
  then have "has_prefix (str_join es' ''/'') (str_join (q # ps) ''/'')" by (auto simp: has_prefix_iff)
  from "3.IH"(2) [OF this] "3.prems"(2,3) es ep show ?case by auto
qed simp

lemma sorted_sort_strings: "sorted (sort_strings xs)"
  using string_order.stable_sort_sorted [of xs] by (simp add: sort_strings_def not_less)

text \<open>A listing gives, in order and each once, the keys of the store that begin with the prefix; but
  where the prefix is itself the name of a directory it gives only the keys below that directory, so
  that keys which merely continue its last element are left out.\<close>

theorem list_keys_exact:
  assumes "store_ok env rs" and "disk_ok rs d" and "st_live env (dk_clock d)" and "list_all proper_elem ps"
  shows "\<exists>ks. snd (list_keys env (str_join ps ''/'') d) = Inr ks \<and> sorted ks \<and> distinct ks
    \<and> set ks = {k \<in> listable rs d. has_prefix k (if ps \<noteq> [] \<and> canonical_path (rs @ ps) \<in> set (dk_dirs d)
        then str_join ps ''/'' @ ''/'' else str_join ps ''/'')}"
proof -
  have rs: "st_root env = canonical_path rs" "rs \<noteq> []" "list_all proper_elem rs" using assms(1) by (auto simp: store_ok_def)
  have dir: "canonical_path rs \<in> set (dk_dirs d)" using assms(2) by (simp add: disk_ok_def)
  define from_dir where "from_dir q = filter (\<lambda>k. has_prefix k (str_join ps ''/''))
      (map (key_from_path (canonical_path rs))
        (filter (\<lambda>p. has_prefix p (canonical_path (rs @ q) @ ''/'') \<and> \<not> has_prefix (path_base p) ''.tmp-'') (map fst (dk_files d))))" for q
  obtain j where j: "snd (list_keys env (str_join ps ''/'') d) = Inr (sort_strings (from_dir (take j ps)))" "j \<le> length ps"
      "ps \<noteq> [] \<Longrightarrow> j < length ps \<longleftrightarrow> canonical_path (rs @ ps) \<notin> set (dk_dirs d)"
  proof (cases "ps = []")
    case True
    then show ?thesis using assms(3) that [of 0] by (simp add: list_keys_def Let_def rs(1) from_dir_def)
  next
    case False
    have "str_join ps ''/'' \<noteq> []" using False assms(4) by (cases ps rule: remdups_adj.cases) (auto simp: proper_elem_def)
    moreover have sp: "str_split (str_join ps ''/'') (CHR ''/'') = ps"
      using str_split_join [OF False, of "CHR ''/''"] assms(4) by (auto simp: list_all_iff proper_elem_def)
    moreover have "key_elems (str_join ps ''/'') = ps" "''..'' \<notin> set ps"
      unfolding key_elems_def sp using assms(4) by (auto simp: list_all_iff proper_elem_def filter_id_conv)
    ultimately have "resolve_key (st_root env) (str_join ps ''/'') = Inr (canonical_path (rs @ ps))" "str_join ps ''/'' \<noteq> []"
      using resolve_key_eq [OF rs(3,2), of "str_join ps ''/''"] False by (simp_all add: rs(1))
    moreover obtain i where i: "i \<le> length ps" "i < length ps \<longleftrightarrow> canonical_path (rs @ ps) \<notin> set (dk_dirs d)"
      "deepest_existing (canonical_path rs) d (canonical_path (rs @ ps)) = canonical_path (rs @ take i ps)"
      using deepest_is_deepest [OF rs(2) _ dir, of ps] rs(3) assms(4) by auto
    ultimately show ?thesis
      by (intro that [of i]) (use assms(3) i in \<open>simp_all add: list_keys_def Let_def rs(1) from_dir_def\<close>)
  qed
  let ?q = "take j ps"
  have pq: "list_all proper_elem (rs @ ?q)" using rs(3) assms(4) by (auto simp: list_all_iff dest: in_set_takeD)
  have "set (from_dir ?q) = {k \<in> listable rs d. has_prefix k (str_join ps ''/'') \<and> (\<exists>c. c \<noteq> [] \<and> k = str_join (?q @ c) ''/'' \<and> list_all proper_elem c)}"
  proof -
    have "key_from_path (canonical_path rs) ` {p \<in> fst ` set (dk_files d). has_prefix p (canonical_path (rs @ ?q) @ ''/'') \<and> \<not> has_prefix (path_base p) ''.tmp-''}
        = {k. \<exists>p \<in> fst ` set (dk_files d). has_prefix p (canonical_path (rs @ ?q) @ ''/'') \<and> \<not> has_prefix (path_base p) ''.tmp-''
            \<and> k = key_from_path (canonical_path rs) p}" by blast
    then show ?thesis unfolding walk_keys [OF rs(2) pq assms(2)]
      by (simp only: from_dir_def set_filter set_map) blast
  qed
  also have "\<dots> = {k \<in> listable rs d. has_prefix k (if ps \<noteq> [] \<and> canonical_path (rs @ ps) \<in> set (dk_dirs d)
        then str_join ps ''/'' @ ''/'' else str_join ps ''/'')}"
  proof -
    have "(has_prefix k (str_join ps ''/'') \<and> (\<exists>c. c \<noteq> [] \<and> k = str_join (?q @ c) ''/'' \<and> list_all proper_elem c))
      \<longleftrightarrow> has_prefix k (if ps \<noteq> [] \<and> canonical_path (rs @ ps) \<in> set (dk_dirs d) then str_join ps ''/'' @ ''/'' else str_join ps ''/'')"
      if k: "k \<in> listable rs d" for k
    proof -
      obtain es where es: "es \<noteq> []" "list_all proper_elem es" "k = str_join es ''/''" using k by (auto simp: listable_def)
      show ?thesis
      proof (cases "ps \<noteq> [] \<and> canonical_path (rs @ ps) \<in> set (dk_dirs d)")
        case True
        then have q: "?q = ps" "ps \<noteq> []" using j(2,3) by auto
        have "has_prefix k (str_join ps ''/'' @ ''/'') \<longleftrightarrow> (\<exists>c. c \<noteq> [] \<and> es = ps @ c)"
          using under_dir [OF assms(4) q(2) es(2)] by (simp add: canonical_path_def has_prefix_def es(3))
        moreover have "has_prefix (str_join (ps @ c) ''/'') (str_join ps ''/'')" if "c \<noteq> []" for c
          using that q(2) by (simp add: str_join_append has_prefix_def)
        moreover have "es = ps @ c" if "str_join es ''/'' = str_join (ps @ c) ''/''" "list_all proper_elem c" for c
          using str_join_inj [OF es(2), of "ps @ c"] that assms(4) by (simp add: canonical_path_def)
        ultimately show ?thesis using True q es by fastforce
      next
        case False
        have "\<exists>c. c \<noteq> [] \<and> k = str_join (?q @ c) ''/'' \<and> list_all proper_elem c" if "has_prefix k (str_join ps ''/'')"
        proof (cases "ps = []")
          case True
          with es show ?thesis by auto
        next
          case ne: False
          then have jl: "j < length ps" using False j(3) by simp
          from join_prefix_elems [OF that [unfolded es(3)] es(2) assms(4) ne]
          have a: "take (length ps - 1) es = butlast ps" "length ps \<le> length es" by auto
          have "take j es = take j (take (length ps - 1) es)" using jl by (simp add: min_absorb1)
          also have "\<dots> = take j ps" unfolding a(1) using jl by (rule take_butlast)
          finally have "es = ?q @ drop j es" by (metis append_take_drop_id)
          moreover have "drop j es \<noteq> []" "list_all proper_elem (drop j es)"
            using jl a(2) es(2) by (auto simp: list_all_iff dest: in_set_dropD)
          ultimately show ?thesis using es(3) by metis
        qed
        with False show ?thesis by auto
      qed
    qed
    then show ?thesis by blast
  qed
  finally have set_eq: "set (from_dir ?q) = \<dots>" .
  have "distinct (from_dir ?q)"
  proof -
    have "inj_on (key_from_path (canonical_path rs)) {p. has_prefix p (canonical_path (rs @ ?q) @ ''/'')}"
    proof (rule inj_onI)
      have pre: "has_prefix p (canonical_path rs @ ''/'')" if "has_prefix p (canonical_path (rs @ ?q) @ ''/'')" for p
        using that canonical_append [OF rs(2), of ?q] by (cases "?q = []") (auto simp: has_prefix_iff)
      have kp: "key_from_path (canonical_path rs) (canonical_path rs @ ''/'' @ t) = t" for t
        by (simp add: key_from_path_def trim_prefix_def has_prefix_def)
      fix x y assume xy: "x \<in> {p. has_prefix p (canonical_path (rs @ ?q) @ ''/'')}" "y \<in> {p. has_prefix p (canonical_path (rs @ ?q) @ ''/'')}"
        and eq: "key_from_path (canonical_path rs) x = key_from_path (canonical_path rs) y"
      obtain tx where x: "x = canonical_path rs @ ''/'' @ tx" using pre [of x] xy(1) by (auto simp: has_prefix_iff)
      obtain ty where y: "y = canonical_path rs @ ''/'' @ ty" using pre [of y] xy(2) by (auto simp: has_prefix_iff)
      show "x = y" using eq unfolding x y kp by simp
    qed
    moreover have "distinct (map fst (dk_files d))" using assms(2) by (simp add: disk_ok_def gm_wf_def)
    ultimately show ?thesis unfolding from_dir_def
      by (intro distinct_filter) (auto simp: distinct_map intro: inj_on_subset)
  qed
  then show ?thesis using j(1) set_eq sorted_sort_strings [of "from_dir ?q"]
    by (intro exI [of _ "sort_strings (from_dir ?q)"]) simp
qed
section \<open>Where the store departs from what it documents\<close>

definition demo_store :: store_env where
  "demo_store =
     \<lparr>st_root = ''/s'', st_live = (\<lambda>_. True), st_fault = (\<lambda>_ _. False), st_tmp = (\<lambda>_. ''1''), st_partial = (\<lambda>_ _. [])\<rparr>"

definition demo_disk :: disk where
  "demo_disk = \<lparr>dk_files = [(''/s/ab/x'', ''1''), (''/s/abc'', ''2'')], dk_dirs = [''/s'', ''/s/ab''], dk_clock = 0\<rparr>"

text \<open>The comment promises that the prefix \<open>foo/ba\<close> matches \<open>foo/bar\<close>; it does not once \<open>foo/ba\<close> is a directory.\<close>

lemma list_misses_continuations:
  "snd (list_keys demo_store ''ab'' demo_disk) = Inr [''ab/x'']" "snd (list_keys demo_store ''a'' demo_disk) = Inr [''ab/x'', ''abc'']"
  by code_simp+

lemma dot_prefix_is_refused: "resolve_key ''/s'' ''.'' = Inl OutsideKey" "resolve_key ''/s'' ''.git'' = Inr ''/s/.git''"
  by code_simp+

text \<open>A store rooted at \<open>/\<close> is created, but refuses every key.\<close>

lemma slash_root_refuses_keys: "resolve_key ''/'' ''a'' = Inl OutsideKey"
  by code_simp

section \<open>Examples\<close>

lemma demo_store_ok: "store_ok demo_store [''s'']"
  by (simp add: store_ok_def demo_store_def canonical_path_def proper_elem_def)

lemma demo_plain: "plain_key ''k''" "plain_key ''d/k''"
  by code_simp+

theorem store_put_is_atomic_witness:
  "stored demo_store ''k'' (fst (put_reader demo_store ''k'' ''v'' demo_disk)) = Some ''v''"
proof -
  have p: "put_reader demo_store ''k'' ''v'' demo_disk
      = (fst (put_reader demo_store ''k'' ''v'' demo_disk), Inr 1)" by code_simp
  show ?thesis using store_put_is_atomic [OF demo_store_ok demo_plain(1) p demo_plain(1)] by simp
qed

theorem store_stays_under_root_witness:
  "map_of (dk_files (fst (put_reader demo_store ''../etc'' ''v'' demo_disk))) ''/etc'' = map_of (dk_files demo_disk) ''/etc''"
proof -
  have "\<not> has_prefix ''/etc'' (st_root demo_store @ ''/'')" by code_simp
  from store_stays_under_root [OF demo_store_ok this] show ?thesis by blast
qed

theorem list_keys_exact_witness:
  "\<exists>ks. snd (list_keys demo_store (str_join [''ab''] ''/'') demo_disk) = Inr ks \<and> sorted ks \<and> distinct ks
    \<and> set ks = {k \<in> listable [''s''] demo_disk. has_prefix k ''ab/''}"
proof -
  have c: "canonical_path [''s'', ''ab'', ''x''] = ''/s/ab/x''" "canonical_path [''s'', ''abc''] = ''/s/abc''"
    "canonical_path [''s''] = ''/s''" "canonical_path [''s'', ''ab''] = ''/s/ab''" by code_simp+
  have p: "list_all proper_elem [''s'', ''ab'', ''x'']" "list_all proper_elem [''s'', ''abc'']" "list_all proper_elem [''ab'']"
    by code_simp+
  have "disk_ok [''s''] demo_disk"
  proof -
    have "\<exists>es. list_all proper_elem es \<and> ''/s/ab/x'' = canonical_path es" "\<exists>es. list_all proper_elem es \<and> ''/s/abc'' = canonical_path es"
      using p(1,2) c(1,2) by metis+
    then show ?thesis by (simp add: disk_ok_def c(3) demo_disk_def gm_wf_def)
  qed
  moreover have "st_live demo_store (dk_clock demo_disk)" by (simp add: demo_store_def)
  moreover have "''/s/ab'' \<in> set (dk_dirs demo_disk)" by (simp add: demo_disk_def)
  ultimately show ?thesis
    using list_keys_exact [OF demo_store_ok, of demo_disk, OF _ _ p(3)] c(4) by simp
qed

definition demo_file_handler :: "disk doc_handler" where
  "demo_file_handler = \<lparr>dh_store = Some (file_put demo_store), dh_instance = ''bodies'', dh_project = []\<rparr>"

theorem passage_bodies_are_stored_witness:
  "\<exists>d' ss ps. ingest_content_entity_states demo_doc_env demo_file_handler ''hello'' ''a.md'' ''docs'' demo_doc_authority 7 demo_disk
      = Some (d', Inr ss)
    \<and> split_passages (de_unicode demo_doc_env) ''hello'' (format_for_ext (de_unicode demo_doc_env) (path_ext ''a.md'')) = Some ps
    \<and> list_all2 (\<lambda>p s. p_body p = [] \<or> (\<exists>r. es_storage s = Some r \<and> stored demo_store (sr_key r) d' = Some (p_body p)
      \<and> sr_size r = length (p_body p) \<and> sr_instance r = ''bodies'')) ps (tl ss)"
proof -
  let ?f = "format_for_ext (de_unicode demo_doc_env) (path_ext ''a.md'')"
  obtain p where ps: "split_passages (de_unicode demo_doc_env) ''hello'' ?f = Some [p]"
  proof -
    have "map_option length (split_passages (de_unicode demo_doc_env) ''hello'' ?f) = Some 1" by code_simp
    then show ?thesis using that by (auto simp: length_Suc_conv)
  qed
  have auth: "authority_validate (de_limit demo_doc_env) (de_prefix demo_doc_env) demo_doc_authority = None" by code_simp
  have put: "\<exists>d'. file_put demo_store (body_key b) v demo_disk = (d', True)" for b v
  proof -
    have k: "proper_elem (body_key b)" "plain_key (body_key b)"
      using body_key_legal [OF demo_store_ok, of b] by (auto simp: legal_key_def legal_plain)
    have c: "canonical_path [''s''] = ''/s''" "dirs_above ''/s'' = [''/s'']" by code_simp+
    have r: "resolve_key (st_root demo_store) (body_key b) = Inr (canonical_path ([''s''] @ [body_key b]))"
      using plain_resolve [OF demo_store_ok k(2)] k(1) by simp
    have "path_dir (canonical_path ([''s''] @ [body_key b])) = ''/s''"
      using path_dir_canonical [of "[''s'']" "body_key b"] k(1) c(1) by (simp add: proper_elem_def)
    moreover have "canonical_path ([''s''] @ [body_key b]) \<notin> set (dk_dirs demo_disk)"
      by (auto simp: demo_disk_def canonical_path_def body_key_def)
    ultimately show ?thesis
      unfolding file_put_def put_reader_def r
      by (simp add: Let_def demo_store_def demo_disk_def mkdir_all_def c(2) gm_has_def tick_clock_def)
  qed
  obtain d' ss where run: "ingest_content_entity_states demo_doc_env demo_file_handler ''hello'' ''a.md'' ''docs'' demo_doc_authority 7 demo_disk
      = Some (d', Inr ss)"
  proof -
    let ?p = "\<lambda>i t. new_passage_entity demo_doc_env demo_doc_authority ''docs'' i t ''a.md'' (mime_for_ext (de_unicode demo_doc_env) (path_ext ''a.md'')) p 7"
    have "\<exists>d' q. offload_passage_body demo_file_handler (?p i t) demo_disk = (d', Inr q)" for i t
    proof -
      obtain d' where "file_put demo_store (body_key (p_body p)) (p_body p) demo_disk = (d', True)" using put by blast
      then show ?thesis
        by (cases "p_body p = []") (simp_all add: offload_passage_body_def put_body_def demo_file_handler_def new_passage_entity_def)
    qed
    then obtain d' q where "offload_passage_body demo_file_handler
        (?p (document_entity_id (de_limit demo_doc_env) demo_doc_authority ''docs'' ''a.md'') (extract_title ''hello'' (path_base ''a.md'') ?f)) demo_disk = (d', Inr q)"
      by blast
    then show ?thesis
      using auth ps by (intro that) (simp add: ingest_content_entity_states_def Let_def new_entity_def)
  qed
  have st: "dh_store demo_file_handler = Some (file_put demo_store)" "dh_instance demo_file_handler = ''bodies''"
    by (simp_all add: demo_file_handler_def)
  have "inj_on body_key (p_body ` set [p])" by simp
  note l = passage_bodies_are_stored [OF run st(1) demo_store_ok ps this, unfolded st(2)]
  show ?thesis by (intro exI [of _ d'] exI [of _ ss] exI [of _ "[p]"] conjI run ps l)
qed

end
