(* ===== verification/ObjectSource.thy ===== *)
theory ObjectSource
  imports DocEntities
begin

text \<open>
  The object-store source (\<open>handler/objectstore\<close>, \<open>processor/objectstore-source/component.go\<close> and
  the listing of \<open>storage/s3store/store.go\<close>): a pass lists a prefix, plans by change tokens what to
  fetch and what is gone, hands the bytes to the document pipeline, and the component publishes the
  states and announces the removals to the lifecycle pass.
\<close>

section \<open>Listing\<close>

record object_info =
  ob_key :: string
  ob_etag :: string
  ob_size :: int
  ob_modified :: int

text \<open>What the client's channel delivers: an object, or the error that ends the listing.\<close>

datatype list_event = Listed object_info | ListFailed

fun collect_listing :: "list_event list \<Rightarrow> object_info list option" where
  "collect_listing [] = Some []"
| "collect_listing (ListFailed # evs) = None"
| "collect_listing (Listed i # evs) = map_option (Cons i) (collect_listing evs)"

definition s3_objects :: "list_event list \<Rightarrow> object_info list option" where
  "s3_objects evs = map_option (stable_sort (\<lambda>a b. ob_key a < ob_key b)) (collect_listing evs)"

definition s3_list :: "list_event list \<Rightarrow> string list option" where
  "s3_list evs = map_option (map ob_key) (s3_objects evs)"

definition check_key :: "string \<Rightarrow> bool" where
  "check_key key \<longleftrightarrow> key \<noteq> []"

record list_pass =
  ps_prefix :: string
  ps_seen :: "(string, object_info) gomap"

definition enumerate_objects :: "string \<Rightarrow> object_info list \<Rightarrow> list_pass" where
  "enumerate_objects pre infos =
     \<lparr>ps_prefix = pre,
      ps_seen = foldl (\<lambda>m i. if \<not> has_prefix (ob_key i) pre then m else gm_put (ob_key i) i m) [] infos\<rparr>"

definition pass_objects :: "list_pass option \<Rightarrow> object_info list" where
  "pass_objects p =
     (case p of None \<Rightarrow> [] | Some q \<Rightarrow> stable_sort (\<lambda>a b. ob_key a < ob_key b) (map snd (ps_seen q)))"

section \<open>Planning\<close>

datatype skip_reason = SkipUnsupportedFormat | SkipEmptyObject | SkipUnreadable

record plan =
  pl_fetch :: "object_info list"
  pl_removed :: "string list"
  pl_skipped :: "(string \<times> skip_reason) list"

definition change_token :: "object_info \<Rightarrow> string" where
  "change_token i = (if ob_etag i \<noteq> [] then ob_etag i else show_int (ob_size i) @ '':'' @ show_int (ob_modified i))"

definition skip_of :: "unicode_tables \<Rightarrow> object_info \<Rightarrow> skip_reason option" where
  "skip_of u i =
     (if \<not> is_doc_extension u (path_ext (ob_key i)) then Some SkipUnsupportedFormat
      else if ob_size i = 0 then Some SkipEmptyObject else None)"

type_synonym tokens = "(string, string) gomap"

text \<open>One object of the pass; the slices are sorted afterwards.\<close>

definition plan_object :: "unicode_tables \<Rightarrow> tokens \<Rightarrow> plan \<Rightarrow> string \<times> object_info \<Rightarrow> plan" where
  "plan_object u previous pl ki =
     (case ki of (key, i) \<Rightarrow>
        (case skip_of u i of
           Some r \<Rightarrow> pl\<lparr>pl_skipped := pl_skipped pl @ [(key, r)]\<rparr>
         | None \<Rightarrow>
             if map_of previous key = Some (change_token i) then pl
             else pl\<lparr>pl_fetch := pl_fetch pl @ [i]\<rparr>))"

definition plan_pass :: "unicode_tables \<Rightarrow> list_pass option \<Rightarrow> tokens \<Rightarrow> plan" where
  "plan_pass u p previous =
     (case p of
        None \<Rightarrow> \<lparr>pl_fetch = [], pl_removed = [], pl_skipped = []\<rparr>
      | Some q \<Rightarrow>
          (let pl = foldl (plan_object u previous) \<lparr>pl_fetch = [], pl_removed = [], pl_skipped = []\<rparr> (ps_seen q);
               gone = filter (\<lambda>k. \<not> gm_has (ps_seen q) k) (map fst previous)
           in \<lparr>pl_fetch = stable_sort (\<lambda>a b. ob_key a < ob_key b) (pl_fetch pl),
               pl_removed = sort_strings gone,
               pl_skipped = stable_sort (\<lambda>a b. fst a < fst b) (pl_skipped pl)\<rparr>))"

text \<open>The tracker: tokens by key.\<close>

definition record_token :: "string \<Rightarrow> string \<Rightarrow> tokens \<Rightarrow> tokens" where
  "record_token key token m = gm_put key token m"

definition forget_key :: "string \<Rightarrow> tokens \<Rightarrow> tokens" where
  "forget_key key m = gm_del key m"

section \<open>Source URLs\<close>

datatype url_error = NoSourceUrl | BadSourceUrl | WrongScheme | NoBucket

definition source_url :: "string \<Rightarrow> string \<Rightarrow> string" where
  "source_url bucket pre = ''s3'' @ ''://'' @ bucket @ ''/'' @ trim_prefix pre ''/''"

definition parse_source_url :: "string \<Rightarrow> url_error + string \<times> string" where
  "parse_source_url raw =
     (if raw = [] then Inl NoSourceUrl
      else (case url_parse raw of
              None \<Rightarrow> Inl BadSourceUrl
            | Some v \<Rightarrow>
                if u_scheme v \<noteq> ''s3'' then Inl WrongScheme
                else if u_host v = [] then Inl NoBucket
                else Inr (u_host v, trim_prefix (u_path v) ''/'')))"

section \<open>One ingest pass\<close>

record ('e, 'w) object_handler =
  oh_env :: "'e doc_env"
  oh_docs :: "'w doc_handler"
  oh_authority :: authority
  oh_project :: string
  oh_version :: string

text \<open>The store the handler reads: a listing, the bytes of an object, and whether the context lives.\<close>

record 'w object_store =
  os_objects :: "string \<Rightarrow> 'w \<Rightarrow> 'w \<times> object_info list option"
  os_get :: "string \<Rightarrow> 'w \<Rightarrow> 'w \<times> string option"
  os_live :: "'w \<Rightarrow> bool"

record ingested =
  in_key :: string
  in_token :: string
  in_operation :: change_operation
  in_states :: "storage_ref entity_state list"

record removal =
  rm_key :: string
  rm_entity :: string

record pass_result =
  pr_ingested :: "ingested list"
  pr_removed :: "removal list"
  pr_skipped :: "(string \<times> skip_reason) list"
  pr_unchanged :: int
  pr_bucket :: string
  pr_prefix :: string

datatype 'e object_error =
  ObjectAuthority "'e authority_error" | ObjectUrl url_error | ListingFailed | ObjectCancelled | ObjectBodyStore

definition object_system :: "('e, 'w) object_handler \<Rightarrow> string \<Rightarrow> string" where
  "object_system h bucket =
     scoped_system_slug (if oh_project h \<noteq> [] then oh_project h else bucket) (oh_version h)"

fun fetch_objects ::
  "('e, 'w) object_handler \<Rightarrow> 'w object_store \<Rightarrow> tokens \<Rightarrow> string \<Rightarrow> int \<Rightarrow> object_info list
   \<Rightarrow> 'w \<times> tokens \<times> pass_result \<Rightarrow> ('w \<times> tokens \<times> ('e object_error + pass_result)) option" where
  "fetch_objects h st previous system now [] (w, m, res) = Some (w, m, Inr res)"
| "fetch_objects h st previous system now (i # is) (w, m, res) =
     (if \<not> os_live st w then Some (w, m, Inl ObjectCancelled)
      else (case os_get st (ob_key i) w of
          (w1, None) \<Rightarrow>
            fetch_objects h st previous system now is (w1, m, res\<lparr>pr_skipped := pr_skipped res @ [(ob_key i, SkipUnreadable)]\<rparr>)
        | (w1, Some content) \<Rightarrow>
            (case ingest_content_entity_states (oh_env h) (oh_docs h) content (ob_key i) system (oh_authority h) now w1 of
               None \<Rightarrow> None
             | Some (w2, Inl BodyStoreRequired) \<Rightarrow> Some (w2, m, Inl ObjectBodyStore)
             | Some (w2, Inl _) \<Rightarrow>
                 fetch_objects h st previous system now is (w2, m, res\<lparr>pr_skipped := pr_skipped res @ [(ob_key i, SkipUnreadable)]\<rparr>)
             | Some (w2, Inr states) \<Rightarrow>
                 fetch_objects h st previous system now is
                   (w2, record_token (ob_key i) (change_token i) m,
                    res\<lparr>pr_ingested := pr_ingested res @
                      [\<lparr>in_key = ob_key i, in_token = change_token i,
                        in_operation = (if gm_has previous (ob_key i) then OperationModify else OperationCreate),
                        in_states = states\<rparr>]\<rparr>))))"

definition object_pass ::
  "('e, 'w) object_handler \<Rightarrow> 'w object_store \<Rightarrow> string \<Rightarrow> int \<Rightarrow> tokens \<Rightarrow> 'w
   \<Rightarrow> ('w \<times> tokens \<times> ('e object_error + pass_result)) option" where
  "object_pass h st url now previous w =
     (case authority_validate (de_limit (oh_env h)) (de_prefix (oh_env h)) (oh_authority h) of
        Some e \<Rightarrow> Some (w, previous, Inl (ObjectAuthority e))
      | None \<Rightarrow>
          (case parse_source_url url of
             Inl e \<Rightarrow> Some (w, previous, Inl (ObjectUrl e))
           | Inr (bucket, pre) \<Rightarrow>
               (case os_objects st pre w of
                  (w1, None) \<Rightarrow> Some (w1, previous, Inl ListingFailed)
                | (w1, Some infos) \<Rightarrow>
                    (let p = enumerate_objects pre infos;
                         pl = plan_pass (de_unicode (oh_env h)) (Some p) previous;
                         system = object_system h bucket;
                         res = \<lparr>pr_ingested = [], pr_removed = [], pr_skipped = pl_skipped pl,
                                pr_unchanged = int (length (ps_seen p)) - int (length (pl_fetch pl)) - int (length (pl_skipped pl)),
                                pr_bucket = bucket, pr_prefix = pre\<rparr>
                     in (case fetch_objects h st previous system now (pl_fetch pl) (w1, previous, res) of
                           None \<Rightarrow> None
                         | Some (w2, m, Inl e) \<Rightarrow> Some (w2, m, Inl e)
                         | Some (w2, m, Inr r) \<Rightarrow>
                             Some (w2, m, Inr (r\<lparr>pr_removed := pr_removed r @
                               map (\<lambda>k. \<lparr>rm_key = k, rm_entity = document_entity_id (de_limit (oh_env h)) (oh_authority h) system k\<rparr>)
                                 (pl_removed pl)\<rparr>)))))))"

definition result_states :: "pass_result option \<Rightarrow> storage_ref entity_state list" where
  "result_states r = (case r of None \<Rightarrow> [] | Some x \<Rightarrow> concat (map in_states (pr_ingested x)))"

definition result_skip_counts :: "pass_result option \<Rightarrow> (skip_reason, int) gomap" where
  "result_skip_counts r =
     (case r of None \<Rightarrow> []
      | Some x \<Rightarrow> foldl (\<lambda>m (_, why). gm_put why ((case map_of m why of None \<Rightarrow> 0 | Some n \<Rightarrow> n) + 1) m) [] (pr_skipped x))"

text \<open>The events \<open>Watch\<close> emits for a completed pass.\<close>

definition pass_events :: "int \<Rightarrow> pass_result \<Rightarrow> change_event list" where
  "pass_events now r =
     map (\<lambda>i. \<lparr>ce_path = in_key i, ce_operation = in_operation i, ce_time = now, ce_states = in_states i\<rparr>) (pr_ingested r)
     @ map (\<lambda>d. \<lparr>ce_path = rm_key d, ce_operation = OperationDelete, ce_time = now, ce_states = []\<rparr>) (pr_removed r)"


section \<open>The component\<close>

text \<open>What the component is configured with, and what it keeps. The world \<open>'w\<close> holds the object store,
  the body store and the buffer of the publisher; \<open>oc_send\<close> is its \<open>Send\<close>. The requests announced to
  the lifecycle pass are kept in order; each is published by a goroutine whose outcome only moves a
  status flag.\<close>

record ('e, 'w) object_config =
  oc_handler :: "('e, 'w) object_handler"
  oc_store :: "'w object_store"
  oc_rules :: graph_rules
  oc_send :: "storage_ref entity_payload \<Rightarrow> 'w \<Rightarrow> 'w \<times> bool"
  oc_org :: string
  oc_bucket :: string
  oc_prefix :: string

record 'w object_component =
  cs_tokens :: tokens
  cs_distinct :: distinct_tracker
  cs_errors :: int
  cs_published :: int
  cs_skipped :: "(skip_reason, int) gomap"
  cs_unreachable :: bool
  cs_requests :: "lifecycle_request list"
  cs_world :: 'w

definition component_system :: "('e, 'w) object_config \<Rightarrow> string" where
  "component_system c = object_system (oc_handler c) (oc_bucket c)"

definition publish_state :: "('e, 'w) object_config \<Rightarrow> storage_ref entity_state \<Rightarrow> 'w object_component \<Rightarrow> 'w object_component" where
  "publish_state c s st =
     (case payload_from_state (oc_rules c) (Some s) of
        Inl _ \<Rightarrow> st\<lparr>cs_errors := cs_errors st + 1\<rparr>
      | Inr p \<Rightarrow>
          (case oc_send c p (cs_world st) of
             (w, False) \<Rightarrow> st\<lparr>cs_errors := cs_errors st + 1, cs_world := w\<rparr>
           | (w, True) \<Rightarrow>
               st\<lparr>cs_published := cs_published st + 1, cs_world := w,
                  cs_distinct := fst (observe (es_id s) (cs_distinct st))\<rparr>))"

definition publish_document ::
  "('e, 'w) object_config \<Rightarrow> storage_ref entity_state list \<Rightarrow> 'w object_component \<Rightarrow> 'w object_component" where
  "publish_document c states st =
     (if states = [] then st\<lparr>cs_errors := cs_errors st + 1\<rparr> else foldl (\<lambda>st s. publish_state c s st) st states)"

definition reason_file_deleted :: string where "reason_file_deleted = ''file_deleted''"

definition retraction_request :: "('e, 'w) object_config \<Rightarrow> removal list \<Rightarrow> lifecycle_request option" where
  "retraction_request c removed =
     (if removed = [] then None
      else Some \<lparr>lr_org = oc_org c, lr_systems = [component_system c], lr_root = [], lr_reason = reason_file_deleted,
                 lr_absent = Some (map rm_key removed)\<rparr>)"

definition retract :: "('e, 'w) object_config \<Rightarrow> removal list \<Rightarrow> 'w object_component \<Rightarrow> 'w object_component" where
  "retract c removed st =
     (case retraction_request c removed of
        None \<Rightarrow> st
      | Some req \<Rightarrow>
          st\<lparr>cs_tokens := foldl (\<lambda>m r. forget_key (rm_key r) m) (cs_tokens st) removed,
             cs_requests := cs_requests st @ [req]\<rparr>)"

text \<open>\<open>ingestOnce\<close>; the second component tells whether it returned no error.\<close>

definition ingest_once :: "('e, 'w) object_config \<Rightarrow> int \<Rightarrow> 'w object_component \<Rightarrow> ('w object_component \<times> bool) option" where
  "ingest_once c now st =
     (case object_pass (oc_handler c) (oc_store c) (source_url (oc_bucket c) (oc_prefix c)) now (cs_tokens st) (cs_world st) of
        None \<Rightarrow> None
      | Some (w, m, Inl e) \<Rightarrow>
          Some (st\<lparr>cs_tokens := m, cs_world := w, cs_errors := cs_errors st + 1, cs_unreachable := True\<rparr>, False)
      | Some (w, m, Inr r) \<Rightarrow>
          (let st1 = st\<lparr>cs_tokens := m, cs_world := w, cs_unreachable := False, cs_skipped := result_skip_counts (Some r)\<rparr>;
               st2 = foldl (\<lambda>st i. publish_document c (in_states i) st) st1 (pr_ingested r)
           in Some (retract c (pr_removed r) st2, True)))"

definition handle_change_event :: "('e, 'w) object_config \<Rightarrow> change_event \<Rightarrow> 'w object_component \<Rightarrow> 'w object_component" where
  "handle_change_event c ev st =
     (if ce_operation ev = OperationDelete then retract c [\<lparr>rm_key = ce_path ev, rm_entity = []\<rparr>] st
      else if ce_states ev = [] then st\<lparr>cs_errors := cs_errors st + 1\<rparr>
      else publish_document c (ce_states ev) st)"

text \<open>One tick of \<open>Watch\<close>, all of whose events are received: a failed pass only keeps what its tracker
  already recorded.\<close>

definition watch_tick :: "('e, 'w) object_config \<Rightarrow> int \<Rightarrow> 'w object_component \<Rightarrow> 'w object_component option" where
  "watch_tick c now st =
     (case object_pass (oc_handler c) (oc_store c) (source_url (oc_bucket c) (oc_prefix c)) now (cs_tokens st) (cs_world st) of
        None \<Rightarrow> None
      | Some (w, m, Inl e) \<Rightarrow> Some (st\<lparr>cs_tokens := m, cs_world := w\<rparr>)
      | Some (w, m, Inr r) \<Rightarrow>
          Some (foldl (\<lambda>st ev. handle_change_event c ev st) (st\<lparr>cs_tokens := m, cs_world := w\<rparr>) (pass_events now r)))"
section \<open>The plan is the difference\<close>

definition wanted :: "unicode_tables \<Rightarrow> tokens \<Rightarrow> string \<times> object_info \<Rightarrow> bool" where
  "wanted u previous ki \<longleftrightarrow>
     skip_of u (snd ki) = None \<and> map_of previous (fst ki) \<noteq> Some (change_token (snd ki))"

definition declined :: "unicode_tables \<Rightarrow> string \<times> object_info \<Rightarrow> (string \<times> skip_reason) list" where
  "declined u ki = (case skip_of u (snd ki) of None \<Rightarrow> [] | Some r \<Rightarrow> [(fst ki, r)])"

lemma plan_object_foldl:
  "foldl (plan_object u previous) pl kis =
     pl\<lparr>pl_fetch := pl_fetch pl @ map snd (filter (wanted u previous) kis),
        pl_skipped := pl_skipped pl @ concat (map (declined u) kis)\<rparr>"
  by (induction kis arbitrary: pl)
    (auto simp: plan_object_def wanted_def declined_def split: prod.split option.split)

interpretation object_order: strict_weak_order "\<lambda>a b. ob_key a < ob_key b"
  by unfold_locales auto

interpretation skip_order: strict_weak_order "\<lambda>a b :: string \<times> skip_reason. fst a < fst b"
  by unfold_locales auto

lemma key_sorted:
  assumes "strict_weak_order (\<lambda>a b. f a < (f b :: string))" and "distinct (map f xs)"
  shows "sorted_wrt (<) (map f (stable_sort (\<lambda>a b. f a < f b) xs))"
proof -
  let ?ys = "stable_sort (\<lambda>a b. f a < f b) xs"
  have "distinct (map f ?ys)"
    using assms(2) by (metis mset_map mset_stable_sort mset_eq_imp_distinct_iff)
  moreover have "sorted (map f ?ys)"
    using strict_weak_order.stable_sort_sorted [OF assms(1), of xs] by (simp add: sorted_wrt_map not_less)
  ultimately show ?thesis by (simp add: strict_sorted_iff)
qed

definition keyed :: "(string, object_info) gomap \<Rightarrow> bool" where
  "keyed m \<longleftrightarrow> gm_wf m \<and> (\<forall>(k, i) \<in> set m. ob_key i = k)"

lemma keyed_put: "keyed m \<Longrightarrow> keyed (gm_put (ob_key i) i m)"
proof -
  assume k: "keyed m"
  then have wf: "gm_wf (gm_put (ob_key i) i m)" by (simp add: keyed_def)
  have "ob_key j = k" if "(k, j) \<in> set (gm_put (ob_key i) i m)" for k j
  proof -
    have "map_of (gm_put (ob_key i) i m) k = Some j" using that wf by (simp add: gm_get_mem)
    then show ?thesis using k by (auto simp: gm_get_put keyed_def dest!: map_of_SomeD split: if_splits)
  qed
  with wf show ?thesis by (auto simp: keyed_def)
qed

lemma keyed_enumerate: "keyed (ps_seen (enumerate_objects pre infos))"
proof -
  have "keyed m \<Longrightarrow> keyed (foldl (\<lambda>m i. if \<not> has_prefix (ob_key i) pre then m else gm_put (ob_key i) i m) m infos)" for m
    by (induction infos arbitrary: m) (simp_all add: keyed_put)
  from this [of "[]"] show ?thesis by (simp add: enumerate_objects_def keyed_def)
qed

lemma keyed_mem: "keyed m \<Longrightarrow> (k, i) \<in> set m \<longleftrightarrow> map_of m k = Some i \<and> ob_key i = k"
  by (auto simp: keyed_def gm_get_mem)

lemma keyed_keys: "keyed m \<Longrightarrow> map ob_key (map snd m) = map fst m"
  by (auto simp: keyed_def)

text \<open>What a listing observed: the objects below the prefix, when no key is listed twice.\<close>

lemma enumerate_lookup:
  assumes "distinct (map ob_key infos)"
  shows "map_of (ps_seen (enumerate_objects pre infos)) k = Some i \<longleftrightarrow>
    i \<in> set infos \<and> ob_key i = k \<and> has_prefix k pre"
proof -
  have "map_of (foldl (\<lambda>m i. if \<not> has_prefix (ob_key i) pre then m else gm_put (ob_key i) i m) m infos) k = Some i \<longleftrightarrow>
      i \<in> set infos \<and> ob_key i = k \<and> has_prefix k pre
      \<or> map_of m k = Some i \<and> (k \<notin> ob_key ` set infos \<or> \<not> has_prefix k pre)" for m
    using assms
  proof (induction infos arbitrary: m)
    case (Cons j infos)
    then show ?case by (auto simp: gm_get_put)
  qed auto
  from this [of "[]"] show ?thesis by (simp add: enumerate_objects_def)
qed

lemma plan_pass_eq:
  "plan_pass u (Some q) previous =
     \<lparr>pl_fetch = stable_sort (\<lambda>a b. ob_key a < ob_key b) (map snd (filter (wanted u previous) (ps_seen q))),
      pl_removed = sort_strings (filter (\<lambda>k. \<not> gm_has (ps_seen q) k) (map fst previous)),
      pl_skipped = stable_sort (\<lambda>a b. fst a < fst b) (concat (map (declined u) (ps_seen q)))\<rparr>"
  by (simp add: plan_pass_def plan_object_foldl)

lemma set_declined: "set (concat (map (declined u) kis)) = {(k, r). \<exists>i. (k, i) \<in> set kis \<and> skip_of u i = Some r}"
  by (force simp: declined_def split: option.splits)

lemma declined_keys:
  "map fst (concat (map (declined u) kis)) = map fst (filter (\<lambda>ki. skip_of u (snd ki) \<noteq> None) kis)"
  by (induction kis) (auto simp: declined_def split: option.split)

lemma wanted_same: "map_of p' = map_of p \<Longrightarrow> wanted u p' = wanted u p"
  by (simp add: wanted_def fun_eq_iff)

lemma distinct_filter_keys: "gm_wf m \<Longrightarrow> distinct (map fst (filter P m))"
  unfolding gm_wf_def by (rule distinct_map_filter)

lemma plan_pass_visit:
  assumes "keyed m" and "gm_same m' m" and "gm_same p' p"
  shows "plan_pass u (Some (q\<lparr>ps_seen := m'\<rparr>)) p' = plan_pass u (Some (q\<lparr>ps_seen := m\<rparr>)) p"
proof -
  note mm = gm_same_mset [OF assms(2)] and pp = gm_same_mset [OF assms(3)]
  have "set m' = set m" using mm by (metis set_mset_mset)
  moreover have wf': "gm_wf m'" using assms(2) unfolding gm_same_def by blast
  ultimately have km: "gm_wf m'" "keyed m'" using assms(1) unfolding keyed_def by simp_all
  have w: "wanted u p' = wanted u p" by (rule wanted_same) (use assms(3) in \<open>unfold gm_same_def, blast\<close>)
  have "stable_sort (\<lambda>a b. ob_key a < ob_key b) (map snd (filter (wanted u p) m'))
      = stable_sort (\<lambda>a b. ob_key a < ob_key b) (map snd (filter (wanted u p) m))"
  proof (rule object_order.stable_sort_perm)
    show "mset (map snd (filter (wanted u p) m')) = mset (map snd (filter (wanted u p) m))" using mm by simp
    fix a b assume "a \<in> set (map snd (filter (wanted u p) m'))" "b \<in> set (map snd (filter (wanted u p) m'))"
      "\<not> ob_key a < ob_key b" "\<not> ob_key b < ob_key a"
    then show "a = b" using km(2) by (auto simp: keyed_mem)
  qed
  moreover have "stable_sort (\<lambda>a b. fst a < fst b) (concat (map (declined u) m'))
      = stable_sort (\<lambda>a b. fst a < fst b) (concat (map (declined u) m))"
  proof (rule skip_order.stable_sort_perm)
    have "mset (concat (map (declined u) xs)) = (\<Sum>ki \<in># mset xs. mset (declined u ki))" for xs
      by (induction xs) auto
    then show "mset (concat (map (declined u) m')) = mset (concat (map (declined u) m))" using mm by simp
    fix a b assume "a \<in> set (concat (map (declined u) m'))" "b \<in> set (concat (map (declined u) m'))"
      "\<not> fst a < fst b" "\<not> fst b < fst a"
    then obtain i j where "(fst a, i) \<in> set m'" "skip_of u i = Some (snd a)" "(fst a, j) \<in> set m'" "skip_of u j = Some (snd b)"
      and e: "fst a = fst b" unfolding set_declined by auto
    then have "snd a = snd b" unfolding keyed_mem [OF km(2)] by simp
    with e show "a = b" by (rule prod_eqI)
  qed
  moreover have "sort_strings (filter (\<lambda>k. \<not> gm_has m' k) (map fst p')) = sort_strings (filter (\<lambda>k. \<not> gm_has m k) (map fst p))"
  proof (rule sort_strings_perm)
    have "gm_has m' = gm_has m" using assms(2) by (simp add: gm_same_def gm_has_def fun_eq_iff)
    then show "mset (filter (\<lambda>k. \<not> gm_has m' k) (map fst p')) = mset (filter (\<lambda>k. \<not> gm_has m k) (map fst p))"
      using pp by (simp only: mset_filter mset_map)
  qed
  ultimately show ?thesis by (simp add: plan_pass_eq w)
qed

lemma enumerate_members:
  assumes "distinct (map ob_key infos)"
  shows "mset (map snd (ps_seen (enumerate_objects pre infos))) = mset (filter (\<lambda>i. has_prefix (ob_key i) pre) infos)"
proof -
  let ?m = "ps_seen (enumerate_objects pre infos)"
  have k: "keyed ?m" by (rule keyed_enumerate)
  have "distinct (map ob_key (map snd ?m))" using k unfolding keyed_keys [OF k] by (simp add: keyed_def gm_wf_def)
  then have "distinct (map snd ?m)" "distinct (filter (\<lambda>i. has_prefix (ob_key i) pre) infos)"
    using assms unfolding distinct_map by (blast, intro distinct_filter) blast
  moreover have "set (map snd ?m) = set (filter (\<lambda>i. has_prefix (ob_key i) pre) infos)"
  proof -
    have "i \<in> snd ` set ?m \<longleftrightarrow> (\<exists>k. (k, i) \<in> set ?m)" for i by force
    then have "i \<in> snd ` set ?m \<longleftrightarrow> i \<in> set infos \<and> has_prefix (ob_key i) pre" for i
      unfolding keyed_mem [OF k] enumerate_lookup [OF assms] by blast
    then show ?thesis unfolding set_map set_filter by blast
  qed
  ultimately show ?thesis using set_eq_iff_mset_eq_distinct by blast
qed

lemma enumerate_mem:
  assumes "distinct (map ob_key infos)"
  shows "(k, i) \<in> set (ps_seen (enumerate_objects pre infos)) \<longleftrightarrow> i \<in> set infos \<and> ob_key i = k \<and> has_prefix k pre"
  using keyed_mem [OF keyed_enumerate] enumerate_lookup [OF assms] by blast

lemma plan_sets:
  assumes "distinct (map ob_key infos)"
  shows "set (pl_fetch (plan_pass u (Some (enumerate_objects pre infos)) previous)) =
      {i \<in> set infos. has_prefix (ob_key i) pre \<and> skip_of u i = None \<and> map_of previous (ob_key i) \<noteq> Some (change_token i)}"
    and "set (pl_skipped (plan_pass u (Some (enumerate_objects pre infos)) previous)) =
      {(ob_key i, r) | i r. i \<in> set infos \<and> has_prefix (ob_key i) pre \<and> skip_of u i = Some r}"
    and "set (pl_removed (plan_pass u (Some (enumerate_objects pre infos)) previous)) =
      {k. gm_has previous k \<and> \<not> (has_prefix k pre \<and> k \<in> ob_key ` set infos)}"
proof -
  let ?s = "ps_seen (enumerate_objects pre infos)"
  note mem = enumerate_mem [OF assms, of _ _ pre]
  have has: "gm_has ?s k \<longleftrightarrow> has_prefix k pre \<and> k \<in> ob_key ` set infos" for k
  proof -
    have "k \<in> fst ` set ?s \<longleftrightarrow> (\<exists>i. (k, i) \<in> set ?s)" by force
    also have "\<dots> \<longleftrightarrow> has_prefix k pre \<and> k \<in> ob_key ` set infos" unfolding mem by blast
    finally show ?thesis unfolding gm_has_iff .
  qed
  show "set (pl_fetch (plan_pass u (Some (enumerate_objects pre infos)) previous)) =
      {i \<in> set infos. has_prefix (ob_key i) pre \<and> skip_of u i = None \<and> map_of previous (ob_key i) \<noteq> Some (change_token i)}"
  proof -
    have "i \<in> snd ` {ki \<in> set ?s. wanted u previous ki} \<longleftrightarrow> (\<exists>k. (k, i) \<in> set ?s \<and> wanted u previous (k, i))" for i by force
    then have "i \<in> snd ` {ki \<in> set ?s. wanted u previous ki} \<longleftrightarrow> i \<in> set infos \<and> has_prefix (ob_key i) pre \<and> skip_of u i = None
        \<and> map_of previous (ob_key i) \<noteq> Some (change_token i)" for i
      unfolding mem wanted_def by auto
    then show ?thesis unfolding plan_pass_eq plan.simps set_stable_sort set_map set_filter by (intro set_eqI) (simp only: mem_Collect_eq)
  qed
  show "set (pl_skipped (plan_pass u (Some (enumerate_objects pre infos)) previous)) =
      {(ob_key i, r) | i r. i \<in> set infos \<and> has_prefix (ob_key i) pre \<and> skip_of u i = Some r}"
    unfolding plan_pass_eq plan.simps set_stable_sort set_declined mem by auto
  show "set (pl_removed (plan_pass u (Some (enumerate_objects pre infos)) previous)) =
      {k. gm_has previous k \<and> \<not> (has_prefix k pre \<and> k \<in> ob_key ` set infos)}"
    unfolding plan_pass_eq plan.simps set_sort_strings set_filter has set_map gm_has_iff [of previous] by (rule refl)
qed

text \<open>C35: A plan is the difference between the listing and the tracker. Every object below the prefix is
  fetched if the pipeline takes it and its token moved, skipped with its reason if the pipeline does
  not take it, and otherwise left alone; the tracked keys that the listing does not have are removed;
  all three lists are in strict key order, and the objects left alone are the rest of the listing.\<close>

theorem plan_is_difference:
  assumes "distinct (map ob_key infos)" and "gm_wf previous"
  shows "let pl = plan_pass u (Some (enumerate_objects pre infos)) previous; observed = filter (\<lambda>i. has_prefix (ob_key i) pre) infos
    in set (pl_fetch pl) = {i \<in> set observed. skip_of u i = None \<and> map_of previous (ob_key i) \<noteq> Some (change_token i)}
     \<and> set (pl_skipped pl) = {(ob_key i, r) | i r. i \<in> set observed \<and> skip_of u i = Some r}
     \<and> set (pl_removed pl) = {k. gm_has previous k \<and> k \<notin> ob_key ` set observed}
     \<and> sorted_wrt (<) (map ob_key (pl_fetch pl)) \<and> sorted_wrt (<) (map fst (pl_skipped pl)) \<and> sorted_wrt (<) (pl_removed pl)
     \<and> length observed = length (pl_fetch pl) + length (pl_skipped pl)
         + length (filter (\<lambda>i. skip_of u i = None \<and> map_of previous (ob_key i) = Some (change_token i)) observed)"
proof -
  let ?m = "ps_seen (enumerate_objects pre infos)" and ?o = "filter (\<lambda>i. has_prefix (ob_key i) pre) infos"
  let ?pl = "plan_pass u (Some (enumerate_objects pre infos)) previous"
  have k: "keyed ?m" by (rule keyed_enumerate)
  have wf: "gm_wf ?m" using k by (simp add: keyed_def)
  have kk: "map ob_key (map snd (filter P ?m)) = map fst (filter P ?m)" for P
    using k by (auto simp: keyed_def)
  have f: "sorted_wrt (<) (map ob_key (pl_fetch ?pl))"
    unfolding plan_pass_eq plan.simps
    by (rule key_sorted [OF object_order.strict_weak_order_axioms]) (unfold kk, rule distinct_filter_keys [OF wf])
  have s: "sorted_wrt (<) (map fst (pl_skipped ?pl))"
    unfolding plan_pass_eq plan.simps
    by (rule key_sorted [OF skip_order.strict_weak_order_axioms]) (unfold declined_keys, rule distinct_filter_keys [OF wf])
  have r: "sorted_wrt (<) (pl_removed ?pl)"
    using key_sorted [of "\<lambda>x. x", OF string_order.strict_weak_order_axioms, of "filter (\<lambda>k. \<not> gm_has ?m k) (map fst previous)"] assms(2)
    by (simp add: plan_pass_eq sort_strings_def gm_wf_def)
  have obs: "mset (map snd ?m) = mset ?o" by (rule enumerate_members [OF assms(1)])
  have n: "length (filter P ?o) = length (filter (P \<circ> snd) ?m)" for P
  proof -
    have "size (mset (filter P (map snd ?m))) = size (mset (filter P ?o))" using obs by (metis mset_filter)
    then show ?thesis by (simp only: size_mset filter_map length_map)
  qed
  have keys: "fst ki = ob_key (snd ki)" if "ki \<in> set ?m" for ki using k that by (auto simp: keyed_def)
  have "length (pl_fetch ?pl) = length (filter (\<lambda>i. skip_of u i = None \<and> map_of previous (ob_key i) \<noteq> Some (change_token i)) ?o)"
    unfolding n plan_pass_eq plan.simps length_stable_sort length_map
    by (rule arg_cong [of _ _ length], rule filter_cong) (auto simp: wanted_def keys)
  moreover have "length (pl_skipped ?pl) = length (filter (\<lambda>i. skip_of u i \<noteq> None) ?o)"
    using arg_cong [OF declined_keys [of u ?m], of length] unfolding n plan_pass_eq plan.simps length_stable_sort
    by (simp add: comp_def)
  moreover have parts: "length xs = length (filter (\<lambda>i. skip_of u i = None \<and> map_of previous (ob_key i) \<noteq> Some (change_token i)) xs)
      + length (filter (\<lambda>i. skip_of u i \<noteq> None) xs)
      + length (filter (\<lambda>i. skip_of u i = None \<and> map_of previous (ob_key i) = Some (change_token i)) xs)" for xs
    by (induction xs) auto
  ultimately have c: "length ?o = length (pl_fetch ?pl) + length (pl_skipped ?pl)
      + length (filter (\<lambda>i. skip_of u i = None \<and> map_of previous (ob_key i) = Some (change_token i)) ?o)"
    using parts [of ?o] by linarith
  note ps = plan_sets [OF assms(1), where pre = pre and u = u and previous = previous]
  have "set (pl_fetch ?pl) = {i \<in> set ?o. skip_of u i = None \<and> map_of previous (ob_key i) \<noteq> Some (change_token i)}"
    "set (pl_skipped ?pl) = {(ob_key i, r) | i r. i \<in> set ?o \<and> skip_of u i = Some r}"
    unfolding ps set_filter by blast+
  moreover have "set (pl_removed ?pl) = {k. gm_has previous k \<and> k \<notin> ob_key ` set ?o}"
    unfolding ps set_filter by blast
  ultimately show ?thesis
    unfolding Let_def using f s r c by blast
qed
section \<open>A pass and the one after it\<close>

text \<open>The fetched objects fall apart into those that were ingested and those that could not be read, and
  exactly the former are recorded.\<close>

lemma fetch_objects_ok:
  assumes "fetch_objects h st previous system now is (w, m, res) = Some (w', m', Inr r)"
  shows "\<exists>good bad new. is \<in> shuffles good bad \<and> map in_key new = map ob_key good
    \<and> m' = foldl (\<lambda>m i. record_token (ob_key i) (change_token i) m) m good
    \<and> r = res\<lparr>pr_ingested := pr_ingested res @ new, pr_skipped := pr_skipped res @ map (\<lambda>i. (ob_key i, SkipUnreadable)) bad\<rparr>
    \<and> (\<forall>x \<in> set new. \<exists>content wa wb. ingest_content_entity_states (oh_env h) (oh_docs h) content (in_key x) system
          (oh_authority h) now wa = Some (wb, Inr (in_states x)))"
  using assms
proof (induction "is" arbitrary: w m res)
  case Nil
  then show ?case by (intro exI [of _ "[]"]) simp
next
  case (Cons i "is")
  let ?bad = "res\<lparr>pr_skipped := pr_skipped res @ [(ob_key i, SkipUnreadable)]\<rparr>"
  let ?new = "\<lambda>states. \<lparr>in_key = ob_key i, in_token = change_token i,
      in_operation = (if gm_has previous (ob_key i) then OperationModify else OperationCreate), in_states = states\<rparr>"
  obtain w1 bytes where g: "os_get st (ob_key i) w = (w1, bytes)" by (cases "os_get st (ob_key i) w")
  from Cons.prems g consider
      w2 where "fetch_objects h st previous system now is (w2, m, ?bad) = Some (w', m', Inr r)"
    | content w2 states where
      "ingest_content_entity_states (oh_env h) (oh_docs h) content (ob_key i) system (oh_authority h) now w1 = Some (w2, Inr states)"
      "fetch_objects h st previous system now is (w2, record_token (ob_key i) (change_token i) m,
         res\<lparr>pr_ingested := pr_ingested res @ [?new states]\<rparr>) = Some (w', m', Inr r)"
    by (auto split: if_splits option.splits prod.splits sum.splits doc_error.splits)
  then show ?case
  proof cases
    case 1
    from Cons.IH [OF this] obtain good bad new where
      "is \<in> shuffles good bad" "map in_key new = map ob_key good"
      "m' = foldl (\<lambda>m i. record_token (ob_key i) (change_token i) m) m good"
      "r = ?bad\<lparr>pr_ingested := pr_ingested ?bad @ new, pr_skipped := pr_skipped ?bad @ map (\<lambda>i. (ob_key i, SkipUnreadable)) bad\<rparr>"
      "\<forall>x \<in> set new. \<exists>content wa wb. ingest_content_entity_states (oh_env h) (oh_docs h) content (in_key x) system
          (oh_authority h) now wa = Some (wb, Inr (in_states x))" by blast
    then show ?thesis
      by (intro exI [of _ good] exI [of _ "i # bad"] exI [of _ new]) (simp add: Cons_in_shuffles_iff)
  next
    case 2
    from Cons.IH [OF 2(2)] obtain good bad new where
      "is \<in> shuffles good bad" "map in_key new = map ob_key good"
      "m' = foldl (\<lambda>m i. record_token (ob_key i) (change_token i) m) (record_token (ob_key i) (change_token i) m) good"
      "r = res\<lparr>pr_ingested := (pr_ingested res @ [?new states]) @ new, pr_skipped := pr_skipped res @ map (\<lambda>i. (ob_key i, SkipUnreadable)) bad\<rparr>"
      "\<forall>x \<in> set new. \<exists>content wa wb. ingest_content_entity_states (oh_env h) (oh_docs h) content (in_key x) system
          (oh_authority h) now wa = Some (wb, Inr (in_states x))" by auto
    with 2(1) show ?thesis
      by (intro exI [of _ "i # good"] exI [of _ bad] exI [of _ "?new states # new"]) (auto simp: Cons_in_shuffles_iff)
  qed
qed

lemma recorded_lookup:
  assumes "distinct (map ob_key is)"
  shows "map_of (foldl (\<lambda>m i. record_token (ob_key i) (change_token i) m) m is) k =
    (case find (\<lambda>i. ob_key i = k) is of Some i \<Rightarrow> Some (change_token i) | None \<Rightarrow> map_of m k)"
  using assms
proof (induction "is" arbitrary: m)
  case (Cons i "is")
  have "find (\<lambda>j. ob_key j = ob_key i) is = None" using Cons.prems by (simp add: find_None_iff) (metis imageI)
  then show ?case using Cons by (auto simp: record_token_def gm_get_put split: option.split)
qed simp

lemma recorded_wf: "gm_wf m \<Longrightarrow> gm_wf (foldl (\<lambda>m i. record_token (ob_key i) (change_token i) m) m is)"
  by (induction "is" arbitrary: m) (simp_all add: record_token_def)

lemma forgotten_lookup:
  "map_of (foldl (\<lambda>m r. forget_key (rm_key r) m) m rs) k = (if k \<in> rm_key ` set rs then None else map_of m k)"
  by (induction rs arbitrary: m) (auto simp: forget_key_def gm_get_del)

lemma forgotten_wf: "gm_wf m \<Longrightarrow> gm_wf (foldl (\<lambda>m r. forget_key (rm_key r) m) m rs)"
  by (induction rs arbitrary: m) (simp_all add: forget_key_def)

lemma object_pass_ok:
  assumes "object_pass h st url now previous w = Some (w', m, Inr r)"
  obtains bucket pre w1 infos good bad where
    "parse_source_url url = Inr (bucket, pre)" "os_objects st pre w = (w1, Some infos)"
    "pl_fetch (plan_pass (de_unicode (oh_env h)) (Some (enumerate_objects pre infos)) previous) \<in> shuffles good bad"
    "m = foldl (\<lambda>m i. record_token (ob_key i) (change_token i) m) previous good"
    "map in_key (pr_ingested r) = map ob_key good"
    "pr_skipped r = pl_skipped (plan_pass (de_unicode (oh_env h)) (Some (enumerate_objects pre infos)) previous)
        @ map (\<lambda>i. (ob_key i, SkipUnreadable)) bad"
    "pr_removed r = map (\<lambda>k. \<lparr>rm_key = k, rm_entity = document_entity_id (de_limit (oh_env h)) (oh_authority h) (object_system h bucket) k\<rparr>)
        (pl_removed (plan_pass (de_unicode (oh_env h)) (Some (enumerate_objects pre infos)) previous))"
    "\<And>x. x \<in> set (pr_ingested r) \<Longrightarrow> \<exists>content wa wb. ingest_content_entity_states (oh_env h) (oh_docs h) content (in_key x)
        (object_system h bucket) (oh_authority h) now wa = Some (wb, Inr (in_states x))"
proof -
  obtain bucket pre w1 infos where p: "parse_source_url url = Inr (bucket, pre)" "os_objects st pre w = (w1, Some infos)"
    using assms by (auto simp: object_pass_def split: option.splits sum.splits prod.splits)
  let ?pl = "plan_pass (de_unicode (oh_env h)) (Some (enumerate_objects pre infos)) previous"
  let ?q = "enumerate_objects pre infos"
  let ?res = "\<lparr>pr_ingested = [], pr_removed = [], pr_skipped = pl_skipped ?pl,
      pr_unchanged = int (length (ps_seen ?q)) - int (length (pl_fetch ?pl)) - int (length (pl_skipped ?pl)),
      pr_bucket = bucket, pr_prefix = pre\<rparr>"
  let ?gone = "map (\<lambda>k. \<lparr>rm_key = k, rm_entity = document_entity_id (de_limit (oh_env h)) (oh_authority h) (object_system h bucket) k\<rparr>) (pl_removed ?pl)"
  obtain r' where f: "fetch_objects h st previous (object_system h bucket) now (pl_fetch ?pl) (w1, previous, ?res) = Some (w', m, Inr r')"
    and r: "r = r'\<lparr>pr_removed := pr_removed r' @ ?gone\<rparr>"
    using assms p by (auto simp: object_pass_def Let_def split: option.splits sum.splits prod.splits)
  from fetch_objects_ok [OF f] obtain good bad new where
    "pl_fetch ?pl \<in> shuffles good bad" "map in_key new = map ob_key good"
    "m = foldl (\<lambda>m i. record_token (ob_key i) (change_token i) m) previous good"
    "r' = ?res\<lparr>pr_ingested := new, pr_skipped := pl_skipped ?pl @ map (\<lambda>i. (ob_key i, SkipUnreadable)) bad\<rparr>"
    "\<forall>x \<in> set new. \<exists>content wa wb. ingest_content_entity_states (oh_env h) (oh_docs h) content (in_key x) (object_system h bucket)
          (oh_authority h) now wa = Some (wb, Inr (in_states x))" by auto
  with that [OF p, of good bad] show ?thesis by (simp add: r)
qed
section \<open>What a component run changes\<close>

lemma publish_state_sel [simp]:
  "cs_tokens (publish_state c s st) = cs_tokens st" "cs_requests (publish_state c s st) = cs_requests st"
  "cs_skipped (publish_state c s st) = cs_skipped st" "cs_unreachable (publish_state c s st) = cs_unreachable st"
  by (simp_all add: publish_state_def split: sum.split prod.split bool.split)

lemma publish_document_sel [simp]:
  "cs_tokens (publish_document c ss st) = cs_tokens st" "cs_requests (publish_document c ss st) = cs_requests st"
  "cs_skipped (publish_document c ss st) = cs_skipped st" "cs_unreachable (publish_document c ss st) = cs_unreachable st"
proof -
  have "cs_tokens (foldl (\<lambda>st s. publish_state c s st) st ss) = cs_tokens st
      \<and> cs_requests (foldl (\<lambda>st s. publish_state c s st) st ss) = cs_requests st
      \<and> cs_skipped (foldl (\<lambda>st s. publish_state c s st) st ss) = cs_skipped st
      \<and> cs_unreachable (foldl (\<lambda>st s. publish_state c s st) st ss) = cs_unreachable st"
    by (induction ss arbitrary: st) simp_all
  then show "cs_tokens (publish_document c ss st) = cs_tokens st" "cs_requests (publish_document c ss st) = cs_requests st"
    "cs_skipped (publish_document c ss st) = cs_skipped st" "cs_unreachable (publish_document c ss st) = cs_unreachable st"
    by (simp_all add: publish_document_def)
qed

lemma publish_all_sel [simp]:
  "cs_tokens (foldl (\<lambda>st i. publish_document c (in_states i) st) st is) = cs_tokens st"
  "cs_requests (foldl (\<lambda>st i. publish_document c (in_states i) st) st is) = cs_requests st"
  "cs_unreachable (foldl (\<lambda>st i. publish_document c (in_states i) st) st is) = cs_unreachable st"
  "cs_skipped (foldl (\<lambda>st i. publish_document c (in_states i) st) st is) = cs_skipped st"
  by (induction "is" arbitrary: st) simp_all

text \<open>The listing of an S3 bucket is all or nothing.\<close>

definition listed :: "list_event list \<Rightarrow> object_info set" where
  "listed evs = {i. Listed i \<in> set evs}"

lemma collect_listing_iff: "collect_listing evs = Some infos \<longleftrightarrow> evs = map Listed infos"
  by (induction evs arbitrary: infos rule: collect_listing.induct) (auto simp: Cons_eq_map_conv)

lemma s3_objects_complete:
  "s3_objects evs = Some infos \<Longrightarrow> ListFailed \<notin> set evs \<and> set infos = listed evs
    \<and> (distinct evs \<longrightarrow> distinct infos) \<and> length infos = length evs"
proof -
  assume "s3_objects evs = Some infos"
  then obtain xs where xs: "evs = map Listed xs" and i: "infos = stable_sort (\<lambda>a b. ob_key a < ob_key b) xs"
    by (auto simp: s3_objects_def collect_listing_iff)
  have "distinct evs \<longrightarrow> distinct infos"
    using xs i by (metis distinct_map mset_eq_imp_distinct_iff mset_stable_sort)
  then show ?thesis by (auto simp: xs i listed_def)
qed

definition fresh_request :: "('e, 'w) object_config \<Rightarrow> string list \<Rightarrow> lifecycle_request list" where
  "fresh_request c keys =
     (if keys = [] then [] else
        [\<lparr>lr_org = oc_org c, lr_systems = [component_system c], lr_root = [], lr_reason = reason_file_deleted, lr_absent = Some keys\<rparr>])"

lemma retract_eq:
  "cs_requests (retract c removed st) = cs_requests st @ fresh_request c (map rm_key removed)"
  "cs_tokens (retract c removed st) = foldl (\<lambda>m r. forget_key (rm_key r) m) (cs_tokens st) removed"
  "cs_published (retract c removed st) = cs_published st" "cs_distinct (retract c removed st) = cs_distinct st"
  "cs_skipped (retract c removed st) = cs_skipped st"
  by (simp_all add: retract_def retraction_request_def fresh_request_def)

text \<open>C33: Only a complete listing retracts. A pass over an S3 bucket that returns an error has published
  nothing and announced nothing; one that returns none saw a listing without a failure, and announces
  exactly the tracked keys below the prefix's listing that it did not find, in one request, in order,
  and not at all when none is missing.\<close>

theorem retraction_needs_complete_listing:
  assumes "ingest_once c now st = Some (st', ok)"
    and "os_objects (oc_store c) = (\<lambda>pre w. (w, s3_objects (evs pre w)))"
    and "parse_source_url (source_url (oc_bucket c) (oc_prefix c)) = Inr (bucket, pre)"
  shows "if ok then
      ListFailed \<notin> set (evs pre (cs_world st))
      \<and> (distinct (map ob_key (the (s3_objects (evs pre (cs_world st))))) \<longrightarrow>
         (\<exists>gone. cs_requests st' = cs_requests st @ fresh_request c gone \<and> sorted gone
           \<and> set gone = {k. gm_has (cs_tokens st) k} - {ob_key i | i. i \<in> listed (evs pre (cs_world st)) \<and> has_prefix (ob_key i) pre}))
    else cs_requests st' = cs_requests st \<and> cs_published st' = cs_published st \<and> cs_distinct st' = cs_distinct st \<and> cs_unreachable st'"
proof (cases ok)
  case False
  then show ?thesis using assms(1)
    by (auto simp: ingest_once_def Let_def split: option.splits prod.splits sum.splits)
next
  case True
  obtain w m r where p: "object_pass (oc_handler c) (oc_store c) (source_url (oc_bucket c) (oc_prefix c)) now (cs_tokens st) (cs_world st)
      = Some (w, m, Inr r)"
    and st': "cs_requests st' = cs_requests st @ fresh_request c (map rm_key (pr_removed r))"
    using assms(1) True by (auto simp: ingest_once_def Let_def retract_eq split: option.splits prod.splits sum.splits)
  let ?evs = "evs pre (cs_world st)" and ?u = "de_unicode (oh_env (oc_handler c))"
  obtain infos where l: "s3_objects ?evs = Some infos"
    and rm: "map rm_key (pr_removed r) = pl_removed (plan_pass ?u (Some (enumerate_objects pre infos)) (cs_tokens st))"
    by (rule object_pass_ok [OF p]) (simp add: assms(2,3) comp_def)
  note lc = s3_objects_complete [OF l]
  have "sorted (pl_removed (plan_pass ?u (Some (enumerate_objects pre infos)) (cs_tokens st)))"
    unfolding plan_pass_eq plan.simps sort_strings_def
    using string_order.stable_sort_sorted by (simp add: not_less)
  moreover have "set (pl_removed (plan_pass ?u (Some (enumerate_objects pre infos)) (cs_tokens st)))
      = {k. gm_has (cs_tokens st) k} - {ob_key i | i. i \<in> listed ?evs \<and> has_prefix (ob_key i) pre}"
    if "distinct (map ob_key infos)"
    unfolding plan_sets(3) [OF that] using lc by auto
  ultimately show ?thesis using True lc l st' unfolding rm by auto
qed
definition skip_count :: "(skip_reason, int) gomap \<Rightarrow> skip_reason \<Rightarrow> int" where
  "skip_count m why = (case map_of m why of None \<Rightarrow> 0 | Some n \<Rightarrow> n)"

lemma skip_counts: "skip_count (result_skip_counts (Some r)) why = int (length (filter (\<lambda>x. snd x = why) (pr_skipped r)))"
proof -
  have "skip_count (foldl (\<lambda>m (_, why). gm_put why ((case map_of m why of None \<Rightarrow> 0 | Some n \<Rightarrow> n) + 1) m) m xs) why
      = skip_count m why + int (length (filter (\<lambda>x. snd x = why) xs))" for m and xs :: "(string \<times> skip_reason) list"
    by (induction xs arbitrary: m) (auto simp: skip_count_def gm_get_put split: option.split)
  from this [of "[]" "pr_skipped r"] show ?thesis by (simp add: result_skip_counts_def skip_count_def)
qed

lemma skip_of_readable: "skip_of u i \<noteq> Some SkipUnreadable"
  by (simp add: skip_of_def)

lemma shuffled_keys:
  assumes "is \<in> shuffles good bad" and "distinct (map ob_key is)"
  shows "set is = set good \<union> set bad" and "distinct (map ob_key good)" and "distinct bad"
    and "ob_key ` set good \<inter> ob_key ` set bad = {}"
proof -
  show s: "set is = set good \<union> set bad" using set_shuffles [OF assms(1)] .
  have "mset is = mset (good @ bad)" using mset_shuffles [OF assms(1)] by simp
  then have "distinct (map ob_key (good @ bad))" using assms(2) by (metis mset_map mset_eq_imp_distinct_iff)
  then show "distinct (map ob_key good)" "distinct bad" "ob_key ` set good \<inter> ob_key ` set bad = {}"
    by (simp_all add: distinct_map)
qed

lemma plan_fetch_distinct: "distinct (map ob_key (pl_fetch (plan_pass u (Some (enumerate_objects pre infos)) m)))"
proof -
  let ?s = "ps_seen (enumerate_objects pre infos)"
  have kk: "map ob_key (map snd (filter P ?s)) = map fst (filter P ?s)" for P
    using keyed_enumerate [of pre infos] by (auto simp: keyed_def)
  have "distinct (map ob_key (map snd (filter (wanted u m) ?s)))"
    unfolding kk using keyed_enumerate [of pre infos] by (simp add: keyed_def distinct_filter_keys)
  then show ?thesis unfolding plan_pass_eq plan.simps by (metis mset_map mset_stable_sort mset_eq_imp_distinct_iff)
qed

lemma recorded_other:
  assumes "distinct (map ob_key good)" and "k \<notin> ob_key ` set good"
  shows "map_of (foldl (\<lambda>m i. record_token (ob_key i) (change_token i) m) m good) k = map_of m k"
proof -
  have "find (\<lambda>i. ob_key i = k) good = None" using assms(2) by (auto simp: find_None_iff)
  then show ?thesis unfolding recorded_lookup [OF assms(1)] by simp
qed

lemma recorded_known:
  assumes "distinct (map ob_key good)" and "i \<in> set good"
  shows "map_of (foldl (\<lambda>m i. record_token (ob_key i) (change_token i) m) m good) (ob_key i) = Some (change_token i)"
proof -
  have "find (\<lambda>j. ob_key j = ob_key i) good \<noteq> None" using assms(2) by (simp add: find_None_iff) blast
  then obtain j where j: "find (\<lambda>j. ob_key j = ob_key i) good = Some j" by blast
  then have "j \<in> set good" "ob_key j = ob_key i" by (auto simp: find_Some_iff)
  with assms have "j = i" by (auto simp: distinct_map inj_on_def)
  with j show ?thesis unfolding recorded_lookup [OF assms(1)] by simp
qed

section \<open>What a retraction reaches\<close>

text \<open>The graph after documents were ingested under the keys of a bucket, those of \<open>gone\<close> marked stale by
  earlier passes.\<close>

definition retired :: "int \<Rightarrow> string \<Rightarrow> bool \<Rightarrow> entity \<Rightarrow> entity" where
  "retired t reason yes e = (if yes then carried_out t (\<lambda>_. Mark reason) e else e)"

definition bucket_graph :: "int \<Rightarrow> string set \<Rightarrow> (string \<times> storage_ref entity_state list) list \<Rightarrow> entity list" where
  "bucket_graph t gone docs =
     concat (map (\<lambda>(k, ss). map (retired t reason_file_deleted (k \<in> gone) \<circ> graph_entity) ss) docs)"

definition document_of :: "'e doc_env \<Rightarrow> 'w doc_handler \<Rightarrow> string \<Rightarrow> authority \<Rightarrow> string \<times> storage_ref entity_state list \<Rightarrow> bool" where
  "document_of env h system auth d \<longleftrightarrow> fst d \<noteq> [] \<and>
     (\<exists>content now w w'. ingest_content_entity_states env h content (fst d) system auth now w = Some (w', Inr (snd d)))"

lemma retired_facts [simp]:
  "e_id (retired t r b e) = e_id e"
  "path_of (e_triples (retired t r b e)) = path_of (e_triples e)"
  "is_passage (e_triples (retired t r b e)) = is_passage (e_triples e)"
  "is_vanished_passage (e_triples (retired t r b e)) n = is_vanished_passage (e_triples e) n"
  "passage_parent_count ref (e_triples (retired t r b e)) counts = passage_parent_count ref (e_triples e) counts"
  "triple_int (e_triples (retired t r b e)) doc_chunk_count = triple_int (e_triples e) doc_chunk_count"
  by (simp_all add: retired_def carried_out_readers other_predicates)

lemma retired_markers:
  "is_marked_stale (e_triples (retired t r b e)) \<longleftrightarrow> b \<or> is_marked_stale (e_triples e)"
  "r \<noteq> reason_source_removed \<Longrightarrow> \<not> is_source_removed (e_triples e) \<Longrightarrow> \<not> is_source_removed (e_triples (retired t r b e))"
  by (simp_all add: retired_def carried_out_markers)

lemma parent_counts_lookup:
  assumes "distinct (map e_id (filter (\<lambda>e. triple_int (e_triples e) doc_chunk_count \<noteq> None) es))"
    and "e \<in> set es" and "triple_int (e_triples e) doc_chunk_count = Some n" and "0 \<le> n"
  shows "map_of (parent_counts es) (e_id e) = Some n"
proof -
  let ?f = "\<lambda>m e. case triple_int (e_triples e) doc_chunk_count of
      Some n \<Rightarrow> if n \<ge> 0 then gm_put (e_id e) n m else m | None \<Rightarrow> m"
  have keep: "map_of (foldl ?f m es) i = map_of m i"
    if "i \<notin> e_id ` set (filter (\<lambda>e. triple_int (e_triples e) doc_chunk_count \<noteq> None) es)" for m i es
    using that by (induction es arbitrary: m) (auto simp: gm_get_put split: option.splits if_splits)
  have "map_of (foldl ?f m es) (e_id e) = Some n" for m
    using assms
  proof (induction es arbitrary: m)
    case (Cons a es)
    show ?case
    proof (cases "e = a")
      case True
      then have "e_id e \<notin> e_id ` set (filter (\<lambda>e. triple_int (e_triples e) doc_chunk_count \<noteq> None) es)"
        using Cons.prems by auto
      from keep [OF this, of "?f m a"] show ?thesis using Cons.prems True by (simp add: gm_get_put)
    next
      case False
      with Cons show ?thesis by (auto split: if_splits)
    qed
  qed simp
  then show ?thesis by (simp add: parent_counts_def)
qed

text \<open>One document: its parent counts its passages, and all of it carries its key.\<close>

lemma document_ofE:
  assumes "document_of env h system auth d"
  obtains content now ps where
    "snd d = parent_state (de_content env) (document_parent env content (fst d) system auth now (length ps))
      # map (\<lambda>p. passage_state (de_ref env) (de_content env) (stored_passage h (document_passage env content (fst d) system auth now p))) ps"
    and "\<And>p. p \<in> set ps \<Longrightarrow> p_ordinal p < length ps"
proof -
  obtain content now w w' where i: "ingest_content_entity_states env h content (fst d) system auth now w = Some (w', Inr (snd d))"
    using assms by (auto simp: document_of_def)
  obtain ps where ps: "split_passages (de_unicode env) content (format_for_ext (de_unicode env) (path_ext (fst d))) = Some ps"
    and s: "snd d = parent_state (de_content env) (document_parent env content (fst d) system auth now (length ps))
      # map (\<lambda>p. passage_state (de_ref env) (de_content env) (stored_passage h (document_passage env content (fst d) system auth now p))) ps"
    by (rule ingest_content_ok [OF i])
  have ord: "map p_ordinal ps = [0..<length ps]"
    using ps split_passages_spans(2) unfolding split_passages_def numbered_def by blast
  have "p_ordinal p < length ps" if "p \<in> set ps" for p
    using that ord by (metis (mono_tags, lifting) atLeastLessThan_iff imageI list.set_map set_upt)
  with that s show ?thesis by blast
qed

definition document_parents :: "entity list \<Rightarrow> entity list" where
  "document_parents es = filter (\<lambda>e. triple_int (e_triples e) doc_chunk_count \<noteq> None) es"

lemma bucket_parents:
  assumes "list_all (document_of env h system auth) docs"
  shows "map e_id (document_parents (bucket_graph t gone docs)) = map (\<lambda>d. document_entity_id (de_limit env) auth system (fst d)) docs"
  using assms
proof (induction docs)
  case (Cons d docs)
  obtain content now ps where s: "snd d = parent_state (de_content env) (document_parent env content (fst d) system auth now (length ps))
      # map (\<lambda>p. passage_state (de_ref env) (de_content env) (stored_passage h (document_passage env content (fst d) system auth now p))) ps"
    by (rule document_ofE [of env h system auth d]) (use Cons.prems in auto)
  have "map e_id (document_parents (map (retired t reason_file_deleted b \<circ> graph_entity) (snd d))) = [document_entity_id (de_limit env) auth system (fst d)]" for b
    by (simp add: document_parents_def s graph_entity_readers entity_readers filter_map comp_def passage_readers)
  then show ?case using Cons by (simp add: bucket_graph_def document_parents_def split_def)
qed (simp add: bucket_graph_def document_parents_def)

lemma document_reads:
  "dn_path e \<noteq> [] \<Longrightarrow> path_of (e_triples (graph_entity (parent_state c e))) = Some (dn_path e)"
  "passage_parent_count ref (e_triples (graph_entity (parent_state c e))) counts = None"
  "\<not> is_passage (e_triples (graph_entity (parent_state c e)))"
  "pa_path p \<noteq> [] \<Longrightarrow> path_of (e_triples (graph_entity (passage_state ref c p))) = Some (pa_path p)"
  "ref \<noteq> [] \<Longrightarrow> pa_parent p \<noteq> [] \<Longrightarrow>
     passage_parent_count ref (e_triples (graph_entity (passage_state ref c p))) counts = map_of counts (pa_parent p)"
  "is_vanished_passage (e_triples (graph_entity (passage_state ref c p))) n \<longleftrightarrow> n \<le> int (pa_ordinal p)"
  by (simp_all add: path_of_def graph_entity_readers entity_readers passage_readers passage_parent_count_def
      is_passage_def is_vanished_passage_def)

lemma bucket_verdicts:
  assumes "list_all (document_of env h system auth) docs"
    and "distinct (map (\<lambda>d. document_entity_id (de_limit env) auth system (fst d)) docs)" and "de_ref env \<noteq> []"
    and "(k, ss) \<in> set docs" and "s \<in> set ss"
  shows "verdict_of (de_ref env) (parent_counts (bucket_graph t gone docs)) reason (Some (\<lambda>p. p \<notin> absent))
      (e_triples (retired t reason_file_deleted (k \<in> gone) (graph_entity s)))
    = (if k \<in> absent then (if k \<in> gone then Keep else Mark reason) else if k \<in> gone then Clear else Keep)"
proof -
  let ?es = "bucket_graph t gone docs" and ?d = "document_entity_id (de_limit env) auth system k"
  have dk: "document_of env h system auth (k, ss)" using assms(1,4) by (auto simp: list_all_iff)
  then have k: "k \<noteq> []" by (simp add: document_of_def)
  obtain content now ps where ss: "ss = parent_state (de_content env) (document_parent env content k system auth now (length ps))
      # map (\<lambda>p. passage_state (de_ref env) (de_content env) (stored_passage h (document_passage env content k system auth now p))) ps"
    and lt: "\<And>p. p \<in> set ps \<Longrightarrow> p_ordinal p < length ps"
    by (rule document_ofE [OF dk]) simp
  let ?p = "retired t reason_file_deleted (k \<in> gone) (graph_entity (hd ss))"
  have "?p \<in> set ?es" using assms(4) by (force simp: bucket_graph_def ss)
  moreover have "triple_int (e_triples ?p) doc_chunk_count = Some (int (length ps))" "e_id ?p = ?d"
    by (simp_all add: ss graph_entity_readers entity_readers)
  ultimately have counts: "map_of (parent_counts ?es) ?d = Some (int (length ps))"
    using parent_counts_lookup [of ?es ?p "int (length ps)"] assms(2) bucket_parents [OF assms(1), of t gone]
    by (simp add: document_parents_def)
  have ne: "reason_file_deleted \<noteq> reason_source_removed" by (simp add: reason_file_deleted_def reason_source_removed_def)
  from assms(5) consider "s = hd ss" | p where "p \<in> set ps"
      "s = passage_state (de_ref env) (de_content env) (stored_passage h (document_passage env content k system auth now p))"
    by (auto simp: ss)
  then show ?thesis
  proof cases
    case 1
    then show ?thesis using k ne
      by (simp add: verdict_of_def document_reads entity_readers ss retired_markers)
  next
    case 2
    with k ne lt [OF 2(1)] counts assms(3) show ?thesis
      by (simp add: verdict_of_def document_reads passage_readers retired_markers document_id_nonempty)
  qed
qed

lemma bucket_pick:
  "(\<exists>e. e \<in> set (bucket_graph t gone docs) \<and> P e) \<longleftrightarrow>
   (\<exists>k ss s. (k, ss) \<in> set docs \<and> s \<in> set ss \<and> P (retired t reason_file_deleted (k \<in> gone) (graph_entity s)))"
  by (force simp: bucket_graph_def)

lemma mark_collect:
  assumes "\<And>e r. e \<in> E \<Longrightarrow> v e = Mark r \<Longrightarrow> r = r0"
  shows "{f (e_id e) r | e r. e \<in> E \<and> v e = Mark r} = {f (e_id e) r0 | e. e \<in> E \<and> v e = Mark r0}"
  using assms by blast

lemma bucket_collect:
  assumes "\<And>k ss s. (k, ss) \<in> set docs \<Longrightarrow> s \<in> set ss \<Longrightarrow>
      P (retired t reason_file_deleted (k \<in> gone) (graph_entity s)) = Q k"
  shows "{f (e_id e) | e. e \<in> set (bucket_graph t gone docs) \<and> P e} = {f (es_id s) | k ss s. (k, ss) \<in> set docs \<and> s \<in> set ss \<and> Q k}"
proof -
  have "(\<exists>e. e \<in> set (bucket_graph t gone docs) \<and> (P e \<and> x = f (e_id e))) \<longleftrightarrow>
      (\<exists>k ss s. (k, ss) \<in> set docs \<and> s \<in> set ss \<and> (Q k \<and> x = f (es_id s)))" for x
    unfolding bucket_pick using assms by (metis graph_entity_sel retired_facts(1))
  then show ?thesis by blast
qed

text \<open>C32: A retraction reaches the removed documents whole, and revives the earlier ones. When the
  lifecycle pass carries out the request for some removed keys, it marks the parent and every passage
  of the documents under these keys that are not yet stale, and no other entity; but it also clears
  every entity of each document retired before, because the request names only the keys that this one
  pass found missing, and a path that it does not name counts as present.\<close>

theorem retraction_marks_and_revives:
  assumes "retraction_request c removed = Some req" and "liveness_oracle exists_file req = Inr stat" and "go_visit visit"
    and "list_all (document_of env h (component_system c) auth) docs"
    and "distinct (map (\<lambda>d. document_entity_id (de_limit env) auth (component_system c) (fst d)) docs)" and "de_ref env \<noteq> []"
  shows "(case decide_lifecycle_actions visit (de_ref env) now (bucket_graph t gone docs) (lr_reason req) stat of
      ((to_mark, to_clear), _) \<Rightarrow>
        set to_mark = {stale_triple now (es_id s) reason_file_deleted | k ss s.
            (k, ss) \<in> set docs \<and> s \<in> set ss \<and> k \<in> rm_key ` set removed - gone}
        \<and> set to_clear = {es_id s | k ss s. (k, ss) \<in> set docs \<and> s \<in> set ss \<and> k \<in> gone - rm_key ` set removed})"
proof -
  let ?absent = "rm_key ` set removed" and ?es = "bucket_graph t gone docs"
  have stat: "stat = Some (\<lambda>p. p \<notin> ?absent)" and reason: "lr_reason req = reason_file_deleted"
    using assms(1,2) by (auto simp: retraction_request_def liveness_oracle_def split: if_splits)
  let ?v = "\<lambda>e. verdict_of (de_ref env) (parent_counts ?es) reason_file_deleted (Some (\<lambda>p. p \<notin> ?absent)) (e_triples e)"
  note v = bucket_verdicts [where t = t and gone = gone and absent = ?absent and reason = reason_file_deleted, OF assms(4-6)]
  have mark: "{stale_triple now (e_id e) r | e r. e \<in> set ?es \<and> ?v e = Mark r} =
      {stale_triple now (es_id s) reason_file_deleted | k ss s. (k, ss) \<in> set docs \<and> s \<in> set ss \<and> k \<in> ?absent - gone}"
  proof -
    have one: "r = reason_file_deleted" if e: "e \<in> set ?es" "?v e = Mark r" for e r
    proof -
      obtain k ss s where "(k, ss) \<in> set docs" "s \<in> set ss" "e = retired t reason_file_deleted (k \<in> gone) (graph_entity s)"
        using bucket_pick [of t gone docs "\<lambda>x. x = e"] e(1) by blast
      then show ?thesis using v e(2) by (auto split: if_splits)
    qed
    have "{stale_triple now (e_id e) r | e r. e \<in> set ?es \<and> ?v e = Mark r} =
        {(\<lambda>i. stale_triple now i reason_file_deleted) (e_id e) | e. e \<in> set ?es \<and> ?v e = Mark reason_file_deleted}"
      by (rule mark_collect) (rule one)
    also have "\<dots> = {(\<lambda>i. stale_triple now i reason_file_deleted) (es_id s) | k ss s. (k, ss) \<in> set docs \<and> s \<in> set ss \<and> k \<in> ?absent - gone}"
      by (rule bucket_collect) (simp add: v)
    finally show ?thesis .
  qed
  have clear: "{e_id e | e. e \<in> set ?es \<and> ?v e = Clear} =
      {es_id s | k ss s. (k, ss) \<in> set docs \<and> s \<in> set ss \<and> k \<in> gone - ?absent}"
    by (rule bucket_collect [where f = "\<lambda>i. i"]) (simp add: v)
  show ?thesis
    using decide_sets [where ref = "de_ref env" and now = now and es = ?es and reason = reason_file_deleted
      and stat = "Some (\<lambda>p. p \<notin> ?absent)", OF assms(3)]
    unfolding stat reason mark clear by (auto split: prod.splits)
qed
section \<open>Where the source departs from what it documents\<close>

text \<open>\<open>Tracker.Record\<close> is to be called only once an object's entities are published. The pass calls it when
  it has built them, so an object stays recorded when a later one, or the publication, fails.\<close>

lemma aborted_pass_remembers:
  assumes "os_live st w" and "os_get st (ob_key i) w = (w1, Some content)"
    and "ingest_content_entity_states (oh_env h) (oh_docs h) content (ob_key i) system (oh_authority h) now w1 = Some (w2, Inr states)"
    and "\<not> os_live st w2"
  shows "\<exists>m'. fetch_objects h st previous system now [i, j] (w, m, res) = Some (w2, m', Inl ObjectCancelled)
    \<and> map_of m' (ob_key i) = Some (change_token i)"
  using assms by (intro exI [of _ "record_token (ob_key i) (change_token i) m"]) (simp add: record_token_def gm_get_put)

lemma failed_publication_stays_recorded:
  "cs_tokens (publish_document c states st) = cs_tokens st" by simp

text \<open>A tracked document whose object was emptied is neither ingested again nor retracted.\<close>

lemma emptied_object_lingers:
  assumes "distinct (map ob_key infos)" and "i \<in> set infos" and "has_prefix (ob_key i) pre" and "ob_size i = 0"
  shows "i \<notin> set (pl_fetch (plan_pass u (Some (enumerate_objects pre infos)) previous))"
    and "ob_key i \<notin> set (pl_removed (plan_pass u (Some (enumerate_objects pre infos)) previous))"
  using assms by (auto simp: plan_sets skip_of_def split: if_splits)

text \<open>A watch tick announces every removal by itself, although the request is to name all paths that the
  enumeration found to be gone, so that each announcement of a tick revives the documents of the ones
  before it; and it neither counts the skipped objects nor reports a failed listing.\<close>

lemma watch_tick_requests:
  assumes "watch_tick c now st = Some st'"
  shows "cs_skipped st' = cs_skipped st" and "cs_unreachable st' = cs_unreachable st"
    and "\<exists>keys. cs_requests st' = cs_requests st @ concat (map (\<lambda>k. fresh_request c [k]) keys)"
proof -
  have ev: "cs_skipped (foldl (\<lambda>st ev. handle_change_event c ev st) st0 evs) = cs_skipped st0
      \<and> cs_unreachable (foldl (\<lambda>st ev. handle_change_event c ev st) st0 evs) = cs_unreachable st0
      \<and> cs_requests (foldl (\<lambda>st ev. handle_change_event c ev st) st0 evs) = cs_requests st0 @
         concat (map (\<lambda>k. fresh_request c [k]) (map ce_path (filter (\<lambda>ev. ce_operation ev = OperationDelete) evs)))" for st0 evs
    by (induction evs arbitrary: st0)
      (simp_all add: handle_change_event_def retract_eq, simp_all add: retract_def retraction_request_def)
  from assms consider w m where "st' = st\<lparr>cs_tokens := m, cs_world := w\<rparr>"
    | w m r where "st' = foldl (\<lambda>st ev. handle_change_event c ev st) (st\<lparr>cs_tokens := m, cs_world := w\<rparr>) (pass_events now r)"
    by (auto simp: watch_tick_def split: option.splits prod.splits sum.splits)
  then have "cs_skipped st' = cs_skipped st \<and> cs_unreachable st' = cs_unreachable st
      \<and> (\<exists>keys. cs_requests st' = cs_requests st @ concat (map (\<lambda>k. fresh_request c [k]) keys))"
  proof cases
    case 1
    then show ?thesis by (intro conjI exI [of _ "[]"]) simp_all
  next
    case 2
    then show ?thesis using ev [of "st\<lparr>cs_tokens := m, cs_world := w\<rparr>" "pass_events now r"]
      by (intro conjI exI [of _ "map ce_path (filter (\<lambda>ev. ce_operation ev = OperationDelete) (pass_events now r))"])
        (simp_all del: map_map)
  qed
  then show "cs_skipped st' = cs_skipped st" "cs_unreachable st' = cs_unreachable st"
    "\<exists>keys. cs_requests st' = cs_requests st @ concat (map (\<lambda>k. fresh_request c [k]) keys)" by blast+
qed

text \<open>The source URL is assembled without escapes, so a question mark or a hash ends the prefix: more of
  the bucket is ingested than was asked for.\<close>

lemma question_mark_widens_prefix:
  "parse_source_url (source_url ''bucket'' ''2024?/reports/'') = Inr (''bucket'', ''2024'')"
  by code_simp

section \<open>Examples\<close>

definition demo_objects :: "object_info list" where
  "demo_objects = [\<lparr>ob_key = ''r/a.md'', ob_etag = ''t1'', ob_size = 5, ob_modified = 0\<rparr>,
     \<lparr>ob_key = ''r/b.md'', ob_etag = ''t2'', ob_size = 5, ob_modified = 0\<rparr>,
     \<lparr>ob_key = ''r/c.png'', ob_etag = ''t3'', ob_size = 5, ob_modified = 0\<rparr>]"

definition demo_object_config :: "(unit, unit) object_config" where
  "demo_object_config =
     \<lparr>oc_handler = \<lparr>oh_env = demo_doc_env, oh_docs = demo_doc_handler, oh_authority = demo_doc_authority, oh_project = [], oh_version = []\<rparr>,
      oc_store = \<lparr>os_objects = (\<lambda>pre w. (w, s3_objects (map Listed demo_objects))), os_get = (\<lambda>_ w. (w, None)), os_live = (\<lambda>_. True)\<rparr>,
      oc_rules = \<lparr>gr_entity_id_ok = (\<lambda>_. True), gr_profile_ok = (\<lambda>_. True)\<rparr>, oc_send = (\<lambda>_ w. (w, True)),
      oc_org = ''acme'', oc_bucket = ''docs'', oc_prefix = ''r/''\<rparr>"

definition demo_object_component :: "unit object_component" where
  "demo_object_component =
     \<lparr>cs_tokens = [(''r/a.md'', ''t1''), (''r/old.md'', ''t0'')], cs_distinct = new_distinct_tracker, cs_errors = 0, cs_published = 0,
      cs_skipped = [], cs_unreachable = False, cs_requests = [], cs_world = ()\<rparr>"

theorem plan_is_difference_witness:
  "set (pl_fetch (plan_pass ascii_tables (Some (enumerate_objects ''r/'' demo_objects)) [(''r/a.md'', ''t1''), (''r/old.md'', ''t0'')]))
     = {demo_objects ! 1}"
proof -
  have "filter (\<lambda>i. has_prefix (ob_key i) ''r/'') demo_objects = demo_objects" by code_simp
  moreover have "{i \<in> set demo_objects. skip_of ascii_tables i = None
      \<and> map_of [(''r/a.md'', ''t1''), (''r/old.md'', ''t0'')] (ob_key i) \<noteq> Some (change_token i)} = {demo_objects ! 1}"
  proof -
    have "filter (\<lambda>i. skip_of ascii_tables i = None
      \<and> map_of [(''r/a.md'', ''t1''), (''r/old.md'', ''t0'')] (ob_key i) \<noteq> Some (change_token i)) demo_objects = [demo_objects ! 1]"
      by code_simp
    then show ?thesis by (simp only: set_filter [symmetric] list.set)
  qed
  moreover have "set (pl_fetch (plan_pass ascii_tables (Some (enumerate_objects ''r/'' demo_objects)) [(''r/a.md'', ''t1''), (''r/old.md'', ''t0'')]))
      = {i \<in> set (filter (\<lambda>i. has_prefix (ob_key i) ''r/'') demo_objects). skip_of ascii_tables i = None
          \<and> map_of [(''r/a.md'', ''t1''), (''r/old.md'', ''t0'')] (ob_key i) \<noteq> Some (change_token i)}"
  proof -
    have d: "distinct (map ob_key demo_objects)" "gm_wf [(''r/a.md'', ''t1''), (''r/old.md'', ''t0'')]" by code_simp+
    show ?thesis using plan_is_difference [OF d, of ascii_tables "''r/''"] unfolding Let_def by blast
  qed
  ultimately show ?thesis by (simp only:)
qed

lemma demo_object_pass:
  "\<exists>st'. ingest_once demo_object_config 7 demo_object_component = Some (st', True)"
  "parse_source_url (source_url (oc_bucket demo_object_config) (oc_prefix demo_object_config)) = Inr (''docs'', ''r/'')"
proof -
  have p: "parse_source_url (source_url ''docs'' ''r/'') = Inr (''docs'', ''r/'')" by code_simp
  have l: "s3_objects (map Listed demo_objects) = Some demo_objects" by code_simp
  have pl: "pl_fetch (plan_pass ascii_tables (Some (enumerate_objects ''r/'' demo_objects)) [(''r/a.md'', ''t1''), (''r/old.md'', ''t0'')])
      = [demo_objects ! 1]" by code_simp
  have v: "authority_validate (de_limit demo_doc_env) (de_prefix demo_doc_env) demo_doc_authority = None"
    using demo_working by (simp add: working_def)
  have u: "de_unicode demo_doc_env = ascii_tables" by (simp add: demo_doc_env_def)
  show "\<exists>st'. ingest_once demo_object_config 7 demo_object_component = Some (st', True)"
    by (simp add: ingest_once_def object_pass_def demo_object_config_def demo_object_component_def p l v u pl Let_def)
  show "parse_source_url (source_url (oc_bucket demo_object_config) (oc_prefix demo_object_config)) = Inr (''docs'', ''r/'')" by code_simp
qed
definition demo_object_after :: "unit object_component" where
  "demo_object_after = fst (the (ingest_once demo_object_config 7 demo_object_component))"

lemma demo_object_ingest: "ingest_once demo_object_config 7 demo_object_component = Some (demo_object_after, True)"
  using demo_object_pass(1) by (auto simp: demo_object_after_def)

lemma demo_object_sel:
  "oc_store demo_object_config = \<lparr>os_objects = (\<lambda>pre w. (w, s3_objects (map Listed demo_objects))), os_get = (\<lambda>_ w. (w, None)), os_live = (\<lambda>_. True)\<rparr>"
  "cs_tokens demo_object_component = [(''r/a.md'', ''t1''), (''r/old.md'', ''t0'')]"
  "de_unicode (oh_env (oc_handler demo_object_config)) = ascii_tables" "cs_requests demo_object_component = []"
  by (simp_all add: demo_object_config_def demo_object_component_def demo_doc_env_def)

lemma demo_listing: "s3_objects (map Listed demo_objects) = Some demo_objects" "distinct (map ob_key demo_objects)"
  "gm_wf [(''r/a.md'', ''t1''), (''r/old.md'', ''t0'')]"
  by code_simp+

theorem retraction_needs_complete_listing_witness:
  "\<exists>gone. cs_requests demo_object_after = fresh_request demo_object_config gone \<and> set gone = {''r/old.md''}"
proof -
  have o: "os_objects (oc_store demo_object_config) = (\<lambda>pre w. (w, s3_objects ((\<lambda>_ _. map Listed demo_objects) pre w)))"
    by (simp add: demo_object_sel)
  note t = retraction_needs_complete_listing [OF demo_object_ingest o demo_object_pass(2)]
  have l: "the (s3_objects (map Listed demo_objects)) = demo_objects" by (simp add: demo_listing)
  from t [unfolded l if_True, THEN conjunct2, THEN mp, OF demo_listing(2)] obtain gone where g: "cs_requests demo_object_after = fresh_request demo_object_config gone"
    "set gone = {k. gm_has (cs_tokens demo_object_component) k} - {ob_key i | i. i \<in> listed (map Listed demo_objects) \<and> has_prefix (ob_key i) ''r/''}"
    unfolding demo_object_sel(4) append_Nil by blast
  have "{ob_key i | i. i \<in> listed (map Listed demo_objects) \<and> has_prefix (ob_key i) ''r/''}
      = set (map ob_key (filter (\<lambda>i. has_prefix (ob_key i) ''r/'') demo_objects))"
  proof -
    have "i \<in> listed (map Listed demo_objects) \<longleftrightarrow> i \<in> set demo_objects" for i by (auto simp: listed_def)
    then show ?thesis unfolding set_map set_filter by blast
  qed
  also have "map ob_key (filter (\<lambda>i. has_prefix (ob_key i) ''r/'') demo_objects) = [''r/a.md'', ''r/b.md'', ''r/c.png'']" by code_simp
  finally have k: "{ob_key i | i. i \<in> listed (map Listed demo_objects) \<and> has_prefix (ob_key i) ''r/''} = {''r/a.md'', ''r/b.md'', ''r/c.png''}" by simp
  have "{k. gm_has (cs_tokens demo_object_component) k} = {''r/a.md'', ''r/old.md''}"
    unfolding demo_object_sel(2) gm_has_iff by auto
  then have "set gone = {''r/a.md'', ''r/old.md''} - {''r/a.md'', ''r/b.md'', ''r/c.png''}" unfolding g(2) k by (simp only:)
  also have "\<dots> = {''r/old.md''}" by simp
  finally show ?thesis using g(1) by blast
qed


lemma demo_two_documents:
  "list_all (document_of demo_doc_env demo_doc_handler ''docs'' demo_doc_authority)
     [(''a.md'', demo_states ''hello''), (''b.md'', document_states demo_doc_env demo_doc_handler ''hello'' ''b.md'' ''docs'' demo_doc_authority 7)]"
proof -
  have "split_passages (de_unicode demo_doc_env) ''hello'' (format_for_ext (de_unicode demo_doc_env) (path_ext ''b.md'')) \<noteq> None" by code_simp
  from working_ingest [OF demo_working this] have
    "\<exists>w'. ingest_content_entity_states demo_doc_env demo_doc_handler ''hello'' ''b.md'' ''docs'' demo_doc_authority 7 () =
      Some (w', Inr (document_states demo_doc_env demo_doc_handler ''hello'' ''b.md'' ''docs'' demo_doc_authority 7))" by auto
  then have "document_of demo_doc_env demo_doc_handler ''docs'' demo_doc_authority
      (''b.md'', document_states demo_doc_env demo_doc_handler ''hello'' ''b.md'' ''docs'' demo_doc_authority 7)"
    unfolding document_of_def fst_conv snd_conv by blast
  moreover have "document_of demo_doc_env demo_doc_handler ''docs'' demo_doc_authority (''a.md'', demo_states ''hello'')"
    using demo_ingest(1) unfolding document_of_def fst_conv snd_conv by blast
  ultimately show ?thesis by simp
qed

theorem retraction_marks_and_revives_witness:
  "(case decide_lifecycle_actions (\<lambda>m. m) ''entity'' 9
        (bucket_graph 8 {''a.md''} [(''a.md'', demo_states ''hello''),
           (''b.md'', document_states demo_doc_env demo_doc_handler ''hello'' ''b.md'' ''docs'' demo_doc_authority 7)])
        ''file_deleted'' (Some (\<lambda>p. p \<notin> {''b.md''})) of
      ((to_mark, to_clear), _) \<Rightarrow> set to_clear = es_id ` set (demo_states ''hello''))"
proof -
  have sys: "component_system demo_object_config = ''docs''" by code_simp
  have req: "retraction_request demo_object_config [\<lparr>rm_key = ''b.md'', rm_entity = []\<rparr>] =
      Some \<lparr>lr_org = oc_org demo_object_config, lr_systems = [''docs''], lr_root = [], lr_reason = reason_file_deleted, lr_absent = Some [''b.md'']\<rparr>"
    by (simp add: retraction_request_def sys)
  have orc: "liveness_oracle (\<lambda>_. False) \<lparr>lr_org = oc_org demo_object_config, lr_systems = [''docs''], lr_root = [],
      lr_reason = reason_file_deleted, lr_absent = Some [''b.md'']\<rparr> = Inr (Some (\<lambda>p. p \<notin> {''b.md''}))"
    by (simp add: liveness_oracle_def)
  have d: "distinct (map (\<lambda>d. document_entity_id (de_limit demo_doc_env) demo_doc_authority (component_system demo_object_config) (fst d))
      [(''a.md'', demo_states ''hello''), (''b.md'', document_states demo_doc_env demo_doc_handler ''hello'' ''b.md'' ''docs'' demo_doc_authority 7)])"
  proof -
    have "document_entity_id 255 demo_doc_authority ''docs'' ''a.md'' \<noteq> document_entity_id 255 demo_doc_authority ''docs'' ''b.md''" by code_simp
    then show ?thesis by (simp add: sys demo_env_sel)
  qed
  let ?docs = "[(''a.md'', demo_states ''hello''), (''b.md'', document_states demo_doc_env demo_doc_handler ''hello'' ''b.md'' ''docs'' demo_doc_authority 7)]"
  have s: "{es_id s | k ss s. (k, ss) \<in> set ?docs \<and> s \<in> set ss \<and> k \<in> {''a.md''} - rm_key ` set [\<lparr>rm_key = ''b.md'', rm_entity = []\<rparr>]}
      = es_id ` set (demo_states ''hello'')" by auto
  show ?thesis
    using retraction_marks_and_revives [OF req orc go_visit_id demo_two_documents [folded sys] d [unfolded sys, folded sys],
        where now = 9 and t = 8 and gone = "{''a.md''}"]
    unfolding s by (simp add: demo_env_sel reason_file_deleted_def case_prod_beta sys Setcompr_eq_image)
qed

end
