(* ===== verification/CodeEntities.thy ===== *)
theory CodeEntities
  imports DocEntities SourceConfig VersionOrder
begin

text \<open>
  Code entities (\<open>source/ast\<close>: \<open>entities.go\<close>, \<open>predicates.go\<close>, \<open>testpath.go\<close>, \<open>hierarchy.go\<close>,
  \<open>registry.go\<close> and the text half of \<open>doccomment.go\<close>): what a language parser hands on, its
  identifier, its triples, and the repository and folder entities a batch of parsed files is
  hung into. The parsers themselves are not modelled: a parse result is an argument.
\<close>

section \<open>What a parser hands on\<close>

datatype code_type =
  TypeRepo | TypeFolder | TypeFile | TypePackage | TypeFunction | TypeMethod | TypeStruct | TypeInterface
| TypeClass | TypeEnum | TypeComponent | TypeConst | TypeVar | TypeType

fun type_name :: "code_type \<Rightarrow> string" where
  "type_name TypeRepo = ''repo''"
| "type_name TypeFolder = ''folder''"
| "type_name TypeFile = ''file''"
| "type_name TypePackage = ''package''"
| "type_name TypeFunction = ''function''"
| "type_name TypeMethod = ''method''"
| "type_name TypeStruct = ''struct''"
| "type_name TypeInterface = ''interface''"
| "type_name TypeClass = ''class''"
| "type_name TypeEnum = ''enum''"
| "type_name TypeComponent = ''component''"
| "type_name TypeConst = ''const''"
| "type_name TypeVar = ''var''"
| "type_name TypeType = ''type''"

definition visibility_public :: string where "visibility_public = ''public''"
definition visibility_private :: string where "visibility_private = ''private''"

record code_capability =
  cc_name :: string
  cc_description :: string
  cc_tools :: "string list"
  cc_inputs :: "string list"
  cc_outputs :: "string list"

record code_entity =
  cx_id :: string
  cx_type :: code_type
  cx_name :: string
  cx_path :: string
  cx_package :: string
  cx_project :: string
  cx_version :: string
  cx_language :: string
  cx_framework :: string
  cx_visibility :: string
  cx_start :: int
  cx_end :: int
  cx_hash :: string
  cx_doc :: string
  cx_signature :: string
  cx_capability :: "code_capability option"
  cx_contained_by :: string
  cx_contains :: "string list"
  cx_imports :: "string list"
  cx_implements :: "string list"
  cx_extends :: "string list"
  cx_embeds :: "string list"
  cx_calls :: "string list"
  cx_references :: "string list"
  cx_returns :: "string list"
  cx_receiver :: string
  cx_parameters :: "string list"
  cx_indexed :: int

text \<open>What the package takes from outside: the bound on identifiers, the upper-case letters above
  ASCII, the offset of the local time zone in seconds at a moment, and the framework's names for
  the two indexing profiles.\<close>

record code_env =
  ce_limit :: int
  ce_upper :: "nat \<Rightarrow> bool"
  ce_zone :: "int \<Rightarrow> int"
  ce_content :: string
  ce_control :: string

text \<open>A literal that names only some fields leaves the others at Go's zero values.\<close>

definition blank_entity :: "string \<Rightarrow> code_type \<Rightarrow> string \<Rightarrow> int \<Rightarrow> code_entity" where
  "blank_entity eid ty name now =
     \<lparr>cx_id = eid, cx_type = ty, cx_name = name, cx_path = [], cx_package = [], cx_project = [], cx_version = [],
      cx_language = [], cx_framework = [], cx_visibility = [], cx_start = 0, cx_end = 0, cx_hash = [], cx_doc = [],
      cx_signature = [], cx_capability = None, cx_contained_by = [], cx_contains = [], cx_imports = [],
      cx_implements = [], cx_extends = [], cx_embeds = [], cx_calls = [], cx_references = [], cx_returns = [],
      cx_receiver = [], cx_parameters = [], cx_indexed = now\<rparr>"

section \<open>Predicates\<close>

definition code_language :: string where "code_language = ''code.artifact.language''"
definition code_framework :: string where "code_framework = ''code.artifact.framework''"
definition code_visibility :: string where "code_visibility = ''code.artifact.visibility''"
definition code_exported :: string where "code_exported = ''code.artifact.exported''"
definition code_test :: string where "code_test = ''code.artifact.test''"
definition code_contains :: string where "code_contains = ''code.structure.contains''"
definition code_imports :: string where "code_imports = ''code.dependency.imports''"
definition code_implements :: string where "code_implements = ''code.relationship.implements''"
definition code_extends :: string where "code_extends = ''code.relationship.extends''"
definition code_embeds :: string where "code_embeds = ''code.relationship.embeds''"
definition code_calls :: string where "code_calls = ''code.relationship.calls''"
definition code_references :: string where "code_references = ''code.relationship.references''"
definition code_returns :: string where "code_returns = ''code.relationship.returns''"
definition code_receiver :: string where "code_receiver = ''code.relationship.receiver''"
definition code_parameter :: string where "code_parameter = ''code.relationship.parameter''"
definition code_lines :: string where "code_lines = ''code.metric.lines''"
definition code_start_line :: string where "code_start_line = ''code.metric.start-line''"
definition code_end_line :: string where "code_end_line = ''code.metric.end-line''"
definition code_doc_comment :: string where "code_doc_comment = ''code.doc.comment''"
definition code_signature :: string where "code_signature = ''code.doc.signature''"
definition capability_name :: string where "capability_name = ''agentic.capability.name''"
definition capability_description :: string where "capability_description = ''agentic.capability.description''"
definition capability_tools :: string where "capability_tools = ''agentic.capability.tools''"
definition capability_inputs :: string where "capability_inputs = ''agentic.capability.inputs''"
definition capability_outputs :: string where "capability_outputs = ''agentic.capability.outputs''"

lemmas code_predicate_defs =
  code_language_def code_framework_def code_visibility_def code_exported_def code_test_def
  code_contains_def code_imports_def code_implements_def code_extends_def code_embeds_def code_calls_def
  code_references_def code_returns_def code_receiver_def code_parameter_def code_lines_def
  code_start_line_def code_end_line_def code_doc_comment_def code_signature_def capability_name_def
  capability_description_def capability_tools_def capability_inputs_def capability_outputs_def

section \<open>Identifiers\<close>

text \<open>\<open>ReplaceAll\<close> of two one-byte strings is one pass over the bytes.\<close>

definition sanitize_path_segment :: "string \<Rightarrow> string" where
  "sanitize_path_segment path =
     sanitize_segment (trim_prefix (map (\<lambda>c. if c = CHR ''/'' \<or> c = CHR ''.'' then CHR ''-'' else c) path) ''-'')"

definition build_scoped_instance_id :: "string \<Rightarrow> string list \<Rightarrow> string \<Rightarrow> code_type \<Rightarrow> string" where
  "build_scoped_instance_id path scope name ty =
     str_join
       ([sanitize_path_segment path] @ filter (\<lambda>s. s \<noteq> []) (map sanitize_path_segment scope) @
        (if name \<noteq> [] \<and> ty \<noteq> TypeFile \<and> ty \<noteq> TypePackage then [sanitize_segment name] else [])) ''-''"

definition build_instance_id :: "string \<Rightarrow> string \<Rightarrow> code_type \<Rightarrow> string" where
  "build_instance_id path name ty = build_scoped_instance_id path [] name ty"

definition uni_is_upper :: "code_env \<Rightarrow> nat \<Rightarrow> bool" where
  "uni_is_upper env r = (if r < 128 then ascii_upper r else ce_upper env r)"

definition determine_visibility :: "code_env \<Rightarrow> string \<Rightarrow> string" where
  "determine_visibility env name =
     (if name \<noteq> [] \<and> uni_is_upper env (fst (decode_rune name)) then visibility_public else visibility_private)"

definition new_scoped_code_entity ::
  "code_env \<Rightarrow> authority \<Rightarrow> string \<Rightarrow> string \<Rightarrow> code_type \<Rightarrow> string list \<Rightarrow> string \<Rightarrow> string \<Rightarrow> int \<Rightarrow> code_entity" where
  "new_scoped_code_entity env auth language project ty scope name path now =
     (blank_entity
        (authority_build (ce_limit env) auth (system_slug project) language (type_name ty)
           (build_scoped_instance_id path scope name ty)) ty name now)
       \<lparr>cx_path := path, cx_language := language, cx_visibility := determine_visibility env name\<rparr>"

definition new_code_entity ::
  "code_env \<Rightarrow> authority \<Rightarrow> string \<Rightarrow> string \<Rightarrow> code_type \<Rightarrow> string \<Rightarrow> string \<Rightarrow> int \<Rightarrow> code_entity" where
  "new_code_entity env auth language project ty name path now =
     new_scoped_code_entity env auth language project ty [] name path now"

definition compute_hash :: "string \<Rightarrow> string" where
  "compute_hash content = hex_encode (take 8 (sum256 content))"

section \<open>Test code\<close>

definition is_test_path :: "string \<Rightarrow> bool" where
  "is_test_path path =
     (let base = path_base path
      in has_suffix base ''_test.go''
       \<or> str_contains base ''.test.'' \<or> str_contains base ''.spec.''
       \<or> (has_suffix base ''.py'' \<and> (has_prefix base ''test_'' \<or> has_suffix base ''_test.py''))
       \<or> has_suffix base ''Test.java''
       \<or> ''__tests__'' \<in> set (str_split path (CHR ''/''))
       \<or> (str_contains path ''src/test/'' \<and> has_suffix base ''.java'')
       \<or> (has_suffix base ''.py'' \<and> ''tests'' \<in> set (str_split path (CHR ''/''))))"

section \<open>Time stamps\<close>

text \<open>\<open>Time.Format(time.RFC3339)\<close>: the civil date of a day counted from the first of March of year
  zero, a time of day, and the offset of the zone, \<open>Z\<close> when it is zero.\<close>

definition two_digits :: "int \<Rightarrow> string" where
  "two_digits n = (if n < 10 then ''0'' @ show_int n else show_int n)"

definition four_digits :: "int \<Rightarrow> string" where
  "four_digits n =
     (if n < 0 then ''-'' @ replicate (4 - length (show_int (- n))) (CHR ''0'') @ show_int (- n)
      else replicate (4 - length (show_int n)) (CHR ''0'') @ show_int n)"

definition civil_date :: "int \<Rightarrow> int \<times> int \<times> int" where
  "civil_date days =
     (let z = days + 719468;
          era = z div 146097;
          doe = z mod 146097;
          yoe = (doe - doe div 1460 + doe div 36524 - doe div 146096) div 365;
          doy = doe - (365 * yoe + yoe div 4 - yoe div 100);
          mp = (5 * doy + 2) div 153;
          d = doy - (153 * mp + 2) div 5 + 1;
          m = (if mp < 10 then mp + 3 else mp - 9)
      in (yoe + era * 400 + (if m \<le> 2 then 1 else 0), m, d))"

definition format_rfc3339 :: "int \<Rightarrow> int \<Rightarrow> string" where
  "format_rfc3339 offset t =
     (let secs = t div 1000000000 + offset;
          day = secs div 86400;
          s = secs mod 86400;
          (y, m, d) = civil_date day;
          zone = (if offset = 0 then ''Z''
                  else (let mins = (if offset < 0 then - ((- offset) div 60) else offset div 60);
                            a = \<bar>mins\<bar>
                        in (if mins < 0 then ''-'' else ''+'') @ two_digits (a div 60) @ '':'' @ two_digits (a mod 60)))
      in four_digits y @ ''-'' @ two_digits m @ ''-'' @ two_digits d @ ''T'' @ two_digits (s div 3600) @ '':''
         @ two_digits (s mod 3600 div 60) @ '':'' @ two_digits (s mod 60) @ zone)"

text \<open>The zero \<open>time.Time\<close>, the first of January of the year one, in nanoseconds.\<close>

definition zero_time :: int where "zero_time = - 62135596800 * 1000000000"

section \<open>Triples\<close>

text \<open>A triple literal that names subject, predicate and object only.\<close>

definition bare :: "string \<Rightarrow> string \<Rightarrow> obj \<Rightarrow> triple" where
  "bare eid p ob =
     \<lparr>t_subject = eid, t_predicate = p, t_object = ob, t_datatype = [], t_source = [], t_time = zero_time,
      t_confidence = 0\<rparr>"

definition optional_text :: "string \<Rightarrow> string \<Rightarrow> string \<Rightarrow> triple list" where
  "optional_text eid p s = (if s = [] then [] else [bare eid p (OString s)])"

definition each_text :: "string \<Rightarrow> string \<Rightarrow> string list \<Rightarrow> triple list" where
  "each_text eid p ss = map (\<lambda>s. bare eid p (OString s)) ss"

definition identity_triples :: "code_entity \<Rightarrow> triple list" where
  "identity_triples e =
     (let f = bare (cx_id e)
      in [f code_type (OString (type_name (cx_type e))), f dc_title (OString (cx_name e))]
       @ optional_text (cx_id e) code_path (cx_path e)
       @ optional_text (cx_id e) code_package (cx_package e)
       @ (if cx_version e \<noteq> []
          then optional_text (cx_id e) code_project (cx_project e) @ [f code_version (OString (cx_version e))]
          else [])
       @ optional_text (cx_id e) code_hash (cx_hash e)
       @ [f code_language (OString (if cx_language e = [] then ''golang'' else cx_language e))]
       @ optional_text (cx_id e) code_framework (cx_framework e)
       @ [f code_visibility (OString (cx_visibility e))]
       @ (if cx_visibility e = visibility_public then [f code_exported (OString ''true'')] else [])
       @ (if is_test_path (cx_path e) then [f code_test (OString ''true'')] else [])
       @ (if cx_start e > 0 then [f code_start_line (OInt (cx_start e))] else [])
       @ (if cx_end e > 0 then [f code_end_line (OInt (cx_end e))] else [])
       @ (if cx_start e > 0 \<and> cx_end e > 0 then [f code_lines (OInt (cx_end e - cx_start e + 1))] else [])
       @ optional_text (cx_id e) code_doc_comment (cx_doc e)
       @ optional_text (cx_id e) code_signature (cx_signature e))"

definition capability_triples :: "code_entity \<Rightarrow> triple list" where
  "capability_triples e =
     (case cx_capability e of
        None \<Rightarrow> []
      | Some c \<Rightarrow>
          optional_text (cx_id e) capability_name (cc_name c)
          @ optional_text (cx_id e) capability_description (cc_description c)
          @ each_text (cx_id e) capability_tools (cc_tools c)
          @ each_text (cx_id e) capability_inputs (cc_inputs c)
          @ each_text (cx_id e) capability_outputs (cc_outputs c))"

definition relationship_triples :: "code_entity \<Rightarrow> triple list" where
  "relationship_triples e =
     optional_text (cx_id e) code_belongs (cx_contained_by e)
     @ each_text (cx_id e) code_contains (cx_contains e)
     @ each_text (cx_id e) code_imports (cx_imports e)
     @ each_text (cx_id e) code_implements (cx_implements e)
     @ each_text (cx_id e) code_extends (cx_extends e)
     @ each_text (cx_id e) code_embeds (cx_embeds e)
     @ each_text (cx_id e) code_calls (cx_calls e)
     @ each_text (cx_id e) code_references (cx_references e)
     @ each_text (cx_id e) code_returns (cx_returns e)
     @ optional_text (cx_id e) code_receiver (cx_receiver e)
     @ each_text (cx_id e) code_parameter (cx_parameters e)"

definition code_triples :: "code_env \<Rightarrow> code_entity \<Rightarrow> triple list" where
  "code_triples env e =
     identity_triples e @ capability_triples e @ relationship_triples e
     @ [bare (cx_id e) dc_created (OString (format_rfc3339 (ce_zone env (cx_indexed e)) (cx_indexed e)))]"

definition indexing_profile :: "code_env \<Rightarrow> code_entity \<Rightarrow> string" where
  "indexing_profile env e =
     (if cx_type e \<in> {TypeFunction, TypeMethod, TypeStruct, TypeInterface, TypeClass, TypeEnum, TypeComponent,
                      TypeConst, TypeVar, TypeType}
      then ce_content env else ce_control env)"

text \<open>\<open>ast.EntityState\<close> has no storage field; the field of the shared record stays empty.\<close>

definition code_entity_state :: "code_env \<Rightarrow> code_entity \<Rightarrow> 'r entity_state" where
  "code_entity_state env e =
     \<lparr>es_id = cx_id e, es_triples = code_triples env e, es_updated = cx_indexed e, es_storage = None,
      es_profile = indexing_profile env e\<rparr>"

section \<open>Parse results\<close>

text \<open>The file's entity is shared: every parser puts the pointer it stores in \<open>FileEntity\<close> into
  \<open>Entities\<close> too, so that an edge set on the one is published through the other. \<open>TheFile\<close> is that
  pointer; it is nil when there is no file entity.\<close>

datatype entity_ref = TheFile | Symbol code_entity

record parse_result =
  pf_file :: "code_entity option"
  pf_entities :: "entity_ref list"
  pf_imports :: "string list"
  pf_package :: string
  pf_path :: string
  pf_hash :: string

fun deref :: "parse_result \<Rightarrow> entity_ref \<Rightarrow> code_entity option" where
  "deref r TheFile = pf_file r"
| "deref r (Symbol e) = Some e"

text \<open>A nil entity would be dereferenced: the whole call fails.\<close>

definition all_triples :: "code_env \<Rightarrow> parse_result \<Rightarrow> triple list option" where
  "all_triples env r =
     (if list_all (\<lambda>x. deref r x \<noteq> None) (pf_entities r)
      then Some (concat (map (\<lambda>x. code_triples env (the (deref r x))) (pf_entities r))) else None)"

definition all_entity_states :: "code_env \<Rightarrow> parse_result \<Rightarrow> 'r entity_state list option" where
  "all_entity_states env r =
     (if list_all (\<lambda>x. deref r x \<noteq> None) (pf_entities r)
      then Some (map (\<lambda>x. code_entity_state env (the (deref r x))) (pf_entities r)) else None)"

section \<open>Doc comments\<close>

definition blank_byte :: "char \<Rightarrow> bool" where
  "blank_byte c \<longleftrightarrow> c = CHR '' '' \<or> c = CHR 0x09"

definition doc_line :: "string \<Rightarrow> string" where
  "doc_line line =
     trim_right_bytes blank_byte (trim_prefix (trim_prefix (trim_left_bytes blank_byte line) ''*'') '' '')"

definition clean_doc_comment_block :: "string \<Rightarrow> string" where
  "clean_doc_comment_block raw =
     (let s = trim_suffix (trim_prefix (trim_space raw) ''/**'') ''*/'';
          out = map doc_line (str_split s (CHR 0x0A));
          out = dropWhile (\<lambda>l. l = []) out
      in str_join (rev (dropWhile (\<lambda>l. l = []) (rev out))) [CHR 0x0A])"

definition combine_doc_comment :: "string \<Rightarrow> string \<Rightarrow> string" where
  "combine_doc_comment doc_body metadata =
     (let b = trim_space doc_body; m = trim_space metadata
      in if b = [] \<and> m = [] then []
         else if b = [] then m
         else if m = [] then b
         else b @ [CHR 0x0A, CHR 0x0A] @ m)"

section \<open>The repository and its folders\<close>

definition domain_code :: string where "domain_code = ''code''"

definition build_repo_id :: "code_env \<Rightarrow> authority \<Rightarrow> string \<Rightarrow> string" where
  "build_repo_id env auth slug =
     authority_build (ce_limit env) auth slug domain_code (type_name TypeRepo) (sanitize_path_segment slug)"

definition folder_id :: "code_env \<Rightarrow> authority \<Rightarrow> string \<Rightarrow> string \<Rightarrow> string" where
  "folder_id env auth slug path =
     authority_build (ce_limit env) auth slug domain_code (type_name TypeFolder) (sanitize_path_segment path)"

definition new_folder_entity :: "code_env \<Rightarrow> authority \<Rightarrow> string \<Rightarrow> string \<Rightarrow> int \<Rightarrow> code_entity" where
  "new_folder_entity env auth slug path now =
     (blank_entity (folder_id env auth slug path) TypeFolder (path_base path) now)\<lparr>cx_path := path\<rparr>"

text \<open>The set of folder paths is the list of its members, each once. The walk towards the root ends
  because \<open>Dir\<close> shortens a path, except at \<open>/\<close>, which is its own parent and in the set by then.\<close>

definition expand_measure :: "string \<times> string list \<Rightarrow> nat" where
  "expand_measure x =
     (case x of (d, found) \<Rightarrow>
        if d = ''.'' \<or> d = [] then 0 else if d = ''/'' then (if d \<in> set found then 1 else 2) else 2 + length d)"

lemma clean_step_weight:
  "sum_list (map (\<lambda>e. length e + 1) (clean_step rooted st e)) \<le>
   sum_list (map (\<lambda>e. length e + 1) st) + (if e = [] then 0 else length e + 1)"
  by (cases st) (auto simp: clean_step_def)

lemma clean_foldl_weight:
  "sum_list (map (\<lambda>e. length e + 1) (foldl (clean_step rooted) st es)) \<le>
   sum_list (map (\<lambda>e. length e + 1) st) + sum_list (map (\<lambda>e. if e = [] then 0 else length e + 1) es)"
proof (induction es arbitrary: st)
  case (Cons e es)
  show ?case using Cons.IH [of "clean_step rooted st e"] clean_step_weight [of rooted st e] by simp
qed simp

lemma str_split_weight: "sum_list (map (\<lambda>e. length e + 1) (str_split s c)) = length s + 1"
  by (induction s c rule: str_split.induct) (auto split: list.splits)

lemma str_join_weight: "es \<noteq> [] \<Longrightarrow> length (str_join es [c]) + 1 = sum_list (map (\<lambda>e. length e + 1) es)"
  by (induction es "[c]" rule: str_join.induct) auto

lemma split_weight_gap:
  "sum_list (map (\<lambda>e. if e = [] then 0 else length e + 1) es) + length (filter (\<lambda>e. e = []) es)
     = sum_list (map (\<lambda>e. length e + 1) es)"
  by (induction es) auto

text \<open>A cleaned path is no longer than the path without its trailing slash.\<close>

lemma clean_shorter: "clean (s @ ''/'') = ''.'' \<or> clean (s @ ''/'') = ''/'' \<or> length (clean (s @ ''/'')) \<le> length s"
proof -
  let ?p = "s @ ''/''"
  let ?es = "str_split ?p (CHR ''/'')"
  let ?st = "foldl (clean_step (is_abs ?p)) [] ?es"
  let ?w = "\<lambda>es. sum_list (map (\<lambda>e. length e + 1) es)"
  have split: "?es = str_split s (CHR ''/'') @ [[]]" using str_split_append_sep [of s "CHR ''/''" "[]"] by simp
  have gaps: "length (filter (\<lambda>e. e = []) ?es) \<ge> (if is_abs ?p \<and> s \<noteq> [] then 2 else 1)"
  proof (cases "is_abs ?p \<and> s \<noteq> []")
    case True
    then obtain t where "s = CHR ''/'' # t" by (cases s) (auto simp: is_abs_def has_prefix_def)
    then show ?thesis using split by simp
  next
    case False
    then have "(if is_abs ?p \<and> s \<noteq> [] then 2 else 1 :: nat) = 1" by simp
    then show ?thesis by (simp add: split)
  qed
  have "?w ?st \<le> sum_list (map (\<lambda>e. if e = [] then 0 else length e + 1) ?es)"
    using clean_foldl_weight [of "is_abs ?p" "[]" ?es] by simp
  then have le: "?w ?st + (if is_abs ?p \<and> s \<noteq> [] then 2 else 1) \<le> length s + 2"
    using split_weight_gap [of ?es] gaps str_split_weight [of ?p "CHR ''/''"] by (simp split: if_splits)
  have rw: "?w (rev ?st) = ?w ?st" by (simp add: rev_map [symmetric] del: rev_map)
  show ?thesis
  proof (cases "?st = []")
    case True
    then show ?thesis by (simp add: clean_def render_path_def clean_elems_def str_join.simps)
  next
    case False
    then have j: "length (str_join (rev ?st) ''/'') + 1 = ?w ?st"
      using str_join_weight [of "rev ?st" "CHR ''/''"] rw by simp
    show ?thesis
    proof (cases "s = []")
      case True
      then show ?thesis by (simp add: clean_def render_path_def clean_elems_def is_abs_def has_prefix_def clean_step_def)
    next
      case ne: False
      then show ?thesis using j le False by (auto simp: clean_def render_path_def clean_elems_def split: if_splits)
    qed
  qed
qed

lemma path_dir_shorter:
  "path_dir d = ''.'' \<or> path_dir d = ''/'' \<or> length (path_dir d) < length d"
proof (cases "CHR ''/'' \<in> set d")
  case False
  then have r: "rev (dropWhile (\<lambda>c. c \<noteq> CHR ''/'') (rev d)) = []" by auto
  show ?thesis unfolding path_dir_def r by (simp add: clean_def render_path_def clean_elems_def clean_step_def is_abs_def has_prefix_def)
next
  case True
  then obtain s t where d: "d = s @ CHR ''/'' # t" "CHR ''/'' \<notin> set t" by (metis split_list_last)
  then have "rev (dropWhile (\<lambda>c. c \<noteq> CHR ''/'') (rev d)) = s @ ''/''"
    by (simp add: dropWhile_append2 dropWhile_append)
  then show ?thesis using clean_shorter [of s] d(1) by (auto simp: path_dir_def)
qed

lemma path_dir_root: "path_dir ''/'' = ''/''"
  by (simp add: path_dir_def clean_def render_path_def clean_elems_def clean_step_def is_abs_def has_prefix_def)

function expand_ancestors :: "string \<Rightarrow> string list \<Rightarrow> string list" where
  "expand_ancestors d found =
     (if d = ''.'' \<or> d = [] then found
      else if d \<in> set found then found
      else expand_ancestors (path_dir d) (d # found))"
  by pat_completeness auto
termination
proof (relation "measure expand_measure")
  fix d :: string and found :: "string list"
  assume a: "\<not> (d = ''.'' \<or> d = [])" "d \<notin> set found"
  show "((path_dir d, d # found), d, found) \<in> measure expand_measure"
  proof (cases "d = ''/''")
    case True
    then show ?thesis using a by (simp add: expand_measure_def path_dir_root)
  next
    case False
    then show ?thesis using a path_dir_shorter [of d] by (auto simp: expand_measure_def)
  qed
qed simp

declare expand_ancestors.simps [simp del]

definition parent_dir :: "string \<Rightarrow> string" where
  "parent_dir p = (if path_dir p = ''.'' then [] else path_dir p)"

definition path_depth :: "string \<Rightarrow> nat" where
  "path_depth p = length (filter (\<lambda>c. c = CHR ''/'') p)"

definition folder_before :: "string \<Rightarrow> string \<Rightarrow> bool" where
  "folder_before a b \<longleftrightarrow>
     (if path_depth a \<noteq> path_depth b then path_depth a < path_depth b else a < b)"

text \<open>\<open>sort.Slice\<close> is not stable, but the comparator never ties on two paths: the result is unique.\<close>

definition sort_folder_paths :: "string list \<Rightarrow> string list" where
  "sort_folder_paths paths = stable_sort folder_before paths"

type_synonym folder_map = "(string, code_entity) gomap"

text \<open>\<open>folders\<close> holds pointers, so an entity is changed in the map.\<close>

definition update_folder :: "string \<Rightarrow> (code_entity \<Rightarrow> code_entity) \<Rightarrow> folder_map \<Rightarrow> folder_map" where
  "update_folder p f m = (case map_of m p of None \<Rightarrow> m | Some e \<Rightarrow> gm_put p (f e) m)"

definition add_child :: "string \<Rightarrow> code_entity \<Rightarrow> code_entity" where
  "add_child eid e = e\<lparr>cx_contains := cx_contains e @ [eid]\<rparr>"

definition new_folders :: "code_env \<Rightarrow> authority \<Rightarrow> string \<Rightarrow> int \<Rightarrow> string list \<Rightarrow> folder_map" where
  "new_folders env auth slug now paths =
     foldl (\<lambda>m p. gm_put p (new_folder_entity env auth slug p now) m) [] paths"

definition wire_step :: "code_entity \<times> folder_map \<Rightarrow> string \<Rightarrow> code_entity \<times> folder_map" where
  "wire_step st p =
     (case st of (repo, folders) \<Rightarrow>
        case map_of folders p of
          None \<Rightarrow> (repo, folders)
        | Some f \<Rightarrow>
            let parent = path_dir p
            in if parent = ''.'' \<or> parent = []
               then (add_child (cx_id f) repo, update_folder p (cx_contained_by_update (\<lambda>_. cx_id repo)) folders)
               else case map_of folders parent of
                      None \<Rightarrow> (repo, folders)
                    | Some pf \<Rightarrow>
                        (repo, update_folder parent (add_child (cx_id f))
                                 (update_folder p (cx_contained_by_update (\<lambda>_. cx_id pf)) folders)))"

definition wire_containment :: "code_entity \<Rightarrow> folder_map \<Rightarrow> string list \<Rightarrow> code_entity \<times> folder_map" where
  "wire_containment repo folders paths = foldl wire_step (repo, folders) paths"

text \<open>The directory of every file, and the files in each.\<close>

definition files_by_dir :: "parse_result list \<Rightarrow> (string, string list) gomap" where
  "files_by_dir results =
     foldl (\<lambda>m r. case pf_file r of None \<Rightarrow> m | Some f \<Rightarrow> gm_append (parent_dir (pf_path r)) (cx_id f) m) [] results"

definition folder_paths :: "parse_result list \<Rightarrow> string list" where
  "folder_paths results =
     foldl (\<lambda>s r. case pf_file r of None \<Rightarrow> s | Some f \<Rightarrow> expand_ancestors (parent_dir (pf_path r)) s) [] results"

definition assign_file :: "code_entity \<Rightarrow> folder_map \<Rightarrow> parse_result \<Rightarrow> parse_result" where
  "assign_file repo folders r =
     (case pf_file r of
        None \<Rightarrow> r
      | Some f \<Rightarrow>
          (let parent = (case map_of folders (parent_dir (pf_path r)) of Some d \<Rightarrow> cx_id d | None \<Rightarrow> cx_id repo)
           in r\<lparr>pf_file := Some (f\<lparr>cx_contained_by := parent\<rparr>)\<rparr>))"

definition populate_folder_files :: "folder_map \<Rightarrow> (string, string list) gomap \<Rightarrow> folder_map" where
  "populate_folder_files folders by_dir =
     foldl (\<lambda>m (dir, files). update_folder dir (\<lambda>d. d\<lparr>cx_contains := cx_contains d @ files\<rparr>) m) folders by_dir"

definition populate_repo_files :: "code_entity \<Rightarrow> (string, string list) gomap \<Rightarrow> code_entity" where
  "populate_repo_files repo by_dir =
     (case map_of by_dir [] of None \<Rightarrow> repo | Some files \<Rightarrow> repo\<lparr>cx_contains := cx_contains repo @ files\<rparr>)"

definition sort_children :: "code_entity \<Rightarrow> code_entity" where
  "sort_children e = e\<lparr>cx_contains := sort_strings (cx_contains e)\<rparr>"

text \<open>The results come back with the edges of their files set; the entities are nil without results.\<close>

definition build_hierarchy ::
  "code_env \<Rightarrow> authority \<Rightarrow> string \<Rightarrow> int \<Rightarrow> parse_result list \<Rightarrow> parse_result list \<times> code_entity list" where
  "build_hierarchy env auth project now results =
     (if results = [] then (results, [])
      else
        let slug = system_slug project;
            repo0 = blank_entity (build_repo_id env auth slug) TypeRepo project now;
            by_dir = files_by_dir results;
            paths = sort_folder_paths (folder_paths results);
            (repo1, folders1) = wire_containment repo0 (new_folders env auth slug now paths) paths;
            results' = map (assign_file repo1 folders1) results;
            folders2 = populate_folder_files folders1 by_dir;
            repo2 = sort_children (populate_repo_files repo1 by_dir);
            folders3 = map (\<lambda>(p, f). (p, sort_children f)) folders2
        in (results', repo2 # map (\<lambda>p. the (map_of folders3 p)) paths))"

definition chain_step :: "string \<Rightarrow> folder_map \<Rightarrow> string \<Rightarrow> folder_map" where
  "chain_step repo_id folders p =
     (case map_of folders p of
        None \<Rightarrow> folders
      | Some f \<Rightarrow>
          let parent = path_dir p
          in if parent = ''.'' \<or> parent = []
             then update_folder p (cx_contained_by_update (\<lambda>_. repo_id)) folders
             else case map_of folders parent of
                    None \<Rightarrow> folders
                  | Some pf \<Rightarrow>
                      update_folder parent (add_child (cx_id f))
                        (update_folder p (cx_contained_by_update (\<lambda>_. cx_id pf)) folders))"

definition build_folder_chain ::
  "code_env \<Rightarrow> authority \<Rightarrow> string \<Rightarrow> int \<Rightarrow> string \<Rightarrow> code_entity list" where
  "build_folder_chain env auth project now file_path =
     (let dir = path_dir file_path
      in if dir = ''.'' \<or> dir = [] then []
         else
           let slug = system_slug project;
               paths = sort_folder_paths (expand_ancestors dir []);
               folders = foldl (chain_step (build_repo_id env auth slug)) (new_folders env auth slug now paths) paths
           in map (\<lambda>p. the (map_of folders p)) paths)"

section \<open>The registry of parsers\<close>

text \<open>A factory makes a parser from an authority, a project and a root.\<close>

type_synonym 'p parser_factory = "authority \<Rightarrow> string \<Rightarrow> string \<Rightarrow> 'p"

record 'p parser_registry =
  rg_parsers :: "(string, 'p parser_factory) gomap"
  rg_ext :: "(string, string) gomap"
  rg_declared :: "(string, string list) gomap"

definition new_parser_registry :: "'p parser_registry" where
  "new_parser_registry = \<lparr>rg_parsers = [], rg_ext = [], rg_declared = []\<rparr>"

definition claim_ext :: "string \<Rightarrow> (string, string) gomap \<Rightarrow> string \<Rightarrow> (string, string) gomap" where
  "claim_ext name m ext = (if gm_has m ext then m else gm_put ext name m)"

definition register_parser ::
  "string \<Rightarrow> string list \<Rightarrow> 'p parser_factory \<Rightarrow> 'p parser_registry \<Rightarrow> 'p parser_registry" where
  "register_parser name exts factory r =
     \<lparr>rg_parsers = gm_put name factory (rg_parsers r),
      rg_ext = foldl (claim_ext name) (rg_ext r) exts,
      rg_declared = gm_put name exts (rg_declared r)\<rparr>"

definition get_parser_name :: "'p parser_registry \<Rightarrow> string \<Rightarrow> string option" where
  "get_parser_name r ext = map_of (rg_ext r) ext"

datatype 'e registry_error = ParserAuthority "'e authority_error" | NotRegistered string | NoParserForExtension string

definition create_parser ::
  "int \<Rightarrow> (string \<Rightarrow> 'e option) \<Rightarrow> 'p parser_registry \<Rightarrow> string \<Rightarrow> authority \<Rightarrow> string \<Rightarrow> string
     \<Rightarrow> 'e registry_error + 'p" where
  "create_parser M vp r name auth project repo_root =
     (case authority_validate M vp auth of
        Some e \<Rightarrow> Inl (ParserAuthority e)
      | None \<Rightarrow> (case map_of (rg_parsers r) name of
                  None \<Rightarrow> Inl (NotRegistered name)
                | Some factory \<Rightarrow> Inr (factory auth project repo_root)))"

definition create_parser_for_extension ::
  "int \<Rightarrow> (string \<Rightarrow> 'e option) \<Rightarrow> 'p parser_registry \<Rightarrow> string \<Rightarrow> authority \<Rightarrow> string \<Rightarrow> string
     \<Rightarrow> 'e registry_error + 'p" where
  "create_parser_for_extension M vp r ext auth project repo_root =
     (case get_parser_name r ext of
        None \<Rightarrow> Inl (NoParserForExtension ext)
      | Some name \<Rightarrow> create_parser M vp r name auth project repo_root)"

definition list_parsers :: "'p parser_registry \<Rightarrow> string list" where
  "list_parsers r = map fst (rg_parsers r)"

definition list_extensions :: "'p parser_registry \<Rightarrow> string list" where
  "list_extensions r = map fst (rg_ext r)"

definition get_extensions_for_parser :: "'p parser_registry \<Rightarrow> string \<Rightarrow> string list" where
  "get_extensions_for_parser r name = (case map_of (rg_declared r) name of None \<Rightarrow> [] | Some exts \<Rightarrow> exts)"

definition has_parser :: "'p parser_registry \<Rightarrow> string \<Rightarrow> bool" where
  "has_parser r name \<longleftrightarrow> gm_has (rg_parsers r) name"

section \<open>Relative paths\<close>

abbreviation rel_of :: "string list \<Rightarrow> string" where
  "rel_of es \<equiv> str_join es ''/''"

lemma rel_append: "es \<noteq> [] \<Longrightarrow> rel_of (es @ [e]) = rel_of es @ ''/'' @ e"
  by (simp add: str_join_append)

lemma proper_no_slash: "proper_elem e \<Longrightarrow> e \<noteq> [] \<and> CHR ''/'' \<notin> set e"
  by (simp add: proper_elem_def)

lemma rel_nonempty: "list_all proper_elem es \<Longrightarrow> es \<noteq> [] \<Longrightarrow> rel_of es \<noteq> []"
  by (cases es rule: remdups_adj.cases) (auto simp: proper_elem_def)

lemma rel_head:
  assumes "list_all proper_elem es" and "es \<noteq> []"
  shows "\<not> is_abs (rel_of es)" and "rel_of es \<noteq> ''.''"
proof -
  obtain e r where es: "es = e # r" using assms(2) by (cases es) auto
  have e: "proper_elem e" using assms(1) es by simp
  obtain c t where ec: "e = c # t" "c \<noteq> CHR ''/''" using proper_no_slash [OF e] by (cases e) auto
  show "\<not> is_abs (rel_of es)" unfolding es by (cases r) (simp_all add: ec is_abs_def has_prefix_def)
  show "rel_of es \<noteq> ''.''"
  proof (cases r)
    case Nil
    then show ?thesis using e by (simp add: es proper_elem_def)
  next
    case (Cons x y)
    then show ?thesis by (simp add: es ec)
  qed
qed

lemma split_rel: "list_all proper_elem es \<Longrightarrow> es \<noteq> [] \<Longrightarrow> str_split (rel_of es) (CHR ''/'') = es"
  using str_split_join [of es "CHR ''/''"] by (auto simp: list_all_iff proper_elem_def)

lemma clean_foldl_rel: "list_all proper_elem es \<Longrightarrow> foldl (clean_step rooted) st es = rev es @ st"
  by (induction es arbitrary: st) (auto simp: clean_step_def proper_elem_def)

lemma rel_inj: "list_all proper_elem a \<Longrightarrow> list_all proper_elem b \<Longrightarrow> rel_of a = rel_of b \<Longrightarrow> a = b"
  using str_join_inj [of a b] by (simp add: canonical_path_def)

lemma path_dir_rel:
  assumes "list_all proper_elem (es @ [e])"
  shows "path_dir (rel_of (es @ [e])) = (if es = [] then ''.'' else rel_of es)"
proof -
  have ns: "CHR ''/'' \<notin> set e" using assms proper_no_slash by auto
  show ?thesis
  proof (cases "es = []")
    case True
    have r: "rev (dropWhile (\<lambda>c. c \<noteq> CHR ''/'') (rev e)) = []" using ns by (auto simp: dropWhile_eq_Nil_conv)
    show ?thesis using True unfolding path_dir_def
      by (simp add: r clean_def render_path_def clean_elems_def clean_step_def is_abs_def has_prefix_def)
  next
    case False
    have es: "list_all proper_elem es" using assms by simp
    have d: "rev (dropWhile (\<lambda>c. c \<noteq> CHR ''/'') (rev (rel_of es @ ''/'' @ e))) = rel_of es @ ''/''"
      using ns by (simp add: dropWhile_append2 dropWhile_append)
    have sp: "str_split (rel_of es @ ''/'') (CHR ''/'') = es @ [[]]"
      using str_split_append_sep [of "rel_of es" "CHR ''/''" "[]"] split_rel [OF es False] by simp
    have na: "\<not> is_abs (rel_of es @ ''/'')"
      using rel_head(1) [OF es False] rel_nonempty [OF es False] by (cases "rel_of es") (auto simp: is_abs_def has_prefix_def)
    have c: "clean (rel_of es @ ''/'') = rel_of es"
      using False na by (simp add: clean_def sp clean_elems_def clean_foldl_rel [OF es] clean_step_def render_path_def)
    show ?thesis using False d c unfolding path_dir_def rel_append [OF False] by simp
  qed
qed

lemma parent_dir_rel: "list_all proper_elem (es @ [e]) \<Longrightarrow> parent_dir (rel_of (es @ [e])) = rel_of es"
  using rel_head(2) [of es] by (auto simp: parent_dir_def path_dir_rel)

lemma path_base_rel:
  assumes "list_all proper_elem (es @ [e])"
  shows "path_base (rel_of (es @ [e])) = e"
proof -
  have e: "e \<noteq> []" "CHR ''/'' \<notin> set e" using assms proper_no_slash by auto
  obtain a where a: "rel_of (es @ [e]) = a @ e" "a = [] \<or> last a = CHR ''/''"
  proof (cases "es = []")
    case False
    then show ?thesis using that [of "rel_of es @ ''/''"] rel_append [OF False] by simp
  qed (use that [of "[]"] in simp)
  have "last e \<noteq> CHR ''/''" using e last_in_set by metis
  then have "trim_right_bytes (\<lambda>c. c = CHR ''/'') (a @ e) = a @ e"
    using e(1) by (cases e rule: rev_cases) (auto simp: trim_right_bytes_def)
  moreover have "takeWhile (\<lambda>c. c \<noteq> CHR ''/'') (rev (a @ e)) = rev e"
    using e(2) a(2) by (cases a rule: rev_cases) (auto simp: takeWhile_append2 takeWhile_tail)
  ultimately show ?thesis unfolding a(1) using e(1) by (simp add: path_base_def)
qed

lemma path_depth_rel: "list_all proper_elem es \<Longrightarrow> path_depth (rel_of es) = length es - 1"
proof (induction es "''/''" rule: str_join.induct)
  case (2 x)
  then show ?case using proper_no_slash [of x] by (auto simp: path_depth_def filter_empty_conv)
next
  case (3 x y r)
  have "filter (\<lambda>c. c = CHR ''/'') x = []" using 3(2) proper_no_slash [of x] by (auto simp: filter_empty_conv)
  then show ?case using 3 by (simp add: path_depth_def)
qed (simp add: path_depth_def)

section \<open>The ancestors of a directory\<close>

text \<open>The folders on the way from the root to a directory, outermost first.\<close>

definition ancestor_dirs :: "string list \<Rightarrow> string list" where
  "ancestor_dirs es = map (\<lambda>i. rel_of (take i es)) [1..<Suc (length es)]"

lemma ancestor_dirs_snoc: "ancestor_dirs (es @ [e]) = ancestor_dirs es @ [rel_of (es @ [e])]"
  by (auto simp: ancestor_dirs_def)

lemma ancestor_dirs_Nil [simp]: "ancestor_dirs [] = []"
  by (simp add: ancestor_dirs_def)

definition has_ancestors :: "string set \<Rightarrow> string \<Rightarrow> bool" where
  "has_ancestors S p \<longleftrightarrow>
     (\<exists>es. es \<noteq> [] \<and> list_all proper_elem es \<and> p = rel_of es \<and> set (ancestor_dirs es) \<subseteq> S)"

definition ancestor_closed :: "string set \<Rightarrow> bool" where
  "ancestor_closed S \<longleftrightarrow> (\<forall>p \<in> S. has_ancestors S p)"

lemma has_ancestorsI:
  "es \<noteq> [] \<Longrightarrow> list_all proper_elem es \<Longrightarrow> set (ancestor_dirs es) \<subseteq> S \<Longrightarrow> has_ancestors S (rel_of es)"
  unfolding has_ancestors_def by (intro exI [of _ es] conjI) simp_all

lemma has_ancestorsE:
  assumes "has_ancestors S p"
  obtains es where "es \<noteq> []" "list_all proper_elem es" "p = rel_of es" "set (ancestor_dirs es) \<subseteq> S"
  using assms unfolding has_ancestors_def by (elim exE conjE)

lemma has_ancestors_mono: "has_ancestors A p \<Longrightarrow> A \<subseteq> B \<Longrightarrow> has_ancestors B p"
  by (elim has_ancestorsE) (simp add: has_ancestorsI subset_trans)

lemma ancestors_of_prefix: "p \<in> set (ancestor_dirs es) \<longleftrightarrow> (\<exists>i. 0 < i \<and> i \<le> length es \<and> p = rel_of (take i es))"
  by (auto simp: ancestor_dirs_def image_iff Suc_le_eq)

lemma ancestor_dirs_take: "set (ancestor_dirs (take i es)) \<subseteq> set (ancestor_dirs es)"
proof
  fix p assume "p \<in> set (ancestor_dirs (take i es))"
  then obtain j where j: "0 < j" "j \<le> length (take i es)" "p = rel_of (take j (take i es))"
    unfolding ancestors_of_prefix by blast
  then have "p = rel_of (take j es)" "j \<le> length es" by (auto simp: min_def split: if_splits)
  with j(1) show "p \<in> set (ancestor_dirs es)" unfolding ancestors_of_prefix by blast
qed

lemma proper_take: "list_all proper_elem es \<Longrightarrow> list_all proper_elem (take i es)"
  by (metis append_take_drop_id list_all_append)

lemma closed_ancestors: "list_all proper_elem es \<Longrightarrow> ancestor_closed (set (ancestor_dirs es))"
  unfolding ancestor_closed_def
proof
  fix p assume es: "list_all proper_elem es" and p: "p \<in> set (ancestor_dirs es)"
  then obtain i where i: "0 < i" "i \<le> length es" "p = rel_of (take i es)" unfolding ancestors_of_prefix by blast
  have "take i es \<noteq> []" using i by auto
  then show "has_ancestors (set (ancestor_dirs es)) p"
    unfolding i(3) by (intro has_ancestorsI proper_take es ancestor_dirs_take)
qed

lemma closed_Un: "ancestor_closed A \<Longrightarrow> ancestor_closed B \<Longrightarrow> ancestor_closed (A \<union> B)"
  unfolding ancestor_closed_def using has_ancestors_mono by blast

lemma closed_member:
  assumes "ancestor_closed S" and "list_all proper_elem es" and "rel_of es \<in> S"
  shows "set (ancestor_dirs es) \<subseteq> S"
proof -
  have "has_ancestors S (rel_of es)" using assms(1,3) unfolding ancestor_closed_def by blast
  then obtain fs where fs: "list_all proper_elem fs" "rel_of es = rel_of fs" "set (ancestor_dirs fs) \<subseteq> S"
    by (elim has_ancestorsE)
  then show ?thesis using rel_inj [OF assms(2) fs(1)] by simp
qed

lemma expand_ancestors_walk:
  "list_all proper_elem es \<Longrightarrow> distinct found \<Longrightarrow>
   (\<And>i. 0 < i \<Longrightarrow> i \<le> length es \<Longrightarrow> rel_of (take i es) \<in> set found \<Longrightarrow> set (ancestor_dirs (take i es)) \<subseteq> set found) \<Longrightarrow>
   set (expand_ancestors (rel_of es) found) = set found \<union> set (ancestor_dirs es)
   \<and> distinct (expand_ancestors (rel_of es) found)"
proof (induction es arbitrary: found rule: rev_induct)
  case Nil
  then show ?case by (simp add: expand_ancestors.simps [of "[]"])
next
  case (snoc e es)
  let ?p = "rel_of (es @ [e])"
  have ne: "?p \<noteq> []" "?p \<noteq> ''.''"
    using rel_nonempty [OF snoc.prems(1)] rel_head(2) [OF snoc.prems(1)] by auto
  have es: "list_all proper_elem es" using snoc.prems(1) by simp
  show ?case
  proof (cases "?p \<in> set found")
    case True
    have "set (ancestor_dirs (es @ [e])) \<subseteq> set found" using snoc.prems(3) [of "length (es @ [e])"] True by simp
    moreover have "expand_ancestors ?p found = found" using ne True by (simp add: expand_ancestors.simps [of ?p])
    ultimately show ?thesis using snoc.prems(2) by auto
  next
    case False
    have eq: "expand_ancestors ?p found = expand_ancestors (path_dir ?p) (?p # found)"
      using ne False by (simp add: expand_ancestors.simps [of ?p])
    have next_dir: "expand_ancestors (path_dir ?p) (?p # found) = expand_ancestors (rel_of es) (?p # found)"
    proof (cases "es = []")
      case True
      then show ?thesis unfolding path_dir_rel [OF snoc.prems(1)]
        by (simp add: expand_ancestors.simps [of "''.''"] expand_ancestors.simps [of "[]"])
    next
      case ne': False
      then show ?thesis unfolding path_dir_rel [OF snoc.prems(1)] by simp
    qed
    have d: "distinct (?p # found)" using False snoc.prems(2) by simp
    have pre: "set (ancestor_dirs (take i es)) \<subseteq> set (?p # found)"
      if i: "0 < i" "i \<le> length es" "rel_of (take i es) \<in> set (?p # found)" for i
    proof -
      have "rel_of (take i es) \<noteq> ?p"
      proof
        assume "rel_of (take i es) = ?p"
        then have "take i es = es @ [e]" using rel_inj [OF proper_take [OF es] snoc.prems(1)] by blast
        then have "length (take i es) = length es + 1" by simp
        then show False by simp
      qed
      then have "rel_of (take i es) \<in> set found" using i(3) by simp
      then show ?thesis using snoc.prems(3) [of i] i(1,2) by auto
    qed
    have "set (expand_ancestors (rel_of es) (?p # found)) = set (?p # found) \<union> set (ancestor_dirs es)
        \<and> distinct (expand_ancestors (rel_of es) (?p # found))"
      by (rule snoc.IH [OF es d pre])
    then show ?thesis unfolding eq next_dir ancestor_dirs_snoc by auto
  qed
qed

lemma expand_ancestors_set:
  assumes "list_all proper_elem es" and "ancestor_closed (set found)" and "distinct found"
  shows "set (expand_ancestors (rel_of es) found) = set found \<union> set (ancestor_dirs es)"
    and "distinct (expand_ancestors (rel_of es) found)"
    and "ancestor_closed (set (expand_ancestors (rel_of es) found))"
proof -
  have *: "set (expand_ancestors (rel_of es) found) = set found \<union> set (ancestor_dirs es)
      \<and> distinct (expand_ancestors (rel_of es) found)"
    by (rule expand_ancestors_walk [OF assms(1,3)]) (rule closed_member [OF assms(2) proper_take [OF assms(1)]])
  then show "set (expand_ancestors (rel_of es) found) = set found \<union> set (ancestor_dirs es)"
      "distinct (expand_ancestors (rel_of es) found)" by auto
  show "ancestor_closed (set (expand_ancestors (rel_of es) found))"
    using * closed_Un [OF assms(2) closed_ancestors [OF assms(1)]] by simp
qed

section \<open>The folders of a batch\<close>

text \<open>What a walk under a root gives: a path of proper elements below it.\<close>

definition relative_path :: "string \<Rightarrow> bool" where
  "relative_path p \<longleftrightarrow> p \<noteq> [] \<and> list_all proper_elem (str_split p (CHR ''/''))"

definition dir_elems :: "string \<Rightarrow> string list" where
  "dir_elems p = butlast (str_split p (CHR ''/''))"

lemma relative_path_rel: "es \<noteq> [] \<Longrightarrow> list_all proper_elem es \<Longrightarrow> relative_path (rel_of es)"
  by (simp add: relative_path_def split_rel rel_nonempty)

lemma str_join_split: "str_join (str_split s c) [c] = s"
proof (induction s c rule: str_split.induct)
  case (2 x xs c)
  then show ?case by (cases "str_split xs c" rule: remdups_adj.cases) (auto split: list.splits)
qed simp

lemma relative_pathE:
  assumes "relative_path p"
  obtains es e where "list_all proper_elem (es @ [e])" "p = rel_of (es @ [e])" "dir_elems p = es"
proof -
  let ?s = "str_split p (CHR ''/'')"
  obtain es e where s: "?s = es @ [e]" using str_split_nonempty by (cases ?s rule: rev_cases) auto
  have "p = rel_of (es @ [e])" using str_join_split [of p "CHR ''/''"] s by simp
  moreover have "list_all proper_elem (es @ [e])" using assms s by (simp add: relative_path_def)
  ultimately show ?thesis using that s by (simp add: dir_elems_def)
qed

lemma parent_dir_elems: "relative_path p \<Longrightarrow> parent_dir p = rel_of (dir_elems p) \<and> list_all proper_elem (dir_elems p)"
  by (elim relative_pathE) (simp add: parent_dir_rel)

definition files_of :: "parse_result list \<Rightarrow> (string \<times> string) list" where
  "files_of results = concat (map (\<lambda>r. case pf_file r of None \<Rightarrow> [] | Some f \<Rightarrow> [(pf_path r, cx_id f)]) results)"

definition tree_folders :: "string list \<Rightarrow> string set" where
  "tree_folders paths = (\<Union>p \<in> set paths. set (ancestor_dirs (dir_elems p)))"

lemma files_of_simps:
  "files_of [] = []"
  "pf_file r = None \<Longrightarrow> files_of (r # rs) = files_of rs"
  "pf_file r = Some f \<Longrightarrow> files_of (r # rs) = (pf_path r, cx_id f) # files_of rs"
  by (simp_all add: files_of_def)

lemma folder_paths_fold:
  assumes "list_all (\<lambda>r. relative_path (pf_path r)) results" and "ancestor_closed (set found)" and "distinct found"
  shows "let out = foldl (\<lambda>s r. case pf_file r of None \<Rightarrow> s | Some f \<Rightarrow> expand_ancestors (parent_dir (pf_path r)) s) found results
    in set out = set found \<union> tree_folders (map fst (files_of results)) \<and> distinct out"
  using assms
proof (induction results arbitrary: found)
  case Nil
  then show ?case by (simp add: files_of_simps tree_folders_def)
next
  case (Cons r rs)
  show ?case
  proof (cases "pf_file r")
    case None
    then show ?thesis using Cons by (simp add: files_of_simps)
  next
    case (Some f)
    have p: "parent_dir (pf_path r) = rel_of (dir_elems (pf_path r))" "list_all proper_elem (dir_elems (pf_path r))"
      using parent_dir_elems Cons.prems(1) by auto
    note x = expand_ancestors_set [OF p(2) Cons.prems(2,3)]
    have rs: "list_all (\<lambda>r. relative_path (pf_path r)) rs" using Cons.prems(1) by simp
    show ?thesis using Cons.IH [OF rs x(3,2)] unfolding x(1)
      by (simp add: Some p(1) files_of_simps tree_folders_def Let_def Un_assoc)
  qed
qed

lemma tree_folders_closed: "list_all relative_path paths \<Longrightarrow> ancestor_closed (tree_folders paths)"
proof (induction paths)
  case (Cons p ps)
  have "list_all proper_elem (dir_elems p)" using parent_dir_elems Cons.prems by auto
  from closed_Un [OF closed_ancestors [OF this] Cons.IH] Cons.prems show ?case by (simp add: tree_folders_def)
qed (simp add: tree_folders_def ancestor_closed_def)

lemma files_of_paths: "list_all (\<lambda>r. relative_path (pf_path r)) results \<Longrightarrow> list_all relative_path (map fst (files_of results))"
proof (induction results)
  case (Cons r rs)
  then show ?case by (cases "pf_file r") (simp_all add: files_of_simps)
qed (simp add: files_of_simps)

lemma folder_paths_set:
  assumes "list_all (\<lambda>r. relative_path (pf_path r)) results"
  shows "set (folder_paths results) = tree_folders (map fst (files_of results))"
    and "distinct (folder_paths results)"
  using folder_paths_fold [OF assms, of "[]"] by (simp_all add: folder_paths_def ancestor_closed_def Let_def)

text \<open>Sorting: shallow folders first, ties by name.\<close>

lemma folder_before_order: "strict_weak_order folder_before"
proof -
  have d: "strict_weak_order (\<lambda>a b. path_depth a < path_depth b)" by unfold_locales auto
  have "folder_before = (\<lambda>a b. path_depth a < path_depth b \<or> \<not> path_depth b < path_depth a \<and> a < b)"
    by (auto simp: folder_before_def fun_eq_iff)
  then show ?thesis using strict_weak_order_lex [OF d string_order.strict_weak_order_axioms] by simp
qed

interpretation folder_order: strict_weak_order folder_before
  by (rule folder_before_order)

lemma folder_before_total: "\<not> folder_before a b \<Longrightarrow> \<not> folder_before b a \<Longrightarrow> a = b"
  by (auto simp: folder_before_def split: if_splits)

lemma sort_folder_paths_perm: "mset a = mset b \<Longrightarrow> sort_folder_paths a = sort_folder_paths b"
  unfolding sort_folder_paths_def by (rule folder_order.stable_sort_perm) (auto intro: folder_before_total)

lemma set_sort_folder_paths [simp]: "set (sort_folder_paths xs) = set xs"
  by (simp add: sort_folder_paths_def)

lemma distinct_sort_folder_paths [simp]: "distinct (sort_folder_paths xs) = distinct xs"
  unfolding sort_folder_paths_def by (metis mset_stable_sort mset_eq_imp_distinct_iff)

lemma sort_folder_paths_sorted: "sorted_wrt (\<lambda>a b. \<not> folder_before b a) (sort_folder_paths xs)"
  unfolding sort_folder_paths_def by (rule folder_order.stable_sort_sorted)

text \<open>The parent of a folder of a closed set is the root or a shallower folder of the set.\<close>

lemma closed_parent:
  assumes "ancestor_closed S" and "p \<in> S"
  shows "parent_dir p = [] \<or> (parent_dir p \<in> S \<and> path_depth (parent_dir p) < path_depth p)" and "p \<noteq> []"
proof -
  have "has_ancestors S p" using assms unfolding ancestor_closed_def by blast
  then obtain es where es: "es \<noteq> []" "list_all proper_elem es" "p = rel_of es" "set (ancestor_dirs es) \<subseteq> S"
    by (elim has_ancestorsE)
  obtain fs e where fs: "es = fs @ [e]" using es(1) by (cases es rule: rev_cases) auto
  have pf: "list_all proper_elem fs" using es(2) fs by simp
  show "p \<noteq> []" using rel_nonempty es by simp
  have "parent_dir p = rel_of fs" using parent_dir_rel es(2,3) fs by simp
  moreover have "rel_of fs \<in> S" if ne: "fs \<noteq> []"
  proof -
    obtain gs g where gs: "fs = gs @ [g]" using ne by (cases fs rule: rev_cases) auto
    have "rel_of fs \<in> set (ancestor_dirs fs)" unfolding gs ancestor_dirs_snoc by simp
    then have "rel_of fs \<in> set (ancestor_dirs es)" unfolding fs ancestor_dirs_snoc by simp
    then show ?thesis using es(4) by blast
  qed
  moreover have "path_depth (rel_of fs) < path_depth p" if "fs \<noteq> []"
    using that path_depth_rel [OF pf] path_depth_rel [OF es(2)] unfolding es(3) by (simp add: fs)
  ultimately show "parent_dir p = [] \<or> (parent_dir p \<in> S \<and> path_depth (parent_dir p) < path_depth p)"
    by (cases "fs = []") auto
qed

lemma root_not_folder: "ancestor_closed S \<Longrightarrow> [] \<notin> S"
  using closed_parent(2) by blast

section \<open>The edges\<close>

lemma new_folders_get:
  "map_of (new_folders env auth slug now paths) p =
     (if p \<in> set paths then Some (new_folder_entity env auth slug p now) else None)"
proof -
  have "map_of (foldl (\<lambda>m p. gm_put p (new_folder_entity env auth slug p now) m) m0 paths) p =
      (if p \<in> set paths then Some (new_folder_entity env auth slug p now) else map_of m0 p)" for m0
    by (induction paths arbitrary: m0) (auto simp: gm_get_put)
  then show ?thesis by (simp add: new_folders_def)
qed

lemma update_folder_get:
  "map_of (update_folder p f m) q = (if q = p then map_option f (map_of m p) else map_of m q)"
  by (auto simp: update_folder_def gm_get_put split: option.splits)

text \<open>The folder entity at a path when the folders of \<open>done\<close> have been wired.\<close>

definition parent_id :: "code_env \<Rightarrow> authority \<Rightarrow> string \<Rightarrow> string \<Rightarrow> string" where
  "parent_id env auth slug dir = (if dir = [] then build_repo_id env auth slug else folder_id env auth slug dir)"

definition child_folders :: "code_env \<Rightarrow> authority \<Rightarrow> string \<Rightarrow> string \<Rightarrow> string list \<Rightarrow> string list" where
  "child_folders env auth slug dir paths = map (folder_id env auth slug) (filter (\<lambda>q. parent_dir q = dir) paths)"

definition wired :: "code_env \<Rightarrow> authority \<Rightarrow> string \<Rightarrow> int \<Rightarrow> string list \<Rightarrow> string \<Rightarrow> code_entity" where
  "wired env auth slug now qs p =
     (new_folder_entity env auth slug p now)
       \<lparr>cx_contained_by := (if p \<in> set qs then parent_id env auth slug (parent_dir p) else []),
        cx_contains := child_folders env auth slug p qs\<rparr>"

lemma child_folders_snoc:
  "child_folders env auth slug dir (qs @ [q]) =
     child_folders env auth slug dir qs @ (if parent_dir q = dir then [folder_id env auth slug q] else [])"
  by (simp add: child_folders_def)

lemma new_folder_sel [simp]:
  "cx_id (new_folder_entity env auth slug p now) = folder_id env auth slug p"
  "cx_type (new_folder_entity env auth slug p now) = TypeFolder"
  "cx_path (new_folder_entity env auth slug p now) = p"
  "cx_contains (new_folder_entity env auth slug p now) = []"
  "cx_contained_by (new_folder_entity env auth slug p now) = []"
  by (simp_all add: new_folder_entity_def blank_entity_def)

lemma wired_sel [simp]:
  "cx_id (wired env auth slug now qs p) = folder_id env auth slug p"
  "cx_contains (wired env auth slug now qs p) = child_folders env auth slug p qs"
  by (simp_all add: wired_def)

lemma wired_snoc:
  "wired env auth slug now (qs @ [q]) p =
     (let e = (if p = parent_dir q then add_child (folder_id env auth slug q) (wired env auth slug now qs p)
               else wired env auth slug now qs p)
      in if p = q then e\<lparr>cx_contained_by := parent_id env auth slug (parent_dir q)\<rparr> else e)"
  by (simp add: wired_def child_folders_snoc add_child_def Let_def)

lemma wire_containment_state:
  assumes "\<forall>q \<in> set qs. q \<in> set paths \<and> parent_dir q \<noteq> q \<and> (parent_dir q = [] \<or> parent_dir q \<in> set paths)" and "[] \<notin> set paths"
    and "cx_id repo = build_repo_id env auth slug"
  shows "fst (foldl wire_step (repo, new_folders env auth slug now paths) qs)
      = repo\<lparr>cx_contains := cx_contains repo @ child_folders env auth slug [] qs\<rparr>
    \<and> (\<forall>p. map_of (snd (foldl wire_step (repo, new_folders env auth slug now paths) qs)) p =
        (if p \<in> set paths then Some (wired env auth slug now qs p) else None))"
  using assms(1)
proof (induction qs rule: rev_induct)
  case Nil
  then show ?case by (auto simp: new_folders_get wired_def child_folders_def)
next
  case (snoc q qs)
  obtain r m where st: "foldl wire_step (repo, new_folders env auth slug now paths) qs = (r, m)" by fastforce
  have IH: "r = repo\<lparr>cx_contains := cx_contains repo @ child_folders env auth slug [] qs\<rparr>"
      "\<And>p. map_of m p = (if p \<in> set paths then Some (wired env auth slug now qs p) else None)"
    using snoc st by simp_all
  have q: "q \<in> set paths" "parent_dir q \<noteq> q" using snoc.prems by simp_all
  have rid: "cx_id r = build_repo_id env auth slug" using IH(1) assms(3) by simp
  show ?case
  proof (cases "parent_dir q = []")
    case True
    then have "path_dir q = ''.'' \<or> path_dir q = []" by (auto simp: parent_dir_def split: if_splits)
    then have w: "wire_step (r, m) q = (add_child (folder_id env auth slug q) r,
        update_folder q (cx_contained_by_update (\<lambda>_. cx_id r)) m)"
      using q by (simp add: wire_step_def IH(2))
    have ne: "p \<noteq> []" if "p \<in> set paths" for p using that assms(2) by auto
    show ?thesis
    proof (intro conjI allI)
      show "fst (foldl wire_step (repo, new_folders env auth slug now paths) (qs @ [q]))
          = repo\<lparr>cx_contains := cx_contains repo @ child_folders env auth slug [] (qs @ [q])\<rparr>"
        unfolding foldl_append st by (simp add: w) (simp add: IH(1) add_child_def child_folders_snoc True)
    next
      fix p
      show "map_of (snd (foldl wire_step (repo, new_folders env auth slug now paths) (qs @ [q]))) p =
          (if p \<in> set paths then Some (wired env auth slug now (qs @ [q]) p) else None)"
        unfolding foldl_append st using q ne [of p]
        by (simp add: w) (simp add: update_folder_get IH(2) wired_snoc True rid parent_id_def Let_def)
    qed
  next
    case False
    then have d: "path_dir q \<noteq> ''.''" "path_dir q \<noteq> []" "path_dir q = parent_dir q"
      by (auto simp: parent_dir_def split: if_splits)
    have p: "parent_dir q \<in> set paths" using False snoc.prems by simp
    have w: "wire_step (r, m) q = (r, update_folder (parent_dir q) (add_child (folder_id env auth slug q))
        (update_folder q (cx_contained_by_update (\<lambda>_. folder_id env auth slug (parent_dir q))) m))"
      using q p d by (simp add: wire_step_def IH(2) Let_def)
    show ?thesis
    proof (intro conjI allI)
      show "fst (foldl wire_step (repo, new_folders env auth slug now paths) (qs @ [q]))
          = repo\<lparr>cx_contains := cx_contains repo @ child_folders env auth slug [] (qs @ [q])\<rparr>"
        unfolding foldl_append st by (simp add: w) (simp add: IH(1) child_folders_snoc False)
    next
      fix p'
      show "map_of (snd (foldl wire_step (repo, new_folders env auth slug now paths) (qs @ [q]))) p' =
          (if p' \<in> set paths then Some (wired env auth slug now (qs @ [q]) p') else None)"
        using q p False
        by (cases "p' = q"; cases "p' = parent_dir q")
          (simp_all add: st w update_folder_get IH(2) wired_snoc parent_id_def Let_def)
    qed
  qed
qed

lemma populate_get:
  assumes "gm_wf by_dir"
  shows "map_of (populate_folder_files folders by_dir) p =
     map_option (\<lambda>d. d\<lparr>cx_contains := cx_contains d @ (case map_of by_dir p of None \<Rightarrow> [] | Some fs \<Rightarrow> fs)\<rparr>) (map_of folders p)"
  using assms unfolding populate_folder_files_def
proof (induction by_dir arbitrary: folders)
  case Nil
  then show ?case by (simp add: map_option_idI)
next
  case (Cons x xs)
  obtain d fs where x: "x = (d, fs)" by (cases x)
  have xs: "gm_wf xs" "map_of xs d = None" using Cons.prems by (auto simp: gm_wf_def x map_of_eq_None_iff)
  show ?case
  proof (cases "p = d")
    case True
    then have d: "d = p" "map_of xs p = None" using xs(2) by simp_all
    have nil: "(\<lambda>d. d\<lparr>cx_contains := cx_contains d @ []\<rparr>) = (\<lambda>d :: code_entity. d)" by (simp add: fun_eq_iff)
    show ?thesis
      by (simp add: x d update_folder_get Cons.IH [OF xs(1)] option.map_comp comp_def)
  next
    case False
    then show ?thesis by (simp add: x Cons.IH [OF xs(1)] update_folder_get)
  qed
qed

definition child_files :: "string \<Rightarrow> parse_result list \<Rightarrow> string list" where
  "child_files dir results = map snd (filter (\<lambda>x. parent_dir (fst x) = dir) (files_of results))"

lemma files_by_dir_get:
  "gm_wf (files_by_dir results)"
  "(case map_of (files_by_dir results) d of None \<Rightarrow> [] | Some fs \<Rightarrow> fs) = child_files d results"
proof -
  have step: "foldl (\<lambda>m r. case pf_file r of None \<Rightarrow> m | Some f \<Rightarrow> gm_append (parent_dir (pf_path r)) (cx_id f) m) m0 results
      = foldl (\<lambda>m (k, v). gm_append k v m) m0 (map (\<lambda>x. (parent_dir (fst x), snd x)) (files_of results))" for m0
  proof (induction results arbitrary: m0)
    case (Cons r rs)
    then show ?case by (cases "pf_file r") (simp_all add: files_of_simps)
  qed (simp add: files_of_simps)
  show "gm_wf (files_by_dir results)" unfolding files_by_dir_def step by (rule gm_append_foldl_wf) simp
  show "(case map_of (files_by_dir results) d of None \<Rightarrow> [] | Some fs \<Rightarrow> fs) = child_files d results"
    unfolding files_by_dir_def step gm_append_foldl
    by (simp add: child_files_def Let_def filter_map comp_def)
qed

text \<open>The closed form: every folder and the repository with its edges, every file with its parent.\<close>

definition tree_folder ::
  "code_env \<Rightarrow> authority \<Rightarrow> string \<Rightarrow> int \<Rightarrow> parse_result list \<Rightarrow> string \<Rightarrow> code_entity" where
  "tree_folder env auth slug now results p =
     (new_folder_entity env auth slug p now)
       \<lparr>cx_contained_by := parent_id env auth slug (parent_dir p),
        cx_contains := sort_strings (child_folders env auth slug p (sort_folder_paths (folder_paths results)) @ child_files p results)\<rparr>"

definition tree_repo ::
  "code_env \<Rightarrow> authority \<Rightarrow> string \<Rightarrow> int \<Rightarrow> parse_result list \<Rightarrow> code_entity" where
  "tree_repo env auth project now results =
     (blank_entity (build_repo_id env auth (system_slug project)) TypeRepo project now)
       \<lparr>cx_contains := sort_strings (child_folders env auth (system_slug project) [] (sort_folder_paths (folder_paths results)) @ child_files [] results)\<rparr>"

definition placed_file :: "code_env \<Rightarrow> authority \<Rightarrow> string \<Rightarrow> parse_result \<Rightarrow> parse_result" where
  "placed_file env auth slug r =
     r\<lparr>pf_file := map_option (\<lambda>f. f\<lparr>cx_contained_by := parent_id env auth slug (parent_dir (pf_path r))\<rparr>) (pf_file r)\<rparr>"

lemma file_parent:
  assumes "list_all (\<lambda>r. relative_path (pf_path r)) results" and "p \<in> set (map fst (files_of results))"
  shows "parent_dir p = [] \<or> parent_dir p \<in> set (folder_paths results)"
proof (cases "dir_elems p = []")
  case True
  have "relative_path p" using files_of_paths [OF assms(1)] assms(2) unfolding list_all_iff by blast
  then show ?thesis using parent_dir_elems True by simp
next
  case False
  have rp: "relative_path p" using files_of_paths [OF assms(1)] assms(2) unfolding list_all_iff by blast
  from False obtain es e where d: "dir_elems p = es @ [e]" by (cases "dir_elems p" rule: rev_cases) auto
  have "parent_dir p \<in> set (ancestor_dirs (dir_elems p))"
    using parent_dir_elems [OF rp] unfolding d ancestor_dirs_snoc by simp
  then have "parent_dir p \<in> tree_folders (map fst (files_of results))" unfolding tree_folders_def using assms(2) by blast
  then show ?thesis using folder_paths_set(1) [OF assms(1)] by simp
qed

lemma build_hierarchy_closed:
  assumes "results \<noteq> []" and "list_all (\<lambda>r. relative_path (pf_path r)) results"
  shows "build_hierarchy env auth project now results =
     (map (placed_file env auth (system_slug project)) results,
      tree_repo env auth project now results
        # map (tree_folder env auth (system_slug project) now results) (sort_folder_paths (folder_paths results)))"
proof -
  let ?slug = "system_slug project"
  let ?repo = "blank_entity (build_repo_id env auth ?slug) TypeRepo project now"
  let ?paths = "sort_folder_paths (folder_paths results)"
  note fp = folder_paths_set [OF assms(2)]
  have closed: "ancestor_closed (set ?paths)"
    using tree_folders_closed [OF files_of_paths [OF assms(2)]] fp(1) by simp
  have root: "[] \<notin> set ?paths" by (rule root_not_folder [OF closed])
  have par: "\<forall>q \<in> set ?paths. q \<in> set ?paths \<and> parent_dir q \<noteq> q \<and> (parent_dir q = [] \<or> parent_dir q \<in> set ?paths)"
    using closed_parent [OF closed] by fastforce
  obtain r1 f1 where w: "wire_containment ?repo (new_folders env auth ?slug now ?paths) ?paths = (r1, f1)" by fastforce
  have rid: "cx_id ?repo = build_repo_id env auth ?slug" by (simp add: blank_entity_def)
  note st = wire_containment_state [OF par root rid, of now, folded wire_containment_def, unfolded w fst_conv snd_conv]
  have r1: "r1 = ?repo\<lparr>cx_contains := child_folders env auth ?slug [] ?paths\<rparr>" using st by (simp add: blank_entity_def)
  have f1: "map_of f1 p = (if p \<in> set ?paths then Some (wired env auth ?slug now ?paths p) else None)" for p
    using st by blast
  have dirs: "parent_dir (pf_path r) = [] \<or> parent_dir (pf_path r) \<in> set ?paths" if "r \<in> set results" "pf_file r = Some f" for r f
  proof -
    have "pf_path r \<in> set (map fst (files_of results))" using that by (force simp: files_of_def)
    then show ?thesis using file_parent [OF assms(2)] by simp
  qed
  have files: "map (assign_file r1 f1) results = map (placed_file env auth ?slug) results"
  proof (rule map_cong [OF refl])
    fix r assume r: "r \<in> set results"
    have root': "map_of f1 [] = None" using f1 root by simp
    show "assign_file r1 f1 r = placed_file env auth ?slug r"
    proof (cases "pf_file r")
      case None
      then show ?thesis by (simp add: assign_file_def placed_file_def)
    next
      case (Some f)
      let ?d = "parent_dir (pf_path r)"
      have r1id: "cx_id r1 = build_repo_id env auth ?slug" by (simp add: r1 blank_entity_def)
      have "(case map_of f1 ?d of Some d \<Rightarrow> cx_id d | None \<Rightarrow> cx_id r1) = parent_id env auth ?slug ?d"
      proof (cases "?d = []")
        case True
        then show ?thesis by (simp only: True root' option.case r1id parent_id_def if_True)
      next
        case False
        then have "?d \<in> set ?paths" using dirs [OF r Some] by blast
        then have "map_of f1 ?d = Some (wired env auth ?slug now ?paths ?d)" by (simp only: f1 if_True)
        then show ?thesis using False by (simp only: option.case wired_sel parent_id_def if_False)
      qed
      then show ?thesis by (simp only: assign_file_def placed_file_def Some option.case option.map Let_def)
    qed
  qed
  have repo: "sort_children (populate_repo_files r1 (files_by_dir results)) = tree_repo env auth project now results"
    using files_by_dir_get(2) [of results "[]"]
    by (cases "map_of (files_by_dir results) []")
      (simp_all add: populate_repo_files_def sort_children_def tree_repo_def r1 blank_entity_def)
  have fold: "the (map_of (map (\<lambda>(p, f). (p, sort_children f)) (populate_folder_files f1 (files_by_dir results))) p)
      = tree_folder env auth ?slug now results p" if p: "p \<in> set ?paths" for p
  proof -
    have "map_of (map (\<lambda>(p, f). (p, sort_children f)) m) p = map_option sort_children (map_of m p)" for m
      by (induction m) auto
    then show ?thesis using p
      by (simp add: populate_get [OF files_by_dir_get(1)] f1 files_by_dir_get(2) sort_children_def tree_folder_def wired_def)
  qed
  show ?thesis using assms(1) w files repo fold by (simp add: build_hierarchy_def Let_def)
qed

section \<open>The hierarchy\<close>

text \<open>C36: The repository and folder entities of a batch are the directory tree of its files: one
  repository, and one folder for every directory on the way to a file and for no other, each once, a
  folder never before its parent.\<close>

theorem hierarchy_is_the_directory_tree:
  assumes "results \<noteq> []" and "list_all (\<lambda>r. relative_path (pf_path r)) results"
  shows "\<exists>repo folders. snd (build_hierarchy env auth project now results) = repo # folders
    \<and> cx_type repo = TypeRepo \<and> cx_id repo = build_repo_id env auth (system_slug project)
    \<and> set (map cx_path folders) = tree_folders (map fst (files_of results)) \<and> distinct (map cx_path folders)
    \<and> sorted_wrt (\<lambda>f g. path_depth (cx_path f) \<le> path_depth (cx_path g)) folders
    \<and> list_all (\<lambda>f. cx_type f = TypeFolder \<and> cx_id f = folder_id env auth (system_slug project) (cx_path f)
        \<and> cx_name f = path_base (cx_path f)) folders"
proof -
  let ?paths = "sort_folder_paths (folder_paths results)"
  let ?slug = "system_slug project"
  have sel: "cx_path (tree_folder env auth ?slug now results p) = p" "cx_type (tree_folder env auth ?slug now results p) = TypeFolder"
      "cx_id (tree_folder env auth ?slug now results p) = folder_id env auth ?slug p"
      "cx_name (tree_folder env auth ?slug now results p) = path_base p" for p
    by (simp_all add: tree_folder_def) (simp add: new_folder_entity_def blank_entity_def)
  have depth: "sorted_wrt (\<lambda>a b. path_depth a \<le> path_depth b) ?paths"
    by (rule sorted_wrt_mono_rel [OF _ sort_folder_paths_sorted]) (simp add: folder_before_def split: if_splits)
  let ?folders = "map (tree_folder env auth ?slug now results) ?paths"
  have repo: "cx_type (tree_repo env auth project now results) = TypeRepo"
      "cx_id (tree_repo env auth project now results) = build_repo_id env auth ?slug"
    by (simp_all add: tree_repo_def blank_entity_def)
  have paths: "map cx_path ?folders = ?paths" by (simp add: comp_def sel)
  have "sorted_wrt (\<lambda>f g. path_depth (cx_path f) \<le> path_depth (cx_path g)) ?folders"
    using depth by (simp add: sorted_wrt_map sel)
  moreover have "list_all (\<lambda>f. cx_type f = TypeFolder \<and> cx_id f = folder_id env auth ?slug (cx_path f)
      \<and> cx_name f = path_base (cx_path f)) ?folders" by (simp add: list_all_iff sel)
  moreover have "set (map cx_path ?folders) = tree_folders (map fst (files_of results))" "distinct (map cx_path ?folders)"
    unfolding paths using folder_paths_set [OF assms(2)] by simp_all
  ultimately show ?thesis unfolding build_hierarchy_closed [OF assms] snd_conv using repo by blast
qed

text \<open>Everything below the repository: path, identifier and the container it names.\<close>

definition placed :: "parse_result list \<times> code_entity list \<Rightarrow> (string \<times> string \<times> string) list" where
  "placed h =
     map (\<lambda>f. (cx_path f, cx_id f, cx_contained_by f)) (tl (snd h))
     @ concat (map (\<lambda>r. case pf_file r of None \<Rightarrow> [] | Some f \<Rightarrow> [(pf_path r, cx_id f, cx_contained_by f)]) (fst h))"

lemma placed_files:
  "concat (map (\<lambda>r. case pf_file r of None \<Rightarrow> [] | Some f \<Rightarrow> [(pf_path r, cx_id f, cx_contained_by f)])
      (map (placed_file env auth slug) results))
    = map (\<lambda>(p, i). (p, i, parent_id env auth slug (parent_dir p))) (files_of results)"
proof (induction results)
  case (Cons r rs)
  then show ?case by (cases "pf_file r") (simp_all add: placed_file_def files_of_simps)
qed (simp add: files_of_simps)

lemma placed_hierarchy:
  assumes "results \<noteq> []" and "list_all (\<lambda>r. relative_path (pf_path r)) results"
  shows "placed (build_hierarchy env auth project now results) =
    map (\<lambda>p. (p, folder_id env auth (system_slug project) p, parent_id env auth (system_slug project) (parent_dir p)))
      (sort_folder_paths (folder_paths results))
    @ map (\<lambda>(p, i). (p, i, parent_id env auth (system_slug project) (parent_dir p))) (files_of results)"
  unfolding placed_def build_hierarchy_closed [OF assms] fst_conv snd_conv list.sel placed_files
  by (simp add: comp_def tree_folder_def)

text \<open>C37: The two directions of containment agree: every folder and every file names as its container the
  entity of its parent directory, the repository at the top, and every container lists exactly the
  folders and files directly in it, sorted.\<close>

theorem hierarchy_edges_agree:
  assumes "results \<noteq> []" and "list_all (\<lambda>r. relative_path (pf_path r)) results"
  shows "let h = build_hierarchy env auth project now results
    in list_all (\<lambda>(p, i, by). list_ex (\<lambda>c. cx_path c = parent_dir p \<and> by = cx_id c \<and> i \<in> set (cx_contains c)) (snd h)) (placed h)
     \<and> list_all (\<lambda>c. cx_contains c = sort_strings (map (\<lambda>(p, i, by). i) (filter (\<lambda>(p, i, by). parent_dir p = cx_path c) (placed h)))) (snd h)"
proof -
  let ?h = "build_hierarchy env auth project now results"
  let ?slug = "system_slug project"
  let ?paths = "sort_folder_paths (folder_paths results)"
  note pl = placed_hierarchy [OF assms, of env auth project now]
  have listed: "map (\<lambda>(p, i, by). i) (filter (\<lambda>(p, i, by). parent_dir p = d) (placed ?h))
      = child_folders env auth ?slug d ?paths @ child_files d results" for d
    unfolding pl by (simp add: filter_map comp_def child_folders_def child_files_def case_prod_beta)
  have repo: "cx_path (tree_repo env auth project now results) = []"
      "cx_id (tree_repo env auth project now results) = parent_id env auth ?slug []"
      "cx_contains (tree_repo env auth project now results) = sort_strings (child_folders env auth ?slug [] ?paths @ child_files [] results)"
    by (simp_all add: tree_repo_def blank_entity_def parent_id_def)
  have folder: "cx_path (tree_folder env auth ?slug now results d) = d"
      "cx_contains (tree_folder env auth ?slug now results d) = sort_strings (child_folders env auth ?slug d ?paths @ child_files d results)"
      "d \<noteq> [] \<Longrightarrow> cx_id (tree_folder env auth ?slug now results d) = parent_id env auth ?slug d" for d
    by (simp_all add: tree_folder_def parent_id_def)
  have second: "list_all (\<lambda>c. cx_contains c = sort_strings (map (\<lambda>(p, i, by). i) (filter (\<lambda>(p, i, by). parent_dir p = cx_path c) (placed ?h)))) (snd ?h)"
    unfolding listed unfolding build_hierarchy_closed [OF assms] snd_conv by (simp add: list_all_iff repo folder)
  note closed = tree_folders_closed [OF files_of_paths [OF assms(2)]]
  have dirs: "parent_dir p = [] \<or> parent_dir p \<in> set ?paths" if "(p, i, b) \<in> set (placed ?h)" for p i b
  proof -
    from that consider "p \<in> set ?paths" | j where "(p, j) \<in> set (files_of results)" unfolding pl by auto
    then show ?thesis
    proof cases
      case 1
      then show ?thesis using closed_parent(1) [OF closed] folder_paths_set(1) [OF assms(2)] by auto
    next
      case 2
      then have "p \<in> set (map fst (files_of results))" by force
      then show ?thesis using file_parent [OF assms(2)] by simp
    qed
  qed
  have first: "\<exists>c \<in> set (snd ?h). cx_path c = parent_dir p \<and> b = cx_id c \<and> i \<in> set (cx_contains c)"
    if m: "(p, i, b) \<in> set (placed ?h)" for p i b
  proof -
    have b: "b = parent_id env auth ?slug (parent_dir p)" using m unfolding pl by auto
    have "i \<in> set (map (\<lambda>(p, i, by). i) (filter (\<lambda>(q, i, by). parent_dir q = parent_dir p) (placed ?h)))" using m by force
    then have i: "i \<in> set (child_folders env auth ?slug (parent_dir p) ?paths @ child_files (parent_dir p) results)" unfolding listed .
    show ?thesis
    proof (cases "parent_dir p = []")
      case True
      then show ?thesis using b i unfolding build_hierarchy_closed [OF assms] snd_conv by (simp add: repo)
    next
      case False
      then have "parent_dir p \<in> set ?paths" using dirs [OF m] by blast
      then show ?thesis using b i False unfolding build_hierarchy_closed [OF assms] snd_conv
        by (intro bexI [of _ "tree_folder env auth ?slug now results (parent_dir p)"]) (simp_all add: folder)
    qed
  qed
  show ?thesis unfolding Let_def using second first by (auto simp: list_all_iff list_ex_iff)
qed

text \<open>C38: The hierarchy does not depend on the order in which the files of a batch were parsed.\<close>

theorem hierarchy_order_independent:
  assumes "mset results = mset results'" and "list_all (\<lambda>r. relative_path (pf_path r)) results"
  shows "snd (build_hierarchy env auth project now results) = snd (build_hierarchy env auth project now results')"
proof (cases "results = []")
  case True
  then show ?thesis using assms(1) by simp
next
  case False
  have rel: "list_all (\<lambda>r. relative_path (pf_path r)) results'"
    using assms by (metis list_all_iff mset_eq_setD)
  have ne: "results' \<noteq> []" using False assms(1) by auto
  have f: "mset (files_of results) = mset (files_of results')"
    unfolding files_of_def mset_concat map_map by (rule sum_list_mset_eq [OF assms(1)])
  have fs: "tree_folders (map fst (files_of results)) = tree_folders (map fst (files_of results'))"
    unfolding tree_folders_def using mset_eq_setD [OF f] by simp
  have paths: "sort_folder_paths (folder_paths results) = sort_folder_paths (folder_paths results')"
    by (rule sort_folder_paths_perm)
      (rule iffD1 [OF set_eq_iff_mset_eq_distinct],
        use fs folder_paths_set [OF assms(2)] folder_paths_set [OF rel] in simp_all)
  have files: "mset (child_files d results) = mset (child_files d results')" for d
    unfolding child_files_def using f by (simp add: mset_filter)
  have sorted: "sort_strings (xs @ child_files d results) = sort_strings (xs @ child_files d results')" for xs d
    by (rule sort_strings_perm) (simp add: files)
  show ?thesis
    unfolding build_hierarchy_closed [OF False assms(2)] build_hierarchy_closed [OF ne rel] snd_conv
    by (simp add: tree_repo_def tree_folder_def paths sorted)
qed

section \<open>A chain of folders\<close>

text \<open>The entities of a chain are the folders wired among themselves.\<close>

lemma chain_step_wire:
  "cx_id r = rid \<Longrightarrow> chain_step rid m p = snd (wire_step (r, m) p) \<and> cx_id (fst (wire_step (r, m) p)) = rid"
  by (auto simp: chain_step_def wire_step_def add_child_def Let_def split: option.splits)

lemma chain_foldl_wire:
  "cx_id r = rid \<Longrightarrow> foldl (chain_step rid) m ps = snd (foldl wire_step (r, m) ps)"
proof (induction ps arbitrary: r m)
  case (Cons p ps)
  obtain r' m' where w: "wire_step (r, m) p = (r', m')" by fastforce
  have "chain_step rid m p = m'" "cx_id r' = rid" using chain_step_wire [OF Cons.prems, of m p] w by auto
  then show ?case using Cons.IH by (simp add: w)
qed simp

lemma build_folder_chain_closed:
  assumes "relative_path p" and "dir_elems p \<noteq> []"
  defines "paths \<equiv> sort_folder_paths (expand_ancestors (rel_of (dir_elems p)) [])"
  shows "build_folder_chain env auth project now p = map (wired env auth (system_slug project) now paths) paths"
    and "set paths = set (ancestor_dirs (dir_elems p))"
proof -
  let ?slug = "system_slug project"
  let ?repo = "blank_entity (build_repo_id env auth ?slug) TypeRepo project now"
  have pd: "parent_dir p = rel_of (dir_elems p)" "list_all proper_elem (dir_elems p)"
    using parent_dir_elems [OF assms(1)] by auto
  have "rel_of (dir_elems p) \<noteq> []" using rel_nonempty [OF pd(2) assms(2)] .
  then have d: "path_dir p = rel_of (dir_elems p)" "path_dir p \<noteq> ''.''" "path_dir p \<noteq> []"
    using pd(1) unfolding parent_dir_def by (auto split: if_splits)
  have nil: "ancestor_closed (set [])" "distinct ([] :: string list)" by (simp_all add: ancestor_closed_def)
  note x = expand_ancestors_set [OF pd(2) nil]
  show set: "set paths = set (ancestor_dirs (dir_elems p))" unfolding paths_def using x(1) by simp
  have closed: "ancestor_closed (set paths)" unfolding set by (rule closed_ancestors [OF pd(2)])
  have par: "\<forall>q \<in> set paths. q \<in> set paths \<and> parent_dir q \<noteq> q \<and> (parent_dir q = [] \<or> parent_dir q \<in> set paths)"
    using closed_parent [OF closed] by fastforce
  have rid: "cx_id ?repo = build_repo_id env auth ?slug" by (simp add: blank_entity_def)
  note st = wire_containment_state [OF par root_not_folder [OF closed] rid, of now]
  have "map_of (foldl (chain_step (build_repo_id env auth ?slug)) (new_folders env auth ?slug now paths) paths) q
      = (if q \<in> set paths then Some (wired env auth ?slug now paths q) else None)" for q
    unfolding chain_foldl_wire [OF rid] using st by blast
  then show "build_folder_chain env auth project now p = map (wired env auth ?slug now paths) paths"
    using d unfolding build_folder_chain_def Let_def by (simp add: paths_def)
qed

text \<open>A chain republishes the folders above a changed file with only the next folder of the chain as
  contents: the folder that holds the file, which lists it in the hierarchy, lists nothing.\<close>

lemma chain_states_no_files:
  assumes "results \<noteq> []" and "list_all (\<lambda>r. relative_path (pf_path r)) results"
    and "r \<in> set results" and "pf_file r = Some f" and "dir_elems (pf_path r) \<noteq> []"
  shows "\<exists>e \<in> set (build_folder_chain env auth project now (pf_path r)).
    \<exists>t \<in> set (snd (build_hierarchy env auth project now results)).
      cx_id e = cx_id t \<and> cx_id f \<in> set (cx_contains t) \<and> cx_contains e = []"
proof -
  let ?slug = "system_slug project"
  let ?d = "parent_dir (pf_path r)"
  let ?ps = "sort_folder_paths (expand_ancestors (rel_of (dir_elems (pf_path r))) [])"
  have rp: "relative_path (pf_path r)" using assms(2,3) by (simp add: list_all_iff)
  have pd: "?d = rel_of (dir_elems (pf_path r))" "list_all proper_elem (dir_elems (pf_path r))"
    using parent_dir_elems [OF rp] by auto
  have ne: "?d \<noteq> []" unfolding pd(1) by (rule rel_nonempty [OF pd(2) assms(5)])
  have listed: "(pf_path r, cx_id f) \<in> set (files_of results)" using assms(3,4) by (force simp: files_of_def)
  then have "pf_path r \<in> set (map fst (files_of results))" by force
  then have mem: "?d \<in> set (folder_paths results)" using file_parent [OF assms(2)] ne by blast
  note chain = build_folder_chain_closed [OF rp assms(5)]
  have in_chain: "?d \<in> set ?ps"
    unfolding chain(2) pd(1) ancestors_of_prefix using assms(5) by (intro exI [of _ "length (dir_elems (pf_path r))"]) simp
  have none: "child_folders env auth ?slug ?d ?ps = []"
  proof -
    have "parent_dir q \<noteq> ?d" if qm: "q \<in> set ?ps" for q
    proof
      assume eq: "parent_dir q = ?d"
      have "q \<in> set (ancestor_dirs (dir_elems (pf_path r)))" using qm unfolding chain(2) .
      then obtain i where i: "0 < i" "i \<le> length (dir_elems (pf_path r))" "q = rel_of (take i (dir_elems (pf_path r)))"
        unfolding ancestors_of_prefix by blast
      have pt: "list_all proper_elem (take i (dir_elems (pf_path r)))" by (rule proper_take [OF pd(2)])
      obtain gs g where g: "take i (dir_elems (pf_path r)) = gs @ [g]"
        using i by (cases "take i (dir_elems (pf_path r))" rule: rev_cases) auto
      have "rel_of gs = rel_of (dir_elems (pf_path r))" using parent_dir_rel [of gs g] pt g i(3) eq pd(1) by simp
      then have "gs = dir_elems (pf_path r)" using rel_inj [OF _ pd(2)] pt g by simp
      then have "Suc (length (dir_elems (pf_path r))) = length (take i (dir_elems (pf_path r)))" using g by simp
      then show False by simp
    qed
    then show ?thesis by (simp add: child_folders_def filter_empty_conv)
  qed
  have t: "cx_id f \<in> set (cx_contains (tree_folder env auth ?slug now results ?d))"
    using listed by (force simp: tree_folder_def child_files_def)
  have in_tree: "tree_folder env auth ?slug now results ?d \<in> set (snd (build_hierarchy env auth project now results))"
    unfolding build_hierarchy_closed [OF assms(1,2)] using mem by simp
  show ?thesis unfolding chain(1)
    using in_chain none by (intro bexI [OF _ in_tree] bexI [of _ "wired env auth ?slug now ?ps ?d"])
      (simp_all add: t, simp add: tree_folder_def)
qed

text \<open>Two folders whose paths differ only where one has a separator and the other a hyphen or a dot
  share one identifier.\<close>

lemma folders_share_identifier:
  "folder_id env auth slug ''a/b'' = folder_id env auth slug ''a-b''"
  "folder_id env auth slug ''a/b'' = folder_id env auth slug ''a.b''"
  by (simp_all add: folder_id_def sanitize_path_segment_def)

section \<open>Publishable identifiers\<close>

lemma valid_segment_join: "ps \<noteq> [] \<Longrightarrow> list_all valid_segment ps \<Longrightarrow> valid_segment (str_join ps ''-'')"
proof (induction ps "''-''" rule: str_join.induct)
  case (3 x y r)
  have v: "valid_segment (str_join (y # r) ''-'')" using 3 by simp
  have "valid_segment (x @ (''-'' @ str_join (y # r) ''-''))"
    using 3(3) v by (intro valid_segment_append) (simp_all add: valid_segment_def)
  then show ?case by simp
qed simp_all

lemma sanitize_path_segment_valid: "valid_segment (sanitize_path_segment p)"
  unfolding sanitize_path_segment_def by (rule sanitize_segment_valid)

lemma build_scoped_instance_id_valid: "valid_segment (build_scoped_instance_id path scope name ty)"
  unfolding build_scoped_instance_id_def
  by (rule valid_segment_join) (auto simp: list_all_iff sanitize_path_segment_valid sanitize_segment_valid)

lemma type_name_valid: "valid_segment (type_name ty)"
  by (cases ty) (simp_all add: valid_segment_def alnum_char_def allowed_char_def is_allowed_instance_rune_def
      is_ascii_alnum_def ascii_lower_def ascii_upper_def ascii_digit_def)

lemma domain_code_valid: "valid_segment domain_code"
  by (simp add: domain_code_def valid_segment_def alnum_char_def allowed_char_def is_allowed_instance_rune_def
      is_ascii_alnum_def ascii_lower_def ascii_upper_def ascii_digit_def)

lemma built_code_id_accepted:
  assumes "list_all valid_segment [auth_org auth, auth_platform auth, system, domain, ty, inst]" and "accepts_segments rules"
  shows "id_error (authority_build M auth system domain ty inst) = None"
    and "gr_entity_id_ok rules (authority_build M auth system domain ty inst)"
proof -
  have vi: "valid_segment inst" using assms(1) by simp
  obtain i where i: "authority_build M auth system domain ty inst
      = id_join [auth_org auth, auth_platform auth, system, domain, ty, i]" "valid_segment i"
    unfolding authority_build_def using build_id_segments vi by blast
  have v: "list_all valid_segment [auth_org auth, auth_platform auth, system, domain, ty, i]"
    using assms(1) i(2) by simp
  show "id_error (authority_build M auth system domain ty inst) = None"
    using id_join_split [OF _ v] id_join_key [OF _ v] v unfolding id_error_iff i(1)
    by (auto simp: valid_segment_def)
  show "gr_entity_id_ok rules (authority_build M auth system domain ty inst)"
    using assms(2) v unfolding accepts_segments_def i(1) by blast
qed

lemma optional_text_subject: "list_all (\<lambda>t. t_subject t = eid) (optional_text eid p s)"
  by (simp add: optional_text_def bare_def)

lemma each_text_subject: "list_all (\<lambda>t. t_subject t = eid) (each_text eid p ss)"
  by (simp add: each_text_def bare_def list_all_iff)

lemma code_triples_subject: "list_all (\<lambda>t. t_subject t = cx_id e) (code_triples env e)"
proof -
  have "list_all (\<lambda>t. t_subject t = cx_id e) (identity_triples e)"
    by (simp add: identity_triples_def Let_def optional_text_subject) (simp add: bare_def)
  moreover have "list_all (\<lambda>t. t_subject t = cx_id e) (capability_triples e)"
    by (simp add: capability_triples_def optional_text_subject each_text_subject split: option.split)
  moreover have "list_all (\<lambda>t. t_subject t = cx_id e) (relationship_triples e)"
    by (simp add: relationship_triples_def optional_text_subject each_text_subject)
  ultimately show ?thesis by (simp add: code_triples_def) (simp add: bare_def)
qed

text \<open>The rules of the framework accept the two profiles.\<close>

definition accepts_profiles :: "graph_rules \<Rightarrow> code_env \<Rightarrow> bool" where
  "accepts_profiles rules env \<longleftrightarrow>
     list_all (\<lambda>p. p \<noteq> [] \<and> gr_profile_ok rules p) [ce_content env, ce_control env]"

lemma code_state_accepted:
  assumes "cx_id e = authority_build M auth system domain (type_name ty) inst"
    and "list_all valid_segment [auth_org auth, auth_platform auth, system, domain, inst]"
    and "accepts_segments rules" and "accepts_profiles rules env"
  shows "\<exists>p. payload_from_state rules (Some (code_entity_state env e)) = Inr p \<and> ep_id p = cx_id e"
proof -
  have v: "list_all valid_segment [auth_org auth, auth_platform auth, system, domain, type_name ty, inst]"
    using assms(2) type_name_valid by simp
  have "es_profile (code_entity_state env e) \<noteq> [] \<and> gr_profile_ok rules (es_profile (code_entity_state env e))"
    using assms(4) by (simp add: code_entity_state_def indexing_profile_def accepts_profiles_def)
  moreover have "id_error (cx_id e) = None" "gr_entity_id_ok rules (cx_id e)"
    unfolding assms(1) by (rule built_code_id_accepted [OF v assms(3)])+
  ultimately show ?thesis
    using code_triples_subject [of e env] unfolding payload_from_state_iff by (simp add: code_entity_state_def)
qed


section \<open>What the version pass reads\<close>

lemma read_skip: "list_all (\<lambda>t. t_predicate t \<noteq> p) xs \<Longrightarrow> triple_string (xs @ ts) p = triple_string ts p"
  by (induction xs) auto

lemma read_optional:
  "triple_string (optional_text i p s @ ts) p = (if s \<noteq> [] then s else triple_string ts p)"
  by (simp add: optional_text_def bare_def)

lemma skips:
  "q \<noteq> p \<Longrightarrow> list_all (\<lambda>t. t_predicate t \<noteq> p) (optional_text i q s)"
  "q \<noteq> p \<Longrightarrow> list_all (\<lambda>t. t_predicate t \<noteq> p) (each_text i q ss)"
  "list_all (\<lambda>t. t_predicate t \<noteq> p) [bare i q ob] \<longleftrightarrow> q \<noteq> p"
  "list_all (\<lambda>t. t_predicate t \<noteq> p) xs \<Longrightarrow> list_all (\<lambda>t. t_predicate t \<noteq> p) (if c then xs else [])"
  by (auto simp: optional_text_def each_text_def bare_def list_all_iff)

lemma read_bare:
  "triple_string (bare i p (OString s) # ts) p = s"
  "q \<noteq> p \<Longrightarrow> triple_string (bare i q ob # ts) p = triple_string ts p"
  by (simp_all add: bare_def)

text \<open>The predicates the version pass reads appear in the identity group only.\<close>

definition version_reads :: "string list" where
  "version_reads = [code_version, code_project, code_path, dc_title, code_type, code_package, code_hash, code_body_key, code_body_store]"

lemma read_other_groups:
  assumes "p \<in> set version_reads"
  shows "triple_string (capability_triples e @ ts) p = triple_string ts p"
    and "triple_string (relationship_triples e @ ts) p = triple_string ts p"
    and "triple_string (bare i dc_created ob # ts) p = triple_string ts p"
proof -
  have ne: "q \<notin> set version_reads \<Longrightarrow> q \<noteq> p" for q using assms by auto
  have c: "q \<noteq> p" if "q \<in> {capability_name, capability_description, capability_tools, capability_inputs, capability_outputs}" for q
    using that by (intro ne) (auto simp: version_reads_def predicate_defs code_predicate_defs)
  have r: "q \<noteq> p" if "q \<in> {code_belongs, code_contains, code_imports, code_implements, code_extends, code_embeds, code_calls,
      code_references, code_returns, code_receiver, code_parameter, dc_created}" for q
    using that by (intro ne) (auto simp: version_reads_def predicate_defs code_predicate_defs)
  show "triple_string (capability_triples e @ ts) p = triple_string ts p"
    unfolding capability_triples_def
    by (rule read_skip) (auto intro!: skips c split: option.split)
  show "triple_string (relationship_triples e @ ts) p = triple_string ts p"
    unfolding relationship_triples_def by (rule read_skip) (auto intro!: skips r)
  show "triple_string (bare i dc_created ob # ts) p = triple_string ts p" by (rule read_bare(2)) (rule r, simp)
qed

lemma read_over:
  "q \<noteq> p \<Longrightarrow> triple_string (optional_text i q s @ ts) p = triple_string ts p"
  "q \<noteq> p \<Longrightarrow> triple_string ((if c then [bare i q ob] else []) @ ts) p = triple_string ts p"
  "q \<noteq> p \<Longrightarrow> q' \<noteq> p \<Longrightarrow> triple_string ((if c then optional_text i q s @ [bare i q' ob] else []) @ ts) p = triple_string ts p"
  by (simp_all add: optional_text_def bare_def)

lemma read_identity:
  "triple_string (identity_triples e @ ts) code_type = type_name (cx_type e)"
  "triple_string (identity_triples e @ ts) dc_title = cx_name e"
  "triple_string (identity_triples e @ ts) code_path = (if cx_path e \<noteq> [] then cx_path e else triple_string ts code_path)"
  "triple_string (identity_triples e @ ts) code_package = (if cx_package e \<noteq> [] then cx_package e else triple_string ts code_package)"
  "triple_string (identity_triples e @ ts) code_version = (if cx_version e \<noteq> [] then cx_version e else triple_string ts code_version)"
  "cx_version e \<noteq> [] \<Longrightarrow> cx_project e \<noteq> [] \<Longrightarrow> triple_string (identity_triples e @ ts) code_project = cx_project e"
  "triple_string (identity_triples e @ ts) code_hash = (if cx_hash e \<noteq> [] then cx_hash e else triple_string ts code_hash)"
  "triple_string (identity_triples e @ ts) code_body_key = triple_string ts code_body_key"
  "triple_string (identity_triples e @ ts) code_body_store = triple_string ts code_body_store"
proof -
  note d = identity_triples_def Let_def append_assoc append.simps
  note r = read_bare read_optional read_over
  note p = predicate_defs code_predicate_defs
  show "triple_string (identity_triples e @ ts) code_type = type_name (cx_type e)"
    unfolding d by (simp only: read_bare)
  show "triple_string (identity_triples e @ ts) dc_title = cx_name e"
    unfolding d p by (simp add: r del: triple_string.simps)
  show "triple_string (identity_triples e @ ts) code_path = (if cx_path e \<noteq> [] then cx_path e else triple_string ts code_path)"
    unfolding d p by (cases "cx_path e = []") (simp_all add: r del: triple_string.simps split del: if_split)
  show "triple_string (identity_triples e @ ts) code_package = (if cx_package e \<noteq> [] then cx_package e else triple_string ts code_package)"
    unfolding d p by (cases "cx_package e = []") (simp_all add: r del: triple_string.simps split del: if_split)
  show "triple_string (identity_triples e @ ts) code_version = (if cx_version e \<noteq> [] then cx_version e else triple_string ts code_version)"
    unfolding d p by (cases "cx_version e = []") (simp_all add: r del: triple_string.simps split del: if_split)
  show "cx_version e \<noteq> [] \<Longrightarrow> cx_project e \<noteq> [] \<Longrightarrow> triple_string (identity_triples e @ ts) code_project = cx_project e"
    unfolding d p by (simp add: r del: triple_string.simps split del: if_split)
  show "triple_string (identity_triples e @ ts) code_hash = (if cx_hash e \<noteq> [] then cx_hash e else triple_string ts code_hash)"
    unfolding d p by (cases "cx_hash e = []") (simp_all add: r del: triple_string.simps split del: if_split)
  show "triple_string (identity_triples e @ ts) code_body_key = triple_string ts code_body_key"
    unfolding d p by (simp add: r del: triple_string.simps split del: if_split)
  show "triple_string (identity_triples e @ ts) code_body_store = triple_string ts code_body_store"
    unfolding d p by (simp add: r del: triple_string.simps split del: if_split)
qed

lemma code_triples_read:
  "p \<in> set version_reads \<Longrightarrow> triple_string (code_triples env e @ ts) p = triple_string (identity_triples e @ ts) p"
proof -
  assume p: "p \<in> set version_reads"
  have "triple_string us p = triple_string vs p \<Longrightarrow> triple_string (xs @ us) p = triple_string (xs @ vs) p" for xs us vs
    by (induction xs) simp_all
  then show ?thesis unfolding code_triples_def append_assoc append.simps
    by (rule, simp only: read_other_groups [OF p])
qed

lemma version_reads_mem:
  "code_version \<in> set version_reads" "code_project \<in> set version_reads" "code_path \<in> set version_reads"
  "dc_title \<in> set version_reads" "code_type \<in> set version_reads" "code_package \<in> set version_reads"
  by (simp_all add: version_reads_def)

lemmas symbol_reads = version_reads_mem [THEN code_triples_read] read_identity

text \<open>C40: Symbols of two versions of one project correspond: what the publish path puts into the graph
  for a versioned symbol is what the version pass reads back, project, version, path, name, type and
  package, so that two symbols with the same of these but the version fall under one key; a symbol
  without a version takes no part.\<close>

theorem versions_correspond:
  assumes "cx_version e \<noteq> []" and "cx_project e \<noteq> []" and "cx_path e \<noteq> []"
    and "cx_project e' = cx_project e" and "cx_path e' = cx_path e" and "cx_name e' = cx_name e"
    and "cx_type e' = cx_type e" and "cx_package e' = cx_package e" and "cx_version e' \<noteq> []"
    and "org_from_id (cx_id e') = org_from_id (cx_id e)"
    and "list_all (\<lambda>t. t_predicate t \<in> {code_body_store, code_body_key, class_predicate}) (ts @ ts')"
  shows "(\<exists>c c'. candidate_from_entity \<lparr>e_id = cx_id e, e_triples = code_triples env e @ ts, e_updated = cx_indexed e\<rparr> = Some c
      \<and> candidate_from_entity \<lparr>e_id = cx_id e', e_triples = code_triples env e' @ ts', e_updated = cx_indexed e'\<rparr> = Some c'
      \<and> c_version c = cx_version e \<and> c_version c' = cx_version e' \<and> cand_key c = cand_key c'
      \<and> cand_key c = \<lparr>k_org = org_from_id (cx_id e), k_project = cx_project e, k_path = cx_path e, k_name = cx_name e,
                      k_ctype = type_name (cx_type e), k_pkg = cx_package e\<rparr>)
    \<and> candidate_from_entity \<lparr>e_id = cx_id e, e_triples = code_triples env (e\<lparr>cx_version := []\<rparr>) @ ts, e_updated = cx_indexed e\<rparr> = None"
proof (rule conjI)
  have none: "triple_string us p = []" if "p \<notin> {code_body_store, code_body_key, class_predicate}"
      "list_all (\<lambda>t. t_predicate t \<in> {code_body_store, code_body_key, class_predicate}) us" for us p
    using that by (induction us) auto
  have ts: "triple_string ts p = []" "triple_string ts' p = []" if "p \<in> {code_version, code_package}" for p
    using that assms(11) by (auto intro!: none simp: predicate_defs class_predicate_def)
  have pkg: "triple_string (code_triples env e @ ts) code_package = cx_package e"
      "triple_string (code_triples env e' @ ts') code_package = cx_package e"
    using ts assms(8) by (cases "cx_package e"; simp add: symbol_reads)+
  show "\<exists>c c'. candidate_from_entity \<lparr>e_id = cx_id e, e_triples = code_triples env e @ ts, e_updated = cx_indexed e\<rparr> = Some c
      \<and> candidate_from_entity \<lparr>e_id = cx_id e', e_triples = code_triples env e' @ ts', e_updated = cx_indexed e'\<rparr> = Some c'
      \<and> c_version c = cx_version e \<and> c_version c' = cx_version e' \<and> cand_key c = cand_key c'
      \<and> cand_key c = \<lparr>k_org = org_from_id (cx_id e), k_project = cx_project e, k_path = cx_path e, k_name = cx_name e,
                      k_ctype = type_name (cx_type e), k_pkg = cx_package e\<rparr>"
    using assms pkg by (simp add: candidate_from_entity_def Let_def cand_key_def symbol_reads)
  have "triple_string (code_triples env (e\<lparr>cx_version := []\<rparr>) @ ts) code_version = []"
    using ts by (simp add: symbol_reads)
  then show "candidate_from_entity \<lparr>e_id = cx_id e, e_triples = code_triples env (e\<lparr>cx_version := []\<rparr>) @ ts, e_updated = cx_indexed e\<rparr> = None"
    by (simp add: candidate_from_entity_def Let_def)
qed

section \<open>The registry\<close>

definition register_all :: "(string \<times> string list \<times> 'p parser_factory) list \<Rightarrow> 'p parser_registry" where
  "register_all rs = foldl (\<lambda>r (n, es, f). register_parser n es f r) new_parser_registry rs"

lemma claim_ext_get:
  "map_of (foldl (claim_ext name) m exts) ext =
     (case map_of m ext of Some n \<Rightarrow> Some n | None \<Rightarrow> if ext \<in> set exts then Some name else None)"
  by (induction exts arbitrary: m) (auto simp: claim_ext_def gm_has_def gm_get_put split: option.split)

text \<open>The first parser to claim an extension keeps it, every parser keeps what it declared last, and
  an extension that routes at all routes to a registered parser.\<close>

lemma registry_first_claim:
  "get_parser_name (register_all rs) ext = map_option fst (find (\<lambda>(n, es, f). ext \<in> set es) rs)"
  "get_extensions_for_parser (register_all rs) name =
     (case find (\<lambda>(n, es, f). n = name) (rev rs) of None \<Rightarrow> [] | Some (n, es, f) \<Rightarrow> es)"
  "has_parser (register_all rs) name \<longleftrightarrow> name \<in> fst ` set rs"
proof -
  have *: "find P (xs @ [x]) = (case find P xs of Some y \<Rightarrow> Some y | None \<Rightarrow> if P x then Some x else None)" for P xs and x :: 'z
    by (induction xs) auto
  show "get_parser_name (register_all rs) ext = map_option fst (find (\<lambda>(n, es, f). ext \<in> set es) rs)"
    unfolding register_all_def
  proof (induction rs rule: rev_induct)
    case Nil
    then show ?case by (simp add: new_parser_registry_def get_parser_name_def)
  next
    case (snoc x rs)
    obtain n es f where x: "x = (n, es, f)" by (cases x)
    show ?case using snoc
      by (auto simp: x * register_parser_def get_parser_name_def claim_ext_get split: option.splits)
  qed
  show "get_extensions_for_parser (register_all rs) name =
      (case find (\<lambda>(n, es, f). n = name) (rev rs) of None \<Rightarrow> [] | Some (n, es, f) \<Rightarrow> es)"
    unfolding register_all_def
  proof (induction rs rule: rev_induct)
    case Nil
    then show ?case by (simp add: new_parser_registry_def get_extensions_for_parser_def)
  next
    case (snoc x rs)
    obtain n es f where x: "x = (n, es, f)" by (cases x)
    show ?case using snoc by (simp add: x register_parser_def get_extensions_for_parser_def gm_get_put)
  qed
  show "has_parser (register_all rs) name \<longleftrightarrow> name \<in> fst ` set rs"
    unfolding register_all_def
  proof (induction rs rule: rev_induct)
    case Nil
    then show ?case by (simp add: new_parser_registry_def has_parser_def gm_has_def)
  next
    case (snoc x rs)
    obtain n es f where x: "x = (n, es, f)" by (cases x)
    show ?case using snoc by (auto simp: x register_parser_def has_parser_def gm_has_def gm_get_put)
  qed
qed

lemma registry_routes_to_parser:
  assumes "authority_validate M vp auth = None"
  shows "(\<exists>p. create_parser_for_extension M vp (register_all rs) ext auth project repo_root = Inr p) \<longleftrightarrow>
    (\<exists>n es f. (n, es, f) \<in> set rs \<and> ext \<in> set es)"
proof (cases "find (\<lambda>(n, es, f). ext \<in> set es) rs")
  case None
  then have "\<not> (\<exists>n es f. (n, es, f) \<in> set rs \<and> ext \<in> set es)" unfolding find_None_iff by blast
  moreover have "create_parser_for_extension M vp (register_all rs) ext auth project repo_root = Inl (NoParserForExtension ext)"
    by (simp add: create_parser_for_extension_def registry_first_claim None)
  ultimately show ?thesis by simp
next
  case (Some x)
  obtain n es f where x: "x = (n, es, f)" by (cases x)
  have m: "(n, es, f) \<in> set rs" "ext \<in> set es" using Some x by (auto simp: find_Some_iff in_set_conv_nth)
  then have "has_parser (register_all rs) n" unfolding registry_first_claim by force
  then obtain g where "map_of (rg_parsers (register_all rs)) n = Some g" by (auto simp: has_parser_def gm_has_def)
  then show ?thesis using Some x m assms
    by (auto simp: create_parser_for_extension_def registry_first_claim create_parser_def)
qed

text \<open>A path and a scope run together in an identifier.\<close>

lemma scope_joins_path:
  "build_scoped_instance_id ''a'' [''b''] ''c'' TypeMethod = build_scoped_instance_id ''a/b'' [] ''c'' TypeMethod"
proof -
  have v: "valid_segment ''a''" "valid_segment ''b''" "valid_segment ''c''" "valid_segment ''a-b''"
    by (simp_all add: valid_segment_def alnum_char_def allowed_char_def is_allowed_instance_rune_def
      is_ascii_alnum_def ascii_lower_def ascii_upper_def ascii_digit_def)
  show ?thesis
    by (simp add: build_scoped_instance_id_def sanitize_path_segment_def trim_prefix_def has_prefix_def
        sanitize_segment_fixed [OF v(1)] sanitize_segment_fixed [OF v(2)] sanitize_segment_fixed [OF v(3)]
        sanitize_segment_fixed [OF v(4)])
qed

section \<open>Witnesses\<close>

definition demo_code_env :: code_env where
  "demo_code_env = \<lparr>ce_limit = 255, ce_upper = (\<lambda>_. False), ce_zone = (\<lambda>_. 0), ce_content = ''content'', ce_control = ''control''\<rparr>"

definition demo_parsed :: "string \<Rightarrow> parse_result" where
  "demo_parsed p =
     \<lparr>pf_file = Some (blank_entity (''file '' @ p) TypeFile p 7), pf_entities = [TheFile], pf_imports = [],
      pf_package = [], pf_path = p, pf_hash = ''h''\<rparr>"

definition demo_batch :: "parse_result list" where
  "demo_batch = [demo_parsed ''a/b/c.go'', demo_parsed ''a/d.go'', demo_parsed ''m.go'']"

lemma demo_batch_relative: "list_all (\<lambda>r. relative_path (pf_path r)) demo_batch" "demo_batch \<noteq> []"
  by (simp_all add: demo_batch_def demo_parsed_def relative_path_def proper_elem_def)

theorem hierarchy_is_the_directory_tree_witness:
  "\<exists>repo folders. snd (build_hierarchy demo_code_env demo_doc_authority ''docs'' 7 demo_batch) = repo # folders
    \<and> set (map cx_path folders) = {''a'', ''a/b''} \<and> distinct (map cx_path folders)"
proof -
  have "tree_folders (map fst (files_of demo_batch)) = {''a'', ''a/b''}"
    by code_simp
  then show ?thesis
    using hierarchy_is_the_directory_tree [OF demo_batch_relative(2,1), of demo_code_env demo_doc_authority "''docs''" 7] by metis
qed

theorem hierarchy_edges_agree_witness:
  "list_all (\<lambda>(p, i, by). list_ex (\<lambda>c. cx_path c = parent_dir p \<and> by = cx_id c \<and> i \<in> set (cx_contains c))
      (snd (build_hierarchy demo_code_env demo_doc_authority ''docs'' 7 demo_batch)))
    (placed (build_hierarchy demo_code_env demo_doc_authority ''docs'' 7 demo_batch))"
  using hierarchy_edges_agree [OF demo_batch_relative(2,1), of demo_code_env demo_doc_authority "''docs''" 7]
  unfolding Let_def by blast

theorem hierarchy_order_independent_witness:
  "snd (build_hierarchy demo_code_env demo_doc_authority ''docs'' 7 demo_batch)
   = snd (build_hierarchy demo_code_env demo_doc_authority ''docs'' 7 (rev demo_batch))"
  by (rule hierarchy_order_independent [OF _ demo_batch_relative(1)]) simp

definition demo_symbol :: "string \<Rightarrow> code_entity" where
  "demo_symbol v =
     (blank_entity (''acme.semsource.gcs-'' @ v @ ''.golang.function.a-go-Run'') TypeFunction ''Run'' 7)
       \<lparr>cx_path := ''a.go'', cx_project := ''gcs'', cx_version := v\<rparr>"

theorem versions_correspond_witness:
  "\<exists>c c'. candidate_from_entity \<lparr>e_id = cx_id (demo_symbol ''v1''), e_triples = code_triples demo_code_env (demo_symbol ''v1'') @ [],
        e_updated = 7\<rparr> = Some c
      \<and> candidate_from_entity \<lparr>e_id = cx_id (demo_symbol ''v2''), e_triples = code_triples demo_code_env (demo_symbol ''v2'') @ [],
        e_updated = 7\<rparr> = Some c' \<and> c_version c = ''v1'' \<and> c_version c' = ''v2'' \<and> cand_key c = cand_key c'"
proof -
  have sel: "cx_version (demo_symbol v) = v" "cx_project (demo_symbol v) = ''gcs''" "cx_path (demo_symbol v) = ''a.go''"
      "cx_name (demo_symbol v) = ''Run''" "cx_type (demo_symbol v) = TypeFunction" "cx_package (demo_symbol v) = []"
      "cx_indexed (demo_symbol v) = 7" "org_from_id (cx_id (demo_symbol v)) = ''acme''" for v
    by (simp_all add: demo_symbol_def blank_entity_def org_from_id_def)
  show ?thesis
    using versions_correspond [of "demo_symbol ''v1''" "demo_symbol ''v2''" "[]" "[]" demo_code_env, THEN conjunct1]
    by (simp add: sel) blast
qed


end
