(* ===== verification/Spec2Isabelle.thy ===== *)
theory Spec2Isabelle
  imports VersionDiff Lifecycle PrefixQuery DocSplitter Workbench Submodules SourceIngest SubWatch FileStore ObjectSource CodeEntities
begin

text \<open>
  A model of semsource, a Go server that turns source trees, documents and object stores into a
  knowledge graph, with the theorems that make its own logic correct. Every definition is translated
  from the file named below; the names of the definitions follow those of the Go code.

  \<^bold>\<open>The program and its parts.\<close> A configuration lists sources. It is validated, checked against an
  allowlist of roots and expanded into component instances, at boot and when a client adds or removes
  a source at run time; a manifest of the added sources is kept for the next boot, and watchers add
  the branches and the submodules of a repository as they appear. A source component walks what it is
  configured for, turns it into entity states under six-part identifiers, and hands them through a
  publish boundary to a buffered publisher, which delivers them to the graph of the framework. Over
  that graph run two passes: one links the entities of consecutive versions, one marks what no longer
  exists as stale. Components report their status, from which readiness is derived and served.

  \<^bold>\<open>Theories.\<close> The files of the repository each of them translates, all below \<open>src/\<close>:

  \<^item> \<open>Prelude\<close>: Go maps as association lists with every visiting order, sorting by a comparator;
    \<open>GoStrings\<close>, \<open>GoPath\<close>, \<open>GoUrl\<close>, \<open>GoMatch\<close>, \<open>GoTime\<close>, \<open>Sha256\<close>: what the source uses of the
    standard library (strings and runes, paths, \<open>url.Parse\<close>, \<open>path.Match\<close>, durations, the hash).
  \<^item> \<open>EntityId\<close> (\<open>entityid\<close>): slugs, sanitizers and bounds of identifiers. \<open>GraphModel\<close>: triples,
    entities, the readers of both passes.
  \<^item> \<open>VersionOrder\<close>, \<open>Lineage\<close>, \<open>VersionDiff\<close>, \<open>Lifecycle\<close>, \<open>PrefixQuery\<close>
    (\<open>processor/supersession\<close>): the order of versions, the edges between them, the diff of two
    versions, the staleness pass, and the paged enumeration both run on, with its request gate.
  \<^item> \<open>Spans\<close>, \<open>DocSplitter\<close>, \<open>DocEntities\<close> (\<open>handler/doc\<close>, \<open>handler/excludes.go\<close>,
    \<open>internal/gitboundary\<close>): splitting a document into passages by byte spans, its entities and
    bodies, the walk over the roots.
  \<^item> \<open>FileStore\<close> (\<open>storage/filestore\<close>): the body store over a disk whose system calls may fail.
  \<^item> \<open>ObjectSource\<close> (\<open>handler/objectstore\<close>, \<open>processor/objectstore-source\<close>, the listing of
    \<open>storage/s3store\<close>): planning, ingesting and retracting the documents of a bucket.
  \<^item> \<open>SourceStatus\<close> (\<open>processor/source-manifest/status.go\<close>, \<open>internal/sourcestatus\<close>,
    \<open>internal/seedsup\<close>, \<open>internal/seedloss\<close>, \<open>internal/degraded\<close>), \<open>Workbench\<close> (the readiness, the
    capabilities and the predicate schema of the same component).
  \<^item> \<open>Workspace\<close>, \<open>Submodules\<close>, \<open>BranchWatch\<close> (\<open>workspace\<close>): git commands and their credentials,
    the inventory of submodules, the set of watched branches.
  \<^item> \<open>SourceConfig\<close> (\<open>config\<close>, \<open>internal/sourceallow\<close>), \<open>SourceSpawn\<close> (\<open>internal/sourcespawn\<close>),
    \<open>SourceIngest\<close> (the add and remove requests of \<open>processor/source-manifest\<close>), \<open>SubWatch\<close>
    (\<open>internal/subwatch\<close>).
  \<^item> \<open>EntityPub\<close> (\<open>internal/entitypub\<close>, \<open>handler/entity_state.go\<close>, \<open>graph/event_payload.go\<close>,
    \<open>source/ontology\<close>): the publish boundary, the class stamp, delivery with retries, the drain loop and
    its shutdown as an interleaving step relation.
  \<^item> \<open>CodeEntities\<close> (\<open>entities.go\<close>, \<open>predicates.go\<close>, \<open>testpath.go\<close>, \<open>hierarchy.go\<close>, \<open>registry.go\<close>
    and the text half of \<open>doccomment.go\<close> of \<open>source/ast\<close>): what a language parser hands on, its
    identifiers, triples and states, the tree of folders, the registry of parsers.

  \<^bold>\<open>How the state corresponds.\<close> A Go struct is a record and a Go map an association list without
  duplicate keys; where the source ranges over a map the visiting order is a parameter with the law
  \<open>go_visit\<close>, or the result is shown not to depend on it. Slices are lists, strings lists of bytes,
  errors values of a sum type, and a loop that the source does not bound is a partial function whose
  return is proved. A mutex makes an operation one step; the publisher, the request gate and the
  status feed are step relations whose interleavings are all covered.

  \<^bold>\<open>What the lemmas show.\<close> The text before each property states it. The invariants are those of the
  status server, the branch watcher, the publisher, the enumeration and the manifest; the functional
  properties say what each operation computes on every branch; the refinements relate the submodule
  walk, the lifecycle decision and the body store to what they promise; the safety properties bound
  what credentials, paths, keys and partial answers can reach. The interfaces are locales: orders that
  a sort is given, and stores of bodies; each is interpreted on the model's own definitions. The
  lemmas under a heading on departures and those named in the findings show where the code does not
  do what its comments say.

  \<^bold>\<open>Parameters and bounds.\<close> The framework (identifier rules, indexing profiles, the NATS client, the
  key-value store and its clock), git, the file tree, the Unicode tables above ASCII and the S3 client
  are arguments of the definitions that use them, with what is relied on as hypotheses. The splitter and
  the page loops are partial functions without a bound; submodules are walked to the depth the source
  gives (its constant), and time is a natural number or an integer of nanoseconds.

  \<^bold>\<open>Not modelled.\<close> The language parsers (they walk trees of grammars generated outside of the
  repository), the media sources (wrappers around external decoders), the command line, the wiring of
  components into the framework (ports, factories, metrics, logging), the registration of vocabularies,
  scripts and end-to-end tests.
\<close>

end
